(* ===== verification/Prelude.thy ===== *)
theory Prelude
  imports Main "HOL-Library.Word"
begin

text \<open>
  Shared vocabulary of the development: the machine integers of the sources, the error
  numbers of \<^verbatim>\<open>src/src/include/errno.h\<close> the modelled code returns, the
  block copies of \<^verbatim>\<open>memmove\<close> and the generic facts on lists and words that
  the component theories use.
\<close>

unbundle bit_operations_syntax

type_synonym u8 = "8 word"
type_synonym u16 = "16 word"
type_synonym u32 = "32 word"

text \<open>Addresses of structures; \<^verbatim>\<open>NULL\<close> is \<open>None\<close> where a pointer may be null.\<close>

type_synonym addr = nat

named_theorems word_nat \<open>unsigned words read as natural numbers, side conditions decided by arithmetic\<close>

section \<open>Error numbers\<close>

text \<open>
  The kernel returns an error as a negated error number, so the constants below are the
  positive numbers of the header and the code's \<^verbatim>\<open>-EINTR\<close> is \<open>- EINTR\<close>.
\<close>

definition EPERM :: int where "EPERM = 1"
definition ENOENT :: int where "ENOENT = 2"
definition EINTR :: int where "EINTR = 4"
definition EIO :: int where "EIO = 5"
definition EBADF :: int where "EBADF = 9"
definition EAGAIN :: int where "EAGAIN = 11"
definition ENOMEM :: int where "ENOMEM = 12"
definition EACCES :: int where "EACCES = 13"
definition EFAULT :: int where "EFAULT = 14"
definition EBUSY :: int where "EBUSY = 16"
definition EINVAL :: int where "EINVAL = 22"
definition ENFILE :: int where "ENFILE = 23"
definition EMFILE :: int where "EMFILE = 24"
definition EPIPE :: int where "EPIPE = 32"
definition ETIMEOUT :: int where "ETIMEOUT = 70"

lemmas errno_defs = EPERM_def ENOENT_def EINTR_def EIO_def EBADF_def EAGAIN_def ENOMEM_def
  EACCES_def EFAULT_def EBUSY_def EINVAL_def ENFILE_def EMFILE_def EPIPE_def ETIMEOUT_def

section \<open>Words\<close>

lemma unat_add_lt [word_nat]:
  fixes a b :: u32
  shows "unat a + unat b < 2 ^ 32 \<Longrightarrow> unat (a + b) = unat a + unat b"
  by (simp add: unat_word_ariths)

lemma unat_sub_le [word_nat]:
  fixes a b :: u32
  shows "unat b \<le> unat a \<Longrightarrow> unat (a - b) = unat a - unat b"
  by (simp add: unat_sub word_le_nat_alt)

lemma unat_of_nat_u32 [word_nat]: "n < 2 ^ 32 \<Longrightarrow> unat (of_nat n :: u32) = n"
  by (simp add: unsigned_of_nat take_bit_nat_eq_self)

lemma unat_pred_less: "(k :: u32) \<noteq> 0 \<Longrightarrow> unat (k - 1) < unat k"
  by (simp add: unat_sub word_le_nat_alt unat_gt_0 Suc_le_eq)

lemma u32_eq_iff [word_nat]: "(a :: u32) = b \<longleftrightarrow> unat a = unat b"
  by (simp add: word_unat_eq_iff)

lemma unat_u32_lt: "unat (a :: u32) < 2 ^ 32"
  using unsigned_less [of a] by simp

section \<open>Block copies\<close>

text \<open>
  \<open>memmove d s n xs\<close> is the array \<open>xs\<close> after the \<open>n\<close> elements from index \<open>s\<close> on have
  been copied to index \<open>d\<close>; source and target may overlap.
\<close>

definition memmove :: "nat \<Rightarrow> nat \<Rightarrow> nat \<Rightarrow> 'a list \<Rightarrow> 'a list" where
  "memmove d s n xs = take d xs @ take n (drop s xs) @ drop (d + n) xs"

lemma length_memmove: "d + n \<le> length xs \<Longrightarrow> s + n \<le> length xs \<Longrightarrow> length (memmove d s n xs) = length xs"
  by (simp add: memmove_def)

lemma take_memmove: "k \<le> d \<Longrightarrow> d \<le> length xs \<Longrightarrow> take k (memmove d s n xs) = take k xs"
  by (simp add: memmove_def)

section \<open>Lists\<close>

lemma split_at: "i < length xs \<Longrightarrow> xs = take i xs @ xs ! i # drop (Suc i) xs"
  by (rule id_take_nth_drop)

lemma list_update_split:
  "i < length xs \<Longrightarrow> xs[i := v] = take i xs @ v # drop (Suc i) xs"
  by (rule upd_conv_take_nth_drop)

end
