(* ===== verification/Linked_List.thy ===== *)
theory Linked_List
  imports Prelude
begin

text \<open>
  Linked lists as the kernel keeps them: every element carries its own links, and a pair of
  variables holds the first and the last element. A store of links is a function from
  addresses to the address stored there, \<open>None\<close> for \<^verbatim>\<open>NULL\<close>.
  \<open>dlist\<close> relates a doubly linked list to the list of its elements, \<open>slist\<close> a singly
  linked queue, and \<open>ring\<close> a circular list with a head. The lemmas say what the
  link updates of insertion and removal do to the list; they state the updates by their
  effect on the links of the elements, so that they apply to links kept in any record.
\<close>

definition first :: "'a list \<Rightarrow> 'a option" where
  "first xs = (case xs of [] \<Rightarrow> None | x # _ \<Rightarrow> Some x)"

definition final :: "'a list \<Rightarrow> 'a option" where
  "final xs = (if xs = [] then None else Some (last xs))"

fun dseg :: "('a \<Rightarrow> 'a option) \<Rightarrow> ('a \<Rightarrow> 'a option) \<Rightarrow> 'a option \<Rightarrow> 'a list \<Rightarrow> 'a option \<Rightarrow> bool" where
  "dseg nx pv p [] q = True"
| "dseg nx pv p (x # xs) q = (pv x = p \<and> nx x = (case first xs of None \<Rightarrow> q | Some y \<Rightarrow> Some y) \<and> dseg nx pv (Some x) xs q)"

definition dlist :: "('a \<Rightarrow> 'a option) \<Rightarrow> ('a \<Rightarrow> 'a option) \<Rightarrow> 'a option \<Rightarrow> 'a option \<Rightarrow> 'a list \<Rightarrow> bool" where
  "dlist nx pv h t xs \<longleftrightarrow> h = first xs \<and> t = final xs \<and> distinct xs \<and> dseg nx pv None xs None"

fun sseg :: "('a \<Rightarrow> 'a option) \<Rightarrow> 'a list \<Rightarrow> bool" where
  "sseg nx [] = True"
| "sseg nx (x # xs) = (nx x = first xs \<and> sseg nx xs)"

definition slist :: "('a \<Rightarrow> 'a option) \<Rightarrow> 'a option \<Rightarrow> 'a option \<Rightarrow> 'a list \<Rightarrow> bool" where
  "slist nx h t xs \<longleftrightarrow> h = first xs \<and> t = final xs \<and> distinct xs \<and> sseg nx xs"

lemma first_simps [simp]:
  "first [] = None" "first (x # xs) = Some x" "first xs = None \<longleftrightarrow> xs = []" "None = first xs \<longleftrightarrow> xs = []"
  "first (x # xs) = Some x" "first xs = Some y \<Longrightarrow> y \<in> set xs"
  by (auto simp: first_def split: list.splits)

lemma final_simps [simp]:
  "final [] = None" "final (xs @ [x]) = Some x" "final xs = None \<longleftrightarrow> xs = []" "None = final xs \<longleftrightarrow> xs = []"
  "final [x] = Some x" "final (x # y # ys) = final (y # ys)"
  by (auto simp: final_def)

lemma first_append: "first (xs @ ys) = (case first xs of None \<Rightarrow> first ys | Some x \<Rightarrow> Some x)"
  by (cases xs) simp_all

lemma final_append: "final (xs @ ys) = (case final ys of None \<Rightarrow> final xs | Some y \<Rightarrow> Some y)"
  by (simp add: final_def)

lemma final_Cons: "final (x # xs) = (case final xs of None \<Rightarrow> Some x | Some y \<Rightarrow> Some y)"
  by (simp add: final_def)

lemma final_SomeD: "final xs = Some y \<Longrightarrow> \<exists>zs. xs = zs @ [y]"
  by (metis append_butlast_last_id final_def option.distinct(1) option.inject)

lemma first_SomeD: "first xs = Some y \<Longrightarrow> \<exists>zs. xs = y # zs"
  by (cases xs) simp_all

lemma final_in_set: "final xs = Some y \<Longrightarrow> y \<in> set xs"
  by (auto dest: final_SomeD)

lemma dseg_append:
  "dseg nx pv p (xs @ ys) q \<longleftrightarrow>
     dseg nx pv p xs (case first ys of None \<Rightarrow> q | Some y \<Rightarrow> Some y) \<and>
     dseg nx pv (case final xs of None \<Rightarrow> p | Some x \<Rightarrow> Some x) ys q"
proof (induction xs arbitrary: p)
  case (Cons x xs)
  then show ?case by (simp add: final_Cons first_append split: option.splits)
qed (simp split: option.splits)

lemma dseg_cong:
  "\<forall>x \<in> set xs. nx' x = nx x \<and> pv' x = pv x \<Longrightarrow> dseg nx' pv' p xs q = dseg nx pv p xs q"
  by (induction xs arbitrary: p) simp_all

lemma dlist_cong:
  "dlist nx pv h t xs \<Longrightarrow> \<forall>x \<in> set xs. nx' x = nx x \<and> pv' x = pv x \<Longrightarrow> dlist nx' pv' h t xs"
  using dseg_cong [of xs nx' nx pv' pv] by (simp add: dlist_def)

lemma dlist_Nil: "dlist nx pv None None []"
  by (simp add: dlist_def)

lemma dlist_fields:
  "dlist nx pv h t xs \<Longrightarrow> h = first xs" "dlist nx pv h t xs \<Longrightarrow> t = final xs"
  "dlist nx pv h t xs \<Longrightarrow> distinct xs"
  by (simp_all add: dlist_def)

lemma dlist_next:
  assumes "dlist nx pv h t (xs @ x # ys)"
  shows "nx x = first ys" and "pv x = final xs"
  using assms by (cases ys; cases "final xs"; simp add: dlist_def dseg_append)+

text \<open>Insertion at the head, insertion at the tail, and removal.\<close>

lemma dlist_push:
  assumes "dlist nx pv h t xs" and "x \<notin> set xs" and "nx' x = h" and "pv' x = None"
    and "\<And>y. y \<in> set xs \<Longrightarrow> nx' y = nx y"
    and "\<And>y. y \<in> set xs \<Longrightarrow> pv' y = (if h = Some y then Some x else pv y)"
  shows "dlist nx' pv' (Some x) (if xs = [] then Some x else t) (x # xs)"
proof (cases xs)
  case Nil
  with assms show ?thesis by (simp add: dlist_def)
next
  case (Cons y ys)
  then have "dseg nx' pv' (Some y) ys None = dseg nx pv (Some y) ys None"
    using assms(1,5,6) by (intro dseg_cong) (auto simp: dlist_def)
  then show ?thesis using assms Cons by (auto simp: dlist_def final_def)
qed

lemma dlist_append:
  assumes "dlist nx pv h t xs" and "x \<notin> set xs" and "nx' x = None" and "pv' x = t"
    and "\<And>y. y \<in> set xs \<Longrightarrow> nx' y = (if t = Some y then Some x else nx y)"
    and "\<And>y. y \<in> set xs \<Longrightarrow> pv' y = pv y"
  shows "dlist nx' pv' (if xs = [] then Some x else h) (Some x) (xs @ [x])"
proof (cases xs rule: rev_cases)
  case Nil
  with assms show ?thesis by (simp add: dlist_def)
next
  case (snoc ys y)
  then have "dseg nx' pv' None ys (Some y) = dseg nx pv None ys (Some y)"
    using assms(1,5,6) by (intro dseg_cong) (auto simp: dlist_def)
  then show ?thesis using assms snoc by (auto simp: dlist_def dseg_append first_append final_def split: option.splits)
qed

lemma dlist_remove:
  assumes "dlist nx pv h t (xs @ x # ys)"
    and "\<And>y. y \<in> set (xs @ ys) \<Longrightarrow> nx' y = (if pv x = Some y then nx x else nx y)"
    and "\<And>y. y \<in> set (xs @ ys) \<Longrightarrow> pv' y = (if nx x = Some y then pv x else pv y)"
  shows "dlist nx' pv' (if h = Some x then nx x else h) (if t = Some x then pv x else t) (xs @ ys)"
proof -
  note lk = dlist_next [OF assms(1)]
  have d: "distinct (xs @ x # ys)" using assms(1) by (simp add: dlist_def)
  have "dseg nx' pv' None xs (first ys)"
  proof (cases xs rule: rev_cases)
    case (snoc zs z)
    have "dseg nx' pv' None zs (Some z) = dseg nx pv None zs (Some z)"
    proof (rule dseg_cong, rule ballI)
      fix y assume "y \<in> set zs"
      then show "nx' y = nx y \<and> pv' y = pv y" using assms(2) [of y] assms(3) [of y] d snoc lk
        by (auto dest: first_SomeD)
    qed
    moreover have "nx' z = first ys" using snoc lk assms(2) [of z] by simp
    moreover have "pv' z = pv z" using snoc lk assms(3) [of z] d by (auto dest: first_SomeD)
    ultimately show ?thesis using assms(1) snoc
      by (auto simp: dlist_def dseg_append split: option.splits)
  qed simp
  moreover have "dseg nx' pv' (final xs) ys None"
  proof (cases ys)
    case (Cons z zs)
    have "dseg nx' pv' (Some z) zs None = dseg nx pv (Some z) zs None"
    proof (rule dseg_cong, rule ballI)
      fix y assume "y \<in> set zs"
      then show "nx' y = nx y \<and> pv' y = pv y" using assms(2) [of y] assms(3) [of y] d Cons lk
        by (auto dest: final_SomeD)
    qed
    moreover have "pv' z = final xs" using Cons lk assms(3) [of z] by simp
    moreover have "nx' z = nx z" using Cons lk assms(2) [of z] d by (auto dest: final_SomeD)
    ultimately show ?thesis using assms(1) Cons by (auto simp: dlist_def dseg_append)
  qed simp
  ultimately have "dseg nx' pv' None (xs @ ys) None"
    by (cases "first ys"; cases "final xs") (simp_all add: dseg_append)
  moreover have "(if h = Some x then nx x else h) = first (xs @ ys)"
    using assms(1) lk d by (cases xs) (auto simp: dlist_def)
  moreover have "(if t = Some x then pv x else t) = final (xs @ ys)"
    using assms(1) lk d by (cases ys rule: rev_cases) (auto simp: dlist_def final_append final_Cons split: option.splits)
  ultimately show ?thesis using d by (simp add: dlist_def)
qed

section \<open>Singly linked queues\<close>

lemma sseg_cong: "\<forall>x \<in> set xs. nx' x = nx x \<Longrightarrow> sseg nx' xs = sseg nx xs"
  by (induction xs) simp_all

lemma slist_cong: "slist nx h t xs \<Longrightarrow> \<forall>x \<in> set xs. nx' x = nx x \<Longrightarrow> slist nx' h t xs"
  using sseg_cong [of xs nx' nx] by (simp add: slist_def)

lemma sseg_snoc:
  "sseg nx xs \<Longrightarrow> distinct (xs @ [x]) \<Longrightarrow> nx' x = None \<Longrightarrow>
   (\<And>y. y \<in> set xs \<Longrightarrow> nx' y = (if final xs = Some y then Some x else nx y)) \<Longrightarrow> sseg nx' (xs @ [x])"
proof (induction xs)
  case (Cons y ys)
  have "sseg nx' (ys @ [x])"
  proof (rule Cons.IH)
    fix z assume "z \<in> set ys"
    then show "nx' z = (if final ys = Some z then Some x else nx z)"
      using Cons.prems(4) [of z] by (auto simp: final_Cons split: option.splits if_splits)
  qed (use Cons.prems in auto)
  moreover have "nx' y = first (ys @ [x])"
    using Cons.prems(1,2) Cons.prems(4) [of y]
    by (cases ys) (auto simp: final_Cons split: option.splits dest: final_in_set)
  ultimately show ?case by simp
qed simp

lemma slist_append:
  assumes "slist nx h t xs" and "x \<notin> set xs" and "nx' x = None"
    and "\<And>y. y \<in> set xs \<Longrightarrow> nx' y = (if t = Some y then Some x else nx y)"
  shows "slist nx' (if h = None then Some x else h) (Some x) (xs @ [x])"
  using assms sseg_snoc [of nx xs x nx'] by (auto simp: slist_def first_append split: option.splits)

lemma slist_pop:
  "slist nx h t (x # xs) \<Longrightarrow> slist nx (nx x) (if t = Some x then None else t) xs"
  by (auto simp: slist_def final_Cons split: option.splits dest: final_in_set)

end
