(* ===== verification/Pframe.thy ===== *)
theory Pframe
  imports Linked_List
begin

text \<open>
  The page frame database: \<^verbatim>\<open>src/src/sys/krnl/pframe.c\<close>. Every frame of physical memory has an entry with a tag and a word that is, as the
  union in the code, the link of the list of free frames, the size or bucket of a kernel allocation, or the owner of a mapped page. A pointer to
  an entry is its address, 8 bytes per entry from \<^verbatim>\<open>PFDBBASE\<close> on, and 0 is \<^verbatim>\<open>NULL\<close>. A call that ends in \<^verbatim>\<open>panic\<close> or that follows a
  null pointer has no result.
\<close>

unbundle bit_operations_syntax

definition PFDBBASE :: u32 where "PFDBBASE = 0x90800000"

definition TAG_FREE :: u32 where "TAG_FREE = 0x46524545"
definition TAG_BAD :: u32 where "TAG_BAD = 0x424144"
definition TAG_RESV :: u32 where "TAG_RESV = 0x52455356"
definition TAG_PTAB :: u32 where "TAG_PTAB = 0x50544142"

record pageframe =
  pf_tag :: u32
  pf_word :: u32

record pframe_state =
  pfdb :: "nat \<Rightarrow> pageframe"
  freelist :: u32
  freemem :: u32
  totalmem :: u32
  maxmem :: u32

definition frame_ptr :: "nat \<Rightarrow> u32" where
  "frame_ptr k = PFDBBASE + of_nat (8 * k)"

definition frame_index :: "u32 \<Rightarrow> nat" where
  "frame_index p = unat (p - PFDBBASE) div 8"

section \<open>Single frames\<close>

definition alloc_pageframe :: "u32 \<Rightarrow> 'a pframe_state_scheme \<Rightarrow> (u32 \<times> 'a pframe_state_scheme) option" where
  "alloc_pageframe tag s =
     (if freemem s = 0 \<or> freelist s = 0 then None
      else let k = frame_index (freelist s)
           in Some (of_nat k, s\<lparr>freelist := pf_word (pfdb s k), freemem := freemem s - 1,
                              pfdb := (pfdb s)(k := \<lparr>pf_tag = tag, pf_word = 0\<rparr>)\<rparr>))"

definition free_pageframe :: "u32 \<Rightarrow> 'a pframe_state_scheme \<Rightarrow> 'a pframe_state_scheme" where
  "free_pageframe pfn s =
     s\<lparr>pfdb := (pfdb s)(unat pfn := \<lparr>pf_tag = TAG_FREE, pf_word = freelist s\<rparr>), freelist := frame_ptr (unat pfn), freemem := freemem s + 1\<rparr>"

section \<open>Runs of frames\<close>

function run_loop :: "(nat \<Rightarrow> pageframe) \<Rightarrow> nat \<Rightarrow> int \<Rightarrow> nat \<Rightarrow> nat" where
  "run_loop db k pages n =
     (if int n < pages then
        if pf_tag (db (k + n)) \<noteq> TAG_FREE then n
        else if n \<noteq> 0 \<and> pf_word (db (k + n - 1)) \<noteq> frame_ptr (k + n) then n
        else run_loop db k pages (n + 1)
      else n)"
  by pat_completeness auto
termination
  by (relation "measure (\<lambda>(db, k, pages, n). nat (pages - int n))") auto

fun claim_loop :: "nat \<Rightarrow> nat \<Rightarrow> u32 \<Rightarrow> (nat \<Rightarrow> pageframe) \<Rightarrow> nat \<Rightarrow> pageframe" where
  "claim_loop k 0 tag db = db"
| "claim_loop k (Suc n) tag db = claim_loop (k + 1) n tag (db(k := \<lparr>pf_tag = tag, pf_word = 0\<rparr>))"

definition claim_run :: "int \<Rightarrow> u32 \<Rightarrow> u32 \<Rightarrow> nat \<Rightarrow> 'a pframe_state_scheme \<Rightarrow> (u32 \<times> 'a pframe_state_scheme) option" where
  "claim_run pages tag prevpf k s =
     (if int k + pages < 1 then None
      else let rest = pf_word (pfdb s (nat (int k + pages - 1)));
               s1 = (if prevpf \<noteq> 0 then s\<lparr>pfdb := (pfdb s)(frame_index prevpf := (pfdb s (frame_index prevpf))\<lparr>pf_word := rest\<rparr>)\<rparr>
                     else s\<lparr>freelist := rest\<rparr>)
           in Some (of_nat k, s1\<lparr>pfdb := claim_loop k (nat pages) tag (pfdb s1), freemem := freemem s1 - of_int pages\<rparr>))"

partial_function (option) linear_loop :: "int \<Rightarrow> u32 \<Rightarrow> u32 \<Rightarrow> u32 \<Rightarrow> 'a pframe_state_scheme \<Rightarrow> (u32 \<times> 'a pframe_state_scheme) option" where
  "linear_loop pages tag prevpf pf s =
     (if pf = 0 then Some (0xFFFFFFFF, s)
      else let k = frame_index pf
           in if int k + pages < sint (maxmem s) \<and> int (run_loop (pfdb s) k pages 0) = pages then claim_run pages tag prevpf k s
              else linear_loop pages tag pf (pf_word (pfdb s k)) s)"

definition alloc_linear_pageframes :: "int \<Rightarrow> u32 \<Rightarrow> 'a pframe_state_scheme \<Rightarrow> (u32 \<times> 'a pframe_state_scheme) option" where
  "alloc_linear_pageframes pages tag s =
     (if pages = 1 then alloc_pageframe tag s
      else if sint (freemem s) < pages then Some (0xFFFFFFFF, s)
      else linear_loop pages tag 0 (freelist s) s)"

declare run_loop.simps [simp del]

section \<open>The list of free frames\<close>

definition link :: "nat option \<Rightarrow> u32" where
  "link p = (case p of None \<Rightarrow> 0 | Some k \<Rightarrow> frame_ptr k)"

primrec linked :: "(nat \<Rightarrow> pageframe) \<Rightarrow> nat list \<Rightarrow> bool" where
  "linked db [] = True"
| "linked db (x # xs) = (pf_word (db x) = link (first xs) \<and> linked db xs)"

definition pf_rep :: "'a pframe_state_scheme \<Rightarrow> nat list \<Rightarrow> bool" where
  "pf_rep s xs \<longleftrightarrow> freelist s = link (first xs) \<and> linked (pfdb s) xs \<and> distinct xs \<and> unat (freemem s) = length xs \<and>
     unat (maxmem s) \<le> 2 ^ 20 \<and> (\<forall>k. k \<in> set xs \<longleftrightarrow> k < unat (maxmem s) \<and> pf_tag (pfdb s k) = TAG_FREE)"

lemma unat_frame_ptr: "k < 2 ^ 20 \<Longrightarrow> unat (frame_ptr k) = 0x90800000 + 8 * k"
proof -
  assume "k < 2 ^ 20"
  then have "unat (of_nat (8 * k) :: u32) = 8 * k" by (intro unat_of_nat_u32) simp
  with \<open>k < 2 ^ 20\<close> show ?thesis unfolding frame_ptr_def PFDBBASE_def by (subst unat_add_lt) simp_all
qed

lemma frame_index_ptr [simp]: "k < 2 ^ 20 \<Longrightarrow> frame_index (frame_ptr k) = k"
proof -
  assume "k < 2 ^ 20"
  then have "unat (of_nat (8 * k) :: u32) = 8 * k" by (intro unat_of_nat_u32) simp
  then show ?thesis by (simp add: frame_index_def frame_ptr_def del: of_nat_mult)
qed

lemma frame_ptr_nonzero [simp]: "k < 2 ^ 20 \<Longrightarrow> frame_ptr k \<noteq> 0"
  using unat_frame_ptr [of k] by auto

lemma frame_ptr_eq [simp]: "j < 2 ^ 20 \<Longrightarrow> k < 2 ^ 20 \<Longrightarrow> frame_ptr j = frame_ptr k \<longleftrightarrow> j = k"
  using frame_index_ptr by metis

lemma link_simps [simp]: "link None = 0" "link (Some k) = frame_ptr k"
  by (simp_all add: link_def)

lemma linked_cong: "(\<And>x. x \<in> set xs \<Longrightarrow> pf_word (db' x) = pf_word (db x)) \<Longrightarrow> linked db' xs = linked db xs"
  by (induction xs) simp_all

lemma linked_upd [simp]: "k \<notin> set xs \<Longrightarrow> linked (db(k := v)) xs = linked db xs"
  by (rule linked_cong) auto

lemma pf_repD:
  assumes "pf_rep s xs"
  shows "freelist s = link (first xs)" "linked (pfdb s) xs" "distinct xs" "unat (freemem s) = length xs" "unat (maxmem s) \<le> 2 ^ 20"
    and "k \<in> set xs \<longleftrightarrow> k < unat (maxmem s) \<and> pf_tag (pfdb s k) = TAG_FREE"
  using assms by (simp_all add: pf_rep_def)

lemma pf_repI:
  assumes "freelist s = link (first xs)" "linked (pfdb s) xs" "distinct xs" "unat (freemem s) = length xs" "unat (maxmem s) \<le> 2 ^ 20"
    and "\<And>k. k \<in> set xs \<longleftrightarrow> k < unat (maxmem s) \<and> pf_tag (pfdb s k) = TAG_FREE"
  shows "pf_rep s xs"
  using assms by (simp add: pf_rep_def)

lemma pf_rep_bound:
  assumes "pf_rep s xs" and "k \<in> set xs"
  shows "k < 2 ^ 20" and "k < unat (maxmem s)" and "pf_tag (pfdb s k) = TAG_FREE"
  using pf_repD(5) [OF assms(1)] pf_repD(6) [OF assms(1), of k] assms(2) by simp_all

lemma pf_rep_cong:
  assumes "pf_rep s xs" and "pfdb t = pfdb s" "freelist t = freelist s" "freemem t = freemem s" "maxmem t = maxmem s"
  shows "pf_rep t xs"
  using assms by (simp add: pf_rep_def)

definition take_frame :: "nat \<Rightarrow> nat list \<Rightarrow> u32 \<Rightarrow> 'a pframe_state_scheme \<Rightarrow> 'a pframe_state_scheme" where
  "take_frame k xs tag s = s\<lparr>freelist := link (first xs), freemem := freemem s - 1, pfdb := (pfdb s)(k := \<lparr>pf_tag = tag, pf_word = 0\<rparr>)\<rparr>"

lemma alloc_pageframe_spec:
  assumes "pf_rep s (k # xs)" and "tag \<noteq> TAG_FREE"
  shows "alloc_pageframe tag s = Some (of_nat k, take_frame k xs tag s)" and "pf_rep (take_frame k xs tag s) xs"
proof -
  have k: "k < 2 ^ 20" using pf_rep_bound [OF assms(1)] by simp
  have f: "unat (freemem s) = Suc (length xs)" "freelist s = frame_ptr k" "pf_word (pfdb s k) = link (first xs)"
    using assms(1) by (simp_all add: pf_rep_def)
  then have "freemem s \<noteq> 0" by auto
  with f k show "alloc_pageframe tag s = Some (of_nat k, take_frame k xs tag s)" by (simp add: alloc_pageframe_def take_frame_def)
  have "unat (freemem s - 1) = length xs" using f(1) by (subst unat_sub_le) simp_all
  moreover have "linked (pfdb s) xs" "k \<notin> set xs" "distinct xs" using pf_repD(2,3) [OF assms(1)] by simp_all
  then have "linked ((pfdb s)(k := \<lparr>pf_tag = tag, pf_word = 0\<rparr>)) xs" "k \<notin> set xs" "distinct xs" by simp_all
  moreover have "x \<in> set xs \<longleftrightarrow> x < unat (maxmem s) \<and> pf_tag (pfdb s x) = TAG_FREE" if "x \<noteq> k" for x
    using pf_repD(6) [OF assms(1), of x] that by simp
  ultimately show "pf_rep (take_frame k xs tag s) xs"
    using pf_repD(5) [OF assms(1)] assms(2) by (intro pf_repI) (simp_all add: take_frame_def)
qed

lemma alloc_pageframe_panic: "pf_rep s [] \<Longrightarrow> alloc_pageframe tag s = None"
  by (simp add: pf_rep_def alloc_pageframe_def)

lemma alloc_pageframe_cases:
  assumes "pf_rep s xs" and "tag \<noteq> TAG_FREE" and "alloc_pageframe tag s = Some (pfn, s')"
  obtains k ys where "xs = k # ys" and "pfn = of_nat k" and "unat pfn = k" and "pf_rep s' ys"
    and "s' = take_frame k ys tag s"
proof (cases xs)
  case Nil
  with assms alloc_pageframe_panic [of s tag] show ?thesis by simp
next
  case (Cons k ys)
  from alloc_pageframe_spec [OF assms(1) [unfolded Cons] assms(2)] assms(3)
  have "pfn = of_nat k" "s' = take_frame k ys tag s" "pf_rep s' ys"
    by simp_all
  moreover have "unat (of_nat k :: u32) = k" using pf_rep_bound(1) [OF assms(1), of k] Cons by (simp add: unat_of_nat_u32)
  ultimately show ?thesis using that Cons by blast
qed

lemma free_pageframe_spec:
  assumes "pf_rep s xs" and "unat pfn < unat (maxmem s)" and "unat pfn \<notin> set xs"
  shows "pf_rep (free_pageframe pfn s) (unat pfn # xs)"
proof -
  note rep = pf_repD [OF assms(1)]
  have "card (set (unat pfn # xs)) \<le> card {0..<unat (maxmem s)}"
    using assms pf_rep_bound(2) [OF assms(1)] by (intro card_mono) auto
  then have "Suc (length xs) \<le> 2 ^ 20" using assms(3) rep(3,5) by (simp add: distinct_card)
  then have "unat (freemem s + 1) = Suc (length xs)" using rep(4) by (subst unat_add_lt) simp_all
  moreover have "linked ((pfdb s)(unat pfn := \<lparr>pf_tag = TAG_FREE, pf_word = freelist s\<rparr>)) xs"
    using rep(2) assms(3) by simp
  ultimately show ?thesis using rep(1,3,5,6) assms(2,3) by (intro pf_repI) (auto simp: free_pageframe_def)
qed

section \<open>Runs in the list\<close>

lemma run_loop_full:
  "i \<le> n \<Longrightarrow> run_loop db k (int n) i = n \<longleftrightarrow>
     (\<forall>j. i \<le> j \<and> j < n \<longrightarrow> pf_tag (db (k + j)) = TAG_FREE \<and> (j \<noteq> 0 \<longrightarrow> pf_word (db (k + j - 1)) = frame_ptr (k + j)))"
proof (induction "n - i" arbitrary: i)
  case 0
  then show ?case by (auto simp: run_loop.simps)
next
  case (Suc d)
  then have i: "i < n" "d = n - Suc i" by simp_all
  let ?P = "\<lambda>j. pf_tag (db (k + j)) = TAG_FREE \<and> (j \<noteq> 0 \<longrightarrow> pf_word (db (k + j - 1)) = frame_ptr (k + j))"
  have "(\<forall>j. i \<le> j \<and> j < n \<longrightarrow> ?P j) \<longleftrightarrow> ?P i \<and> (\<forall>j. Suc i \<le> j \<and> j < n \<longrightarrow> ?P j)"
    using i(1) by (metis Suc_leD Suc_leI le_neq_implies_less order_refl)
  moreover have "run_loop db k (int n) i = n \<longleftrightarrow> ?P i \<and> run_loop db k (int n) (Suc i) = n"
    using i(1) by (subst run_loop.simps) (simp add: One_nat_def)
  ultimately show ?case using Suc.hyps(1) [OF i(2)] i(1) by simp
qed

lemma linked_run:
  assumes "linked db xs" and "first xs = Some k" and "\<And>x. x \<in> set xs \<Longrightarrow> x < 2 ^ 20" and "k + n < 2 ^ 20"
  shows "(\<forall>j < n. pf_word (db (k + j)) = frame_ptr (k + Suc j)) \<longleftrightarrow> (\<exists>vs. xs = [k..<k + Suc n] @ vs)"
  using assms
proof (induction n arbitrary: k xs)
  case 0
  then show ?case using first_SomeD by fastforce
next
  case (Suc n)
  obtain ys where xs: "xs = k # ys" using first_SomeD [OF Suc.prems(2)] by blast
  have "pf_word (db k) = frame_ptr (Suc k) \<longleftrightarrow> first ys = Some (Suc k)"
    using Suc.prems(1,3,4) xs by (cases ys) auto
  moreover have "(\<exists>vs. xs = [k..<k + Suc (Suc n)] @ vs) \<longleftrightarrow> (\<exists>vs. ys = [Suc k..<Suc k + Suc n] @ vs)"
    using xs by (simp add: upt_conv_Cons)
  moreover have "ys = [Suc k..<Suc k + Suc n] @ vs \<Longrightarrow> first ys = Some (Suc k)" for vs
    using upt_conv_Cons [of "Suc k" "Suc k + Suc n"] by (simp del: upt_Suc)
  moreover have "first ys = Some (Suc k) \<Longrightarrow>
    (\<forall>j < n. pf_word (db (Suc k + j)) = frame_ptr (Suc k + Suc j)) \<longleftrightarrow> (\<exists>vs. ys = [Suc k..<Suc k + Suc n] @ vs)"
    using Suc.IH [of ys "Suc k"] Suc.prems xs by simp
  ultimately show ?case unfolding All_less_Suc2 by auto
qed

lemma claim_loop_spec:
  "claim_loop k n tag db j = (if k \<le> j \<and> j < k + n then \<lparr>pf_tag = tag, pf_word = 0\<rparr> else db j)"
  by (induction n arbitrary: k db) auto

lemma linked_suffix: "linked db (us @ vs) \<Longrightarrow> linked db vs"
  by (induction us) auto

lemma linked_last: "linked db (ws @ vs) \<Longrightarrow> ws \<noteq> [] \<Longrightarrow> pf_word (db (last ws)) = link (first vs)"
  by (induction ws) (auto simp: first_append split: option.splits)

lemma linked_bypass:
  "linked db (us @ [p] @ vs) \<Longrightarrow> distinct (us @ [p]) \<Longrightarrow> p \<notin> set ws \<Longrightarrow> linked db ws \<Longrightarrow>
   linked (db(p := (db p)\<lparr>pf_word := link (first ws)\<rparr>)) (us @ [p] @ ws)"
proof (induction us)
  case (Cons u us)
  have "linked (db(p := (db p)\<lparr>pf_word := link (first ws)\<rparr>)) (us @ [p] @ ws)" by (rule Cons.IH) (use Cons.prems in simp_all)
  moreover have "first (us @ [p] @ vs) = first (us @ [p] @ ws)" by (simp add: first_append split: option.splits)
  ultimately show ?case using Cons.prems by (simp add: fun_upd_def)
qed simp

lemma claim_run_spec:
  assumes "pf_rep s (us @ [k..<k + n] @ vs)" and "0 < n" and "tag \<noteq> TAG_FREE" and "prevpf = link (final us)"
  shows "\<exists>s'. claim_run (int n) tag prevpf k s = Some (of_nat k, s') \<and> pf_rep s' (us @ vs) \<and> pframe_state.more s' = pframe_state.more s \<and>
    totalmem s' = totalmem s \<and> maxmem s' = maxmem s \<and>
    (\<forall>j. pf_tag (pfdb s' j) = (if k \<le> j \<and> j < k + n then tag else pf_tag (pfdb s j)))"
proof -
  note rep = pf_repD [OF assms(1)]
  let ?rest = "link (first vs)"
  have last: "pf_word (pfdb s (k + n - 1)) = ?rest"
    using linked_last [OF linked_suffix [OF rep(2)]] assms(2) by simp
  define s1 where "s1 = (if prevpf \<noteq> 0 then s\<lparr>pfdb := (pfdb s)(frame_index prevpf := (pfdb s (frame_index prevpf))\<lparr>pf_word := ?rest\<rparr>)\<rparr>
    else s\<lparr>freelist := ?rest\<rparr>)"
  have vs: "linked (pfdb s) vs" using linked_suffix [of "pfdb s" "us @ [k..<k + n]" vs] rep(2) by simp
  have s1: "linked (pfdb s1) (us @ vs) \<and> freelist s1 = link (first (us @ vs)) \<and> (\<forall>j. pf_tag (pfdb s1 j) = pf_tag (pfdb s j)) \<and>
    freemem s1 = freemem s \<and> maxmem s1 = maxmem s \<and> totalmem s1 = totalmem s \<and> pframe_state.more s1 = pframe_state.more s"
  proof (cases us rule: rev_cases)
    case Nil
    then show ?thesis using assms(4) vs by (simp add: s1_def)
  next
    case (snoc us' p)
    have p: "p < 2 ^ 20" "p \<notin> set vs" "distinct (us' @ [p])"
      using pf_rep_bound(1) [OF assms(1), of p] rep(3) snoc by simp_all
    then have "linked ((pfdb s)(p := (pfdb s p)\<lparr>pf_word := ?rest\<rparr>)) (us' @ [p] @ vs)"
      using linked_bypass [of "pfdb s" us' p "[k..<k + n] @ vs" vs] rep(2) vs snoc by simp
    moreover have "first (us' @ p # vs) = first (us @ [k..<k + n] @ vs)" using snoc by (simp add: first_append split: option.splits)
    ultimately show ?thesis using p snoc assms(4) rep(1) by (simp add: s1_def)
  qed
  define s' where "s' = s1\<lparr>pfdb := claim_loop k n tag (pfdb s1), freemem := freemem s1 - of_nat n\<rparr>"
  have "nat (int k + int n - 1) = k + n - 1" by simp
  then have "claim_run (int n) tag prevpf k s = Some (of_nat k, s')"
    using last assms(2) unfolding claim_run_def by (simp only: Let_def) (simp add: s'_def s1_def)
  moreover have tags: "pf_tag (pfdb s' j) = (if k \<le> j \<and> j < k + n then tag else pf_tag (pfdb s j))" for j
    using s1 by (simp add: s'_def claim_loop_spec)
  moreover have "pf_rep s' (us @ vs)"
  proof (rule pf_repI)
    have len: "unat (freemem s) = length us + n + length vs" using rep(4) by simp
    moreover have "unat (of_nat n :: u32) = n" using len unat_u32_lt [of "freemem s"] by (intro unat_of_nat_u32) simp
    ultimately show "unat (freemem s') = length (us @ vs)" using s1 by (simp add: s'_def unat_sub_le)
    show "linked (pfdb s') (us @ vs)"
      using s1 rep(3) linked_cong [of "us @ vs" "pfdb s'" "pfdb s1"] by (simp add: s'_def claim_loop_spec) fastforce
    show "x \<in> set (us @ vs) \<longleftrightarrow> x < unat (maxmem s') \<and> pf_tag (pfdb s' x) = TAG_FREE" for x
    proof (cases "k \<le> x \<and> x < k + n")
      case True
      then have "x \<notin> set (us @ vs)" using rep(3) by auto
      then show ?thesis using tags [of x] True assms(3) by simp
    next
      case False
      then show ?thesis using tags [of x] rep(6) [of x] s1 by (auto simp: s'_def)
    qed
    show "distinct (us @ vs)" using rep(3) by auto
  qed (use s1 rep(5) in \<open>simp_all add: s'_def\<close>)
  moreover have "pframe_state.more s' = pframe_state.more s \<and> totalmem s' = totalmem s \<and> maxmem s' = maxmem s" using s1 by (simp add: s'_def)
  ultimately show ?thesis by blast
qed

lemma run_loop_run:
  assumes "linked db xs" and "first xs = Some k" and "\<And>x. x \<in> set xs \<Longrightarrow> x < 2 ^ 20 \<and> pf_tag (db x) = TAG_FREE" and "k + n \<le> 2 ^ 20" and "0 < n"
  shows "run_loop db k (int n) 0 = n \<longleftrightarrow> (\<exists>vs. xs = [k..<k + n] @ vs)"
proof -
  obtain m where n: "n = Suc m" using assms(5) by (cases n) simp_all
  have run: "(\<forall>j < m. pf_word (db (k + j)) = frame_ptr (k + Suc j)) \<longleftrightarrow> (\<exists>vs. xs = [k..<k + n] @ vs)"
    using linked_run [OF assms(1,2), of m] assms(3,4) n by simp
  have "run_loop db k (int n) 0 = n \<longleftrightarrow> (\<forall>j < n. pf_tag (db (k + j)) = TAG_FREE) \<and> (\<forall>j < m. pf_word (db (k + j)) = frame_ptr (k + Suc j))"
  proof -
    have "run_loop db k (int n) 0 = n \<longleftrightarrow> (\<forall>j < n. pf_tag (db (k + j)) = TAG_FREE) \<and> (\<forall>j < n. j \<noteq> 0 \<longrightarrow> pf_word (db (k + j - 1)) = frame_ptr (k + j))"
      using run_loop_full [of 0 n db k] by (simp add: imp_conjR all_conj_distrib)
    moreover have "(\<forall>j < n. j \<noteq> 0 \<longrightarrow> pf_word (db (k + j - 1)) = frame_ptr (k + j)) \<longleftrightarrow> (\<forall>j < m. pf_word (db (k + j)) = frame_ptr (k + Suc j))"
      unfolding n All_less_Suc2 by simp
    ultimately show ?thesis by simp
  qed
  moreover have "\<exists>vs. xs = [k..<k + n] @ vs \<Longrightarrow> \<forall>j < n. pf_tag (db (k + j)) = TAG_FREE" using assms(3) by auto
  ultimately show ?thesis using run by blast
qed

definition has_run :: "u32 \<Rightarrow> nat \<Rightarrow> nat list \<Rightarrow> bool" where
  "has_run lim n xs \<longleftrightarrow> (\<exists>us k vs. xs = us @ [k..<k + n] @ vs \<and> k + n < unat lim)"

lemma has_runI: "xs = us @ [k..<k + n] @ vs \<Longrightarrow> k + n < unat lim \<Longrightarrow> has_run lim n xs"
  unfolding has_run_def by blast

text \<open>No run that fits starts before the frames \<open>us\<close> of the list are passed.\<close>

definition first_run :: "u32 \<Rightarrow> nat \<Rightarrow> nat list \<Rightarrow> nat list \<Rightarrow> bool" where
  "first_run lim n us xs \<longleftrightarrow> (\<forall>us' k' vs'. xs = us' @ [k'..<k' + n] @ vs' \<and> k' + n < unat lim \<longrightarrow> length us \<le> length us')"

lemma run_Cons:
  assumes "w # ws = us @ [k..<k + n] @ vs" and "0 < n"
  shows "(\<exists>vs. w # ws = [w..<w + n] @ vs) \<and> k = w \<and> us = [] \<or> (\<exists>us'. us = w # us' \<and> ws = us' @ [k..<k + n] @ vs)"
proof (cases us)
  case Nil
  then have "k = w" using assms by (simp add: upt_conv_Cons)
  with Nil assms(1) show ?thesis by auto
qed (use assms(1) in auto)

lemma sint_small: "unat (x :: u32) \<le> 2 ^ 20 \<Longrightarrow> sint x = int (unat x)"
proof -
  assume "unat x \<le> 2 ^ 20"
  then have "unat x \<le> 1048576" by simp
  then have "int (unat x) \<le> 1048576" by linarith
  moreover have "- (2 ^ 31) \<le> uint x" by (rule order_trans [OF _ uint_nonnegative]) simp
  ultimately have "signed_take_bit 31 (uint x) = uint x" by (intro signed_take_bit_int_eq_self) simp_all
  then show ?thesis by (simp add: sint_uint)
qed

lemma pf_rep_length: "pf_rep s xs \<Longrightarrow> length xs \<le> unat (maxmem s)"
proof -
  assume a: "pf_rep s xs"
  have "card (set xs) \<le> card {0..<unat (maxmem s)}" using pf_rep_bound(2) [OF a] by (intro card_mono) auto
  then show ?thesis using pf_repD(3) [OF a] by (simp add: distinct_card)
qed

lemma sint_maxmem: "pf_rep s xs \<Longrightarrow> sint (maxmem s) = int (unat (maxmem s))" "pf_rep s xs \<Longrightarrow> sint (freemem s) = int (length xs)"
  using sint_small [of "maxmem s"] sint_small [of "freemem s"] pf_repD(4,5) [of s xs] pf_rep_length [of s xs] by simp_all

lemma linear_loop_spec:
  assumes "pf_rep s (us @ ws)" and "0 < n" and "tag \<noteq> TAG_FREE" and "prevpf = link (final us)" and "pf = link (first ws)"
  shows "linear_loop (int n) tag prevpf pf s = Some (0xFFFFFFFF, s) \<and> \<not> has_run (maxmem s) n ws \<or>
    (\<exists>zs k vs s'. ws = zs @ [k..<k + n] @ vs \<and> k + n < unat (maxmem s) \<and> linear_loop (int n) tag prevpf pf s = Some (of_nat k, s') \<and>
      pf_rep s' (us @ zs @ vs) \<and> pframe_state.more s' = pframe_state.more s \<and> totalmem s' = totalmem s \<and> maxmem s' = maxmem s \<and>
      (\<forall>j. pf_tag (pfdb s' j) = (if k \<le> j \<and> j < k + n then tag else pf_tag (pfdb s j))) \<and> first_run (maxmem s) n zs ws)"
  using assms
proof (induction ws arbitrary: us prevpf pf)
  case Nil
  then show ?case using assms(2) by (subst linear_loop.simps) (simp add: has_run_def)
next
  case (Cons w ws)
  have w: "w < 2 ^ 20" using pf_rep_bound(1) [OF Cons.prems(1)] by simp
  have pf: "pf = frame_ptr w" using Cons.prems(5) by simp
  have lnk: "linked (pfdb s) (w # ws)" using linked_suffix pf_repD(2) [OF Cons.prems(1)] by blast
  define here where "here \<longleftrightarrow> (\<exists>vs. w # ws = [w..<w + n] @ vs) \<and> w + n < unat (maxmem s)"
  have run: "(int w + int n < sint (maxmem s) \<and> int (run_loop (pfdb s) w (int n) 0) = int n) \<longleftrightarrow> here"
  proof -
    have lim: "int w + int n < sint (maxmem s) \<longleftrightarrow> w + n < unat (maxmem s)"
      unfolding sint_maxmem(1) [OF Cons.prems(1)] by (simp only: of_nat_add [symmetric] of_nat_less_iff)
    have el: "x \<in> set (w # ws) \<Longrightarrow> x < 2 ^ 20 \<and> pf_tag (pfdb s x) = TAG_FREE" for x
      using pf_rep_bound(1,3) [OF Cons.prems(1), of x] by auto
    have "run_loop (pfdb s) w (int n) 0 = n \<longleftrightarrow> (\<exists>vs. w # ws = [w..<w + n] @ vs)" if "w + n < unat (maxmem s)"
      using run_loop_run [OF lnk _ el, of w n] that pf_repD(5) [OF Cons.prems(1)] assms(2) by simp
    with lim show ?thesis unfolding here_def of_nat_eq_iff by blast
  qed
  show ?case
  proof (cases here)
    case True
    then obtain vs where vs: "w # ws = [w..<w + n] @ vs" "w + n < unat (maxmem s)" by (auto simp: here_def)
    have "linear_loop (int n) tag prevpf pf s = claim_run (int n) tag prevpf w s"
      using run True w pf by (subst linear_loop.simps) simp
    moreover have "first_run (maxmem s) n [] (w # ws)" by (simp add: first_run_def)
    ultimately show ?thesis using claim_run_spec [of s us w n vs tag prevpf] Cons.prems vs by (metis append_Nil)
  next
    case False
    have step: "linear_loop (int n) tag prevpf pf s = linear_loop (int n) tag (frame_ptr w) (link (first ws)) s"
      using run False w pf lnk by (subst linear_loop.simps) auto
    have "pf_rep s ((us @ [w]) @ ws)" using Cons.prems(1) by simp
    note IH = Cons.IH [OF this assms(2,3) _ refl, of "frame_ptr w"]
    show ?thesis
    proof (cases "has_run (maxmem s) n ws")
      case True
      then obtain zs k vs s' where "ws = zs @ [k..<k + n] @ vs" "k + n < unat (maxmem s)" "linear_loop (int n) tag prevpf pf s = Some (of_nat k, s')"
        "pf_rep s' ((us @ [w]) @ zs @ vs)" "pframe_state.more s' = pframe_state.more s" "totalmem s' = totalmem s" "maxmem s' = maxmem s"
        "\<forall>j. pf_tag (pfdb s' j) = (if k \<le> j \<and> j < k + n then tag else pf_tag (pfdb s j))" "first_run (maxmem s) n zs ws"
        using IH unfolding step by auto
      moreover have "first_run (maxmem s) n (w # zs) (w # ws)" unfolding first_run_def
      proof (intro allI impI, elim conjE)
        fix us' k' vs' assume d: "w # ws = us' @ [k'..<k' + n] @ vs'" "k' + n < unat (maxmem s)"
        then obtain us2 where "us' = w # us2" "ws = us2 @ [k'..<k' + n] @ vs'" using run_Cons [OF d(1) assms(2)] False unfolding here_def by blast
        then show "length (w # zs) \<le> length us'" using \<open>first_run (maxmem s) n zs ws\<close> d(2) unfolding first_run_def by auto
      qed
      ultimately show ?thesis by (intro disjI2 exI [of _ "w # zs"] exI [of _ k] exI [of _ vs] exI [of _ s']) simp
    next
      case none: False
      then have "\<not> has_run (maxmem s) n (w # ws)" using False run_Cons [OF _ assms(2), of w ws] unfolding has_run_def here_def by blast
      moreover have "linear_loop (int n) tag (frame_ptr w) (link (first ws)) s = Some (0xFFFFFFFF, s)"
        using IH none has_runI [of ws] by (simp add: final_append) blast
      ultimately show ?thesis unfolding step by blast
    qed
  qed
qed
section \<open>The boot-time list\<close>

text \<open>The loop at the end of \<^verbatim>\<open>init_pfdb\<close> walks the database from the last entry down to the first.\<close>

fun build_freelist :: "nat \<Rightarrow> 'a pframe_state_scheme \<Rightarrow> 'a pframe_state_scheme" where
  "build_freelist 0 s = s"
| "build_freelist (Suc k) s = build_freelist k
     (if pf_tag (pfdb s k) = TAG_FREE
      then s\<lparr>pfdb := (pfdb s)(k := (pfdb s k)\<lparr>pf_word := freelist s\<rparr>), freelist := frame_ptr k, freemem := freemem s + 1\<rparr> else s)"

fun mark_frames :: "nat \<Rightarrow> nat \<Rightarrow> u32 \<Rightarrow> (nat \<Rightarrow> pageframe) \<Rightarrow> nat \<Rightarrow> pageframe" where
  "mark_frames j 0 tag db = db"
| "mark_frames j (Suc n) tag db = mark_frames (j + 1) n tag (db(j := (db j)\<lparr>pf_tag := tag\<rparr>))"

lemma mark_frames_spec: "mark_frames j n tag db k = (if j \<le> k \<and> k < j + n then (db k)\<lparr>pf_tag := tag\<rparr> else db k)"
  by (induction n arbitrary: j db) auto

lemma build_freelist_spec:
  assumes "freelist s = link (first ys)" and "linked (pfdb s) ys" and "unat (freemem s) = length ys"
    and "ys = filter (\<lambda>j. pf_tag (pfdb s j) = TAG_FREE) [k..<N]" and "k \<le> N" and "N \<le> 2 ^ 20"
  shows "let s' = build_freelist k s; xs = filter (\<lambda>j. pf_tag (pfdb s j) = TAG_FREE) [0..<N]
    in freelist s' = link (first xs) \<and> linked (pfdb s') xs \<and> unat (freemem s') = length xs \<and> maxmem s' = maxmem s \<and> totalmem s' = totalmem s \<and>
      pframe_state.more s' = pframe_state.more s \<and> (\<forall>j. pf_tag (pfdb s' j) = pf_tag (pfdb s j))"
  using assms
proof (induction k arbitrary: s ys)
  case 0
  then show ?case by simp
next
  case (Suc k)
  let ?F = "\<lambda>j. pf_tag (pfdb s j) = TAG_FREE"
  define s1 where "s1 = (if ?F k then s\<lparr>pfdb := (pfdb s)(k := (pfdb s k)\<lparr>pf_word := freelist s\<rparr>), freelist := frame_ptr k, freemem := freemem s + 1\<rparr> else s)"
  define zs where "zs = (if ?F k then k # ys else ys)"
  have k: "k \<notin> set ys" "k < 2 ^ 20" using Suc.prems by simp_all
  have len: "length ys \<le> N" using Suc.prems(4) length_filter_le [of ?F "[Suc k..<N]"] by simp
  have tags: "pf_tag (pfdb s1 j) = pf_tag (pfdb s j)" for j by (simp add: s1_def)
  have zs: "zs = filter ?F [k..<N]" using Suc.prems(4,5) by (simp add: zs_def upt_conv_Cons)
  have "unat (freemem s1) = length zs" using Suc.prems(3,6) len by (simp add: s1_def zs_def unat_add_lt)
  moreover have "freelist s1 = link (first zs)" "linked (pfdb s1) zs" using Suc.prems(1,2) k by (simp_all add: s1_def zs_def)
  moreover have "build_freelist (Suc k) s = build_freelist k s1" by (simp add: s1_def)
  moreover have "maxmem s1 = maxmem s" "totalmem s1 = totalmem s" "pframe_state.more s1 = pframe_state.more s" by (simp_all add: s1_def)
  ultimately show ?case using Suc.IH [of s1 zs] zs Suc.prems(5,6) tags by (simp add: Let_def)
qed

lemma build_freelist_rep:
  assumes "freelist s = 0" and "freemem s = 0" and "unat (maxmem s) \<le> 2 ^ 20"
  shows "pf_rep (build_freelist (unat (maxmem s)) s) (filter (\<lambda>j. pf_tag (pfdb s j) = TAG_FREE) [0..<unat (maxmem s)])"
  using build_freelist_spec [of s "[]" "unat (maxmem s)" "unat (maxmem s)"] assms unfolding Let_def by (intro pf_repI) auto

lemma alloc_linear_cases:
  assumes "pf_rep s xs" and "0 < n" and "tag \<noteq> TAG_FREE" and "alloc_linear_pageframes (int n) tag s = Some (pfn, s')"
  obtains "pfn = 0xFFFFFFFF" and "s' = s" and "1 < n" and "\<not> has_run (maxmem s) n xs"
  | us k vs where "xs = us @ [k..<k + n] @ vs" and "k + n \<le> unat (maxmem s)" and "1 < n \<longrightarrow> k + n < unat (maxmem s)" and "pfn = of_nat k" and "pf_rep s' (us @ vs)"
    and "\<And>j. pf_tag (pfdb s' j) = (if k \<le> j \<and> j < k + n then tag else pf_tag (pfdb s j))" and "maxmem s' = maxmem s" and "pframe_state.more s' = pframe_state.more s"
    and "1 < n \<longrightarrow> first_run (maxmem s) n us xs"
proof (cases "n = 1")
  case True
  then have "alloc_pageframe tag s = Some (pfn, s')" using assms(4) by (simp add: alloc_linear_pageframes_def)
  from alloc_pageframe_cases [OF assms(1,3) this] obtain k ys where k: "xs = k # ys" "pfn = of_nat k" "pf_rep s' ys" "s' = take_frame k ys tag s" by metis
  have "k < unat (maxmem s)" using pf_rep_bound(2) [OF assms(1)] k(1) by simp
  then show thesis using True k by (intro that(2) [of "[]" k ys]) (simp_all add: take_frame_def)
next
  case False
  show thesis
  proof (cases "length xs < n")
    case True
    then have "\<not> has_run (maxmem s) n xs" by (auto simp: has_run_def)
    then show thesis using True False assms(2,4) sint_maxmem(2) [OF assms(1)] by (intro that(1)) (simp_all add: alloc_linear_pageframes_def)
  next
    case len: False
    then have r: "alloc_linear_pageframes (int n) tag s = linear_loop (int n) tag 0 (freelist s) s"
      using False sint_maxmem(2) [OF assms(1)] by (simp add: alloc_linear_pageframes_def)
    have "pf_rep s ([] @ xs)" "0 = link (final [])" "freelist s = link (first xs)" using assms(1) pf_repD(1) [OF assms(1)] by simp_all
    from linear_loop_spec [OF this(1) assms(2,3) this(2,3)] show thesis
    proof
      assume "linear_loop (int n) tag 0 (freelist s) s = Some (0xFFFFFFFF, s) \<and> \<not> has_run (maxmem s) n xs"
      then show thesis using assms(2,4) False r by (intro that(1)) simp_all
    next
      assume "\<exists>zs k vs s'. xs = zs @ [k..<k + n] @ vs \<and> k + n < unat (maxmem s) \<and> linear_loop (int n) tag 0 (freelist s) s = Some (of_nat k, s') \<and>
        pf_rep s' ([] @ zs @ vs) \<and> pframe_state.more s' = pframe_state.more s \<and> totalmem s' = totalmem s \<and> maxmem s' = maxmem s \<and>
        (\<forall>j. pf_tag (pfdb s' j) = (if k \<le> j \<and> j < k + n then tag else pf_tag (pfdb s j))) \<and> first_run (maxmem s) n zs xs"
      then show thesis using assms(4) r by (elim exE conjE) (rule that(2); force)
    qed
  qed
qed

lemma alloc_linear_returns:
  assumes "pf_rep s xs" and "1 < n" and "tag \<noteq> TAG_FREE"
  shows "\<exists>pfn s'. alloc_linear_pageframes (int n) tag s = Some (pfn, s')"
proof (cases "length xs < n")
  case True
  then show ?thesis using assms(2) sint_maxmem(2) [OF assms(1)] by (simp add: alloc_linear_pageframes_def)
next
  case False
  then have r: "alloc_linear_pageframes (int n) tag s = linear_loop (int n) tag 0 (freelist s) s"
    using assms(2) sint_maxmem(2) [OF assms(1)] by (simp add: alloc_linear_pageframes_def)
  have "0 < n" "pf_rep s ([] @ xs)" "0 = link (final [])" "freelist s = link (first xs)" using assms(1,2) pf_repD(1) [OF assms(1)] by simp_all
  from linear_loop_spec [OF this(2,1) assms(3) this(3,4)] show ?thesis unfolding r by auto
qed

lemma frame_number_valid: "k < 2 ^ 20 \<Longrightarrow> (of_nat k :: u32) \<noteq> 0xFFFFFFFF"
proof
  assume "k < 2 ^ 20" and "(of_nat k :: u32) = 0xFFFFFFFF"
  then have "unat (of_nat k :: u32) = 0xFFFFFFFF" by simp
  then show False using \<open>k < 2 ^ 20\<close> unat_of_nat_u32 [of k] by simp
qed

lemma alloc_linear_first:
  assumes "pf_rep s xs" and "1 < n" and "tag \<noteq> TAG_FREE"
  shows "if has_run (maxmem s) n xs
    then \<exists>us k vs s'. xs = us @ [k..<k + n] @ vs \<and> k + n < unat (maxmem s) \<and> first_run (maxmem s) n us xs \<and>
      alloc_linear_pageframes (int n) tag s = Some (of_nat k, s') \<and> pf_rep s' (us @ vs) \<and>
      (\<forall>j. pf_tag (pfdb s' j) = (if k \<le> j \<and> j < k + n then tag else pf_tag (pfdb s j)))
    else alloc_linear_pageframes (int n) tag s = Some (0xFFFFFFFF, s)"
proof -
  obtain pfn s' where r: "alloc_linear_pageframes (int n) tag s = Some (pfn, s')" using alloc_linear_returns [OF assms] by blast
  have "0 < n" using assms(2) by simp
  show ?thesis
  proof (cases rule: alloc_linear_cases [OF assms(1) \<open>0 < n\<close> assms(3) r])
    case 1
    then show ?thesis using r by simp
  next
    case (2 us k vs)
    then show ?thesis using r assms(2) has_runI [OF 2(1)] by auto
  qed
qed

section \<open>Properties\<close>

text \<open>
  C19: asking for \<open>n\<close> consecutive frames, \<open>n\<close> at least 2, always returns. It fails, with 0xFFFFFFFF and no effect, exactly when no run of \<open>n\<close>
  consecutive frames is in order in the list and ends below the last frame of the memory. Otherwise the frames of the first such run of the list get the tag and leave the
  list, and every other frame keeps its place and its tag. The last frame is never part of a run, since the code compares the end of
  the run with \<^verbatim>\<open>maxmem\<close> by less than.
\<close>

theorem alloc_linear_pageframes_correct:
  assumes "pf_rep s xs" and "1 < n" and "tag \<noteq> TAG_FREE"
  shows "if \<exists>us k vs. xs = us @ [k..<k + n] @ vs \<and> k + n < unat (maxmem s)
    then \<exists>us k vs s'. xs = us @ [k..<k + n] @ vs \<and> k + n < unat (maxmem s) \<and>
      (\<forall>us' k' vs'. xs = us' @ [k'..<k' + n] @ vs' \<and> k' + n < unat (maxmem s) \<longrightarrow> length us \<le> length us') \<and>
      alloc_linear_pageframes (int n) tag s = Some (of_nat k, s') \<and> pf_rep s' (us @ vs) \<and>
      (\<forall>j. pf_tag (pfdb s' j) = (if k \<le> j \<and> j < k + n then tag else pf_tag (pfdb s j)))
    else alloc_linear_pageframes (int n) tag s = Some (0xFFFFFFFF, s)"
  using alloc_linear_first [OF assms] unfolding has_run_def first_run_def .

definition demo_pfs :: pframe_state where
  "demo_pfs = build_freelist 8 \<lparr>pfdb = mark_frames 2 6 TAG_FREE (\<lambda>k. \<lparr>pf_tag = TAG_BAD, pf_word = 0\<rparr>), freelist = 0, freemem = 0, totalmem = 6, maxmem = 8\<rparr>"

theorem alloc_linear_pageframes_correct_witness:
  "\<exists>s'. alloc_linear_pageframes (int 3) TAG_RESV demo_pfs = Some (2, s') \<and> pf_rep s' [5, 6, 7] \<and> pf_tag (pfdb s' 2) = TAG_RESV"
proof -
  let ?s = "\<lparr>pfdb = mark_frames 2 6 TAG_FREE (\<lambda>k. \<lparr>pf_tag = TAG_BAD, pf_word = 0\<rparr>), freelist = 0, freemem = 0, totalmem = 6, maxmem = 8\<rparr> :: pframe_state"
  have "filter (\<lambda>j. pf_tag (pfdb ?s j) = TAG_FREE) [0..<8] = [2..<8]"
    by (simp add: mark_frames_spec TAG_BAD_def TAG_FREE_def upt_rec)
  then have rep: "pf_rep demo_pfs [2..<8]" using build_freelist_rep [of ?s] unfolding demo_pfs_def by simp
  have m: "maxmem demo_pfs = 8" by (simp add: demo_pfs_def numeral_eq_Suc)
  have d: "[2..<8] = [] @ [2..<2 + 3] @ [5, 6, 7]" "2 + 3 < unat (maxmem demo_pfs)" by (simp_all add: m upt_rec)
  have e: "\<exists>us k vs. [2..<8] = us @ [k..<k + 3] @ vs \<and> k + 3 < unat (maxmem demo_pfs)" using d by blast
  have "1 < (3 :: nat)" "TAG_RESV \<noteq> TAG_FREE" by (simp_all add: TAG_RESV_def TAG_FREE_def)
  from alloc_linear_pageframes_correct [OF rep this, unfolded if_P [OF e]] obtain us k vs s' where a: "[2..<8] = us @ [k..<k + 3] @ vs" "\<forall>us' k' vs'. [2..<8] = us' @ [k'..<k' + 3] @ vs' \<and> k' + 3 < unat (maxmem demo_pfs) \<longrightarrow> length us \<le> length us'"
    "alloc_linear_pageframes (int 3) TAG_RESV demo_pfs = Some (of_nat k, s')" "pf_rep s' (us @ vs)"
    and t: "\<forall>j. pf_tag (pfdb s' j) = (if k \<le> j \<and> j < k + 3 then TAG_RESV else pf_tag (pfdb demo_pfs j))"
    by (elim exE conjE) (rule that)
  have "length us \<le> length ([] :: nat list)" using a(2) d by blast
  then have us: "us = []" by simp
  then have "k = 2" "vs = [5, 6, 7]" using a(1) by (simp_all add: upt_rec)
  then show ?thesis using a(3,4) t us by auto
qed

end
