(* ===== verification/Pdir.thy ===== *)
theory Pdir
  imports Pframe "HOL-Library.Monad_Syntax"
begin

text \<open>
  Page tables: \<^verbatim>\<open>src/src/sys/krnl/pdir.c\<close> and the macros of \<^verbatim>\<open>src/src/include/os/pdir.h\<close>. The loader makes the page directory the
  page table of the area at \<^verbatim>\<open>PTBASE\<close> (\<^verbatim>\<open>setup_page_tables\<close> in \<^verbatim>\<open>osldr.c\<close>), so that all page tables are one array \<^verbatim>\<open>ptab\<close> of
  \<open>2\<^sup>20\<close> entries and the directory is the part of it that starts at the entry of \<^verbatim>\<open>PTBASE\<close>. The contents of the other frames are \<open>phys\<close>, as
  32-bit words. Flushing the translation buffer has no effect in the model, and registering page tables does nothing in the code.
\<close>

unbundle bit_operations_syntax

record pdir_state = pframe_state +
  ptab :: "nat \<Rightarrow> u32"
  phys :: "nat \<Rightarrow> nat \<Rightarrow> u32"

definition PTBASE :: u32 where "PTBASE = 0x90000000"
definition PAGESIZE :: nat where "PAGESIZE = 4096"
definition PTES_PER_PAGE :: nat where "PTES_PER_PAGE = 1024"

definition PT_PRESENT :: u32 where "PT_PRESENT = 0x001"
definition PT_WRITABLE :: u32 where "PT_WRITABLE = 0x002"
definition PT_USER :: u32 where "PT_USER = 0x004"
definition PT_DIRTY :: u32 where "PT_DIRTY = 0x040"
definition PT_GUARD :: u32 where "PT_GUARD = 0x200"
definition PT_FILE :: u32 where "PT_FILE = 0x400"
definition PT_USER_READ :: u32 where "PT_USER_READ = PT_PRESENT OR PT_USER"
definition PT_USER_WRITE :: u32 where "PT_USER_WRITE = PT_PRESENT OR PT_USER OR PT_WRITABLE"
definition PT_FLAGMASK :: u32 where "PT_FLAGMASK = 0x667"
definition PT_PROTECTMASK :: u32 where "PT_PROTECTMASK = PT_WRITABLE OR PT_USER OR PT_GUARD"
definition PT_PFNMASK :: u32 where "PT_PFNMASK = 0xFFFFF000"

definition PDEIDX :: "u32 \<Rightarrow> nat" where "PDEIDX v = unat (drop_bit 22 v)"
definition PTABIDX :: "u32 \<Rightarrow> nat" where "PTABIDX v = unat (drop_bit 12 v)"
definition PGOFF :: "u32 \<Rightarrow> u32" where "PGOFF v = v AND 0xFFF"
definition PAGES :: "u32 \<Rightarrow> u32" where "PAGES x = drop_bit 12 (x + 4095)"
definition PAGEADDR :: "u32 \<Rightarrow> u32" where "PAGEADDR x = x AND NOT 4095"
definition PTOB :: "u32 \<Rightarrow> u32" where "PTOB x = push_bit 12 x"
definition BTOP :: "u32 \<Rightarrow> u32" where "BTOP x = drop_bit 12 x"

definition pde_slot :: "u32 \<Rightarrow> nat" where "pde_slot v = PTABIDX PTBASE + PDEIDX v"

definition GET_PDE :: "'a pdir_state_scheme \<Rightarrow> u32 \<Rightarrow> u32" where "GET_PDE s v = ptab s (pde_slot v)"
definition GET_PTE :: "'a pdir_state_scheme \<Rightarrow> u32 \<Rightarrow> u32" where "GET_PTE s v = ptab s (PTABIDX v)"

definition SET_PDE :: "u32 \<Rightarrow> u32 \<Rightarrow> 'a pdir_state_scheme \<Rightarrow> 'a pdir_state_scheme" where
  "SET_PDE v e s = s\<lparr>ptab := (ptab s)(pde_slot v := e)\<rparr>"

definition SET_PTE :: "u32 \<Rightarrow> u32 \<Rightarrow> 'a pdir_state_scheme \<Rightarrow> 'a pdir_state_scheme" where
  "SET_PTE v e s = s\<lparr>ptab := (ptab s)(PTABIDX v := e)\<rparr>"

definition clear_table :: "nat \<Rightarrow> 'a pdir_state_scheme \<Rightarrow> 'a pdir_state_scheme" where
  "clear_table i s = s\<lparr>ptab := (\<lambda>p. if i * PTES_PER_PAGE \<le> p \<and> p < (i + 1) * PTES_PER_PAGE then 0 else ptab s p)\<rparr>"

definition map_page :: "u32 \<Rightarrow> u32 \<Rightarrow> u32 \<Rightarrow> 'a pdir_state_scheme \<Rightarrow> 'a pdir_state_scheme option" where
  "map_page vaddr pfn flags s = do {
     s1 \<leftarrow> (if GET_PDE s vaddr AND PT_PRESENT = 0 then do {
              (pdfn, s1) \<leftarrow> alloc_pageframe TAG_PTAB s;
              if pfn = 0xFFFFFFFF then None
              else Some (clear_table (PDEIDX vaddr) (SET_PDE vaddr (PTOB pdfn OR PT_PRESENT OR PT_WRITABLE OR PT_USER) s1))
            } else Some s);
     Some (SET_PTE vaddr (PTOB pfn OR flags) s1)
   }"

definition unmap_page :: "u32 \<Rightarrow> 'a pdir_state_scheme \<Rightarrow> 'a pdir_state_scheme" where
  "unmap_page vaddr s = SET_PTE vaddr 0 s"

definition virt2phys :: "'a pdir_state_scheme \<Rightarrow> u32 \<Rightarrow> u32" where
  "virt2phys s vaddr = (GET_PTE s vaddr AND PT_PFNMASK) + PGOFF vaddr"

definition virt2pfn :: "'a pdir_state_scheme \<Rightarrow> u32 \<Rightarrow> u32" where
  "virt2pfn s vaddr = BTOP (GET_PTE s vaddr AND PT_PFNMASK)"

definition get_page_flags :: "'a pdir_state_scheme \<Rightarrow> u32 \<Rightarrow> u32" where
  "get_page_flags s vaddr = GET_PTE s vaddr AND PT_FLAGMASK"

definition set_page_flags :: "u32 \<Rightarrow> u32 \<Rightarrow> 'a pdir_state_scheme \<Rightarrow> 'a pdir_state_scheme" where
  "set_page_flags vaddr flags s = SET_PTE vaddr ((GET_PTE s vaddr AND PT_PFNMASK) OR flags) s"

definition page_mapped :: "'a pdir_state_scheme \<Rightarrow> u32 \<Rightarrow> bool" where
  "page_mapped s vaddr \<longleftrightarrow> GET_PDE s vaddr AND PT_PRESENT \<noteq> 0 \<and> GET_PTE s vaddr AND PT_PRESENT \<noteq> 0"

definition page_directory_mapped :: "'a pdir_state_scheme \<Rightarrow> u32 \<Rightarrow> bool" where
  "page_directory_mapped s vaddr \<longleftrightarrow> GET_PDE s vaddr AND PT_PRESENT \<noteq> 0"

definition unguard_page :: "u32 \<Rightarrow> 'a pdir_state_scheme \<Rightarrow> 'a pdir_state_scheme" where
  "unguard_page vaddr s = SET_PTE vaddr ((GET_PTE s vaddr AND NOT PT_GUARD) OR PT_USER) s"

definition clear_dirty :: "u32 \<Rightarrow> 'a pdir_state_scheme \<Rightarrow> 'a pdir_state_scheme" where
  "clear_dirty vaddr s = SET_PTE vaddr (GET_PTE s vaddr AND NOT PT_DIRTY) s"

definition init_pdir :: "'a pdir_state_scheme \<Rightarrow> 'a pdir_state_scheme" where
  "init_pdir s = clear_table 0 s"

section \<open>Memory behind the tables\<close>

definition frame_of :: "'a pdir_state_scheme \<Rightarrow> nat \<Rightarrow> nat" where
  "frame_of s p = unat (ptab s p) div 4096"

definition load8 :: "'a pdir_state_scheme \<Rightarrow> u32 \<Rightarrow> u8" where
  "load8 s v = ucast (drop_bit (8 * (unat (PGOFF v) mod 4)) (phys s (frame_of s (PTABIDX v)) (unat (PGOFF v) div 4)))"

definition load32 :: "'a pdir_state_scheme \<Rightarrow> u32 \<Rightarrow> u32" where
  "load32 s v = phys s (frame_of s (PTABIDX v)) (unat (PGOFF v) div 4)"

definition store32 :: "u32 \<Rightarrow> u32 \<Rightarrow> 'a pdir_state_scheme \<Rightarrow> 'a pdir_state_scheme" where
  "store32 v w s = (let k = frame_of s (PTABIDX v) in s\<lparr>phys := (phys s)(k := (phys s k)(unat (PGOFF v) div 4 := w))\<rparr>)"

lemma page_offset: "unat (PGOFF v) = unat v mod 4096"
proof -
  have "PGOFF v = take_bit 12 v" unfolding PGOFF_def using take_bit_eq_mask [of 12 v] by (simp add: mask_numeral)
  then show ?thesis by (simp add: take_bit_eq_mod unat_mod_distrib)
qed

lemma page_number: "PTABIDX v = unat v div 4096"
  by (simp add: PTABIDX_def drop_bit_eq_div unat_div_distrib)

lemma page_number_add:
  assumes "unat v + i < 2 ^ 32"
  shows "PTABIDX (v + of_nat i) = (unat v + i) div 4096"
proof -
  have "unat (of_nat i :: u32) = i" using assms by (intro unat_of_nat_u32) simp
  then show ?thesis using assms by (simp add: page_number unat_add_lt)
qed

section \<open>Words of the tables\<close>

lemma directory_slot: "PTABIDX PTBASE = 0x90000"
  by (simp add: PTABIDX_def PTBASE_def)

lemma unat_PTOB: "k < 2 ^ 20 \<Longrightarrow> unat (PTOB (of_nat k)) = 4096 * k"
proof -
  assume k: "k < 2 ^ 20"
  have "PTOB (of_nat k) = of_nat (4096 * k)" by (simp add: PTOB_def push_bit_eq_mult)
  then show ?thesis using k unat_of_nat_u32 [of "4096 * k"] by simp
qed

lemma unat_entry:
  assumes "k < 2 ^ 20" and "unat flags < 4096"
  shows "unat (PTOB (of_nat k) OR flags) = 4096 * k + unat flags"
proof -
  have "flags = take_bit 12 flags" using assms(2) by (simp add: word_unat_eq_iff unsigned_take_bit_eq take_bit_nat_eq_self)
  then have "PTOB (of_nat k) AND flags = 0" unfolding PTOB_def by (intro bit_word_eqI) (metis bit_and_iff bit_push_bit_iff bit_take_bit_iff bit_0_eq bot_apply bot_bool_def not_less)
  then have "PTOB (of_nat k) + flags = PTOB (of_nat k) OR flags" by (rule disjunctive_add_eq_or)
  moreover have "unat (PTOB (of_nat k) + flags) = 4096 * k + unat flags" using assms unat_PTOB by (subst unat_add_lt) simp_all
  ultimately show ?thesis by simp
qed

lemma page_of_PTOB: "p < 2 ^ 20 \<Longrightarrow> PTABIDX (PTOB (of_nat p)) = p"
  by (simp add: page_number unat_PTOB)

lemma table_of_PTOB: "p < 2 ^ 20 \<Longrightarrow> PDEIDX (PTOB (of_nat p)) = p div 1024"
  by (simp add: PDEIDX_def drop_bit_eq_div unat_div_distrib unat_PTOB)

lemma present_or: "flags AND PT_PRESENT \<noteq> 0 \<Longrightarrow> (e OR flags) AND PT_PRESENT \<noteq> 0"
  by (simp add: bit.conj_disj_distrib2 or_eq_0_iff)

section \<open>Pages that belong to the kernel\<close>

definition table_at :: "'a pdir_state_scheme \<Rightarrow> nat \<Rightarrow> bool" where
  "table_at s i \<longleftrightarrow> ptab s (0x90000 + i) AND PT_PRESENT \<noteq> 0"

abbreviation table_frame :: "'a pdir_state_scheme \<Rightarrow> nat \<Rightarrow> nat" where
  "table_frame s i \<equiv> frame_of s (0x90000 + i)"

text \<open>
  \<open>xs\<close> are the free frames and \<open>H\<close> the pages somebody holds. No two held pages share a frame, and no frame of a held page or of a page table is free
  or used for both.
\<close>

definition mem_inv :: "'a pdir_state_scheme \<Rightarrow> nat list \<Rightarrow> nat set \<Rightarrow> bool" where
  "mem_inv s xs H \<longleftrightarrow> pf_rep s xs \<and> inj_on (frame_of s) H \<and>
     (\<forall>p \<in> H. p < 2 ^ 20 \<and> p div 1024 \<noteq> 576 \<and> table_at s (p div 1024) \<and> ptab s p AND PT_PRESENT \<noteq> 0 \<and>
        frame_of s p < unat (maxmem s) \<and> frame_of s p \<notin> set xs) \<and>
     (\<forall>i < 1024. table_at s i \<longrightarrow> table_frame s i \<notin> set xs \<and> table_frame s i \<notin> frame_of s ` H)"

lemma mem_invD:
  assumes "mem_inv s xs H"
  shows "pf_rep s xs" and "inj_on (frame_of s) H"
    and "p \<in> H \<Longrightarrow> p < 2 ^ 20 \<and> p div 1024 \<noteq> 576 \<and> table_at s (p div 1024) \<and> ptab s p AND PT_PRESENT \<noteq> 0"
    and "p \<in> H \<Longrightarrow> frame_of s p < unat (maxmem s) \<and> frame_of s p \<notin> set xs"
    and "i < 1024 \<Longrightarrow> table_at s i \<Longrightarrow> table_frame s i \<notin> set xs"
    and "i < 1024 \<Longrightarrow> table_at s i \<Longrightarrow> p \<in> H \<Longrightarrow> table_frame s i \<noteq> frame_of s p"
  using assms by (auto simp: mem_inv_def)

lemma GET_PDE_table: "p < 2 ^ 20 \<Longrightarrow> GET_PDE s (PTOB (of_nat p)) = ptab s (0x90000 + p div 1024)"
  by (simp add: GET_PDE_def pde_slot_def table_of_PTOB directory_slot)

lemma map_page_present:
  assumes "p < 2 ^ 20" and "table_at s (p div 1024)"
  shows "map_page (PTOB (of_nat p)) pfn flags s = Some (s\<lparr>ptab := (ptab s)(p := PTOB pfn OR flags)\<rparr>)"
  using assms by (simp add: map_page_def GET_PDE_table table_at_def SET_PTE_def page_of_PTOB)

definition new_table :: "nat \<Rightarrow> nat \<Rightarrow> (nat \<Rightarrow> u32) \<Rightarrow> nat \<Rightarrow> u32" where
  "new_table p k t q = (if q div 1024 = p div 1024 then 0 else if q = 0x90000 + p div 1024 then PTOB (of_nat k) OR 7 else t q)"

lemma table_range: "q div 1024 = i \<longleftrightarrow> i * 1024 \<le> q \<and> q < (i + 1) * 1024" for q i :: nat
proof
  assume "q div 1024 = i"
  moreover have "q = q div 1024 * 1024 + q mod 1024" "q mod 1024 < 1024" by simp_all
  ultimately show "i * 1024 \<le> q \<and> q < (i + 1) * 1024" by auto
next
  assume "i * 1024 \<le> q \<and> q < (i + 1) * 1024"
  then show "q div 1024 = i" by (intro div_nat_eqI) (simp_all add: mult.commute)
qed

lemma add_table:
  assumes "p < 2 ^ 20"
  shows "clear_table (PDEIDX (PTOB (of_nat p))) (SET_PDE (PTOB (of_nat p)) (PTOB (of_nat k) OR PT_PRESENT OR PT_WRITABLE OR PT_USER) s) =
    s\<lparr>ptab := new_table p k (ptab s)\<rparr>"
proof -
  have "new_table p k (ptab s) q = (if p div 1024 * PTES_PER_PAGE \<le> q \<and> q < (p div 1024 + 1) * PTES_PER_PAGE then 0
      else ((ptab s)(0x90000 + p div 1024 := PTOB (of_nat k) OR PT_PRESENT OR PT_WRITABLE OR PT_USER)) q)" for q
    unfolding new_table_def table_range PTES_PER_PAGE_def by (simp add: PT_PRESENT_def PT_WRITABLE_def PT_USER_def)
  then have "new_table p k (ptab s) = (\<lambda>q. if p div 1024 * PTES_PER_PAGE \<le> q \<and> q < (p div 1024 + 1) * PTES_PER_PAGE then 0
      else ((ptab s)(0x90000 + p div 1024 := PTOB (of_nat k) OR PT_PRESENT OR PT_WRITABLE OR PT_USER)) q)" by (rule ext)
  then show ?thesis using assms by (simp add: clear_table_def SET_PDE_def table_of_PTOB pde_slot_def directory_slot cong: if_cong)
qed

lemma take_frame_pages [simp]: "ptab (take_frame k ys tag s) = ptab s" "phys (take_frame k ys tag s) = phys s"
  by (simp_all add: take_frame_def)

lemma map_page_new:
  assumes "p < 2 ^ 20" and "\<not> table_at s (p div 1024)" and "pf_rep s (k # ys)" and "pfn \<noteq> 0xFFFFFFFF"
  shows "map_page (PTOB (of_nat p)) pfn flags s = Some ((take_frame k ys TAG_PTAB s)\<lparr>ptab := (new_table p k (ptab s))(p := PTOB pfn OR flags)\<rparr>)"
proof -
  have "alloc_pageframe TAG_PTAB s = Some (of_nat k, take_frame k ys TAG_PTAB s)"
    using alloc_pageframe_spec(1) [OF assms(3)] by (simp add: TAG_PTAB_def TAG_FREE_def)
  then show ?thesis using assms by (simp add: map_page_def GET_PDE_table table_at_def add_table SET_PTE_def page_of_PTOB)
qed

lemma map_page_panic:
  assumes "p < 2 ^ 20" and "\<not> table_at s (p div 1024)" and "pf_rep s []"
  shows "map_page (PTOB (of_nat p)) pfn flags s = None"
  using assms alloc_pageframe_panic [OF assms(3)] by (simp add: map_page_def GET_PDE_table table_at_def)

lemma new_table_simps:
  assumes "p < 2 ^ 20" "k < 2 ^ 20" "p div 1024 \<noteq> 576" "pt = (new_table p k t)(p := e)"
  shows "i < 1024 \<Longrightarrow> pt (0x90000 + i) = (if i = p div 1024 then PTOB (of_nat k) OR 7 else t (0x90000 + i))"
    and "q div 1024 \<noteq> p div 1024 \<Longrightarrow> q div 1024 \<noteq> 576 \<Longrightarrow> pt q = t q"
proof -
  assume i: "i < 1024"
  then have "(0x90000 + i) div 1024 = 576" by simp
  then have "(0x90000 + i) div 1024 \<noteq> p div 1024" "0x90000 + i \<noteq> p" using assms(3) by auto
  then show "pt (0x90000 + i) = (if i = p div 1024 then PTOB (of_nat k) OR 7 else t (0x90000 + i))"
    using assms(4) by (simp add: new_table_def)
next
  assume q: "q div 1024 \<noteq> p div 1024" "q div 1024 \<noteq> 576"
  have "p div 1024 < 1024" using assms(1) by (simp add: div_less_iff_less_mult)
  then have "(0x90000 + p div 1024) div 1024 = 576" by simp
  with q have "q \<noteq> 0x90000 + p div 1024" "q \<noteq> p" by auto
  with q assms(4) show "pt q = t q" by (simp add: new_table_def)
qed

lemma mem_invI:
  assumes "pf_rep s xs" and "inj_on (frame_of s) H"
    and "\<And>p. p \<in> H \<Longrightarrow> p < 2 ^ 20 \<and> p div 1024 \<noteq> 576 \<and> table_at s (p div 1024) \<and> ptab s p AND PT_PRESENT \<noteq> 0"
    and "\<And>p. p \<in> H \<Longrightarrow> frame_of s p < unat (maxmem s) \<and> frame_of s p \<notin> set xs"
    and "\<And>i. i < 1024 \<Longrightarrow> table_at s i \<Longrightarrow> table_frame s i \<notin> set xs"
    and "\<And>i p. i < 1024 \<Longrightarrow> table_at s i \<Longrightarrow> p \<in> H \<Longrightarrow> table_frame s i \<noteq> frame_of s p"
  shows "mem_inv s xs H"
  unfolding mem_inv_def using assms by (simp add: image_iff)

lemma mem_inv_insert:
  assumes "mem_inv s xs H" and "p < 2 ^ 20" "p div 1024 \<noteq> 576" "table_at s (p div 1024)" "ptab s p AND PT_PRESENT \<noteq> 0"
    and "frame_of s p < unat (maxmem s)" "frame_of s p \<notin> set xs" "frame_of s p \<notin> frame_of s ` H"
    and "\<And>i. i < 1024 \<Longrightarrow> table_at s i \<Longrightarrow> table_frame s i \<noteq> frame_of s p"
  shows "mem_inv s xs (insert p H)"
proof (rule mem_invI)
  note inv = mem_invD [OF assms(1)]
  show "pf_rep s xs" by (rule inv(1))
  show "inj_on (frame_of s) (insert p H)" unfolding inj_on_insert using inv(2) assms(8) by blast
  show "q < 2 ^ 20 \<and> q div 1024 \<noteq> 576 \<and> table_at s (q div 1024) \<and> ptab s q AND PT_PRESENT \<noteq> 0" if "q \<in> insert p H" for q
    using that inv(3) [of q] assms(2-5) by blast
  show "frame_of s q < unat (maxmem s) \<and> frame_of s q \<notin> set xs" if "q \<in> insert p H" for q using that inv(4) [of q] assms(6,7) by blast
  show "table_frame s i \<notin> set xs" if "i < 1024" "table_at s i" for i using that by (rule inv(5))
  show "table_frame s i \<noteq> frame_of s q" if "i < 1024" "table_at s i" "q \<in> insert p H" for i q
    using that inv(6) [of i q] assms(9) [of i] by blast
qed

text \<open>A state with fewer free frames in which the held pages are as before.\<close>

lemma mem_inv_frame:
  assumes "mem_inv s xs H" and "pf_rep s' xs'" and "set xs' \<subseteq> set xs" and "maxmem s' = maxmem s"
    and same: "\<And>q. q \<in> H \<Longrightarrow> ptab s' q = ptab s q \<and> table_at s' (q div 1024)"
    and tabs: "\<And>i. i < 1024 \<Longrightarrow> table_at s' i \<Longrightarrow> table_at s i \<and> table_frame s' i = table_frame s i \<or> table_frame s' i \<in> set xs \<and> table_frame s' i \<notin> set xs'"
  shows "mem_inv s' xs' H"
proof (rule mem_invI)
  note inv = mem_invD [OF assms(1)]
  have fr: "frame_of s' q = frame_of s q" if "q \<in> H" for q using same [OF that] by (simp add: frame_of_def)
  show "pf_rep s' xs'" by (rule assms(2))
  show "inj_on (frame_of s') H" using inv(2) fr by (simp add: inj_on_def)
  show "q < 2 ^ 20 \<and> q div 1024 \<noteq> 576 \<and> table_at s' (q div 1024) \<and> ptab s' q AND PT_PRESENT \<noteq> 0" if "q \<in> H" for q
    using inv(3) [OF that] same [OF that] by simp
  show "frame_of s' q < unat (maxmem s') \<and> frame_of s' q \<notin> set xs'" if "q \<in> H" for q using inv(4) [OF that] fr [OF that] assms(3,4) by auto
  show "table_frame s' i \<notin> set xs'" if "i < 1024" "table_at s' i" for i using tabs [OF that] inv(5) [of i] that assms(3) by auto
  show "table_frame s' i \<noteq> frame_of s' q" if "i < 1024" "table_at s' i" "q \<in> H" for i q
    using tabs [OF that(1,2)] inv(6) [of i q] inv(4) [of q] fr [of q] that by auto
qed

lemma mem_inv_cong:
  assumes "mem_inv s xs H" and "pfdb t = pfdb s" "freelist t = freelist s" "freemem t = freemem s" "maxmem t = maxmem s" "ptab t = ptab s"
  shows "mem_inv t xs H"
proof -
  have "table_at t = table_at s" "frame_of t = frame_of s" by (simp_all add: table_at_def frame_of_def assms(6) fun_eq_iff)
  then show ?thesis using pf_rep_cong [OF mem_invD(1) [OF assms(1)] assms(2-5)] mem_invD [OF assms(1)] assms(5,6) by (intro mem_invI) simp_all
qed

text \<open>Mapping a page that is not held keeps every held page; it may take one free frame for a page table.\<close>

lemma map_page_frame:
  assumes "mem_inv s xs H" and "p < 2 ^ 20" "p div 1024 \<noteq> 576" "p \<notin> H" and "pfn \<noteq> 0xFFFFFFFF" and "map_page (PTOB (of_nat p)) pfn flags s = Some s'"
  obtains xs' where "mem_inv s' xs' H" and "xs' = xs \<or> (\<exists>t. xs = t # xs')" and "ptab s' p = PTOB pfn OR flags" and "table_at s' (p div 1024)"
    and "\<And>q. q \<in> H \<Longrightarrow> ptab s' q = ptab s q" and "\<And>j. j \<notin> set xs \<Longrightarrow> pfdb s' j = pfdb s j" and "phys s' = phys s" and "maxmem s' = maxmem s"
    and "\<And>i. i < 1024 \<Longrightarrow> table_at s' i \<Longrightarrow> table_at s i \<and> table_frame s' i = table_frame s i \<or> table_frame s' i \<in> set xs \<and> table_frame s' i \<notin> set xs'"
    and "pdir_state.more s' = pdir_state.more s"
proof (cases "table_at s (p div 1024)")
  case True
  then have s': "s' = s\<lparr>ptab := (ptab s)(p := PTOB pfn OR flags)\<rparr>" using assms(6) map_page_present [OF assms(2) True] by simp
  have dir: "0x90000 + i \<noteq> p" if "i < 1024" for i using that assms(3) by auto
  have tab: "table_at s' i = table_at s i" "table_frame s' i = table_frame s i" if "i < 1024" for i
    using that dir [OF that] s' by (simp_all add: table_at_def frame_of_def)
  have i: "p div 1024 < 1024" using assms(2) by (simp add: div_less_iff_less_mult)
  have pf: "pf_rep s' xs" using mem_invD(1) [OF assms(1)] by (rule pf_rep_cong) (simp_all add: s')
  have held: "ptab s' q = ptab s q \<and> table_at s' (q div 1024)" if "q \<in> H" for q
  proof -
    have "q div 1024 < 1024" "table_at s (q div 1024)" "q \<noteq> p" using mem_invD(3) [OF assms(1) that] that assms(4) by (auto simp: div_less_iff_less_mult)
    then show ?thesis using tab(1) s' by simp
  qed
  have "mem_inv s' xs H" using assms(1) pf by (rule mem_inv_frame) (use tab held in \<open>simp_all add: s'\<close>)
  then show thesis by (rule that) (use tab held True tab(1) [OF i] in \<open>simp_all add: s'\<close>)
next
  case False
  then obtain k ys where xs: "xs = k # ys" using assms(6) map_page_panic [OF assms(2) False] mem_invD(1) [OF assms(1)] by (cases xs) auto
  have rep: "pf_rep s (k # ys)" using mem_invD(1) [OF assms(1)] xs by simp
  have s': "s' = (take_frame k ys TAG_PTAB s)\<lparr>ptab := (new_table p k (ptab s))(p := PTOB pfn OR flags)\<rparr>"
    using assms(6) map_page_new [OF assms(2) False rep assms(5)] by simp
  have k: "k < 2 ^ 20" "k \<notin> set ys" using pf_rep_bound(1) [OF rep, of k] pf_repD(3) [OF rep] by simp_all
  note new = new_table_simps [OF assms(2) k(1) assms(3), of "ptab s'" "ptab s" "PTOB pfn OR flags"]
  have i: "p div 1024 < 1024" using assms(2) by (simp add: div_less_iff_less_mult)
  have t: "ptab s' (0x90000 + i) = (if i = p div 1024 then PTOB (of_nat k) OR 7 else ptab s (0x90000 + i))" if "i < 1024" for i
    using new(1) [of i] that s' by simp
  have e: "unat (PTOB (of_nat k) OR 7) = 4096 * k + 7" "(PTOB (of_nat k) OR 7) AND PT_PRESENT \<noteq> 0"
    using unat_entry [OF k(1), of 7] present_or [of 7] by (simp_all add: PT_PRESENT_def)
  have tabs: "table_at s i \<and> table_frame s' i = table_frame s i \<or> table_frame s' i \<in> set xs \<and> table_frame s' i \<notin> set ys" if "i < 1024" "table_at s' i" for i
    using t [OF that(1)] e(1) that(2) xs k(2) by (cases "i = p div 1024") (simp_all add: frame_of_def table_at_def)
  have pt: "table_at s' (p div 1024)" using t [OF i] e(2) by (simp add: table_at_def)
  have pf: "pf_rep s' ys" using alloc_pageframe_spec(2) [OF rep, of TAG_PTAB]
    by (rule pf_rep_cong) (simp_all add: s' TAG_PTAB_def TAG_FREE_def)
  have held: "ptab s' q = ptab s q \<and> table_at s' (q div 1024)" if "q \<in> H" for q
  proof -
    have q: "q div 1024 < 1024" "table_at s (q div 1024)" "q div 1024 \<noteq> 576" "q div 1024 \<noteq> p div 1024"
      using mem_invD(3) [OF assms(1) that] False by (auto simp: div_less_iff_less_mult)
    then show ?thesis using new(2) [of q] t [OF q(1)] s' by (simp add: table_at_def)
  qed
  have "mem_inv s' ys H" using assms(1) pf by (rule mem_inv_frame) (use tabs held xs in \<open>auto simp: s' take_frame_def\<close>)
  then show thesis by (rule that) (use tabs held xs pt in \<open>auto simp: s' take_frame_def\<close>)
qed

end
