(* ===== verification/Access.thy ===== *)
theory Access
  imports Pdir
begin

text \<open>
  Checks of the memory a process passes to the kernel: \<^verbatim>\<open>mem_access\<close> and \<^verbatim>\<open>str_access\<close> of \<^verbatim>\<open>src/src/sys/krnl/pdir.c\<close>,
  \<^verbatim>\<open>lock_buffer\<close>, \<^verbatim>\<open>lock_string\<close> and \<^verbatim>\<open>lock_fdset\<close> of \<^verbatim>\<open>src/src/sys/krnl/syscall.c\<close>, and \<^verbatim>\<open>check_iovec\<close> of \<^verbatim>\<open>src/src/sys/krnl/iovec.c\<close>. The
  answers 0 and 1 of the first two are truth values. Both call \<^verbatim>\<open>fetch_page\<close>, which reads a page of a mapped file and is the argument
  \<open>fetch\<close> of the definitions. Memory is read through the page tables.
\<close>

unbundle bit_operations_syntax

section \<open>Access checks\<close>

definition page_access :: "(u32 \<Rightarrow> 'a pdir_state_scheme \<Rightarrow> int \<times> 'a pdir_state_scheme) \<Rightarrow> u32 \<Rightarrow> u32 \<Rightarrow> 'a pdir_state_scheme \<Rightarrow> bool \<times> 'a pdir_state_scheme" where
  "page_access fetch addr access s =
     (if GET_PDE s addr AND PT_PRESENT = 0 then (False, s)
      else if GET_PTE s addr AND access \<noteq> access then
        if GET_PTE s addr AND PT_FILE \<noteq> 0 then
          (case fetch (PAGEADDR addr) s of (rc, s1) \<Rightarrow>
             if rc < 0 then (False, s1) else (GET_PTE s1 addr AND access = access, s1))
        else (False, s)
      else (True, s))"

text \<open>The size is a C \<^verbatim>\<open>int\<close>, from which the unsigned distance is taken modulo \<open>2\<^sup>32\<close>.\<close>

definition size_left :: "int \<Rightarrow> u32 \<Rightarrow> int" where
  "size_left sz d = sint (of_int sz - d)"

lemma sint_of_int_range: "- (2 ^ 31) \<le> k \<Longrightarrow> k < 2 ^ 31 \<Longrightarrow> sint (of_int k :: u32) = k"
  by transfer (simp add: signed_take_bit_int_eq_self)

lemma size_left_decreases:
  assumes "\<not> size_left sz 4096 \<le> 0"
  shows "unat (of_int (size_left sz 4096) :: u32) < unat (of_int sz :: u32)"
proof -
  let ?w = "of_int sz :: u32"
  have l: "of_int (size_left sz 4096) = ?w - 4096" by (simp add: size_left_def)
  have "4096 \<le> unat ?w"
  proof (rule ccontr)
    assume "\<not> 4096 \<le> unat ?w"
    moreover have "(0 :: int) < 2 ^ 31" "(4096 :: int) \<le> 2 ^ 31" by simp_all
    ultimately have "int (unat ?w) - 4096 < 2 ^ 31" "- (2 ^ 31) \<le> int (unat ?w) - 4096" by linarith+
    from sint_of_int_range [OF this(2,1)] have "sint (?w - 4096) = int (unat ?w) - 4096" by simp
    then show False using assms \<open>\<not> 4096 \<le> unat ?w\<close> unfolding size_left_def by linarith
  qed
  then have "unat (?w - 4096) = unat ?w - 4096" by (simp add: unat_sub word_le_nat_alt)
  then show ?thesis using \<open>4096 \<le> unat ?w\<close> l by simp
qed

lemma size_left_pos:
  assumes "0 \<le> sz" "sz < 2 ^ 31"
  shows "size_left sz 0 = sz" and "size_left sz 4096 = sz - 4096"
proof -
  have "size_left sz (of_int d) = sz - d" if "0 \<le> d" "d \<le> 4096" for d
  proof -
    have "of_int sz - of_int d = (of_int (sz - d) :: u32)" by simp
    then show ?thesis unfolding size_left_def using assms that sint_of_int_range [of "sz - d"] by simp
  qed
  from this [of 0] this [of 4096] show "size_left sz 0 = sz" "size_left sz 4096 = sz - 4096" by simp_all
qed

function mem_access_loop :: "(u32 \<Rightarrow> 'a pdir_state_scheme \<Rightarrow> int \<times> 'a pdir_state_scheme) \<Rightarrow> u32 \<Rightarrow> u32 \<Rightarrow> u32 \<Rightarrow> int \<Rightarrow> 'a pdir_state_scheme \<Rightarrow> bool \<times> 'a pdir_state_scheme" where
  "mem_access_loop fetch access addr nxt sz s =
     (case page_access fetch addr access s of (ok, s1) \<Rightarrow>
        if \<not> ok then (False, s1)
        else let sz1 = size_left sz (nxt - addr)
             in if sz1 \<le> 0 then (True, s1) else mem_access_loop fetch access nxt (nxt + 4096) sz1 s1)"
  by pat_completeness auto
termination
proof (relation "measures [\<lambda>(fetch, access, addr, nxt, sz, s). if nxt - addr = 4096 then 0 else 1, \<lambda>(fetch, access, addr, nxt, sz, s). unat (of_int sz :: u32)]", simp)
  fix addr nxt :: u32 and sz sz1 and fetch :: "u32 \<Rightarrow> 'a pdir_state_scheme \<Rightarrow> int \<times> 'a pdir_state_scheme" and access and s s1
  assume "sz1 = size_left sz (nxt - addr)" "\<not> sz1 \<le> 0"
  then show "((fetch, access, nxt, nxt + 4096, sz1, s1), fetch, access, addr, nxt, sz, s) \<in>
    measures [\<lambda>(fetch, access, addr, nxt, sz, s). if nxt - addr = 4096 then 0 else 1, \<lambda>(fetch, access, addr, nxt, sz, s). unat (of_int sz :: u32)]"
    using size_left_decreases [of sz] by (cases "nxt - addr = 4096") simp_all
qed

definition mem_access :: "(u32 \<Rightarrow> 'a pdir_state_scheme \<Rightarrow> int \<times> 'a pdir_state_scheme) \<Rightarrow> u32 \<Rightarrow> int \<Rightarrow> u32 \<Rightarrow> 'a pdir_state_scheme \<Rightarrow> bool \<times> 'a pdir_state_scheme" where
  "mem_access fetch vaddr sz access s = mem_access_loop fetch access vaddr ((vaddr AND NOT 4096) + 4096) sz s"

text \<open>The inner loop of \<^verbatim>\<open>str_access\<close> gives the start of the page after the string's current page, or nothing when it finds the end of the string.\<close>

lemma page_offset_Suc: "PGOFF (v + 1) \<noteq> 0 \<Longrightarrow> unat (PGOFF (v + 1)) = unat (PGOFF v) + 1"
proof -
  assume "PGOFF (v + 1) \<noteq> 0"
  then have n: "unat (v + 1) mod 4096 \<noteq> 0" using page_offset [of "v + 1"] by (simp add: unat_eq_0 [symmetric])
  have "unat (v + 1) mod 4096 = (unat v + 1) mod 4096" by (simp add: unat_word_ariths mod_mod_cancel)
  with n show ?thesis unfolding page_offset by (simp add: mod_Suc split: if_splits)
qed

function str_scan :: "'a pdir_state_scheme \<Rightarrow> u32 \<Rightarrow> u32 option" where
  "str_scan s v = (if load8 s v = 0 then None else if PGOFF (v + 1) = 0 then Some (v + 1) else str_scan s (v + 1))"
  by pat_completeness auto
termination
proof (relation "measure (\<lambda>(s, v). 4096 - unat (PGOFF v))", simp)
  fix s :: "'a pdir_state_scheme" and v
  assume "PGOFF (v + 1) \<noteq> 0"
  then show "((s, v + 1), (s, v)) \<in> measure (\<lambda>(s, v). 4096 - unat (PGOFF v))"
    using page_offset_Suc [of v] page_offset [of "v + 1"] by simp
qed

partial_function (option) str_access :: "(u32 \<Rightarrow> 'a pdir_state_scheme \<Rightarrow> int \<times> 'a pdir_state_scheme) \<Rightarrow> u32 \<Rightarrow> u32 \<Rightarrow> 'a pdir_state_scheme \<Rightarrow> (bool \<times> 'a pdir_state_scheme) option" where
  "str_access fetch v access s =
     (case page_access fetch v access s of (ok, s1) \<Rightarrow>
        if \<not> ok then Some (False, s1)
        else (case str_scan s1 v of None \<Rightarrow> Some (True, s1) | Some v1 \<Rightarrow> str_access fetch v1 access s1))"

declare mem_access_loop.simps [simp del] str_scan.simps [simp del]

definition access_mode :: "bool \<Rightarrow> u32" where
  "access_mode modify = (if modify then PT_USER_WRITE else PT_USER_READ)"

definition lock_buffer :: "(u32 \<Rightarrow> 'a pdir_state_scheme \<Rightarrow> int \<times> 'a pdir_state_scheme) \<Rightarrow> u32 \<Rightarrow> int \<Rightarrow> bool \<Rightarrow> 'a pdir_state_scheme \<Rightarrow> int \<times> 'a pdir_state_scheme" where
  "lock_buffer fetch buffer sz modify s =
     (if buffer \<noteq> 0 then
        if sz < 0 then (- EINVAL, s)
        else (case mem_access fetch buffer sz (access_mode modify) s of (ok, s1) \<Rightarrow> if ok then (0, s1) else (- EFAULT, s1))
      else (0, s))"

definition lock_string :: "(u32 \<Rightarrow> 'a pdir_state_scheme \<Rightarrow> int \<times> 'a pdir_state_scheme) \<Rightarrow> u32 \<Rightarrow> 'a pdir_state_scheme \<Rightarrow> (int \<times> 'a pdir_state_scheme) option" where
  "lock_string fetch v s =
     (if v \<noteq> 0 then do { (ok, s1) \<leftarrow> str_access fetch v PT_USER_READ s; Some (if ok then 0 else - EFAULT, s1) } else Some (0, s))"

text \<open>
  An entry of an I/O vector is its length followed by its address. The length is unsigned, so the test \<^verbatim>\<open>iov->iov_len < 0\<close> of the loop never holds
  and is left out; as an argument of \<^verbatim>\<open>mem_access\<close> the length is taken as signed.
\<close>

fun check_iovec_loop :: "(u32 \<Rightarrow> 'a pdir_state_scheme \<Rightarrow> int \<times> 'a pdir_state_scheme) \<Rightarrow> bool \<Rightarrow> u32 \<Rightarrow> nat \<Rightarrow> 'a pdir_state_scheme \<Rightarrow> int \<times> 'a pdir_state_scheme" where
  "check_iovec_loop fetch modify iov 0 s = (0, s)"
| "check_iovec_loop fetch modify iov (Suc n) s =
     (if load32 s (iov + 4) \<noteq> 0 then
        (case mem_access fetch (load32 s (iov + 4)) (sint (load32 s iov)) (access_mode modify) s of (ok, s1) \<Rightarrow>
           if ok then check_iovec_loop fetch modify (iov + 8) n s1 else (- EFAULT, s1))
      else if load32 s iov \<noteq> 0 then (- EFAULT, s)
      else check_iovec_loop fetch modify (iov + 8) n s)"

definition check_iovec :: "(u32 \<Rightarrow> 'a pdir_state_scheme \<Rightarrow> int \<times> 'a pdir_state_scheme) \<Rightarrow> u32 \<Rightarrow> int \<Rightarrow> bool \<Rightarrow> 'a pdir_state_scheme \<Rightarrow> int \<times> 'a pdir_state_scheme" where
  "check_iovec fetch iov iovlen modify s =
     (if iov \<noteq> 0 then
        if iovlen < 0 then (- EINVAL, s)
        else (case mem_access fetch iov (sint (of_int iovlen * 8 :: u32)) PT_USER_READ s of (ok, s1) \<Rightarrow>
          if ok then check_iovec_loop fetch modify iov (nat iovlen) s1 else (- EFAULT, s1))
      else (if iovlen \<noteq> 0 then - EFAULT else 0, s))"

definition OSBASE :: u32 where "OSBASE = 0x80000000"

definition lock_fdset :: "(u32 \<Rightarrow> 'a pdir_state_scheme \<Rightarrow> int \<times> 'a pdir_state_scheme) \<Rightarrow> u32 \<Rightarrow> bool \<Rightarrow> 'a pdir_state_scheme \<Rightarrow> int \<times> 'a pdir_state_scheme" where
  "lock_fdset fetch fds modify s =
     (if fds \<noteq> 0 then
        case mem_access fetch fds 4 (access_mode modify) s of (ok, s1) \<Rightarrow>
          if \<not> ok then (- EFAULT, s1)
          else if fds \<ge> OSBASE then (- EFAULT, s1)
          else let bytes = (load32 s1 fds + 1) * 4
               in if fds + bytes \<ge> OSBASE then (- EFAULT, s1)
                  else (case mem_access fetch fds (sint bytes) (access_mode modify) s1 of (ok2, s2) \<Rightarrow>
                    if ok2 then (0, s2) else (- EFAULT, s2))
      else (0, s))"

section \<open>What the checks establish\<close>

definition accessible :: "'a pdir_state_scheme \<Rightarrow> u32 \<Rightarrow> u32 \<Rightarrow> bool" where
  "accessible s access v \<longleftrightarrow> GET_PDE s v AND PT_PRESENT \<noteq> 0 \<and> GET_PTE s v AND access = access"

text \<open>
  What the checks rely on of \<^verbatim>\<open>fetch_page\<close>: it takes no access to a page away, and a call that fails gives none. A page is refused when it is not
  accessible, and has no page table, or belongs to no mapped file, or was asked for in the last step.
\<close>

definition fetch_ok :: "(u32 \<Rightarrow> 'a pdir_state_scheme \<Rightarrow> int \<times> 'a pdir_state_scheme) \<Rightarrow> u32 \<Rightarrow> bool" where
  "fetch_ok fetch access \<longleftrightarrow> (\<forall>a s rc s1. fetch a s = (rc, s1) \<longrightarrow>
     (\<forall>v. GET_PDE s v AND PT_PRESENT \<noteq> 0 \<longrightarrow> GET_PDE s1 v AND PT_PRESENT \<noteq> 0) \<and> (\<forall>v. accessible s access v \<longrightarrow> accessible s1 access v) \<and>
     (rc < 0 \<longrightarrow> (\<forall>v. accessible s1 access v \<longrightarrow> accessible s access v)))"

definition refused :: "(u32 \<Rightarrow> 'a pdir_state_scheme \<Rightarrow> int \<times> 'a pdir_state_scheme) \<Rightarrow> u32 \<Rightarrow> 'a pdir_state_scheme \<Rightarrow> u32 \<Rightarrow> bool" where
  "refused fetch access s v \<longleftrightarrow> \<not> accessible s access v \<and>
     (GET_PDE s v AND PT_PRESENT = 0 \<or> GET_PTE s v AND PT_FILE = 0 \<or> (\<exists>t rc. fetch (PAGEADDR v) t = (rc, s)))"

lemma page_access_spec:
  assumes "fetch_ok fetch access" and "page_access fetch v access s = (ok, s1)"
  shows "accessible s access a \<Longrightarrow> accessible s1 access a" and "if ok then accessible s1 access v else refused fetch access s1 v"
proof -
  have "(\<forall>a. accessible s access a \<longrightarrow> accessible s1 access a) \<and> (if ok then accessible s1 access v else refused fetch access s1 v)"
  proof (cases "GET_PDE s v AND PT_PRESENT \<noteq> 0 \<and> GET_PTE s v AND access \<noteq> access \<and> GET_PTE s v AND PT_FILE \<noteq> 0")
    case True
    obtain rc t where f: "fetch (PAGEADDR v) s = (rc, t)" by fastforce
    have t: "s1 = t" "ok \<longleftrightarrow> \<not> rc < 0 \<and> GET_PTE t v AND access = access" using assms(2) True f by (auto simp: page_access_def split: if_splits)
    note ok = assms(1) [unfolded fetch_ok_def, rule_format, OF f]
    have "\<not> accessible s access v" using True by (simp add: accessible_def)
    then have "\<not> ok \<Longrightarrow> \<not> accessible t access v" using ok t(2) by (auto simp: accessible_def)
    moreover have "ok \<Longrightarrow> accessible t access v" using ok t(2) True by (simp add: accessible_def)
    ultimately show ?thesis using ok f t(1) unfolding refused_def by auto
  next
    case False
    then have "s1 = s" "ok \<longleftrightarrow> accessible s access v" "\<not> ok \<Longrightarrow> GET_PDE s v AND PT_PRESENT = 0 \<or> GET_PTE s v AND PT_FILE = 0"
      using assms(2) by (auto simp: page_access_def accessible_def split: if_splits)
    then show ?thesis unfolding refused_def by auto
  qed
  then show "accessible s access a \<Longrightarrow> accessible s1 access a" and "if ok then accessible s1 access v else refused fetch access s1 v" by blast+
qed

text \<open>The addresses that are looked at: every 4096 bytes from the first one on, not the first bytes of the pages.\<close>

definition strides_ok :: "'a pdir_state_scheme \<Rightarrow> u32 \<Rightarrow> u32 \<Rightarrow> int \<Rightarrow> bool" where
  "strides_ok s access v sz \<longleftrightarrow> (\<forall>k. k = 0 \<or> 4096 * int k < sz \<longrightarrow> accessible s access (v + of_nat (4096 * k)))"

lemma strides_ok_step:
  "strides_ok s access v sz \<longleftrightarrow> accessible s access v \<and> (4096 < sz \<longrightarrow> strides_ok s access (v + 4096) (sz - 4096))"
proof -
  let ?A = "\<lambda>k. accessible s access (v + of_nat (4096 * k))"
  have "strides_ok s access v sz \<longleftrightarrow> ?A 0 \<and> (\<forall>k. 4096 * int (Suc k) < sz \<longrightarrow> ?A (Suc k))"
    unfolding strides_ok_def by (metis nat.exhaust)
  moreover have "(\<forall>k. 4096 * int (Suc k) < sz \<longrightarrow> ?A (Suc k)) \<longleftrightarrow> (4096 < sz \<longrightarrow> strides_ok s access (v + 4096) (sz - 4096))"
  proof (cases "4096 < sz")
    case True
    then have "k = 0 \<or> 4096 * int k < sz - 4096 \<longleftrightarrow> 4096 * int (Suc k) < sz" for k by auto
    then show ?thesis using True unfolding strides_ok_def by (simp add: add.assoc)
  qed auto
  ultimately show ?thesis by simp
qed

definition strides_checked :: "(u32 \<Rightarrow> 'a pdir_state_scheme \<Rightarrow> int \<times> 'a pdir_state_scheme) \<Rightarrow> u32 \<Rightarrow> u32 \<Rightarrow> int \<Rightarrow> bool \<Rightarrow> 'a pdir_state_scheme \<Rightarrow> bool" where
  "strides_checked fetch access v sz ok s \<longleftrightarrow>
     (if ok then strides_ok s access v sz else \<exists>k. (k = 0 \<or> 4096 * int k < sz) \<and> refused fetch access s (v + of_nat (4096 * k)))"

lemma strides_checked_next:
  assumes "strides_checked fetch access (v + 4096) (sz - 4096) ok s" and "4096 < sz" and "ok \<Longrightarrow> accessible s access v"
  shows "strides_checked fetch access v sz ok s"
proof (cases ok)
  case True
  then show ?thesis using assms strides_ok_step [of s access v sz] by (simp add: strides_checked_def)
next
  case False
  then obtain k where k: "k = 0 \<or> 4096 * int k < sz - 4096" "refused fetch access s (v + 4096 + of_nat (4096 * k))" using assms(1) by (auto simp: strides_checked_def)
  have e: "v + of_nat (4096 * Suc k) = v + 4096 + of_nat (4096 * k)" by (simp add: add.assoc)
  have "4096 * int (Suc k) < sz" using k(1) assms(2) by auto
  then have "4096 * int (Suc k) < sz \<and> refused fetch access s (v + of_nat (4096 * Suc k))" unfolding e using k(2) by blast
  then show ?thesis using False unfolding strides_checked_def by (simp only: if_False) blast
qed

lemma mem_access_loop_strides:
  assumes "fetch_ok fetch access"
  shows "0 \<le> sz \<Longrightarrow> sz < 2 ^ 31 \<Longrightarrow> mem_access_loop fetch access v (v + 4096) sz s = (ok, s') \<Longrightarrow>
    (\<forall>a. accessible s access a \<longrightarrow> accessible s' access a) \<and> strides_checked fetch access v sz ok s'"
proof (induction "nat sz" arbitrary: v sz s rule: less_induct)
  case less
  obtain ok1 s1 where p: "page_access fetch v access s = (ok1, s1)" by fastforce
  note ps = page_access_spec [OF assms p]
  have "mem_access_loop fetch access v (v + 4096) sz s = (if \<not> ok1 then (False, s1) else if sz \<le> 4096 then (True, s1) else mem_access_loop fetch access (v + 4096) (v + 4096 + 4096) (sz - 4096) s1)"
    using size_left_pos(2) [OF less.prems(1,2)] by (subst mem_access_loop.simps) (simp add: p Let_def)
  note loop = this [unfolded less.prems(3)]
  show ?case
  proof (cases "ok1 \<and> 4096 < sz")
    case True
    have m: "mem_access_loop fetch access (v + 4096) (v + 4096 + 4096) (sz - 4096) s1 = (ok, s')" using loop True by simp
    have "(\<forall>a. accessible s1 access a \<longrightarrow> accessible s' access a) \<and> strides_checked fetch access (v + 4096) (sz - 4096) ok s'"
      by (rule less.hyps [OF _ _ _ m]) (use True less.prems in simp_all)
    then show ?thesis using ps True strides_checked_next [of fetch access v sz ok s'] by simp
  next
    case False
    then have l: "s' = s1" "ok = ok1" using loop by (auto split: if_splits)
    have "strides_checked fetch access v sz ok s'"
    proof (cases ok1)
      case True
      then have "strides_ok s1 access v sz" using ps(2) False strides_ok_step [of s1 access v sz] by simp
      then show ?thesis using True l by (simp add: strides_checked_def)
    next
      case False
      then have "refused fetch access s1 (v + of_nat (4096 * 0))" using ps(2) by simp
      then show ?thesis using False l unfolding strides_checked_def by (simp only: if_False) blast
    qed
    then show ?thesis using ps(1) l by simp
  qed
qed

lemma clear_bit: "v AND NOT (2 ^ k) = v \<or> (v AND NOT (2 ^ k)) + 2 ^ k = (v :: u32)"
proof (cases "bit v k")
  case True
  have "(v AND NOT (2 ^ k)) AND 2 ^ k = 0" by (rule bit_word_eqI) (auto simp: bit_simps)
  then have "(v AND NOT (2 ^ k)) + 2 ^ k = (v AND NOT (2 ^ k)) OR 2 ^ k" by (rule disjunctive_add_eq_or)
  also have "\<dots> = v" by (rule bit_word_eqI) (use True in \<open>auto simp: bit_simps\<close>)
  finally show ?thesis by simp
next
  case False
  have "v AND NOT (2 ^ k) = v" by (rule bit_word_eqI) (use False in \<open>auto simp: bit_simps\<close>)
  then show ?thesis by simp
qed

lemma mem_access_strides:
  assumes "fetch_ok fetch access" and "0 \<le> sz" "sz < 2 ^ 31" and "mem_access fetch v sz access s = (ok, s')"
  shows "strides_checked fetch access v sz ok s'"
  using clear_bit [of v 12]
proof (elim disjE)
  assume "v AND NOT (2 ^ 12) = v"
  then show ?thesis using mem_access_loop_strides [OF assms(1-3)] assms(4) by (simp add: mem_access_def)
next
  assume "(v AND NOT (2 ^ 12)) + 2 ^ 12 = v"
  then have m: "mem_access_loop fetch access v v sz s = (ok, s')" using assms(4) by (simp add: mem_access_def)
  obtain ok1 s1 where p: "page_access fetch v access s = (ok1, s1)" by fastforce
  note ps = page_access_spec(2) [OF assms(1) p]
  have "mem_access_loop fetch access v v sz s = (if \<not> ok1 then (False, s1) else if sz \<le> 0 then (True, s1) else mem_access_loop fetch access v (v + 4096) sz s1)"
    using size_left_pos(1) [OF assms(2,3)] by (subst mem_access_loop.simps) (simp add: p Let_def)
  note r = this [unfolded m]
  show ?thesis
  proof (cases "ok1 \<and> 0 < sz")
    case True
    then show ?thesis using r mem_access_loop_strides [OF assms(1-3), of v s1 ok s'] by simp
  next
    case False
    show ?thesis
    proof (cases ok1)
      case True
      then have "strides_ok s1 access v sz" using ps False strides_ok_step [of s1 access v sz] by simp
      then show ?thesis using r True False by (simp add: strides_checked_def)
    next
      case nok: False
      then have "refused fetch access s1 (v + of_nat (4096 * 0))" using ps by simp
      then show ?thesis using r nok unfolding strides_checked_def by (simp only: if_False) auto
    qed
  qed
qed

lemma same_page:
  assumes "PTABIDX v = PTABIDX w"
  shows "accessible s access v \<longleftrightarrow> accessible s access w" and "GET_PTE s v = GET_PTE s w"
proof -
  have "drop_bit 12 v = drop_bit 12 w" using assms by (simp add: PTABIDX_def word_unat_eq_iff)
  then have "drop_bit 10 (drop_bit 12 v) = drop_bit 10 (drop_bit 12 w)" by (simp only:)
  then have "PDEIDX v = PDEIDX w" by (simp add: PDEIDX_def)
  then show "accessible s access v \<longleftrightarrow> accessible s access w" and "GET_PTE s v = GET_PTE s w"
    using assms by (simp_all add: accessible_def GET_PDE_def GET_PTE_def pde_slot_def)
qed

lemma within_page:
  assumes "unat (PGOFF v) + i < 4096"
  shows "PTABIDX (v + of_nat i) = PTABIDX v"
proof -
  define q r where "q = unat v div 4096" and "r = unat v mod 4096"
  have d: "unat v = q * 4096 + r" by (simp add: q_def r_def)
  have "q < 1048576" using unat_u32_lt [of v] by (simp add: q_def div_less_iff_less_mult)
  moreover have i: "r + i < 4096" using assms by (simp add: page_offset r_def)
  ultimately have "unat v + i < 2 ^ 32" using d by simp
  moreover have "(unat v + i) div 4096 = q" unfolding d using i by (simp add: add.assoc)
  ultimately show ?thesis using page_number_add [of v i] by (simp add: page_number q_def)
qed

lemma str_scan_image:
  assumes "\<And>i. unat (PGOFF v) + i < 4096 \<Longrightarrow> load8 s (v + of_nat i) = img (v + of_nat i)" and "\<And>i. i < n \<Longrightarrow> img (v + of_nat i) \<noteq> 0" and "img (v + of_nat n) = 0"
  shows "str_scan s v = (if unat (PGOFF v) + n < 4096 then None else Some (v + of_nat (4096 - unat (PGOFF v))))"
  using assms
proof (induction n arbitrary: v)
  case 0
  then show ?case using page_offset [of v] 0(1) [of 0] by (simp add: str_scan.simps)
next
  case (Suc n)
  have "unat (PGOFF v) < 4096" by (simp add: page_offset)
  then have "load8 s v \<noteq> 0" using Suc.prems(1,2) [of 0] by simp
  show ?case
  proof (cases "PGOFF (v + 1) = 0")
    case True
    then have "(unat v + 1) mod 4096 = 0" using page_offset [of "v + 1"] by (simp add: unat_word_ariths mod_mod_cancel)
    then have "unat (PGOFF v) = 4095" unfolding page_offset by (simp add: mod_Suc split: if_splits)
    then show ?thesis using True \<open>load8 s v \<noteq> 0\<close> by (simp add: str_scan.simps)
  next
    case False
    have o: "unat (PGOFF (v + 1)) = unat (PGOFF v) + 1" by (rule page_offset_Suc [OF False])
    have "str_scan s (v + 1) = (if unat (PGOFF (v + 1)) + n < 4096 then None else Some (v + 1 + of_nat (4096 - unat (PGOFF (v + 1)))))"
    proof (rule Suc.IH)
      show "load8 s (v + 1 + of_nat i) = img (v + 1 + of_nat i)" if "unat (PGOFF (v + 1)) + i < 4096" for i
        using Suc.prems(1) [of "Suc i"] that o by (simp add: add.assoc)
      show "img (v + 1 + of_nat i) \<noteq> 0" if "i < n" for i using Suc.prems(2) [of "Suc i"] that by (simp add: add.assoc)
      show "img (v + 1 + of_nat n) = 0" using Suc.prems(3) by (simp add: add.assoc)
    qed
    moreover have "unat (PGOFF (v + 1)) < 4096" by (simp add: page_offset)
    ultimately show ?thesis using False \<open>load8 s v \<noteq> 0\<close> o
      by (subst str_scan.simps) (auto simp: of_nat_diff)
  qed
qed

lemma offset_shift: "v + of_nat r + of_nat i = v + (of_nat (r + i) :: u32)"
  by (simp add: add.assoc)

lemma all_offsets_split:
  fixes v :: u32
  assumes "r \<le> n" and "\<And>i. i < r \<Longrightarrow> P (v + of_nat i)"
  shows "(\<forall>i \<le> n - r. P (v + of_nat r + of_nat i)) \<longleftrightarrow> (\<forall>i \<le> n. P (v + of_nat i))"
proof
  assume all: "\<forall>i \<le> n - r. P (v + of_nat r + of_nat i)"
  show "\<forall>i \<le> n. P (v + of_nat i)"
  proof (intro allI impI)
    fix i assume "i \<le> n"
    show "P (v + of_nat i)"
    proof (cases "i < r")
      case False
      then obtain j where "i = r + j" by (metis le_Suc_ex not_less)
      moreover have "j \<le> n - r" using \<open>i \<le> n\<close> \<open>i = r + j\<close> by simp
      ultimately show ?thesis using all offset_shift by metis
    qed (rule assms(2))
  qed
next
  assume all: "\<forall>i \<le> n. P (v + of_nat i)"
  show "\<forall>i \<le> n - r. P (v + of_nat r + of_nat i)"
    unfolding offset_shift using all assms(1) by (simp del: of_nat_add)
qed

section \<open>Properties\<close>

text \<open>
  C22: \<^verbatim>\<open>lock_buffer\<close> answers 0 or \<^verbatim>\<open>-EFAULT\<close> for a buffer of less than 2\^31 bytes, provided \<^verbatim>\<open>fetch_page\<close> takes no access away and gives none when it fails. It looks at the first byte and at the bytes that
  follow that one at multiples of 4096 within the buffer. When it answers 0 the process may use all of them; when it answers \<^verbatim>\<open>-EFAULT\<close> there is one among them that the process may not use, and
  its page has no page table, or belongs to no mapped file, or \<^verbatim>\<open>fetch_page\<close> was just called for it. Bytes in between are not looked at, since \<^verbatim>\<open>mem_access\<close>
  computes the end of the first page with the mask \<^verbatim>\<open>~PAGESIZE\<close> in place of \<^verbatim>\<open>~(PAGESIZE - 1)\<close>: the witness is a buffer of 16 bytes that is accepted and ends in the kernel.
\<close>

theorem lock_buffer_correct:
  assumes "fetch_ok fetch (access_mode modify)" and "v \<noteq> 0" and "0 \<le> sz" "sz < 2 ^ 31" and "lock_buffer fetch v sz modify s = (rc, s')"
  shows "rc = 0 \<and> (\<forall>k. k = 0 \<or> 4096 * int k < sz \<longrightarrow> accessible s' (access_mode modify) (v + of_nat (4096 * k))) \<or>
    rc = - EFAULT \<and> (\<exists>k. (k = 0 \<or> 4096 * int k < sz) \<and> refused fetch (access_mode modify) s' (v + of_nat (4096 * k)))"
proof -
  obtain ok where m: "mem_access fetch v sz (access_mode modify) s = (ok, s')" and rc: "rc = (if ok then 0 else - EFAULT)"
    using assms(2,3,5) by (auto simp: lock_buffer_def split: prod.splits if_splits)
  from mem_access_strides [OF assms(1,3,4) m] show ?thesis unfolding rc strides_checked_def strides_ok_def by (cases ok) (simp_all del: of_nat_mult)
qed

definition demo_pages :: pdir_state where
  "demo_pages = \<lparr>pfdb = (\<lambda>k. \<lparr>pf_tag = TAG_RESV, pf_word = 0\<rparr>), freelist = 0, freemem = 0, totalmem = 0, maxmem = 0,
     ptab = (\<lambda>p. if p = PTABIDX PTBASE + 511 then 7 else if p = 0x7FFFF then PT_FILE else 0), phys = (\<lambda>k i. 0)\<rparr>"

text \<open>
  The last page below the kernel is the only one of the process. It belongs to a mapped file and is not in memory, and reading it puts zeros there and makes it accessible. The buffer of 16 bytes ends in the kernel's first page.
\<close>

definition demo_fetch :: "u32 \<Rightarrow> pdir_state \<Rightarrow> int \<times> pdir_state" where
  "demo_fetch v s = (0, s\<lparr>ptab := (ptab s)(PTABIDX v := 7), phys := (\<lambda>k i. 0)\<rparr>)"

lemma demo_fetch_ok: "access AND 7 = access \<Longrightarrow> fetch_ok demo_fetch access"
proof -
  assume a: "access AND 7 = access"
  then have "7 AND access = access" by (simp add: and.commute)
  then show ?thesis by (auto simp: fetch_ok_def demo_fetch_def accessible_def GET_PDE_def GET_PTE_def PT_PRESENT_def)
qed

lemmas demo_pages_defs = accessible_def demo_pages_def demo_fetch_def GET_PDE_def GET_PTE_def pde_slot_def PDEIDX_def PTABIDX_def PTBASE_def PAGEADDR_def
  PT_USER_WRITE_def PT_USER_READ_def PT_PRESENT_def PT_USER_def PT_WRITABLE_def PT_FILE_def

theorem lock_buffer_correct_witness:
  "\<exists>s'. lock_buffer demo_fetch 0x7FFFFFF8 16 True demo_pages = (0, s') \<and> accessible s' PT_USER_WRITE 0x7FFFFFF8 \<and> \<not> accessible s' PT_USER_WRITE (0x7FFFFFF8 + 15)"
proof -
  define s' where "s' = snd (demo_fetch 0x7FFFFFF8 demo_pages)"
  have "page_access demo_fetch 0x7FFFFFF8 PT_USER_WRITE demo_pages = (True, s')" "page_access demo_fetch 0x7FFFFFF8 PT_USER_WRITE s' = (True, s')"
    by (simp_all add: page_access_def s'_def demo_pages_defs)
  then have l: "lock_buffer demo_fetch 0x7FFFFFF8 16 True demo_pages = (0, s')"
    using size_left_pos [of 16] by (simp add: lock_buffer_def access_mode_def mem_access_def mem_access_loop.simps Let_def)
  have "fetch_ok demo_fetch (access_mode True)" by (rule demo_fetch_ok) (simp add: access_mode_def demo_pages_defs)
  from lock_buffer_correct [OF this _ _ _ l] have "accessible s' PT_USER_WRITE 0x7FFFFFF8"
    by (auto simp: access_mode_def EFAULT_def dest: spec [of _ 0])
  moreover have "\<not> accessible s' PT_USER_WRITE (0x7FFFFFF8 + 15)" by (simp add: s'_def demo_pages_defs)
  ultimately show ?thesis using l by blast
qed

text \<open>What a process sees in its memory, its mapped files included: every page that is accessible has it, and \<^verbatim>\<open>fetch_page\<close> brings pages in with it.\<close>

definition has_image :: "(u32 \<Rightarrow> u8) \<Rightarrow> u32 \<Rightarrow> 'a pdir_state_scheme \<Rightarrow> bool" where
  "has_image img access s \<longleftrightarrow> (\<forall>v. accessible s access v \<longrightarrow> load8 s v = img v)"

definition fetch_fills :: "(u32 \<Rightarrow> 'a pdir_state_scheme \<Rightarrow> int \<times> 'a pdir_state_scheme) \<Rightarrow> u32 \<Rightarrow> (u32 \<Rightarrow> u8) \<Rightarrow> bool" where
  "fetch_fills fetch access img \<longleftrightarrow> (\<forall>a s rc s1. fetch a s = (rc, s1) \<longrightarrow> has_image img access s \<longrightarrow> has_image img access s1)"

lemma page_access_image:
  assumes "fetch_fills fetch access img" and "has_image img access s" and "page_access fetch v access s = (ok, s1)"
  shows "has_image img access s1"
  using assms by (auto simp: page_access_def fetch_fills_def split: if_splits prod.splits)

lemma page_accessible: "unat (PGOFF v) + i < 4096 \<Longrightarrow> accessible s access (v + of_nat i) \<longleftrightarrow> accessible s access v"
  using within_page [of v i] same_page(1) by simp

lemma scan_image:
  assumes "has_image img access s" and "accessible s access v" and "\<forall>i < n. img (v + of_nat i) \<noteq> 0" and "img (v + of_nat n) = 0"
  shows "str_scan s v = (if unat (PGOFF v) + n < 4096 then None else Some (v + of_nat (4096 - unat (PGOFF v))))"
proof (rule str_scan_image [where img = img])
  show "load8 s (v + of_nat i) = img (v + of_nat i)" if "unat (PGOFF v) + i < 4096" for i
    using assms(1,2) page_accessible [OF that, of s access] by (simp add: has_image_def)
qed (use assms(3,4) in auto)

lemma str_access_keeps:
  assumes "fetch_ok fetch access" and "fetch_fills fetch access img" and "has_image img access s" and "\<forall>i < n. img (v + of_nat i) \<noteq> 0" and "img (v + of_nat n) = 0"
  shows "\<exists>ok s'. str_access fetch v access s = Some (ok, s') \<and> (\<forall>a. accessible s access a \<longrightarrow> accessible s' access a) \<and>
    (if ok then \<forall>i \<le> n. accessible s' access (v + of_nat i) else \<exists>i \<le> n. refused fetch access s' (v + of_nat i))"
  using assms(3-5)
proof (induction n arbitrary: v s rule: less_induct)
  case (less n)
  obtain ok1 s1 where p: "page_access fetch v access s = (ok1, s1)" by fastforce
  note ps = page_access_spec [OF assms(1) p] and img = page_access_image [OF assms(2) less.prems(1) p]
  define r where "r = 4096 - unat (PGOFF v)"
  have r: "0 < r" "unat (PGOFF v) + r = 4096" using page_offset [of v] by (simp_all add: r_def)
  have page: "accessible t access (v + of_nat i) \<longleftrightarrow> accessible t access v" if "i < r" for i and t :: "'a pdir_state_scheme"
    using page_accessible [of v i] that r by simp
  consider (refuse) "\<not> ok1" | (last) "ok1" "n < r" | (more) "ok1" "r \<le> n" by fastforce
  then show ?case
  proof cases
    case refuse
    then have "refused fetch access s1 (v + of_nat 0)" using ps(2) by simp
    then have "\<exists>i \<le> n. refused fetch access s1 (v + of_nat i)" by blast
    then show ?thesis using refuse p ps(1) by (subst str_access.simps) auto
  next
    case last
    then have "str_scan s1 v = None" using scan_image [OF img _ less.prems(2,3)] ps(2) r by simp
    then show ?thesis using last p ps page [of _ s1] by (subst str_access.simps) auto
  next
    case more
    then have scan: "str_scan s1 v = Some (v + of_nat r)" using scan_image [OF img _ less.prems(2,3)] ps(2) r by (simp add: r_def)
    have "\<exists>ok s'. str_access fetch (v + of_nat r) access s1 = Some (ok, s') \<and> (\<forall>a. accessible s1 access a \<longrightarrow> accessible s' access a) \<and>
      (if ok then \<forall>i \<le> n - r. accessible s' access (v + of_nat r + of_nat i) else \<exists>i \<le> n - r. refused fetch access s' (v + of_nat r + of_nat i))"
    proof (rule less.IH [OF _ img])
      show "n - r < n" using more r by simp
      show "\<forall>i < n - r. img (v + of_nat r + of_nat i) \<noteq> 0" unfolding offset_shift using less.prems(2) more by (simp del: of_nat_add)
      show "img (v + of_nat r + of_nat (n - r)) = 0" unfolding offset_shift using less.prems(3) more by (simp del: of_nat_add)
    qed
    then obtain ok s' where ih: "str_access fetch (v + of_nat r) access s1 = Some (ok, s')" "\<And>a. accessible s1 access a \<Longrightarrow> accessible s' access a"
      "if ok then \<forall>i \<le> n - r. accessible s' access (v + of_nat r + of_nat i) else \<exists>i \<le> n - r. refused fetch access s' (v + of_nat r + of_nat i)" by blast
    have a: "str_access fetch v access s = Some (ok, s')" using more p scan ih(1) by (subst str_access.simps) simp
    have "if ok then \<forall>i \<le> n. accessible s' access (v + of_nat i) else \<exists>i \<le> n. refused fetch access s' (v + of_nat i)"
    proof (cases ok)
      case True
      have "accessible s' access v" using ps(2) more ih(2) by simp
      then have "\<forall>i \<le> n. accessible s' access (v + of_nat i)"
        using ih(3) True more page [of _ s'] all_offsets_split [of r n "accessible s' access" v] by simp
      then show ?thesis using True by simp
    next
      case False
      then obtain i where "i \<le> n - r" "refused fetch access s' (v + of_nat (r + i))" using ih(3) unfolding offset_shift by auto
      then have "\<exists>i \<le> n. refused fetch access s' (v + of_nat i)" using more by (intro exI [of _ "r + i"]) simp
      then show ?thesis using False by simp
    qed
    then show ?thesis using a ih(2) ps(1) by blast
  qed
qed

text \<open>
  C31: on a string that ends, in a process whose memory is as the mapped files and its pages say, \<^verbatim>\<open>str_access\<close> returns, provided \<^verbatim>\<open>fetch_page\<close> takes no access away, gives none when it fails and brings
  in what the file has. When it answers yes the process may use every byte of the string, the final zero included; when it answers no there is a byte of the string it may not use, and the page of the byte has
  no page table, or belongs to no mapped file, or \<^verbatim>\<open>fetch_page\<close> was just called for it.
\<close>

theorem str_access_correct:
  assumes "fetch_ok fetch access" and "fetch_fills fetch access img" and "has_image img access s" and "\<forall>i < n. img (v + of_nat i) \<noteq> 0" and "img (v + of_nat n) = 0"
  shows "\<exists>ok s'. str_access fetch v access s = Some (ok, s') \<and>
    (if ok then \<forall>i \<le> n. accessible s' access (v + of_nat i) else \<exists>i \<le> n. refused fetch access s' (v + of_nat i))"
  using str_access_keeps [OF assms] by blast

theorem str_access_correct_witness:
  "\<exists>s'. str_access demo_fetch 0x7FFFFFF8 PT_USER_READ demo_pages = Some (True, s') \<and> accessible s' PT_USER_READ 0x7FFFFFF8"
proof -
  define s' where "s' = snd (demo_fetch 0x7FFFFFF8 demo_pages)"
  have f: "fetch_ok demo_fetch PT_USER_READ" by (rule demo_fetch_ok) (simp add: demo_pages_defs)
  have i: "fetch_fills demo_fetch PT_USER_READ (\<lambda>v. 0)" "has_image (\<lambda>v. 0) PT_USER_READ demo_pages"
    by (auto simp: fetch_fills_def has_image_def load8_def demo_fetch_def demo_pages_def)
  have "page_access demo_fetch 0x7FFFFFF8 PT_USER_READ demo_pages = (True, s')" by (simp add: page_access_def s'_def demo_pages_defs)
  moreover have "str_scan s' 0x7FFFFFF8 = None" by (simp add: str_scan.simps s'_def demo_fetch_def load8_def)
  ultimately have "str_access demo_fetch 0x7FFFFFF8 PT_USER_READ demo_pages = Some (True, s')" by (subst str_access.simps) simp
  then show ?thesis using str_access_correct [OF f i, of 0 "0x7FFFFFF8"] by auto
qed

end
