(* ===== verification/Range_Pool.thy ===== *)
theory Range_Pool
  imports Prelude
begin

text \<open>
  The interface through which the kernel's memory managers use a resource map: a pool of
  numbers from which ranges are taken and to which they are given back. The locale states
  what the provider promises; inside it, once for every provider, a client that takes
  ranges and later gives back ranges it holds is shown never to hold overlapping ranges.
  Index 0 is the provider's failure value, so a pool never contains 0.
\<close>

section \<open>A client of a pool\<close>

text \<open>
  \<open>Take n\<close> asks for a range of \<open>n\<close> units and \<open>Give k\<close> returns the \<open>k\<close>-th range the
  client holds. The client's state is the pool and the ranges it holds as pairs of a
  first index and a length.
\<close>

datatype pool_op = Take u32 | Give nat

type_synonym held = "(u32 \<times> u32) list"

definition drop_nth :: "nat \<Rightarrow> 'a list \<Rightarrow> 'a list" where
  "drop_nth k xs = take k xs @ drop (Suc k) xs"

definition block :: "u32 \<times> u32 \<Rightarrow> nat set" where
  "block b = {unat (fst b) ..< unat (fst b) + unat (snd b)}"

fun pool_step :: "('s \<Rightarrow> u32 \<Rightarrow> u32 \<times> 's) \<Rightarrow> ('s \<Rightarrow> u32 \<Rightarrow> u32 \<Rightarrow> 's) \<Rightarrow> 's \<times> held \<Rightarrow> pool_op \<Rightarrow> 's \<times> held" where
  "pool_step tk gv (s, bs) (Take n) =
     (if n = 0 then (s, bs)
      else case tk s n of (i, s') \<Rightarrow> if i = 0 then (s', bs) else (s', (i, n) # bs))"
| "pool_step tk gv (s, bs) (Give k) =
     (if k < length bs then (gv s (fst (bs ! k)) (snd (bs ! k)), drop_nth k bs) else (s, bs))"

definition pool_run where
  "pool_run tk gv = foldl (pool_step tk gv)"

definition held_ok :: "nat set \<Rightarrow> held \<Rightarrow> bool" where
  "held_ok av bs \<longleftrightarrow> sorted_wrt (\<lambda>a b. block a \<inter> block b = {}) bs \<and>
     (\<forall>b \<in> set bs. block b \<inter> av = {} \<and> 0 < unat (fst b) \<and> 0 < unat (snd b) \<and> unat (fst b) + unat (snd b) < 2 ^ 32)"

section \<open>The contract of the provider\<close>

lemma set_drop_nth: "set (drop_nth k bs) \<subseteq> set bs"
  by (auto simp: drop_nth_def dest: in_set_takeD in_set_dropD)

lemma drop_nth_sorted: "sorted_wrt P bs \<Longrightarrow> sorted_wrt P (drop_nth k bs)"
proof (cases "k < length bs")
  case True
  assume "sorted_wrt P bs"
  then have "sorted_wrt P (take k bs @ bs ! k # drop (Suc k) bs)"
    using split_at [OF True] by simp
  then show ?thesis by (simp add: drop_nth_def sorted_wrt_append)
qed (simp add: drop_nth_def)

lemma drop_nth_related:
  assumes "sorted_wrt P bs" and "symp P" and "k < length bs" and "c \<in> set (drop_nth k bs)"
  shows "P c (bs ! k)"
proof -
  have "sorted_wrt P (take k bs @ bs ! k # drop (Suc k) bs)"
    using assms(1) split_at [OF assms(3)] by simp
  with assms(2,4) show ?thesis by (auto simp: drop_nth_def sorted_wrt_append dest: sympD)
qed

locale range_pool =
  fixes ok :: "'s \<Rightarrow> bool" and avail :: "'s \<Rightarrow> nat set"
    and tk :: "'s \<Rightarrow> u32 \<Rightarrow> u32 \<times> 's" and gv :: "'s \<Rightarrow> u32 \<Rightarrow> u32 \<Rightarrow> 's"
  assumes take_ok: "ok s \<Longrightarrow> 0 < unat n \<Longrightarrow> tk s n = (i, s') \<Longrightarrow> ok s'"
    and take_block: "ok s \<Longrightarrow> 0 < unat n \<Longrightarrow> tk s n = (i, s') \<Longrightarrow>
      i = 0 \<and> s' = s \<or> block (i, n) \<subseteq> avail s \<and> unat i + unat n < 2 ^ 32 \<and> avail s' = avail s - block (i, n)"
    and give_ok: "ok s \<Longrightarrow> block (i, n) \<inter> avail s = {} \<Longrightarrow> 0 < unat n \<Longrightarrow> unat i + unat n < 2 ^ 32 \<Longrightarrow> ok (gv s i n)"
    and give_block: "ok s \<Longrightarrow> block (i, n) \<inter> avail s = {} \<Longrightarrow> 0 < unat n \<Longrightarrow> unat i + unat n < 2 ^ 32 \<Longrightarrow>
      avail (gv s i n) = avail s \<union> block (i, n) \<or> avail (gv s i n) = avail s"
begin

definition pool_inv :: "'s \<times> held \<Rightarrow> bool" where
  "pool_inv p \<longleftrightarrow> ok (fst p) \<and> 0 \<notin> avail (fst p) \<and> held_ok (avail (fst p)) (snd p)"

lemma pool_inv_take:
  assumes "pool_inv (s, bs)"
  shows "pool_inv (pool_step tk gv (s, bs) (Take n))"
proof (cases "n = 0")
  case True
  with assms show ?thesis by simp
next
  case False
  then have n: "0 < unat n" by (simp add: unat_gt_0)
  obtain i s' where t: "tk s n = (i, s')" by (cases "tk s n")
  from assms have ok: "ok s" "0 \<notin> avail s" "held_ok (avail s) bs" by (auto simp: pool_inv_def)
  note ok' = take_ok [OF ok(1) n t]
  from take_block [OF ok(1) n t] show ?thesis
  proof
    assume "i = 0 \<and> s' = s"
    with False t assms show ?thesis by simp
  next
    assume b: "block (i, n) \<subseteq> avail s \<and> unat i + unat n < 2 ^ 32 \<and> avail s' = avail s - block (i, n)"
    have "unat i \<in> block (i, n)" using n by (simp add: block_def)
    with b ok(2) have i: "0 < unat i" by (metis gr0I subsetD)
    then have "i \<noteq> 0" by auto
    moreover have "\<forall>c \<in> set bs. block (i, n) \<inter> block c = {} \<and> block c \<inter> avail s' = {}"
      using ok(3) b unfolding held_ok_def by blast
    then have "held_ok (avail s') ((i, n) # bs)"
      using ok(3) b i n by (simp add: held_ok_def Diff_Int_distrib)
    ultimately show ?thesis using False t ok' ok(2) b by (simp add: pool_inv_def)
  qed
qed

lemma pool_inv_give:
  assumes "pool_inv (s, bs)"
  shows "pool_inv (pool_step tk gv (s, bs) (Give k))"
proof (cases "k < length bs")
  case False
  with assms show ?thesis by simp
next
  case True
  obtain i n where b: "bs ! k = (i, n)" by (cases "bs ! k")
  from assms have ok: "ok s" "0 \<notin> avail s" "held_ok (avail s) bs" by (auto simp: pool_inv_def)
  from True have mem: "(i, n) \<in> set bs" using b by (metis nth_mem)
  with ok(3) have blk: "block (i, n) \<inter> avail s = {}" "0 < unat i" "0 < unat n" "unat i + unat n < 2 ^ 32"
    by (auto simp: held_ok_def)
  have "block c \<inter> block (i, n) = {}" if "c \<in> set (drop_nth k bs)" for c
    using drop_nth_related [of "\<lambda>a b. block a \<inter> block b = {}" bs k c] that True ok(3) b
    by (auto simp: held_ok_def symp_def Int_commute)
  then have "held_ok (avail s) (drop_nth k bs)" "held_ok (avail s \<union> block (i, n)) (drop_nth k bs)"
    using ok(3) set_drop_nth [of k bs] drop_nth_sorted
    unfolding held_ok_def Int_Un_distrib Un_empty by blast+
  moreover have "0 \<notin> block (i, n)" using blk(2) by (simp add: block_def)
  ultimately show ?thesis
    using give_block [OF ok(1) blk(1,3,4)] give_ok [OF ok(1) blk(1,3,4)] True b ok(2)
    by (elim disjE) (simp_all add: pool_inv_def)
qed

lemma pool_run_inv: "pool_inv p \<Longrightarrow> pool_inv (pool_run tk gv p ops)"
proof (induction ops arbitrary: p)
  case Nil
  then show ?case by (simp add: pool_run_def)
next
  case (Cons a ops)
  have "pool_inv (pool_step tk gv p a)"
    using Cons.prems by (cases p; cases a) (simp_all only: pool_inv_take pool_inv_give)
  from Cons.IH [OF this] show ?case by (simp add: pool_run_def)
qed

end

end
