(* ===== verification/Rmap.thy ===== *)
theory Rmap
  imports Range_Pool
begin

text \<open>
  The resource map of \<^verbatim>\<open>src/src/lib/rmap.c\<close>: first-fit allocation of
  ranges of a numbered resource (pages of the kernel heap, of the module area and of the
  user address space, input/output ports). A map is an array of entries; entry 0 is a
  header whose \<^verbatim>\<open>offset\<close> counts the live entries and whose
  \<^verbatim>\<open>size\<close> is the number of slots, and the live entries follow in
  ascending order. The definitions work on that array, with pointers as indices and the
  \<^verbatim>\<open>memmove\<close> calls of the code; the counter \<^verbatim>\<open>lost_elems\<close> is
  passed along explicitly.
\<close>

section \<open>The data structure and its operations\<close>

record rment =
  r_offset :: u32
  r_size :: u32

type_synonym rmap = "rment list"

abbreviation rlim :: "rmap \<Rightarrow> nat" where
  "rlim m \<equiv> unat (r_offset (m ! 0))"

definition rmap_init :: "rmap \<Rightarrow> u32 \<Rightarrow> rmap" where
  "rmap_init m sz = m[0 := \<lparr>r_offset = 0, r_size = sz - 1\<rparr>]"

text \<open>\<open>makespace\<close> returns the code's 1 (no room) as \<open>True\<close>.\<close>

definition makespace :: "rmap \<Rightarrow> nat \<Rightarrow> bool \<times> rmap" where
  "makespace m r =
     (let lim = rlim m in
      if r_size (m ! 0) = r_offset (m ! 0) then (True, m)
      else
        let m1 = m[0 := (m ! 0)\<lparr>r_offset := r_offset (m ! 0) + 1\<rparr>] in
        if r \<le> lim then (False, memmove (r + 1) r ((lim - r) + 1) m1)
        else (False, m1))"

definition collapse :: "rmap \<Rightarrow> nat \<Rightarrow> rmap" where
  "collapse m r =
     (let lim = rlim m;
          m1 = m[0 := (m ! 0)\<lparr>r_offset := r_offset (m ! 0) - 1\<rparr>] in
      if r < lim then memmove r (r + 1) (lim - r) m1 else m1)"

text \<open>The loop of \<^verbatim>\<open>rmap_alloc\<close>: the first entry with a fit, or the index past the last.\<close>

function rmap_alloc_scan :: "rmap \<Rightarrow> u32 \<Rightarrow> nat \<Rightarrow> nat" where
  "rmap_alloc_scan m sz r =
     (if r \<le> rlim m then
        if r_size (m ! r) \<ge> sz then r else rmap_alloc_scan m sz (r + 1)
      else r)"
  by pat_completeness auto
termination
  by (relation "measure (\<lambda>(m, _, r). rlim m + 1 - r)") auto

definition rmap_alloc :: "rmap \<Rightarrow> u32 \<Rightarrow> u32 \<times> rmap" where
  "rmap_alloc m sz =
     (let r = rmap_alloc_scan m sz 1 in
      if r > rlim m then (0, m)
      else
        let idx = r_offset (m ! r) in
        if r_size (m ! r) > sz
        then (idx, m[r := \<lparr>r_offset = r_offset (m ! r) + sz, r_size = r_size (m ! r) - sz\<rparr>])
        else (idx, collapse m r))"

text \<open>
  The loop of \<^verbatim>\<open>rmap_reserve\<close>. \<open>None\<close> is falling out of the loop (the entry
  starts beyond the request, or there is no entry left), \<open>Some r\<close> is the entry whose
  range holds the requested offset.
\<close>

function rmap_reserve_scan :: "rmap \<Rightarrow> u32 \<Rightarrow> nat \<Rightarrow> nat option" where
  "rmap_reserve_scan m offset r =
     (if r \<le> rlim m then
        if r_offset (m ! r) > offset then None
        else
          let top = r_offset (m ! r) + r_size (m ! r) in
          if \<not> (r_offset (m ! r) \<le> offset \<and> top > offset)
          then rmap_reserve_scan m offset (r + 1)
          else Some r
      else None)"
  by pat_completeness auto
termination
  by (relation "measure (\<lambda>(m, _, r). rlim m + 1 - r)") auto

text \<open>\<open>rmap_reserve\<close> returns the code's 1 (failure) as \<open>True\<close>.\<close>

definition rmap_reserve :: "rmap \<Rightarrow> u32 \<Rightarrow> u32 \<Rightarrow> u32 \<Rightarrow> bool \<times> rmap \<times> u32" where
  "rmap_reserve m offset sz lost_elems =
     (case rmap_reserve_scan m offset 1 of
        None \<Rightarrow> (True, m, lost_elems)
      | Some r \<Rightarrow>
          let top = r_offset (m ! r) + r_size (m ! r); rtop = offset + sz in
          if rtop > top then (True, m, lost_elems)
          else if offset = r_offset (m ! r) then
            let m1 = m[r := \<lparr>r_offset = r_offset (m ! r) + sz, r_size = r_size (m ! r) - sz\<rparr>] in
            (False, if r_size (m1 ! r) = 0 then collapse m1 r else m1, lost_elems)
          else if rtop = top then
            (False, m[r := (m ! r)\<lparr>r_size := r_size (m ! r) - sz\<rparr>], lost_elems)
          else
            (case makespace m r of
               (True, m1) \<Rightarrow>
                 let osize = r_size (m1 ! r) in
                 (False, m1[r := \<lparr>r_offset = rtop, r_size = top - rtop\<rparr>],
                  lost_elems + ((osize - (top - rtop)) - sz))
             | (False, m1) \<Rightarrow>
                 let m2 = m1[r := (m1 ! r)\<lparr>r_size := offset - r_offset (m1 ! r)\<rparr>] in
                 (False, m2[r + 1 := \<lparr>r_offset = rtop, r_size = top - rtop\<rparr>], lost_elems)))"

definition align_gap :: "u32 \<Rightarrow> u32 \<Rightarrow> u32" where
  "align_gap offset align =
     (if offset mod align = 0 then 0 else align - (offset mod align))"

function rmap_alloc_align_scan :: "rmap \<Rightarrow> u32 \<Rightarrow> u32 \<Rightarrow> nat \<Rightarrow> nat" where
  "rmap_alloc_align_scan m sz align r =
     (if r \<le> rlim m then
        if r_size (m ! r) \<ge> sz + align_gap (r_offset (m ! r)) align then r
        else rmap_alloc_align_scan m sz align (r + 1)
      else r)"
  by pat_completeness auto
termination
  by (relation "measure (\<lambda>(m, _, _, r). rlim m + 1 - r)") auto

definition rmap_alloc_align :: "rmap \<Rightarrow> u32 \<Rightarrow> u32 \<Rightarrow> u32 \<Rightarrow> u32 \<times> rmap \<times> u32" where
  "rmap_alloc_align m sz align lost_elems =
     (let r = rmap_alloc_align_scan m sz align 1 in
      if r > rlim m then (0, m, lost_elems)
      else
        let idx = r_offset (m ! r) + align_gap (r_offset (m ! r)) align in
        (case rmap_reserve m idx sz lost_elems of
           (True, m1, lost1) \<Rightarrow> (0, m1, lost1)
         | (False, m1, lost1) \<Rightarrow> (idx, m1, lost1)))"

text \<open>
  The loop of \<^verbatim>\<open>rmap_free\<close> ends in one of three ways: the new range is tacked
  onto the end of an entry, padded onto the beginning of one, or has to become an entry
  of its own at the index returned.
\<close>

datatype free_place = Tack nat | Pad nat | Fresh nat

function rmap_free_scan :: "rmap \<Rightarrow> u32 \<Rightarrow> u32 \<Rightarrow> nat \<Rightarrow> free_place" where
  "rmap_free_scan m offset sz r =
     (if r \<le> rlim m then
        if r_offset (m ! r) + r_size (m ! r) = offset then Tack r
        else if offset + sz = r_offset (m ! r) then Pad r
        else if offset < r_offset (m ! r) then Fresh r
        else rmap_free_scan m offset sz (r + 1)
      else Fresh r)"
  by pat_completeness auto
termination
  by (relation "measure (\<lambda>(m, _, _, r). rlim m + 1 - r)") auto

definition rmap_free :: "rmap \<Rightarrow> u32 \<Rightarrow> u32 \<Rightarrow> u32 \<Rightarrow> rmap \<times> u32" where
  "rmap_free m offset sz lost_elems =
     (let lim = rlim m in
      case rmap_free_scan m offset sz 1 of
        Tack r \<Rightarrow>
          let m1 = m[r := (m ! r)\<lparr>r_size := r_size (m ! r) + sz\<rparr>] in
          if r < lim \<and> r_offset (m1 ! r) + r_size (m1 ! r) = r_offset (m1 ! (r + 1)) then
            let m2 = m1[r := (m1 ! r)\<lparr>r_size := r_size (m1 ! r) + r_size (m1 ! (r + 1))\<rparr>];
                m3 = m2[0 := (m2 ! 0)\<lparr>r_offset := r_offset (m2 ! 0) - 1\<rparr>];
                r' = r + 1 in
            (if r' < lim then memmove r' (r' + 1) (lim - r') m3 else m3, lost_elems)
          else (m1, lost_elems)
      | Pad r \<Rightarrow>
          (m[r := \<lparr>r_offset = offset, r_size = r_size (m ! r) + sz\<rparr>], lost_elems)
      | Fresh r \<Rightarrow>
          (case makespace m r of
             (True, m1) \<Rightarrow> (m1, lost_elems + sz)
           | (False, m1) \<Rightarrow> (m1[r := \<lparr>r_offset = offset, r_size = sz\<rparr>], lost_elems)))"

function rmap_status_scan :: "rmap \<Rightarrow> u32 \<Rightarrow> u32 \<Rightarrow> nat \<Rightarrow> int" where
  "rmap_status_scan m offset sz r =
     (if r \<le> rlim m then
        if r_offset (m ! r) > offset then
          (if offset + sz > r_offset (m ! r) then -1 else 1)
        else
          let top = r_offset (m ! r) + r_size (m ! r) in
          if \<not> (r_offset (m ! r) \<le> offset \<and> top > offset)
          then rmap_status_scan m offset sz (r + 1)
          else
            let rtop = offset + sz in
            if rtop < top then 0 else -1
      else 1)"
  by pat_completeness auto
termination
  by (relation "measure (\<lambda>(m, _, _, r). rlim m + 1 - r)") auto

definition rmap_status :: "rmap \<Rightarrow> u32 \<Rightarrow> u32 \<Rightarrow> int" where
  "rmap_status m offset sz = rmap_status_scan m offset sz 1"

declare rmap_alloc_scan.simps [simp del] rmap_reserve_scan.simps [simp del]
  rmap_alloc_align_scan.simps [simp del] rmap_free_scan.simps [simp del]
  rmap_status_scan.simps [simp del]

section \<open>Representation, invariant and abstraction\<close>

text \<open>
  \<open>rmap_rep m h es rest\<close> splits the array into its header, its live entries and its
  unused slots. The invariant \<open>rmap_ok\<close> says that the header counts the slots and that the
  live entries are non-empty, ascending, separated by gaps and below the word size. The
  abstraction of a map is the set of free units, \<open>free_set\<close>. \<open>trim_front\<close>,
  \<open>cut_out\<close> and \<open>ins_range\<close> are the reference operations on the list of live entries.
\<close>

definition rmap_rep :: "rmap \<Rightarrow> rment \<Rightarrow> rment list \<Rightarrow> rment list \<Rightarrow> bool" where
  "rmap_rep m h es rest \<longleftrightarrow>
     m = h # es @ rest \<and> unat (r_offset h) = length es \<and> unat (r_size h) = length es + length rest"

definition live :: "rmap \<Rightarrow> rment list" where
  "live m = take (rlim m) (tl m)"

abbreviation lo :: "rment \<Rightarrow> nat" where
  "lo e \<equiv> unat (r_offset e)"

abbreviation hi :: "rment \<Rightarrow> nat" where
  "hi e \<equiv> unat (r_offset e) + unat (r_size e)"

definition ents_ok :: "rment list \<Rightarrow> bool" where
  "ents_ok es \<longleftrightarrow> sorted_wrt (\<lambda>a b. hi a < lo b) es \<and> (\<forall>e \<in> set es. 0 < unat (r_size e) \<and> hi e < 2 ^ 32)"

definition rmap_ok :: "rmap \<Rightarrow> bool" where
  "rmap_ok m \<longleftrightarrow> m \<noteq> [] \<and> length m = unat (r_size (m ! 0)) + 1 \<and>
     rlim m \<le> unat (r_size (m ! 0)) \<and> ents_ok (live m)"

definition ranges :: "rment list \<Rightarrow> nat set" where
  "ranges es = (\<Union>e \<in> set es. {lo e ..< hi e})"

definition free_set :: "rmap \<Rightarrow> nat set" where
  "free_set m = ranges (live m)"

definition trim_front :: "rment \<Rightarrow> u32 \<Rightarrow> rment list" where
  "trim_front e sz =
     (if r_size e = sz then [] else [\<lparr>r_offset = r_offset e + sz, r_size = r_size e - sz\<rparr>])"

definition cut_out :: "rment \<Rightarrow> u32 \<Rightarrow> u32 \<Rightarrow> rment list" where
  "cut_out e offset sz =
     (if offset = r_offset e then [] else [\<lparr>r_offset = r_offset e, r_size = offset - r_offset e\<rparr>]) @
     (if offset + sz = r_offset e + r_size e then []
      else [\<lparr>r_offset = offset + sz, r_size = (r_offset e + r_size e) - (offset + sz)\<rparr>])"

fun ins_range :: "u32 \<Rightarrow> u32 \<Rightarrow> rment list \<Rightarrow> rment list" where
  "ins_range offset sz [] = [\<lparr>r_offset = offset, r_size = sz\<rparr>]"
| "ins_range offset sz (e # es) =
     (if r_offset e + r_size e = offset then
        (case es of
           f # fs \<Rightarrow>
             if r_offset e + (r_size e + sz) = r_offset f
             then \<lparr>r_offset = r_offset e, r_size = r_size e + sz + r_size f\<rparr> # fs
             else \<lparr>r_offset = r_offset e, r_size = r_size e + sz\<rparr> # es
         | [] \<Rightarrow> [\<lparr>r_offset = r_offset e, r_size = r_size e + sz\<rparr>])
      else if offset + sz = r_offset e then \<lparr>r_offset = offset, r_size = r_size e + sz\<rparr> # es
      else if offset < r_offset e then \<lparr>r_offset = offset, r_size = sz\<rparr> # e # es
      else e # ins_range offset sz es)"

definition passes :: "u32 \<Rightarrow> u32 \<Rightarrow> rment \<Rightarrow> bool" where
  "passes offset sz e \<longleftrightarrow> r_offset e + r_size e \<noteq> offset \<and> offset + sz \<noteq> r_offset e \<and> \<not> offset < r_offset e"

definition rmap_demo :: rmap where
  "rmap_demo =
     [\<lparr>r_offset = 2, r_size = 3\<rparr>, \<lparr>r_offset = 4, r_size = 4\<rparr>, \<lparr>r_offset = 16, r_size = 8\<rparr>,
      \<lparr>r_offset = 0, r_size = 0\<rparr>]"

section \<open>The array operations refine the list operations\<close>

lemma rment_set_size: "e\<lparr>r_size := s\<rparr> = \<lparr>r_offset = r_offset e, r_size = s\<rparr>"
  by (cases e) simp

lemma rmap_rep_header:
  "rmap_rep m h es rest \<Longrightarrow>
   m \<noteq> [] \<and> m ! 0 = h \<and> length m = Suc (unat (r_size h)) \<and> unat (r_offset h) \<le> unat (r_size h)"
  by (auto simp: rmap_rep_def)

lemma rmap_rep_rlim: "rmap_rep m h es rest \<Longrightarrow> rlim m = length es"
  by (simp add: rmap_rep_def)

lemma rmap_rep_nth:
  "rmap_rep m h (xs @ e # ys) rest \<Longrightarrow> m ! Suc (length xs) = e"
  by (simp add: rmap_rep_def nth_append)

lemma rmap_rep_update:
  "rmap_rep m h (xs @ e # ys) rest \<Longrightarrow> rmap_rep (m[Suc (length xs) := e']) h (xs @ e' # ys) rest"
  by (simp add: rmap_rep_def list_update_append)

lemma rmap_rep_collapse:
  assumes "rmap_rep m h (xs @ e # ys) rest"
  shows "\<exists>h' x. rmap_rep (collapse m (Suc (length xs))) h' (xs @ ys) (x # rest) \<and> r_size h' = r_size h"
proof -
  let ?h = "h\<lparr>r_offset := r_offset h - 1\<rparr>"
  from assms have m: "m = h # xs @ e # ys @ rest"
    and off: "unat (r_offset h) = Suc (length xs + length ys)"
    and size: "unat (r_size h) = Suc (length xs + length ys + length rest)"
    by (auto simp: rmap_rep_def)
  from off have off': "unat (r_offset ?h) = length xs + length ys"
    by (simp add: unat_sub_le)
  have "collapse m (Suc (length xs)) = ?h # (xs @ ys) @ last (e # ys) # rest"
  proof (cases "ys = []")
    case True
    with m off show ?thesis by (simp add: collapse_def)
  next
    case False
    then have "drop (length ys) (e # ys @ rest) = last ys # rest"
      by (cases ys rule: rev_cases) auto
    with False m off show ?thesis
      by (simp add: collapse_def memmove_def Suc_diff_le)
  qed
  with off' size show ?thesis
    by (intro exI [of _ ?h] exI [of _ "last (e # ys)"]) (simp add: rmap_rep_def)
qed

lemma rmap_rep_makespace_full:
  "rmap_rep m h es [] \<Longrightarrow> makespace m r = (True, m)"
  by (auto simp: rmap_rep_def makespace_def u32_eq_iff)

lemma rmap_rep_makespace:
  assumes "rmap_rep m h (xs @ ys) (z # rest)"
  shows "\<exists>h' y m'. makespace m (Suc (length xs)) = (False, m') \<and>
           rmap_rep m' h' (xs @ y # ys) rest \<and> r_size h' = r_size h \<and> (ys \<noteq> [] \<longrightarrow> y = hd ys)"
proof -
  let ?h = "h\<lparr>r_offset := r_offset h + 1\<rparr>"
  from assms have m: "m = h # xs @ ys @ z # rest"
    and off: "unat (r_offset h) = length xs + length ys"
    and size: "unat (r_size h) = Suc (length xs + length ys + length rest)"
    by (auto simp: rmap_rep_def)
  have "unat (r_size h) < 2 ^ 32" by (rule unat_u32_lt)
  with off size have off': "unat (r_offset ?h) = Suc (length xs + length ys)"
    by (simp add: unat_add_lt)
  let ?y = "if ys = [] then z else hd ys"
  have neq: "r_size h \<noteq> r_offset h" using off size by (auto simp: u32_eq_iff)
  have "makespace m (Suc (length xs)) = (False, ?h # (xs @ ?y # ys) @ rest)"
  proof (cases "ys = []")
    case True
    with m off neq show ?thesis by (simp add: makespace_def)
  next
    case False
    then have "\<exists>y ys'. ys = y # ys'" by (cases ys) auto
    then obtain y ys' where "ys = y # ys'" by blast
    with m off neq show ?thesis by (simp add: makespace_def memmove_def)
  qed
  moreover have "rmap_rep (?h # (xs @ ?y # ys) @ rest) ?h (xs @ ?y # ys) rest"
    using off' size by (simp add: rmap_rep_def)
  ultimately show ?thesis by fastforce
qed

lemma rmap_alloc_scan_eq:
  "rmap_rep m h (xs @ ys) rest \<Longrightarrow>
   rmap_alloc_scan m sz (Suc (length xs)) =
     Suc (length xs) + length (takeWhile (\<lambda>e. r_size e < sz) ys)"
proof (induction ys arbitrary: xs)
  case Nil
  then show ?case by (subst rmap_alloc_scan.simps) (simp add: rmap_rep_rlim)
next
  case (Cons e ys)
  have "rmap_rep m h ((xs @ [e]) @ ys) rest" using Cons.prems by simp
  from Cons.IH [OF this] show ?case
    by (subst rmap_alloc_scan.simps)
       (simp add: rmap_rep_rlim [OF Cons.prems] rmap_rep_nth [OF Cons.prems] not_le)
qed

lemma live_rep: "rmap_rep m h es rest \<Longrightarrow> live m = es"
  by (simp add: live_def rmap_rep_def)

lemma rmap_ok_rep:
  "rmap_ok m \<longleftrightarrow> (\<exists>h rest. rmap_rep m h (live m) rest) \<and> ents_ok (live m)"
proof
  assume ok: "rmap_ok m"
  then obtain h t where m: "m = h # t" by (cases m) (auto simp: rmap_ok_def)
  with ok have "rmap_rep m h (live m) (drop (rlim m) t)"
    by (simp add: rmap_ok_def rmap_rep_def live_def)
  with ok show "(\<exists>h rest. rmap_rep m h (live m) rest) \<and> ents_ok (live m)"
    by (auto simp: rmap_ok_def)
next
  assume "(\<exists>h rest. rmap_rep m h (live m) rest) \<and> ents_ok (live m)"
  then show "rmap_ok m" by (auto simp: rmap_ok_def dest: rmap_rep_header)
qed

lemma rmap_rep_ok: "rmap_rep m h es rest \<Longrightarrow> ents_ok es \<Longrightarrow> rmap_ok m"
  by (auto simp: rmap_ok_rep live_rep)

lemma ents_ok_append:
  "ents_ok (xs @ ys) \<longleftrightarrow> ents_ok xs \<and> ents_ok ys \<and> (\<forall>x \<in> set xs. \<forall>y \<in> set ys. hi x < lo y)"
  by (auto simp: ents_ok_def sorted_wrt_append)

lemma ents_ok_Cons:
  "ents_ok (e # ys) \<longleftrightarrow> 0 < unat (r_size e) \<and> hi e < 2 ^ 32 \<and> ents_ok ys \<and> (\<forall>y \<in> set ys. hi e < lo y)"
  by (auto simp: ents_ok_def)

lemma ents_ok_Nil: "ents_ok []"
  by (simp add: ents_ok_def)

lemmas ents_ok_simps = ents_ok_append ents_ok_Cons ents_ok_Nil

lemma ranges_simps [simp]:
  "ranges [] = {}"
  "ranges (e # es) = {lo e ..< hi e} \<union> ranges es"
  "ranges (xs @ ys) = ranges xs \<union> ranges ys"
  by (auto simp: ranges_def)

lemma ranges_below: "\<forall>x \<in> set xs. hi x < b \<Longrightarrow> n \<in> ranges xs \<Longrightarrow> n < b"
  by (fastforce simp: ranges_def)

lemma ranges_above: "\<forall>y \<in> set ys. b < lo y \<Longrightarrow> n \<in> ranges ys \<Longrightarrow> b < n"
  by (fastforce simp: ranges_def)

lemma ents_ok_around:
  assumes "ents_ok (xs @ e # ys)"
  shows "(n \<in> ranges xs \<longrightarrow> n < lo e) \<and> (n \<in> ranges ys \<longrightarrow> hi e < n)"
  using assms ranges_below [of xs "lo e" n] ranges_above [of ys "hi e" n]
  by (auto simp: ents_ok_simps)

lemma takeWhile_cases:
  obtains (all) "takeWhile P es = es" "\<forall>e \<in> set es. P e"
  | (split) e ys where "es = takeWhile P es @ e # ys" "\<not> P e" "\<forall>x \<in> set (takeWhile P es). P x"
proof (cases "dropWhile P es")
  case Nil
  then have "takeWhile P es = es" by (metis append_Nil2 takeWhile_dropWhile_id)
  then show ?thesis using all by (metis set_takeWhileD)
next
  case (Cons e ys)
  then have "\<not> P e" by (metis hd_dropWhile list.sel(1) list.simps(3))
  moreover have "es = takeWhile P es @ e # ys" by (metis Cons takeWhile_dropWhile_id)
  ultimately show ?thesis using split by (metis set_takeWhileD)
qed

lemma rmap_alloc_nofit:
  assumes "rmap_rep m h es rest" and "\<forall>e \<in> set es. r_size e < sz"
  shows "rmap_alloc m sz = (0, m)"
proof -
  have "takeWhile (\<lambda>e. r_size e < sz) es = es" using assms(2) by (simp add: takeWhile_eq_all_conv)
  with rmap_alloc_scan_eq [of m h "[]" es rest sz] assms(1)
  have "rmap_alloc_scan m sz 1 = Suc (length es)" by simp
  then show ?thesis by (simp add: rmap_alloc_def rmap_rep_rlim [OF assms(1)])
qed

lemma rmap_alloc_fit:
  assumes rep: "rmap_rep m h (xs @ e # ys) rest"
    and xs: "\<forall>x \<in> set xs. r_size x < sz" and e: "sz \<le> r_size e"
  shows "\<exists>m' h' rest'. rmap_alloc m sz = (r_offset e, m') \<and> rmap_rep m' h' (xs @ trim_front e sz @ ys) rest' \<and>
    (r_size e = sz \<longrightarrow> rest' \<noteq> [])"
proof -
  have scan: "rmap_alloc_scan m sz 1 = Suc (length xs)"
    using rmap_alloc_scan_eq [of m h "[]" "xs @ e # ys" rest sz] rep xs e
    by (simp add: takeWhile_append2 not_less)
  have r: "\<not> Suc (length xs) > rlim m" using rmap_rep_rlim [OF rep] by simp
  show ?thesis
  proof (cases "r_size e = sz")
    case True
    then show ?thesis using scan r rmap_rep_nth [OF rep] rmap_rep_collapse [OF rep]
      by (fastforce simp: rmap_alloc_def trim_front_def)
  next
    case False
    let ?e = "\<lparr>r_offset = r_offset e + sz, r_size = r_size e - sz\<rparr>"
    have "sz < r_size e" using e False by simp
    then have "rmap_alloc m sz = (r_offset e, m[Suc (length xs) := ?e])"
      using scan r rmap_rep_nth [OF rep] by (simp add: rmap_alloc_def Let_def)
    moreover have "rmap_rep (m[Suc (length xs) := ?e]) h (xs @ trim_front e sz @ ys) rest"
      using rmap_rep_update [OF rep, of ?e] False by (simp add: trim_front_def)
    ultimately show ?thesis using False by blast
  qed
qed

lemma trim_front_ok:
  assumes "ents_ok (xs @ e # ys)" and "sz \<le> r_size e" and "0 < unat sz"
  shows "ents_ok (xs @ trim_front e sz @ ys)"
    and "ranges (xs @ trim_front e sz @ ys) = ranges (xs @ e # ys) - {lo e ..< lo e + unat sz}"
proof -
  have sz: "unat sz \<le> unat (r_size e)" and hi: "hi e < 2 ^ 32"
    using assms by (auto simp: word_le_nat_alt ents_ok_simps)
  have nat: "unat (r_offset e + sz) = lo e + unat sz" "unat (r_size e - sz) = unat (r_size e) - unat sz"
    using sz hi by (simp_all add: word_nat)
  show "ents_ok (xs @ trim_front e sz @ ys)"
    using assms(1) sz nat assms(3) by (fastforce simp: ents_ok_simps trim_front_def u32_eq_iff)
  have fr: "ranges (trim_front e sz) = {lo e + unat sz ..< hi e}"
    using sz nat by (cases "r_size e = sz") (simp_all add: trim_front_def)
  have "{lo e + unat sz ..< hi e} = {lo e ..< hi e} - {lo e ..< lo e + unat sz}"
    by auto
  moreover have "ranges xs - {lo e ..< lo e + unat sz} = ranges xs"
    using ents_ok_around [OF assms(1)] by fastforce
  moreover have "ranges ys - {lo e ..< lo e + unat sz} = ranges ys"
    using ents_ok_around [OF assms(1)] sz by fastforce
  ultimately show "ranges (xs @ trim_front e sz @ ys) = ranges (xs @ e # ys) - {lo e ..< lo e + unat sz}"
    by (simp only: fr ranges_simps Un_Diff)
qed

lemma rmap_reserve_scan_skip:
  "rmap_rep m h (xs @ zs @ ys) rest \<Longrightarrow>
   \<forall>z \<in> set zs. r_offset z \<le> offset \<and> r_offset z + r_size z \<le> offset \<Longrightarrow>
   rmap_reserve_scan m offset (Suc (length xs)) = rmap_reserve_scan m offset (Suc (length (xs @ zs)))"
proof (induction zs arbitrary: xs)
  case Nil
  then show ?case by simp
next
  case (Cons z zs)
  have rep: "rmap_rep m h (xs @ z # zs @ ys) rest" using Cons.prems(1) by simp
  have "rmap_reserve_scan m offset (Suc (length (xs @ [z]))) = rmap_reserve_scan m offset (Suc (length ((xs @ [z]) @ zs)))"
    using Cons.prems by (intro Cons.IH) simp_all
  then show ?case using Cons.prems(2)
    by (subst rmap_reserve_scan.simps)
       (auto simp: rmap_rep_rlim [OF rep] rmap_rep_nth [OF rep] Let_def not_less dest: leD)
qed

lemma rmap_reserve_scan_hit:
  assumes rep: "rmap_rep m h (xs @ e # ys) rest" and ok: "ents_ok (xs @ e # ys)"
    and "lo e \<le> unat offset" and "unat offset < hi e"
  shows "rmap_reserve_scan m offset 1 = Some (Suc (length xs))"
proof -
  have "r_offset x \<le> offset \<and> r_offset x + r_size x \<le> offset" if "x \<in> set xs" for x
  proof -
    from that ok have "hi x < lo e" "hi x < 2 ^ 32" by (auto simp: ents_ok_def sorted_wrt_append)
    with assms(3) show ?thesis by (simp add: word_le_nat_alt unat_add_lt)
  qed
  then have "rmap_reserve_scan m offset 1 = rmap_reserve_scan m offset (Suc (length xs))"
    using rmap_reserve_scan_skip [of m h "[]" xs "e # ys" rest offset] rep by simp
  moreover have "hi e < 2 ^ 32" using ok by (simp add: ents_ok_def)
  then have "\<not> r_offset e > offset" "r_offset e \<le> offset" "offset < r_offset e + r_size e"
    using assms(3,4) by (simp_all add: word_le_nat_alt unat_add_lt word_less_nat_alt)
  ultimately show ?thesis
    by (subst (asm) (2) rmap_reserve_scan.simps)
       (simp add: rmap_rep_rlim [OF rep] rmap_rep_nth [OF rep] Let_def)
qed

lemma rmap_reserve_scan_miss:
  assumes rep: "rmap_rep m h es rest" and ok: "ents_ok es"
    and miss: "\<forall>e \<in> set es. \<not> (lo e \<le> unat offset \<and> unat offset < hi e)"
  shows "rmap_reserve_scan m offset 1 = None"
proof (cases rule: takeWhile_cases [of "\<lambda>e. r_offset e \<le> offset \<and> r_offset e + r_size e \<le> offset" es])
  case all
  then have "rmap_reserve_scan m offset 1 = rmap_reserve_scan m offset (Suc (length es))"
    using rmap_reserve_scan_skip [of m h "[]" es "[]" rest offset] rep by simp
  then show ?thesis
    by (subst (asm) (2) rmap_reserve_scan.simps) (simp add: rmap_rep_rlim [OF rep])
next
  case (split e ys)
  define xs where "xs = takeWhile (\<lambda>e. r_offset e \<le> offset \<and> r_offset e + r_size e \<le> offset) es"
  note split = split [folded xs_def]
  note rep' = rep [unfolded split(1)]
  have "rmap_reserve_scan m offset 1 = rmap_reserve_scan m offset (Suc (length xs))"
    using rmap_reserve_scan_skip [of m h "[]" xs "e # ys" rest offset] rep' split(3) by simp
  moreover have "hi e < 2 ^ 32" "\<not> (lo e \<le> unat offset \<and> unat offset < hi e)"
    using ok miss split(1) by (simp_all add: ents_ok_def)
  then have "r_offset e > offset"
    using split(2) by (auto simp: word_le_nat_alt word_less_nat_alt unat_add_lt not_le)
  ultimately show ?thesis
    by (subst (asm) (2) rmap_reserve_scan.simps)
       (simp add: rmap_rep_rlim [OF rep'] rmap_rep_nth [OF rep'])
qed

lemma ranges_single:
  assumes ok: "ents_ok es" and "a < b" and sub: "{a ..< b} \<subseteq> ranges es"
  shows "\<exists>e \<in> set es. lo e \<le> a \<and> b \<le> hi e"
proof -
  from sub assms(2) obtain e where e: "e \<in> set es" "lo e \<le> a" "a < hi e"
    by (auto simp: ranges_def subset_iff dest!: spec [of _ a])
  have "b \<le> hi e"
  proof (rule ccontr)
    assume "\<not> b \<le> hi e"
    with sub e obtain e' where e': "e' \<in> set es" "lo e' \<le> hi e" "hi e < hi e'"
      by (auto simp: ranges_def subset_iff dest!: spec [of _ "hi e"])
    from split_list [OF e(1)] obtain xs ys where es: "es = xs @ e # ys" by blast
    with e' ok e(2,3) show False by (auto simp: ents_ok_simps)
  qed
  with e show ?thesis by blast
qed

lemma rmap_reserve_fail:
  assumes rep: "rmap_rep m h es rest" and ok: "ents_ok es"
    and len: "unat offset + unat sz < 2 ^ 32"
    and miss: "\<forall>e \<in> set es. \<not> (lo e \<le> unat offset \<and> unat offset + unat sz \<le> hi e)" and "0 < unat sz"
  shows "rmap_reserve m offset sz lost = (True, m, lost)"
proof (cases "\<exists>e \<in> set es. lo e \<le> unat offset \<and> unat offset < hi e")
  case True
  then obtain e xs ys where es: "es = xs @ e # ys" and e: "lo e \<le> unat offset" "unat offset < hi e"
    by (metis split_list)
  from ok es have hi: "hi e < 2 ^ 32" by (simp add: ents_ok_def)
  from miss es e have "hi e < unat offset + unat sz" by auto
  with hi len have "offset + sz > r_offset e + r_size e"
    by (simp add: word_less_nat_alt unat_add_lt)
  with rmap_reserve_scan_hit [of m h xs e ys rest offset] rep ok es e rmap_rep_nth [of m h xs e ys rest]
  show ?thesis by (simp add: rmap_reserve_def)
next
  case False
  then show ?thesis using rmap_reserve_scan_miss [OF rep ok, of offset]
    by (simp add: rmap_reserve_def)
qed

lemma rmap_reserve_cut:
  assumes rep: "rmap_rep m h (xs @ e # ys) rest" and ok: "ents_ok (xs @ e # ys)"
    and lo: "lo e \<le> unat offset" and hi: "unat offset + unat sz \<le> hi e" and sz: "0 < unat sz"
  shows "\<exists>m' lost' h' rest' fs. rmap_reserve m offset sz lost = (False, m', lost') \<and>
    rmap_rep m' h' (xs @ fs @ ys) rest' \<and>
    (fs = cut_out e offset sz \<and> lost' = lost \<or>
     rest = [] \<and> r_offset e \<noteq> offset \<and> offset + sz \<noteq> r_offset e + r_size e \<and>
     fs = [\<lparr>r_offset = offset + sz, r_size = (r_offset e + r_size e) - (offset + sz)\<rparr>] \<and>
     lost' = lost + (offset - r_offset e))"
proof -
  have bound: "hi e < 2 ^ 32" using ok by (simp add: ents_ok_def)
  let ?top = "r_offset e + r_size e" and ?rtop = "offset + sz"
  have top: "unat ?top = hi e" "unat ?rtop = unat offset + unat sz"
    using bound hi by (simp_all add: unat_add_lt)
  have scan: "rmap_reserve_scan m offset 1 = Some (Suc (length xs))"
    using rmap_reserve_scan_hit [OF rep ok lo] hi sz by simp
  have nth: "m ! Suc (length xs) = e" by (rule rmap_rep_nth [OF rep])
  have len: "Suc (length xs) < length m" using rep by (simp add: rmap_rep_def)
  have le: "\<not> ?rtop > ?top" using top hi by (simp add: word_less_nat_alt)
  consider (front) "offset = r_offset e" | (tail) "offset \<noteq> r_offset e" "?rtop = ?top"
    | (mid) "offset \<noteq> r_offset e" "?rtop \<noteq> ?top" by blast
  then show ?thesis
  proof cases
    case front
    let ?e = "\<lparr>r_offset = r_offset e + sz, r_size = r_size e - sz\<rparr>"
    note rep1 = rmap_rep_update [OF rep, of ?e]
    have nth1: "m[Suc (length xs) := ?e] ! Suc (length xs) = ?e" using len by simp
    show ?thesis
    proof (cases "r_size e = sz")
      case True
      obtain h' x where "rmap_rep (collapse (m[Suc (length xs) := ?e]) (Suc (length xs))) h' (xs @ ys) (x # rest)"
        using rmap_rep_collapse [OF rep1] by blast
      then have "rmap_rep (collapse (m[Suc (length xs) := ?e]) (Suc (length xs))) h'
          (xs @ cut_out e offset sz @ ys) (x # rest)"
        using True front by (simp add: cut_out_def)
      moreover have "rmap_reserve m offset sz lost =
          (False, collapse (m[Suc (length xs) := ?e]) (Suc (length xs)), lost)"
        using True front scan nth nth1 by (simp add: rmap_reserve_def Let_def)
      ultimately show ?thesis by blast
    next
      case False
      then have "?rtop \<noteq> ?top" using front by (simp add: add.commute)
      moreover have "?top - ?rtop = r_size e - sz" using front by simp
      ultimately have "rmap_rep (m[Suc (length xs) := ?e]) h (xs @ cut_out e offset sz @ ys) rest"
        using rep1 front by (simp add: cut_out_def)
      moreover have "rmap_reserve m offset sz lost = (False, m[Suc (length xs) := ?e], lost)"
        using False front scan nth nth1 le by (simp add: rmap_reserve_def Let_def)
      ultimately show ?thesis by blast
    qed
  next
    case tail
    let ?e = "\<lparr>r_offset = r_offset e, r_size = r_size e - sz\<rparr>"
    have "r_size e - sz = offset - r_offset e" using tail(2) by (simp add: algebra_simps)
    then have "rmap_rep (m[Suc (length xs) := ?e]) h (xs @ cut_out e offset sz @ ys) rest"
      using tail rmap_rep_update [OF rep, of ?e] by (simp add: cut_out_def)
    moreover have "rmap_reserve m offset sz lost = (False, m[Suc (length xs) := ?e], lost)"
      using tail scan nth by (simp add: rmap_reserve_def Let_def rment_set_size)
    ultimately show ?thesis by blast
  next
    case mid
    show ?thesis
    proof (cases rest)
      case Nil
      let ?e = "\<lparr>r_offset = ?rtop, r_size = ?top - ?rtop\<rparr>"
      have "r_size e - (?top - ?rtop) - sz = offset - r_offset e" by simp
      moreover have "makespace m (Suc (length xs)) = (True, m)"
        using rmap_rep_makespace_full [of m h "xs @ e # ys"] rep Nil by simp
      ultimately have "rmap_reserve m offset sz lost =
          (False, m[Suc (length xs) := ?e], lost + (offset - r_offset e))"
        using mid scan nth le by (simp add: rmap_reserve_def Let_def)
      moreover have "rmap_rep (m[Suc (length xs) := ?e]) h (xs @ [?e] @ ys) rest"
        using rmap_rep_update [OF rep, of ?e] by simp
      ultimately show ?thesis using Nil mid by blast
    next
      case (Cons z rest')
      then obtain h' m1 where ms: "makespace m (Suc (length xs)) = (False, m1)"
        and rep1: "rmap_rep m1 h' (xs @ e # e # ys) rest'"
        using rmap_rep_makespace [of m h xs "e # ys" z rest'] rep by auto
      let ?a = "\<lparr>r_offset = r_offset e, r_size = offset - r_offset e\<rparr>"
      let ?b = "\<lparr>r_offset = ?rtop, r_size = ?top - ?rtop\<rparr>"
      have rep2: "rmap_rep (m1[Suc (length xs) := ?a, Suc (Suc (length xs)) := ?b]) h' (xs @ ?a # ?b # ys) rest'"
        using rmap_rep_update [of _ h' "xs @ [?a]" e ys rest' ?b] rmap_rep_update [OF rep1, of ?a] by simp
      have "e\<lparr>r_size := offset - r_offset e\<rparr> = ?a" by (rule rment_set_size)
      then have "rmap_reserve m offset sz lost =
          (False, m1[Suc (length xs) := ?a, Suc (Suc (length xs)) := ?b], lost)"
        using scan nth le mid ms rmap_rep_nth [OF rep1] by (simp add: rmap_reserve_def Let_def rment_set_size)
      moreover have "cut_out e offset sz = [?a, ?b]" using mid by (simp add: cut_out_def)
      ultimately show ?thesis using rep2 by (metis append_Cons append_Nil)
    qed
  qed
qed

lemma cut_out_ok:
  assumes "ents_ok (xs @ e # ys)"
    and lo: "lo e \<le> unat offset" and hi: "unat offset + unat sz \<le> hi e" and sz: "0 < unat sz"
  shows "ents_ok (xs @ cut_out e offset sz @ ys)"
    and "ranges (cut_out e offset sz) = {lo e ..< hi e} - {unat offset ..< unat offset + unat sz}"
proof -
  have bound: "hi e < 2 ^ 32" using assms(1) by (simp add: ents_ok_def)
  have top: "unat (r_offset e + r_size e) = hi e" "unat (offset + sz) = unat offset + unat sz"
    "unat (offset - r_offset e) = unat offset - lo e"
    "unat (r_offset e + r_size e - (offset + sz)) = hi e - (unat offset + unat sz)"
    using bound hi lo by (simp_all add: word_nat)
  have eqs: "offset = r_offset e \<longleftrightarrow> unat offset = lo e"
    "offset + sz = r_offset e + r_size e \<longleftrightarrow> unat offset + unat sz = hi e"
    by (simp_all only: u32_eq_iff top)
  have xs: "ents_ok xs" "ents_ok ys" "\<And>x y. x \<in> set xs \<Longrightarrow> y \<in> set ys \<Longrightarrow> hi x < lo y"
    "\<And>x. x \<in> set xs \<Longrightarrow> hi x < lo e" "\<And>y. y \<in> set ys \<Longrightarrow> hi e < lo y"
    using assms(1) by (auto simp: ents_ok_simps)
  have d: "\<forall>a \<in> set (cut_out e offset sz). lo e \<le> lo a \<and> hi a \<le> hi e"
    using lo hi by (simp add: cut_out_def top)
  have "ents_ok (cut_out e offset sz)"
    using lo hi sz bound by (simp add: cut_out_def ents_ok_simps top eqs)
  moreover have "\<forall>x \<in> set xs. \<forall>a \<in> set (cut_out e offset sz). hi x < lo a"
    using d xs(4) by (meson order_less_le_trans)
  moreover have "\<forall>a \<in> set (cut_out e offset sz). \<forall>y \<in> set ys. hi a < lo y"
    using d xs(5) by (meson order_le_less_trans)
  ultimately show "ents_ok (xs @ cut_out e offset sz @ ys)"
    using xs(1-3) by (auto simp: ents_ok_append)
  show "ranges (cut_out e offset sz) = {lo e ..< hi e} - {unat offset ..< unat offset + unat sz}"
    using lo hi sz by (auto simp: cut_out_def top eqs)
qed

lemma ranges_cut:
  assumes "ents_ok (xs @ e # ys)" and "A \<subseteq> {lo e ..< hi e}" and "ranges fs = {lo e ..< hi e} - A"
  shows "ranges (xs @ fs @ ys) = ranges (xs @ e # ys) - A"
proof -
  have "ranges xs - A = ranges xs" "ranges ys - A = ranges ys"
    using ents_ok_around [OF assms(1)] assms(2) by fastforce+
  then show ?thesis using assms(3) by (simp only: ranges_simps Un_Diff)
qed

lemma ins_range_skip:
  "\<forall>z \<in> set zs. passes offset sz z \<Longrightarrow> ins_range offset sz (zs @ ys) = zs @ ins_range offset sz ys"
  by (induction zs) (auto simp: passes_def)

lemma rmap_free_scan_skip:
  "rmap_rep m h (xs @ zs @ ys) rest \<Longrightarrow> \<forall>z \<in> set zs. passes offset sz z \<Longrightarrow>
   rmap_free_scan m offset sz (Suc (length xs)) = rmap_free_scan m offset sz (Suc (length (xs @ zs)))"
proof (induction zs arbitrary: xs)
  case Nil
  then show ?case by simp
next
  case (Cons z zs)
  have rep: "rmap_rep m h (xs @ z # zs @ ys) rest" using Cons.prems(1) by simp
  have "rmap_free_scan m offset sz (Suc (length (xs @ [z]))) = rmap_free_scan m offset sz (Suc (length ((xs @ [z]) @ zs)))"
    using Cons.prems by (intro Cons.IH) simp_all
  then show ?case using Cons.prems(2)
    by (subst rmap_free_scan.simps)
       (auto simp: rmap_rep_rlim [OF rep] rmap_rep_nth [OF rep] passes_def)
qed

lemma rmap_free_fresh:
  assumes rep: "rmap_rep m h (xs @ ys) rest"
    and scan: "rmap_free_scan m offset sz 1 = Fresh (Suc (length xs))"
  shows "rest = [] \<and> rmap_free m offset sz lost = (m, lost + sz) \<or>
    (\<exists>m' h' rest'. rmap_free m offset sz lost = (m', lost) \<and>
       rmap_rep m' h' (xs @ \<lparr>r_offset = offset, r_size = sz\<rparr> # ys) rest')"
proof (cases rest)
  case Nil
  then show ?thesis using scan rmap_rep_makespace_full [of m h "xs @ ys"] rep
    by (simp add: rmap_free_def)
next
  case (Cons z rest')
  let ?e = "\<lparr>r_offset = offset, r_size = sz\<rparr>"
  from Cons rep obtain h' y m1 where ms: "makespace m (Suc (length xs)) = (False, m1)"
    and rep1: "rmap_rep m1 h' (xs @ y # ys) rest'"
    using rmap_rep_makespace [of m h xs ys z rest'] by auto
  have "rmap_free m offset sz lost = (m1[Suc (length xs) := ?e], lost)"
    using scan ms by (simp add: rmap_free_def)
  with rmap_rep_update [OF rep1, of ?e] show ?thesis by blast
qed

lemma rmap_free_tack:
  assumes rep: "rmap_rep m h (xs @ e # ys) rest"
    and scan: "rmap_free_scan m offset sz 1 = Tack (Suc (length xs))"
    and tack: "r_offset e + r_size e = offset"
  shows "\<exists>m' h' rest'. rmap_free m offset sz lost = (m', lost) \<and>
       rmap_rep m' h' (xs @ ins_range offset sz (e # ys)) rest'"
proof -
  let ?e = "\<lparr>r_offset = r_offset e, r_size = r_size e + sz\<rparr>"
  let ?m = "m[Suc (length xs) := ?e]"
  note rep1 = rmap_rep_update [OF rep, of ?e]
  have lim: "rlim m = Suc (length xs + length ys)" using rmap_rep_rlim [OF rep] by simp
  have nth: "m ! Suc (length xs) = e" "?m ! Suc (length xs) = ?e"
    using rmap_rep_nth [OF rep] rmap_rep_nth [OF rep1] by simp_all
  show ?thesis
  proof (cases ys)
    case Nil
    then have "rmap_free m offset sz lost = (?m, lost)"
      using scan nth lim by (simp add: rmap_free_def Let_def rment_set_size)
    with rep1 Nil tack show ?thesis by auto
  next
    case (Cons f fs)
    have nthf: "?m ! Suc (Suc (length xs)) = f"
      using rmap_rep_nth [of ?m h "xs @ [?e]" f fs rest] rep1 Cons by simp
    show ?thesis
    proof (cases "r_offset e + (r_size e + sz) = r_offset f")
      case True
      let ?g = "\<lparr>r_offset = r_offset e, r_size = r_size e + sz + r_size f\<rparr>"
      let ?m2 = "m[Suc (length xs) := ?g]"
      have rep2: "rmap_rep ?m2 h ((xs @ [?g]) @ f # fs) rest"
        using rmap_rep_update [OF rep, of ?g] Cons by simp
      from rmap_rep_collapse [OF this] obtain h' x where
        rep3: "rmap_rep (collapse ?m2 (Suc (Suc (length xs)))) h' (xs @ ?g # fs) (x # rest)" by auto
      have "rlim ?m2 = rlim m" using rmap_rep_rlim [OF rep2] lim Cons by simp
      then have "rmap_free m offset sz lost = (collapse ?m2 (Suc (Suc (length xs))), lost)"
        using scan nth nthf lim True Cons
        by (simp add: rmap_free_def Let_def collapse_def rment_set_size)
      with rep3 Cons tack True show ?thesis by auto
    next
      case False
      then have "rmap_free m offset sz lost = (?m, lost)"
        using scan nth nthf lim by (simp add: rmap_free_def Let_def rment_set_size)
      with rep1 Cons tack False show ?thesis by auto
    qed
  qed
qed

lemma rmap_free_refines:
  assumes rep: "rmap_rep m h es rest"
  shows "rest = [] \<and> rmap_free m offset sz lost = (m, lost + sz) \<and> length es < length (ins_range offset sz es) \<or>
    (\<exists>m' h' rest'. rmap_free m offset sz lost = (m', lost) \<and> rmap_rep m' h' (ins_range offset sz es) rest')"
proof (cases rule: takeWhile_cases [of "passes offset sz" es])
  case all
  have "rmap_free_scan m offset sz 1 = rmap_free_scan m offset sz (Suc (length es))"
    using rmap_free_scan_skip [of m h "[]" es "[]" rest] rep all(2) by simp
  also have "\<dots> = Fresh (Suc (length es))"
    by (subst rmap_free_scan.simps) (simp add: rmap_rep_rlim [OF rep])
  finally have "rmap_free_scan m offset sz 1 = Fresh (Suc (length es))" .
  with rmap_free_fresh [of m h es "[]" rest offset sz lost] rep
    ins_range_skip [OF all(2), of "[]"]
  show ?thesis by auto
next
  case (split e ys)
  define xs where "xs = takeWhile (passes offset sz) es"
  note split = split [folded xs_def]
  note rep' = rep [unfolded split(1)]
  have ins: "ins_range offset sz es = xs @ ins_range offset sz (e # ys)"
    using ins_range_skip [OF split(3)] split(1) by simp
  have scan: "rmap_free_scan m offset sz 1 = rmap_free_scan m offset sz (Suc (length xs))"
    using rmap_free_scan_skip [of m h "[]" xs "e # ys" rest] rep' split(3) by simp
  consider (tack) "r_offset e + r_size e = offset"
    | (pad) "r_offset e + r_size e \<noteq> offset" "offset + sz = r_offset e"
    | (fresh) "r_offset e + r_size e \<noteq> offset" "offset + sz \<noteq> r_offset e" "offset < r_offset e"
    using split(2) by (auto simp: passes_def)
  then show ?thesis
  proof cases
    case tack
    with scan have "rmap_free_scan m offset sz 1 = Tack (Suc (length xs))"
      by (subst (asm) (2) rmap_free_scan.simps)
         (simp add: rmap_rep_rlim [OF rep'] rmap_rep_nth [OF rep'])
    from rmap_free_tack [OF rep' this tack] ins show ?thesis by simp
  next
    case pad
    with scan have "rmap_free_scan m offset sz 1 = Pad (Suc (length xs))"
      by (subst (asm) (2) rmap_free_scan.simps)
         (simp add: rmap_rep_rlim [OF rep'] rmap_rep_nth [OF rep'])
    then have "rmap_free m offset sz lost =
        (m[Suc (length xs) := \<lparr>r_offset = offset, r_size = r_size e + sz\<rparr>], lost)"
      by (simp add: rmap_free_def rmap_rep_nth [OF rep'])
    with rmap_rep_update [OF rep', of "\<lparr>r_offset = offset, r_size = r_size e + sz\<rparr>"] pad ins
    show ?thesis by auto
  next
    case fresh
    with scan have "rmap_free_scan m offset sz 1 = Fresh (Suc (length xs))"
      by (subst (asm) (2) rmap_free_scan.simps)
         (simp add: rmap_rep_rlim [OF rep'] rmap_rep_nth [OF rep'])
    from rmap_free_fresh [OF rep' this, of lost] fresh ins split(1) show ?thesis by auto
  qed
qed

lemma ins_range_los:
  "r_offset ` set (ins_range offset sz es) \<subseteq> insert offset (r_offset ` set es)"
proof (induction es)
  case Nil
  show ?case by simp
next
  case (Cons e es)
  show ?case
  proof (cases "passes offset sz e")
    case True
    then have "ins_range offset sz (e # es) = e # ins_range offset sz es"
      using ins_range_skip [of "[e]" offset sz es] by simp
    with Cons show ?thesis by auto
  next
    case False
    then show ?thesis
      by (subst ins_range.simps) (auto simp del: ins_range.simps simp: passes_def split: list.split)
  qed
qed

lemma ins_range_ok:
  assumes "ents_ok es" and "{unat offset ..< unat offset + unat sz} \<inter> ranges es = {}"
    and sz: "0 < unat sz" and bound: "unat offset + unat sz < 2 ^ 32"
  shows "ents_ok (ins_range offset sz es) \<and>
    ranges (ins_range offset sz es) = ranges es \<union> {unat offset ..< unat offset + unat sz}"
  using assms(1,2)
proof (induction es)
  case Nil
  then show ?case using sz bound by (simp add: ents_ok_simps)
next
  case (Cons e es)
  from Cons.prems(1) have e: "0 < unat (r_size e)" "hi e < 2 ^ 32" and es: "ents_ok es"
    and above: "\<forall>y \<in> set es. hi e < lo y" by (auto simp: ents_ok_Cons)
  from Cons.prems(2) have dis: "{unat offset ..< unat offset + unat sz} \<inter> {lo e ..< hi e} = {}"
    and dises: "{unat offset ..< unat offset + unat sz} \<inter> ranges es = {}"
    by (simp_all only: ranges_simps Int_Un_distrib Un_empty)
  have eqs: "r_offset e + r_size e = offset \<longleftrightarrow> hi e = unat offset"
    "offset + sz = r_offset e \<longleftrightarrow> unat offset + unat sz = lo e"
    "offset < r_offset e \<longleftrightarrow> unat offset < lo e"
    using e bound by (simp_all add: u32_eq_iff unat_add_lt word_less_nat_alt)
  consider (tack) "hi e = unat offset" | (pad) "hi e \<noteq> unat offset" "unat offset + unat sz = lo e"
    | (fresh) "hi e \<noteq> unat offset" "unat offset + unat sz \<noteq> lo e" "unat offset < lo e"
    | (pass) "hi e \<noteq> unat offset" "unat offset + unat sz \<noteq> lo e" "\<not> unat offset < lo e" by blast
  then show ?case
  proof cases
    case tack
    have grow: "unat (r_size e + sz) = unat (r_size e) + unat sz"
      "unat (r_offset e + (r_size e + sz)) = hi e + unat sz"
      using tack bound by (simp_all add: unat_add_lt)
    show ?thesis
    proof (cases es)
      case Nil
      then show ?thesis using tack bound e sz by (auto simp: eqs grow ents_ok_simps)
    next
      case (Cons f fs)
      with es above have f: "0 < unat (r_size f)" "hi f < 2 ^ 32" "hi e < lo f"
        and fs: "ents_ok fs" "\<forall>y \<in> set fs. hi f < lo y" by (auto simp: ents_ok_Cons)
      have "\<not> lo f < unat offset + unat sz"
        using dises [unfolded disjoint_iff, THEN spec, of "lo f"] f(1,3) tack Cons by auto
      then have lo_f: "hi e + unat sz \<le> lo f" using tack by simp
      show ?thesis
      proof (cases "hi e + unat sz = lo f")
        case True
        have all: "unat (r_size e + sz + r_size f) = unat (r_size e) + unat sz + unat (r_size f)"
          using True f(2) grow by (simp add: unat_add_lt)
        have "r_offset e + (r_size e + sz) = r_offset f" using True by (simp add: u32_eq_iff grow)
        with tack Cons have "ins_range offset sz (e # es) =
            \<lparr>r_offset = r_offset e, r_size = r_size e + sz + r_size f\<rparr> # fs" by (simp add: eqs)
        moreover have "{lo e ..< lo e + (unat (r_size e) + unat sz + unat (r_size f))} =
            {lo e ..< hi e} \<union> {unat offset ..< unat offset + unat sz} \<union> {lo f ..< hi f}"
          using True tack by auto
        ultimately show ?thesis using True f fs e Cons
          by (auto simp: ents_ok_Cons all)
      next
        case False
        then have "r_offset e + (r_size e + sz) \<noteq> r_offset f" by (simp add: u32_eq_iff grow)
        with tack Cons have "ins_range offset sz (e # es) =
            \<lparr>r_offset = r_offset e, r_size = r_size e + sz\<rparr> # es" by (simp add: eqs)
        moreover have "\<forall>y \<in> set es. hi e + unat sz < lo y"
          using False lo_f fs(2) Cons f(1) by fastforce
        moreover have "{lo e ..< lo e + (unat (r_size e) + unat sz)} =
            {lo e ..< hi e} \<union> {unat offset ..< unat offset + unat sz}" using tack by auto
        ultimately show ?thesis using e es bound tack by (auto simp: ents_ok_Cons grow add.assoc)
      qed
    qed
  next
    case pad
    have grow: "unat (r_size e + sz) = unat (r_size e) + unat sz"
      using pad e by (simp add: unat_add_lt)
    have "ins_range offset sz (e # es) = \<lparr>r_offset = offset, r_size = r_size e + sz\<rparr> # es"
      using pad by (simp add: eqs)
    moreover have "{unat offset ..< unat offset + (unat (r_size e) + unat sz)} =
        {lo e ..< hi e} \<union> {unat offset ..< unat offset + unat sz}" using pad by auto
    ultimately show ?thesis using pad e es above sz by (auto simp: ents_ok_Cons grow)
  next
    case fresh
    then have "ins_range offset sz (e # es) = \<lparr>r_offset = offset, r_size = sz\<rparr> # e # es"
      by (simp add: eqs)
    moreover have "unat offset + unat sz < lo e"
      using fresh dis [unfolded disjoint_iff, THEN spec, of "lo e"] e(1) by auto
    ultimately show ?thesis using e es above sz bound by (auto simp: ents_ok_Cons)
  next
    case pass
    then have ins: "ins_range offset sz (e # es) = e # ins_range offset sz es" by (simp add: eqs)
    have "hi e < unat offset" using pass dis [unfolded disjoint_iff, THEN spec, of "unat offset"] e(1) sz by auto
    then have "\<forall>y \<in> set (ins_range offset sz es). hi e < lo y"
      using above ins_range_los [of offset sz es] by fastforce
    with Cons.IH [OF es dises] e ins show ?thesis by (auto simp: ents_ok_Cons)
  qed
qed

lemma live_range_free: "e \<in> set (live m) \<Longrightarrow> {lo e ..< hi e} \<subseteq> free_set m"
  by (auto simp: free_set_def ranges_def)

lemma rmap_alloc_spec:
  assumes "rmap_ok m" and "0 < unat sz" and "rmap_alloc m sz = (idx, m')"
  shows "rmap_ok m' \<and>
    (if \<exists>e \<in> set (live m). sz \<le> r_size e
     then {unat idx ..< unat idx + unat sz} \<subseteq> free_set m \<and> unat idx + unat sz < 2 ^ 32 \<and>
          free_set m' = free_set m - {unat idx ..< unat idx + unat sz}
     else idx = 0 \<and> m' = m)"
proof -
  from assms(1) obtain h rest where rep: "rmap_rep m h (live m) rest" and ok: "ents_ok (live m)"
    by (auto simp: rmap_ok_rep)
  show ?thesis
  proof (cases rule: takeWhile_cases [of "\<lambda>e. r_size e < sz" "live m"])
    case all
    with rmap_alloc_nofit [OF rep] assms show ?thesis by (auto simp: not_le)
  next
    case (split e ys)
    define xs where "xs = takeWhile (\<lambda>e. r_size e < sz) (live m)"
    note split = split [folded xs_def]
    note rep' = rep [unfolded split(1)] and ok' = ok [unfolded split(1)]
    have fit: "sz \<le> r_size e" using split(2) by simp
    then have nfit: "unat sz \<le> unat (r_size e)" by (simp add: word_le_nat_alt)
    obtain h' rest' where idx: "idx = r_offset e" and rep2: "rmap_rep m' h' (xs @ trim_front e sz @ ys) rest'"
      using rmap_alloc_fit [OF rep' split(3) fit] assms(3) by auto
    note tr = trim_front_ok [OF ok' fit assms(2)]
    have ok2: "rmap_ok m'" by (rule rmap_rep_ok [OF rep2 tr(1)])
    have mem: "e \<in> set (live m)" using split(1) by (metis in_set_conv_decomp)
    have "hi e < 2 ^ 32" using ok' by (simp add: ents_ok_def)
    moreover have "{lo e ..< lo e + unat sz} \<subseteq> free_set m"
      using live_range_free [OF mem] nfit by auto
    moreover have "free_set m' = free_set m - {lo e ..< lo e + unat sz}"
      using tr(2) by (simp only: free_set_def live_rep [OF rep2] split(1))
    moreover have "\<exists>e \<in> set (live m). sz \<le> r_size e" using mem fit by blast
    ultimately show ?thesis using ok2 idx nfit by simp
  qed
qed

lemma rmap_free_spec:
  assumes "rmap_ok m" and "{unat offset ..< unat offset + unat sz} \<inter> free_set m = {}"
    and "0 < unat sz" and "unat offset + unat sz < 2 ^ 32"
    and "rmap_free m offset sz lost = (m', lost')"
  shows "rmap_ok m' \<and>
    (free_set m' = free_set m \<union> {unat offset ..< unat offset + unat sz} \<and> lost' = lost \<or>
     rlim m = unat (r_size (m ! 0)) \<and> m' = m \<and> lost' = lost + sz)"
proof -
  from assms(1) obtain h rest where rep: "rmap_rep m h (live m) rest" and ok: "ents_ok (live m)"
    by (auto simp: rmap_ok_rep)
  note ins = ins_range_ok [OF ok assms(2) [unfolded free_set_def] assms(3,4)]
  from rmap_free_refines [OF rep, of offset sz lost] show ?thesis
  proof
    assume "rest = [] \<and> rmap_free m offset sz lost = (m, lost + sz) \<and>
      length (live m) < length (ins_range offset sz (live m))"
    moreover from this rep have "rlim m = unat (r_size (m ! 0))"
      using rmap_rep_header [OF rep] rmap_rep_rlim [OF rep] by (simp add: rmap_rep_def)
    ultimately show ?thesis using assms by simp
  next
    assume "\<exists>m' h' rest'. rmap_free m offset sz lost = (m', lost) \<and>
      rmap_rep m' h' (ins_range offset sz (live m)) rest'"
    then obtain h' rest' where "lost' = lost" and rep': "rmap_rep m' h' (ins_range offset sz (live m)) rest'"
      using assms(5) by auto
    moreover have "rmap_ok m'" using rmap_rep_ok [OF rep'] ins by blast
    moreover have "free_set m' = ranges (ins_range offset sz (live m))"
      by (simp only: free_set_def live_rep [OF rep'])
    ultimately show ?thesis using ins by (simp add: free_set_def)
  qed
qed

lemma cut_lost_ok:
  assumes ok: "ents_ok (xs @ e # ys)" and e: "lo e \<le> unat offset" "unat offset + unat sz \<le> hi e" and sz: "0 < unat sz"
    and ne: "r_offset e \<noteq> offset" "offset + sz \<noteq> r_offset e + r_size e"
    and fs: "fs = [\<lparr>r_offset = offset + sz, r_size = (r_offset e + r_size e) - (offset + sz)\<rparr>]"
  shows "ents_ok (xs @ fs @ ys)"
    and "ranges (xs @ fs @ ys) =
      ranges (xs @ e # ys) - ({unat offset ..< unat offset + unat sz} \<union> {lo e ..< unat offset})"
    and "unat offset + unat sz < hi e"
    and "offset - r_offset e = of_nat (card {lo e ..< unat offset})"
proof -
  let ?R = "{unat offset ..< unat offset + unat sz}" and ?L = "{lo e ..< unat offset}"
  have bound: "hi e < 2 ^ 32" using ok by (simp add: ents_ok_def)
  have top: "unat (offset + sz) = unat offset + unat sz" "unat (r_offset e + r_size e) = hi e"
    "unat (r_offset e + r_size e - (offset + sz)) = hi e - (unat offset + unat sz)"
    "unat (offset - r_offset e) = unat offset - lo e"
    using bound e by (simp_all add: word_nat)
  have "unat offset + unat sz \<noteq> hi e" using ne(2) by (simp add: u32_eq_iff top)
  then show sm: "unat offset + unat sz < hi e" using e(2) by simp
  note cut = cut_out_ok [OF ok e sz]
  have "set fs \<subseteq> set (cut_out e offset sz)" using fs ne by (auto simp: cut_out_def)
  moreover have "ents_ok fs" using fs sm bound by (simp add: ents_ok_simps top)
  ultimately show "ents_ok (xs @ fs @ ys)" using cut(1) by (auto simp: ents_ok_append)
  have "ranges fs = {lo e ..< hi e} - (?R \<union> ?L)" using fs sm e by (auto simp: top)
  moreover have "?R \<union> ?L \<subseteq> {lo e ..< hi e}" using e sm by auto
  ultimately show "ranges (xs @ fs @ ys) = ranges (xs @ e # ys) - (?R \<union> ?L)" using ranges_cut [OF ok] by blast
  have "of_nat (card ?L) = (of_nat (unat (offset - r_offset e)) :: u32)" by (simp only: top card_atLeastLessThan)
  then show "offset - r_offset e = of_nat (card ?L)" by simp
qed

lemma rmap_reserve_hit:
  assumes "rmap_ok m" and "0 < unat sz" and "rmap_reserve m offset sz lost = (failed, m', lost')"
    and split: "live m = xs @ e # ys" and e: "lo e \<le> unat offset" "unat offset + unat sz \<le> hi e"
  shows "\<not> failed \<and> rmap_ok m' \<and> (\<exists>L \<subseteq> free_set m - {unat offset ..< unat offset + unat sz}.
       free_set m' = free_set m - {unat offset ..< unat offset + unat sz} - L \<and>
       lost' = lost + of_nat (card L) \<and> (rlim m < unat (r_size (m ! 0)) \<longrightarrow> L = {}))"
proof -
  let ?R = "{unat offset ..< unat offset + unat sz}"
  from assms(1) obtain h rest where rep: "rmap_rep m h (live m) rest" and ok: "ents_ok (live m)"
    by (auto simp: rmap_ok_rep)
  note rep' = rep [unfolded split] and ok' = ok [unfolded split]
  have R: "?R \<subseteq> {lo e ..< hi e}" using e by auto
  have sub: "{lo e ..< hi e} \<subseteq> free_set m" by (rule live_range_free) (simp add: split)
  obtain h' rest' fs where nf: "\<not> failed" and rep2: "rmap_rep m' h' (xs @ fs @ ys) rest'"
    and fs: "fs = cut_out e offset sz \<and> lost' = lost \<or>
      rest = [] \<and> r_offset e \<noteq> offset \<and> offset + sz \<noteq> r_offset e + r_size e \<and>
      fs = [\<lparr>r_offset = offset + sz, r_size = (r_offset e + r_size e) - (offset + sz)\<rparr>] \<and>
      lost' = lost + (offset - r_offset e)"
    using rmap_reserve_cut [OF rep' ok' e assms(2), of lost] assms(3) by auto
  note fset = free_set_def [of m', unfolded live_rep [OF rep2]] free_set_def [of m, unfolded split]
  from fs show ?thesis
  proof
    assume f: "fs = cut_out e offset sz \<and> lost' = lost"
    note cut = cut_out_ok [OF ok' e assms(2)]
    have "free_set m' = free_set m - ?R" using ranges_cut [OF ok' R cut(2)] f by (simp only: fset)
    moreover have "rmap_ok m'" using rmap_rep_ok [OF rep2] cut(1) f by simp
    ultimately show ?thesis using nf f by (auto intro!: exI [of _ "{}"])
  next
    let ?L = "{lo e ..< unat offset}"
    assume f: "rest = [] \<and> r_offset e \<noteq> offset \<and> offset + sz \<noteq> r_offset e + r_size e \<and>
      fs = [\<lparr>r_offset = offset + sz, r_size = (r_offset e + r_size e) - (offset + sz)\<rparr>] \<and>
      lost' = lost + (offset - r_offset e)"
    then have ne: "r_offset e \<noteq> offset" "offset + sz \<noteq> r_offset e + r_size e"
      "fs = [\<lparr>r_offset = offset + sz, r_size = (r_offset e + r_size e) - (offset + sz)\<rparr>]" by blast+
    note cut = cut_lost_ok [OF ok' e assms(2) ne]
    have "free_set m' = free_set m - (?R \<union> ?L)" using cut(2) by (simp only: fset)
    moreover have "?L \<subseteq> free_set m - ?R" using sub e cut(3) by auto
    moreover have "rlim m = unat (r_size (m ! 0))"
      using f rep rmap_rep_header [OF rep] rmap_rep_rlim [OF rep] by (simp add: rmap_rep_def)
    ultimately show ?thesis using nf f cut(4) rmap_rep_ok [OF rep2 cut(1)]
      by (auto intro!: exI [of _ ?L] simp: Diff_eq Int_assoc)
  qed
qed

text \<open>
  A reservation succeeds exactly when the whole range is free. With room for a new entry
  it removes exactly that range; in a full map it may drop the part of the run below the
  range as well, and accounts for it in \<^verbatim>\<open>lost_elems\<close>.
\<close>

lemma rmap_reserve_spec:
  assumes "rmap_ok m" and "0 < unat sz" and "unat offset + unat sz < 2 ^ 32"
    and "rmap_reserve m offset sz lost = (failed, m', lost')"
  shows "failed = (\<not> {unat offset ..< unat offset + unat sz} \<subseteq> free_set m) \<and> rmap_ok m' \<and>
    (if failed then m' = m \<and> lost' = lost
     else \<exists>L \<subseteq> free_set m - {unat offset ..< unat offset + unat sz}.
       free_set m' = free_set m - {unat offset ..< unat offset + unat sz} - L \<and>
       lost' = lost + of_nat (card L) \<and> (rlim m < unat (r_size (m ! 0)) \<longrightarrow> L = {}))"
proof -
  let ?R = "{unat offset ..< unat offset + unat sz}"
  from assms(1) obtain h rest where rep: "rmap_rep m h (live m) rest" and ok: "ents_ok (live m)"
    by (auto simp: rmap_ok_rep)
  show ?thesis
  proof (cases "\<exists>e \<in> set (live m). lo e \<le> unat offset \<and> unat offset + unat sz \<le> hi e")
    case False
    then have "\<not> ?R \<subseteq> free_set m"
      using ranges_single [OF ok, of "unat offset" "unat offset + unat sz"] assms(2)
      by (auto simp: free_set_def)
    with False rmap_reserve_fail [OF rep ok assms(3)] assms show ?thesis by auto
  next
    case True
    then obtain xs e ys where split: "live m = xs @ e # ys"
      and e: "lo e \<le> unat offset" "unat offset + unat sz \<le> hi e" by (metis split_list)
    have "?R \<subseteq> {lo e ..< hi e}" using e by auto
    moreover have "{lo e ..< hi e} \<subseteq> free_set m" by (rule live_range_free) (simp add: split)
    ultimately have "?R \<subseteq> free_set m" by blast
    with rmap_reserve_hit [OF assms(1,2,4) split e] show ?thesis by auto
  qed
qed

lemma ins_range_trim:
  assumes ok: "ents_ok (xs @ e # ys)" and fit: "sz \<le> r_size e"
  shows "ins_range (r_offset e) sz (xs @ trim_front e sz @ ys) = xs @ e # ys"
proof -
  have nfit: "unat sz \<le> unat (r_size e)" using fit by (simp add: word_le_nat_alt)
  have bound: "hi e < 2 ^ 32" using ok by (simp add: ents_ok_def)
  have top: "unat (r_offset e + sz) = lo e + unat sz" using bound nfit by (simp add: word_nat)
  have "passes (r_offset e) sz x" if "x \<in> set xs" for x
  proof -
    have "hi x < lo e" "hi x < 2 ^ 32" using that ok by (auto simp: ents_ok_def sorted_wrt_append)
    then show ?thesis using top by (simp add: passes_def u32_eq_iff unat_add_lt word_less_nat_alt)
  qed
  moreover have "ins_range (r_offset e) sz (trim_front e sz @ ys) = e # ys"
  proof (cases "r_size e = sz")
    case True
    have "\<forall>y \<in> set ys. hi e < lo y \<and> hi y < 2 ^ 32" using ok by (auto simp: ents_ok_def sorted_wrt_append)
    then show ?thesis using True top
      by (cases ys) (auto simp: trim_front_def u32_eq_iff unat_add_lt word_less_nat_alt)
  next
    case False
    have "0 < unat (r_size e)" using ok by (simp add: ents_ok_def)
    then have "r_offset e + r_size e \<noteq> r_offset e" using bound by (simp add: u32_eq_iff unat_add_lt)
    then show ?thesis using False by (simp add: trim_front_def)
  qed
  ultimately show ?thesis using ins_range_skip by metis
qed

lemma align_gap_spec:
  assumes "0 < unat align"
  shows "unat (align_gap offset align) < unat align"
    and "(unat offset + unat (align_gap offset align)) mod unat align = 0"
proof -
  have m: "unat (offset mod align) = unat offset mod unat align" by (simp add: unat_mod)
  have lt: "unat offset mod unat align < unat align" using assms by simp
  show "unat (align_gap offset align) < unat align"
    using assms lt m by (auto simp: align_gap_def unat_sub_le u32_eq_iff)
  show "(unat offset + unat (align_gap offset align)) mod unat align = 0"
  proof (cases "offset mod align = 0")
    case True
    then show ?thesis using m by (simp add: align_gap_def)
  next
    case False
    then have "unat (align_gap offset align) = unat align - unat offset mod unat align"
      using m lt by (simp add: align_gap_def unat_sub_le)
    then have "(unat offset + unat (align_gap offset align)) mod unat align =
        (unat offset mod unat align + (unat align - unat offset mod unat align)) mod unat align"
      by (simp add: mod_add_left_eq)
    then show ?thesis using lt by simp
  qed
qed

lemma rmap_alloc_align_scan_eq:
  "rmap_rep m h (xs @ ys) rest \<Longrightarrow>
   rmap_alloc_align_scan m sz align (Suc (length xs)) =
     Suc (length xs) + length (takeWhile (\<lambda>e. r_size e < sz + align_gap (r_offset e) align) ys)"
proof (induction ys arbitrary: xs)
  case Nil
  then show ?case by (subst rmap_alloc_align_scan.simps) (simp add: rmap_rep_rlim)
next
  case (Cons e ys)
  have "rmap_rep m h ((xs @ [e]) @ ys) rest" using Cons.prems by simp
  from Cons.IH [OF this] show ?case
    by (subst rmap_alloc_align_scan.simps)
       (simp add: rmap_rep_rlim [OF Cons.prems] rmap_rep_nth [OF Cons.prems] not_le)
qed

lemma rmap_status_scan_skip:
  "rmap_rep m h (xs @ zs @ ys) rest \<Longrightarrow>
   \<forall>z \<in> set zs. r_offset z \<le> offset \<and> r_offset z + r_size z \<le> offset \<Longrightarrow>
   rmap_status_scan m offset sz (Suc (length xs)) = rmap_status_scan m offset sz (Suc (length (xs @ zs)))"
proof (induction zs arbitrary: xs)
  case Nil
  then show ?case by simp
next
  case (Cons z zs)
  have rep: "rmap_rep m h (xs @ z # zs @ ys) rest" using Cons.prems(1) by simp
  have "rmap_status_scan m offset sz (Suc (length (xs @ [z]))) = rmap_status_scan m offset sz (Suc (length ((xs @ [z]) @ zs)))"
    using Cons.prems by (intro Cons.IH) simp_all
  then show ?case using Cons.prems(2)
    by (subst rmap_status_scan.simps)
       (auto simp: rmap_rep_rlim [OF rep] rmap_rep_nth [OF rep] Let_def not_less dest: leD)
qed

lemma rmap_status_cases:
  assumes ok: "rmap_ok m" and sz: "unat offset + unat sz < 2 ^ 32"
  obtains (beyond) "\<forall>x \<in> set (live m). hi x \<le> unat offset" "rmap_status m offset sz = 1"
  | (entry) xs e ys where "live m = xs @ e # ys" "\<forall>x \<in> set xs. hi x \<le> unat offset" "unat offset < hi e"
      "rmap_status m offset sz =
         (if lo e > unat offset then (if unat offset + unat sz > lo e then -1 else 1)
          else if unat offset + unat sz < hi e then 0 else -1)"
proof -
  let ?P = "\<lambda>e. r_offset e \<le> offset \<and> r_offset e + r_size e \<le> offset"
  from ok obtain h rest where rep: "rmap_rep m h (live m) rest" and es: "ents_ok (live m)"
    by (auto simp: rmap_ok_rep)
  have P: "?P x \<longleftrightarrow> hi x \<le> unat offset" if "x \<in> set (live m)" for x
    using that es by (auto simp: ents_ok_def word_le_nat_alt unat_add_lt)
  show thesis
  proof (cases rule: takeWhile_cases [of ?P "live m"])
    case all
    have "rmap_status m offset sz = rmap_status_scan m offset sz (Suc (length (live m)))"
      using rmap_status_scan_skip [of m h "[]" "live m" "[]" rest] rep all(2) by (simp add: rmap_status_def)
    also have "\<dots> = 1" by (subst rmap_status_scan.simps) (simp add: rmap_rep_rlim [OF rep])
    finally show thesis using all(2) P beyond by blast
  next
    case (split e ys)
    define xs where "xs = takeWhile ?P (live m)"
    note split = split [folded xs_def]
    note rep' = rep [unfolded split(1)] and es' = es [unfolded split(1)]
    have below: "\<forall>x \<in> set xs. hi x \<le> unat offset" using P split(1,3) by (metis Un_iff set_append)
    have "hi e < 2 ^ 32" using es' by (simp add: ents_ok_def)
    then have top: "unat (r_offset e + r_size e) = hi e" "unat (offset + sz) = unat offset + unat sz"
      using sz by (simp_all add: unat_add_lt)
    have above: "unat offset < hi e" using P [of e] split(1,2) by simp
    have "rmap_status m offset sz = rmap_status_scan m offset sz (Suc (length xs))"
      using rmap_status_scan_skip [of m h "[]" xs "e # ys" rest] rep' split(3) by (simp add: rmap_status_def)
    also have "\<dots> = (if lo e > unat offset then (if unat offset + unat sz > lo e then -1 else 1)
        else if unat offset + unat sz < hi e then 0 else -1)"
      using split(2) top by (subst rmap_status_scan.simps)
        (auto simp: rmap_rep_rlim [OF rep'] rmap_rep_nth [OF rep'] Let_def word_less_nat_alt word_le_nat_alt)
    finally show thesis using split(1) below above entry by blast
  qed
qed

text \<open>The resource map is a pool of ranges: the laws of \<^verbatim>\<open>range_pool\<close> hold of its operations.\<close>

interpretation rmp: range_pool rmap_ok free_set rmap_alloc "\<lambda>m i n. fst (rmap_free m i n lost)" for lost :: u32
proof
  fix s n i s' assume a: "rmap_ok s" "0 < unat n" "rmap_alloc s n = (i, s')"
  note c = rmap_alloc_spec [OF a]
  show "rmap_ok s'" using c by blast
  show "i = 0 \<and> s' = s \<or> block (i, n) \<subseteq> free_set s \<and> unat i + unat n < 2 ^ 32 \<and> free_set s' = free_set s - block (i, n)"
    using c unfolding block_def by (auto split: if_splits)
next
  fix s i n assume "rmap_ok s" "block (i, n) \<inter> free_set s = {}" "0 < unat n" "unat i + unat n < 2 ^ 32"
  then have c: "rmap_ok (fst (rmap_free s i n lost)) \<and>
      (free_set (fst (rmap_free s i n lost)) = free_set s \<union> block (i, n) \<or> fst (rmap_free s i n lost) = s)"
    using rmap_free_spec [of s i n lost "fst (rmap_free s i n lost)" "snd (rmap_free s i n lost)"]
    by (auto simp: block_def)
  then show "rmap_ok (fst (rmap_free s i n lost))" by blast
  from c show "free_set (fst (rmap_free s i n lost)) = free_set s \<union> block (i, n) \<or>
      free_set (fst (rmap_free s i n lost)) = free_set s" by auto
qed

lemmas rmap_eval = rmap_demo_def rmap_alloc_def rmap_alloc_scan.simps rmap_free_def rmap_free_scan.simps
  rmap_reserve_def rmap_reserve_scan.simps rmap_alloc_align_def rmap_alloc_align_scan.simps align_gap_def
  rmap_status_def rmap_status_scan.simps collapse_def makespace_def memmove_def Let_def

lemma rmap_demo_ok: "rmap_ok rmap_demo"
  by (simp add: rmap_ok_def rmap_demo_def live_def ents_ok_def)

lemma rmap_demo_live:
  "live rmap_demo = [\<lparr>r_offset = 4, r_size = 4\<rparr>, \<lparr>r_offset = 16, r_size = 8\<rparr>]"
  by (simp add: rmap_demo_def live_def)

lemma rmap_demo_free: "free_set rmap_demo = {4..<8} \<union> {16..<24}"
  by (simp add: free_set_def rmap_demo_live)

section \<open>Correctness of the resource map\<close>

text \<open>
  C11: whatever sequence of allocations and releases a client performs on a well-formed map
  (releasing only ranges it holds), the map stays well-formed, the ranges the client holds
  never overlap one another, and none of them is handed out again while it is held.
\<close>

theorem rmap_client_disjoint:
  assumes "rmap_ok m" and "0 \<notin> free_set m"
    and "pool_run rmap_alloc (\<lambda>m i n. fst (rmap_free m i n lost)) (m, []) ops = (m', bs)"
  shows "rmap_ok m' \<and> sorted_wrt (\<lambda>a b. block a \<inter> block b = {}) bs \<and>
    (\<forall>b \<in> set bs. block b \<inter> free_set m' = {})"
proof -
  have "rmp.pool_inv (m, [])" using assms(1,2) by (simp add: rmp.pool_inv_def held_ok_def)
  from rmp.pool_run_inv [OF this, of lost ops] assms(3) show ?thesis
    by (simp add: rmp.pool_inv_def held_ok_def)
qed

theorem rmap_client_disjoint_witness:
  "\<exists>m'. pool_run rmap_alloc (\<lambda>m i n. fst (rmap_free m i n 0)) (rmap_demo, []) [Take 3, Take 6, Give 1, Take 2] =
     (m', [(4, 2), (16, 6)]) \<and> rmap_ok m' \<and> block (4, 2) \<inter> block (16, 6) = {} \<and>
     block (16, 6) \<inter> free_set m' = {}"
proof -
  have ops: "pool_run rmap_alloc (\<lambda>m i n. fst (rmap_free m i n 0)) (rmap_demo, []) [Take 3, Take 6, Give 1, Take 2] =
     ([\<lparr>r_offset = 2, r_size = 3\<rparr>, \<lparr>r_offset = 6, r_size = 2\<rparr>, \<lparr>r_offset = 22, r_size = 2\<rparr>,
       \<lparr>r_offset = 0, r_size = 0\<rparr>], [(4, 2), (16, 6)])"
    by (simp add: pool_run_def drop_nth_def rmap_eval word_le_nat_alt)
  from rmap_client_disjoint [OF rmap_demo_ok _ ops] show ?thesis
    unfolding ops by (simp add: rmap_demo_free)
qed

lemma rmap_alloc_align_spec:
  assumes "rmap_ok m" and "0 < unat sz" and "0 < unat align" and "unat sz + unat align < 2 ^ 32"
    and "rmap_alloc_align m sz align lost = (idx, m', lost')"
  shows "rmap_ok m' \<and>
    (if \<exists>e \<in> set (live m). sz + align_gap (r_offset e) align \<le> r_size e
     then unat idx mod unat align = 0 \<and> {unat idx ..< unat idx + unat sz} \<subseteq> free_set m \<and>
       (\<exists>L \<subseteq> free_set m - {unat idx ..< unat idx + unat sz}.
         free_set m' = free_set m - {unat idx ..< unat idx + unat sz} - L \<and>
         lost' = lost + of_nat (card L) \<and> (rlim m < unat (r_size (m ! 0)) \<longrightarrow> L = {}))
     else idx = 0 \<and> m' = m \<and> lost' = lost)"
proof -
  let ?P = "\<lambda>e. r_size e < sz + align_gap (r_offset e) align"
  from assms(1) obtain h rest where rep: "rmap_rep m h (live m) rest" and ok: "ents_ok (live m)"
    by (auto simp: rmap_ok_rep)
  have scan: "rmap_alloc_align_scan m sz align 1 = Suc (length (takeWhile ?P (live m)))"
    using rmap_alloc_align_scan_eq [of m h "[]" "live m" rest] rep by simp
  show ?thesis
  proof (cases rule: takeWhile_cases [of ?P "live m"])
    case all
    with scan have "rmap_alloc_align_scan m sz align 1 = Suc (length (live m))" by simp
    then have "rmap_alloc_align m sz align lost = (0, m, lost)"
      by (simp add: rmap_alloc_align_def rmap_rep_rlim [OF rep])
    with all(2) assms show ?thesis by (auto simp: not_le)
  next
    case (split e ys)
    define xs where "xs = takeWhile ?P (live m)"
    note split = split [folded xs_def]
    note rep' = rep [unfolded split(1)] and ok' = ok [unfolded split(1)]
    let ?g = "align_gap (r_offset e) align"
    let ?i = "r_offset e + ?g"
    have mem: "e \<in> set (live m)" using split(1) by (metis in_set_conv_decomp)
    have bound: "hi e < 2 ^ 32" using ok' by (simp add: ents_ok_def)
    have fit: "sz + ?g \<le> r_size e" using split(2) by simp
    have "unat (sz + ?g) = unat sz + unat ?g"
      using align_gap_spec(1) [OF assms(3), of "r_offset e"] assms(4) by (simp add: unat_add_lt)
    with fit have g: "unat sz + unat ?g \<le> unat (r_size e)" by (simp add: word_le_nat_alt)
    then have i: "unat ?i = lo e + unat ?g" using bound assms(2) by (simp add: unat_add_lt)
    have "{unat ?i ..< unat ?i + unat sz} \<subseteq> {lo e ..< hi e}" using g by (auto simp: i)
    then have sub: "{unat ?i ..< unat ?i + unat sz} \<subseteq> free_set m"
      using live_range_free [OF mem] by blast
    obtain failed m2 lost2 where res: "rmap_reserve m ?i sz lost = (failed, m2, lost2)"
      by (cases "rmap_reserve m ?i sz lost") auto
    have "unat ?i + unat sz < 2 ^ 32" using i g bound by simp
    note correct = rmap_reserve_spec [OF assms(1,2) this res]
    with sub have "\<not> failed" by simp
    moreover have "rmap_alloc_align m sz align lost =
        (case rmap_reserve m ?i sz lost of (True, m1, l1) \<Rightarrow> (0, m1, l1) | (False, m1, l1) \<Rightarrow> (?i, m1, l1))"
      using scan rmap_rep_rlim [OF rep'] rmap_rep_nth [OF rep']
      by (simp add: rmap_alloc_align_def Let_def xs_def [symmetric])
    ultimately have "idx = ?i" "m' = m2" "lost' = lost2" using assms(5) res by auto
    moreover have "unat ?i mod unat align = 0" using align_gap_spec(2) [OF assms(3)] i by simp
    moreover have "\<exists>e \<in> set (live m). sz + align_gap (r_offset e) align \<le> r_size e" using mem fit by blast
    ultimately show ?thesis using correct \<open>\<not> failed\<close> sub by auto
  qed
qed

text \<open>
  An aligned allocation succeeds exactly when some free run can hold the aligned range.
  Its result is a multiple of the alignment, lies inside the free space and is removed from
  it; nothing else is removed unless the map is full, when the part dropped is counted
  in \<^verbatim>\<open>lost_elems\<close>.
\<close>

theorem rmap_alloc_align_correct:
  assumes "rmap_ok m" and "0 < unat sz" and "0 < unat align" and "unat sz + unat align < 2 ^ 32"
    and "rmap_alloc_align m sz align lost = (idx, m', lost')"
  shows "rmap_ok m' \<and>
    (if \<exists>e \<in> set (live m). sz + align_gap (r_offset e) align \<le> r_size e
     then unat idx mod unat align = 0 \<and> {unat idx ..< unat idx + unat sz} \<subseteq> free_set m \<and>
       (\<exists>L \<subseteq> free_set m - {unat idx ..< unat idx + unat sz}.
         free_set m' = free_set m - {unat idx ..< unat idx + unat sz} - L \<and>
         lost' = lost + of_nat (card L) \<and> (rlim m < unat (r_size (m ! 0)) \<longrightarrow> L = {}))
     else idx = 0 \<and> m' = m \<and> lost' = lost)"
  using assms by (rule rmap_alloc_align_spec)

theorem rmap_alloc_align_correct_witness:
  "\<exists>m'. rmap_alloc_align rmap_demo 2 16 0 = (16, m', 0) \<and> rmap_ok m' \<and> {16..<18} \<subseteq> free_set rmap_demo"
proof -
  have run: "rmap_alloc_align rmap_demo 2 16 0 = (16,
    [\<lparr>r_offset = 2, r_size = 3\<rparr>, \<lparr>r_offset = 4, r_size = 4\<rparr>, \<lparr>r_offset = 18, r_size = 6\<rparr>,
      \<lparr>r_offset = 0, r_size = 0\<rparr>], 0)"
    by (simp add: rmap_eval)
  have "\<exists>e \<in> set (live rmap_demo). (2 :: u32) + align_gap (r_offset e) 16 \<le> r_size e"
    by (simp add: rmap_demo_live align_gap_def)
  with rmap_alloc_align_correct [OF rmap_demo_ok _ _ _ run] show ?thesis unfolding run by simp
qed

text \<open>
  Releasing a range right after it was allocated gives back the very entries the map had
  before, and nothing is lost, even in a map with no spare slot.
\<close>

theorem rmap_alloc_free_roundtrip:
  assumes "rmap_ok m" and "\<exists>e \<in> set (live m). sz \<le> r_size e"
    and "rmap_alloc m sz = (idx, m1)" and "rmap_free m1 idx sz lost = (m2, lost2)"
  shows "live m2 = live m \<and> lost2 = lost"
proof -
  from assms(1) obtain h rest where rep: "rmap_rep m h (live m) rest" and ok: "ents_ok (live m)"
    by (auto simp: rmap_ok_rep)
  from assms(2) have "\<not> (\<forall>e \<in> set (live m). r_size e < sz)" by (auto simp: not_less)
  then obtain xs e ys where split: "live m = xs @ e # ys" and nf: "\<not> r_size e < sz"
    and xs: "\<forall>x \<in> set xs. r_size x < sz"
    by (cases rule: takeWhile_cases [of "\<lambda>e. r_size e < sz" "live m"]) metis+
  note rep' = rep [unfolded split] and ok' = ok [unfolded split]
  have fit: "sz \<le> r_size e" using nf by simp
  obtain h1 rest1 where idx: "idx = r_offset e" and rep1: "rmap_rep m1 h1 (xs @ trim_front e sz @ ys) rest1"
    and room: "r_size e = sz \<longrightarrow> rest1 \<noteq> []"
    using rmap_alloc_fit [OF rep' xs fit] assms(3) by auto
  have eq: "ins_range idx sz (xs @ trim_front e sz @ ys) = xs @ e # ys"
    unfolding idx by (rule ins_range_trim [OF ok' fit])
  from rmap_free_refines [OF rep1, of idx sz lost] show ?thesis
  proof
    assume full: "rest1 = [] \<and> rmap_free m1 idx sz lost = (m1, lost + sz) \<and>
      length (xs @ trim_front e sz @ ys) < length (ins_range idx sz (xs @ trim_front e sz @ ys))"
    then have "r_size e = sz" using eq by (simp add: trim_front_def split: if_splits)
    with full room show ?thesis by simp
  next
    assume "\<exists>m' h' rest'. rmap_free m1 idx sz lost = (m', lost) \<and>
      rmap_rep m' h' (ins_range idx sz (xs @ trim_front e sz @ ys)) rest'"
    then show ?thesis using assms(4) eq split by (auto dest: live_rep)
  qed
qed

theorem rmap_alloc_free_roundtrip_witness:
  "\<exists>m1 m2. rmap_alloc rmap_demo 4 = (4, m1) \<and> rmap_free m1 4 4 0 = (m2, 0) \<and> live m2 = live rmap_demo"
proof -
  have a: "rmap_alloc rmap_demo 4 = (4, [\<lparr>r_offset = 1, r_size = 3\<rparr>, \<lparr>r_offset = 16, r_size = 8\<rparr>,
      \<lparr>r_offset = 16, r_size = 8\<rparr>, \<lparr>r_offset = 0, r_size = 0\<rparr>])"
    by (simp add: rmap_eval)
  obtain m2 l2 where f: "rmap_free (snd (rmap_alloc rmap_demo 4)) 4 4 0 = (m2, l2)" by fastforce
  have "\<exists>e \<in> set (live rmap_demo). (4 :: u32) \<le> r_size e" by (simp add: rmap_demo_live)
  from rmap_alloc_free_roundtrip [OF rmap_demo_ok this a] f a show ?thesis by auto
qed

text \<open>
  \<^verbatim>\<open>rmap_status\<close> answers 1 exactly when the range meets no free number. It
  answers 0 exactly when the range and the number just above it are all free, so that a
  range that ends at the top of a free run is reported as \<open>-1\<close>, partially allocated.
\<close>

theorem rmap_status_correct:
  assumes "rmap_ok m" and "0 < unat sz" and "unat offset + unat sz < 2 ^ 32"
  shows "rmap_status m offset sz =
    (if {unat offset ..< unat offset + unat sz} \<inter> free_set m = {} then 1
     else if {unat offset .. unat offset + unat sz} \<subseteq> free_set m then 0 else -1)"
    (is "_ = (if ?R \<inter> _ = {} then 1 else if ?R1 \<subseteq> _ then 0 else -1)")
proof (cases rule: rmap_status_cases [OF assms(1,3), case_names beyond entry])
  case beyond
  then have "?R \<inter> free_set m = {}" by (fastforce simp: free_set_def ranges_def)
  with beyond show ?thesis by simp
next
  case (entry xs e ys)
  have ok: "ents_ok (xs @ e # ys)" using assms(1) entry(1) by (simp add: rmap_ok_def)
  have pos: "0 < unat (r_size e)" using ok by (simp add: ents_ok_def)
  have fs: "n \<in> free_set m \<longleftrightarrow> n \<in> ranges xs \<or> lo e \<le> n \<and> n < hi e \<or> n \<in> ranges ys" for n
    by (simp add: free_set_def entry(1))
  have rx: "n \<in> ranges xs \<Longrightarrow> n < unat offset" for n using entry(2) by (fastforce simp: ranges_def)
  have ry: "n \<in> ranges ys \<Longrightarrow> hi e < n" for n using ents_ok_around [OF ok, of n] by blast
  have hi_e: "hi e \<notin> free_set m" using fs rx [of "hi e"] ry [of "hi e"] entry(3) by auto
  show ?thesis
  proof (cases "lo e > unat offset")
    case True
    have "unat offset \<notin> free_set m"
      using True fs rx [of "unat offset"] ry [of "unat offset"] entry(3) by auto
    then have "\<not> ?R1 \<subseteq> free_set m" by (meson atLeastAtMost_iff le_add1 order_refl subsetD)
    moreover have "lo e \<in> free_set m" using fs pos by simp
    then have "?R \<inter> free_set m = {} \<Longrightarrow> \<not> unat offset + unat sz > lo e"
      using True by (auto simp: disjoint_iff)
    moreover have "n \<notin> free_set m" if "n \<in> ?R" "\<not> unat offset + unat sz > lo e" for n
      using that fs rx [of n] ry [of n] by auto
    ultimately show ?thesis using entry(4) True by (auto simp: disjoint_iff)
  next
    case False
    have "unat offset \<in> ?R" using assms(2) by simp
    moreover have "unat offset \<in> free_set m" using False entry(3) fs by simp
    ultimately have ne: "?R \<inter> free_set m \<noteq> {}" by blast
    have "hi e \<in> ?R1" if "\<not> unat offset + unat sz < hi e" using that entry(3) by simp
    with hi_e have "?R1 \<subseteq> free_set m \<Longrightarrow> unat offset + unat sz < hi e" by blast
    moreover have "?R1 \<subseteq> free_set m" if "unat offset + unat sz < hi e"
    proof
      fix n assume "n \<in> ?R1"
      with that False show "n \<in> free_set m" using fs [of n] by simp
    qed
    ultimately have "?R1 \<subseteq> free_set m \<longleftrightarrow> unat offset + unat sz < hi e" by blast
    with entry(4) False ne show ?thesis by simp
  qed
qed

theorem rmap_status_correct_witness:
  "rmap_status rmap_demo 16 4 = 0 \<and> {16..<20::nat} \<subseteq> free_set rmap_demo \<and>
   rmap_status rmap_demo 16 8 = - 1 \<and> {16..<24::nat} \<subseteq> free_set rmap_demo"
proof -
  have "16 \<in> {16..<20::nat} \<inter> free_set rmap_demo" by (simp add: rmap_demo_free)
  then have "{16..<20} \<inter> free_set rmap_demo \<noteq> {}" by blast
  moreover have "{16..20} \<subseteq> free_set rmap_demo" by (auto simp: rmap_demo_free)
  ultimately have "rmap_status rmap_demo 16 4 = 0"
    using rmap_status_correct [OF rmap_demo_ok, of 4 16] by simp
  moreover have "rmap_status rmap_demo 16 8 = - 1" by (simp add: rmap_eval)
  ultimately show ?thesis by (auto simp: rmap_demo_free)
qed

end
