(* ===== verification/Kmem.thy ===== *)
theory Kmem
  imports Access Rmap
begin

text \<open>
  Kernel memory: \<^verbatim>\<open>src/src/sys/krnl/kmem.c\<close>, which takes address space from the resource maps \<^verbatim>\<open>osvmap\<close> and \<^verbatim>\<open>kmodmap\<close>, page frames from
  the page frame database, and ties them together in the page tables. The counter of numbers a resource map could not take back is \<open>rmap_lost\<close>.
\<close>

unbundle bit_operations_syntax

record kmem_state = pdir_state +
  osvmap :: rmap
  kmodmap :: rmap
  rmap_lost :: u32

definition TAG_KMEM :: u32 where "TAG_KMEM = 0x4B4D454D"
definition TAG_KMOD :: u32 where "TAG_KMOD = 0x4B4D4F44"
definition TAG_SYS :: u32 where "TAG_SYS = 0x535953"

definition KHEAPBASE :: u32 where "KHEAPBASE = 0x92000000"
definition KHEAPSIZE :: u32 where "KHEAPSIZE = 0x6E000000"
definition KMODSIZE :: u32 where "KMODSIZE = 0x10000000"
definition OSVMAP_ADDRESS :: u32 where "OSVMAP_ADDRESS = 0x90404000"
definition KMODMAP_ADDRESS :: u32 where "KMODMAP_ADDRESS = 0x90405000"
definition OSVMAP_ENTRIES :: u32 where "OSVMAP_ENTRIES = 512"

section \<open>Allocation and release\<close>

text \<open>The loop shared by the allocators: a fresh frame for each of \<open>n\<close> pages, from the \<open>i\<close>-th page after \<open>vaddr\<close> on.\<close>

fun map_fresh :: "u32 \<Rightarrow> u32 \<Rightarrow> nat \<Rightarrow> nat \<Rightarrow> 'a pdir_state_scheme \<Rightarrow> 'a pdir_state_scheme option" where
  "map_fresh tag vaddr i 0 s = Some s"
| "map_fresh tag vaddr i (Suc n) s = do {
     (pfn, s1) \<leftarrow> alloc_pageframe tag s;
     s2 \<leftarrow> map_page (vaddr + PTOB (of_nat i)) pfn (PT_WRITABLE OR PT_PRESENT) s1;
     map_fresh tag vaddr (i + 1) n s2
   }"

fun map_run :: "u32 \<Rightarrow> u32 \<Rightarrow> nat \<Rightarrow> nat \<Rightarrow> 'a pdir_state_scheme \<Rightarrow> 'a pdir_state_scheme option" where
  "map_run pfn vaddr i 0 s = Some s"
| "map_run pfn vaddr i (Suc n) s = do {
     s1 \<leftarrow> map_page (vaddr + PTOB (of_nat i)) (pfn + of_nat i) (PT_WRITABLE OR PT_PRESENT) s;
     map_run pfn vaddr (i + 1) n s1
   }"

fun unmap_free :: "u32 \<Rightarrow> nat \<Rightarrow> nat \<Rightarrow> 'a pdir_state_scheme \<Rightarrow> 'a pdir_state_scheme" where
  "unmap_free vaddr i 0 s = s"
| "unmap_free vaddr i (Suc n) s =
     (let v = vaddr + PTOB (of_nat i)
      in unmap_free vaddr (i + 1) n (unmap_page v (free_pageframe (BTOP (virt2phys s v)) s)))"

fun unmap_run :: "u32 \<Rightarrow> nat \<Rightarrow> nat \<Rightarrow> 'a pdir_state_scheme \<Rightarrow> 'a pdir_state_scheme" where
  "unmap_run vaddr i 0 s = s"
| "unmap_run vaddr i (Suc n) s = unmap_run vaddr (i + 1) n (unmap_page (vaddr + PTOB (of_nat i)) s)"

definition alloc_pages :: "int \<Rightarrow> u32 \<Rightarrow> 'a kmem_state_scheme \<Rightarrow> (u32 \<times> 'a kmem_state_scheme) option" where
  "alloc_pages pages tag s =
     (let tag1 = (if tag = 0 then TAG_KMEM else tag);
          (idx, m) = rmap_alloc (osvmap s) (of_int pages);
          vaddr = PTOB idx
      in do { s1 \<leftarrow> map_fresh tag1 vaddr 0 (nat pages) (s\<lparr>osvmap := m\<rparr>); Some (vaddr, s1) })"

definition alloc_pages_align :: "int \<Rightarrow> int \<Rightarrow> u32 \<Rightarrow> 'a kmem_state_scheme \<Rightarrow> (u32 \<times> 'a kmem_state_scheme) option" where
  "alloc_pages_align pages align tag s =
     (let tag1 = (if tag = 0 then TAG_KMEM else tag);
          (idx, m, lost) = rmap_alloc_align (osvmap s) (of_int pages) (of_int align) (rmap_lost s);
          vaddr = PTOB idx
      in do { s1 \<leftarrow> map_fresh tag1 vaddr 0 (nat pages) (s\<lparr>osvmap := m, rmap_lost := lost\<rparr>); Some (vaddr, s1) })"

definition alloc_pages_linear :: "int \<Rightarrow> u32 \<Rightarrow> 'a kmem_state_scheme \<Rightarrow> (u32 \<times> 'a kmem_state_scheme) option" where
  "alloc_pages_linear pages tag s = do {
     (pfn, s1) \<leftarrow> alloc_linear_pageframes pages (if tag = 0 then TAG_KMEM else tag) s;
     if pfn = 0xFFFFFFFF then Some (0, s1)
     else let (idx, m) = rmap_alloc (osvmap s1) (of_int pages); vaddr = PTOB idx
          in do { s2 \<leftarrow> map_run pfn vaddr 0 (nat pages) (s1\<lparr>osvmap := m\<rparr>); Some (vaddr, s2) }
   }"

definition free_pages :: "u32 \<Rightarrow> int \<Rightarrow> 'a kmem_state_scheme \<Rightarrow> 'a kmem_state_scheme" where
  "free_pages addr pages s =
     (let s1 = unmap_free addr 0 (nat pages) s;
          (m, lost) = rmap_free (osvmap s1) (BTOP addr) (of_int pages) (rmap_lost s1)
      in s1\<lparr>osvmap := m, rmap_lost := lost\<rparr>)"

definition iomap :: "u32 \<Rightarrow> int \<Rightarrow> 'a kmem_state_scheme \<Rightarrow> (u32 \<times> 'a kmem_state_scheme) option" where
  "iomap addr sz s =
     (let pages = PAGES (of_int sz);
          (idx, m) = rmap_alloc (osvmap s) pages;
          vaddr = PTOB idx
      in do { s1 \<leftarrow> map_run (BTOP addr) vaddr 0 (nat (sint pages)) (s\<lparr>osvmap := m\<rparr>); Some (vaddr, s1) })"

definition iounmap :: "u32 \<Rightarrow> int \<Rightarrow> 'a kmem_state_scheme \<Rightarrow> 'a kmem_state_scheme" where
  "iounmap addr sz s =
     (let pages = PAGES (of_int sz);
          s1 = unmap_run addr 0 (nat (sint pages)) s;
          (m, lost) = rmap_free (osvmap s1) (BTOP addr) pages (rmap_lost s1)
      in s1\<lparr>osvmap := m, rmap_lost := lost\<rparr>)"

section \<open>Module memory\<close>

definition zero_page :: "u32 \<Rightarrow> 'a pdir_state_scheme \<Rightarrow> 'a pdir_state_scheme" where
  "zero_page v s = s\<lparr>phys := (phys s)(frame_of s (PTABIDX v) := (\<lambda>i. 0))\<rparr>"

fun map_zeroed :: "u32 \<Rightarrow> nat \<Rightarrow> nat \<Rightarrow> 'a pdir_state_scheme \<Rightarrow> 'a pdir_state_scheme option" where
  "map_zeroed vaddr i 0 s = Some s"
| "map_zeroed vaddr i (Suc n) s = do {
     (pfn, s1) \<leftarrow> alloc_pageframe TAG_KMOD s;
     s2 \<leftarrow> map_page (vaddr + PTOB (of_nat i)) pfn (PT_WRITABLE OR PT_PRESENT) s1;
     map_zeroed vaddr (i + 1) n (zero_page (vaddr + PTOB (of_nat i)) s2)
   }"

definition alloc_module_mem :: "int \<Rightarrow> 'a kmem_state_scheme \<Rightarrow> (u32 \<times> 'a kmem_state_scheme) option" where
  "alloc_module_mem pages s =
     (let (idx, m) = rmap_alloc (kmodmap s) (of_int pages);
          vaddr = PTOB idx
      in do { s1 \<leftarrow> map_zeroed vaddr 0 (nat pages) (s\<lparr>kmodmap := m\<rparr>); Some (vaddr, s1) })"

definition free_module_mem :: "u32 \<Rightarrow> int \<Rightarrow> 'a kmem_state_scheme \<Rightarrow> 'a kmem_state_scheme" where
  "free_module_mem addr pages s =
     (let s1 = unmap_free addr 0 (nat pages) s;
          (m, lost) = rmap_free (kmodmap s1) (BTOP addr) (of_int pages) (rmap_lost s1)
      in s1\<lparr>kmodmap := m, rmap_lost := lost\<rparr>)"

text \<open>The frames for the maps are not cleared: \<open>junk\<close> and \<open>junk2\<close> are what they hold. \<open>imgsize\<close> is the size of the kernel image in its header.\<close>

definition init_kmem :: "u32 \<Rightarrow> rmap \<Rightarrow> rmap \<Rightarrow> 'a kmem_state_scheme \<Rightarrow> 'a kmem_state_scheme option" where
  "init_kmem imgsize junk junk2 s = do {
     (pfn, s1) \<leftarrow> alloc_pageframe TAG_SYS s;
     s2 \<leftarrow> map_page OSVMAP_ADDRESS pfn (PT_WRITABLE OR PT_PRESENT) s1;
     let (m, lost) = rmap_free (rmap_init junk OSVMAP_ENTRIES) (BTOP KHEAPBASE) (BTOP KHEAPSIZE) (rmap_lost s2);
     (pfn2, s3) \<leftarrow> alloc_pageframe TAG_SYS (s2\<lparr>osvmap := m, rmap_lost := lost\<rparr>);
     s4 \<leftarrow> map_page KMODMAP_ADDRESS pfn2 (PT_WRITABLE OR PT_PRESENT) s3;
     let (m2, lost2) = rmap_free (rmap_init junk2 OSVMAP_ENTRIES) (BTOP OSBASE) (BTOP KMODSIZE) (rmap_lost s4);
     let (failed, m3, lost3) = rmap_reserve m2 (BTOP OSBASE) (BTOP imgsize) lost2;
     Some (s4\<lparr>kmodmap := m3, rmap_lost := lost3\<rparr>)
   }"

section \<open>The loops\<close>

lemma PTOB_add: "PTOB a + PTOB b = PTOB (a + b)"
  by (simp add: PTOB_def push_bit_add)

lemma page_address: "PTOB (of_nat p) + PTOB (of_nat i) = PTOB (of_nat (p + i))"
  by (simp add: PTOB_add)

lemma entry_present:
  assumes "f AND PT_PRESENT \<noteq> 0" "unat f < 4096" and "k < 2 ^ 20"
  shows "(PTOB (of_nat k) OR f) AND PT_PRESENT \<noteq> 0" and "unat (PTOB (of_nat k) OR f) div 4096 = k"
proof -
  show "(PTOB (of_nat k) OR f) AND PT_PRESENT \<noteq> 0" by (rule present_or) (rule assms(1))
  have "unat (PTOB (of_nat k) OR f) = 4096 * k + unat f" using unat_entry [OF assms(3), of f] assms(2) by simp
  then show "unat (PTOB (of_nat k) OR f) div 4096 = k" using assms(2) by simp
qed

lemma kernel_flags: "(PT_WRITABLE OR PT_PRESENT) AND PT_PRESENT \<noteq> 0" "unat (PT_WRITABLE OR PT_PRESENT) < 4096"
  by (simp_all add: PT_WRITABLE_def PT_PRESENT_def)

lemma mem_inv_take:
  assumes "mem_inv s (k # ys) H" and "tag \<noteq> TAG_FREE"
  shows "mem_inv (take_frame k ys tag s) ys H"
  using assms(1) alloc_pageframe_spec(2) [OF mem_invD(1) [OF assms(1)] assms(2)]
  by (rule mem_inv_frame) (use mem_invD(3) [OF assms(1)] in \<open>auto simp: take_frame_def table_at_def frame_of_def\<close>)

text \<open>A page that is mapped to a frame nobody uses becomes a held page.\<close>

lemma hold_page:
  assumes flags: "f AND PT_PRESENT \<noteq> 0" "unat f < 4096" and "mem_inv s xs H" and "p < 2 ^ 20" "p div 1024 \<noteq> 576" "p \<notin> H"
    and "k < unat (maxmem s)" "k \<notin> set xs" "k \<notin> frame_of s ` H" "\<And>i. i < 1024 \<Longrightarrow> table_at s i \<Longrightarrow> table_frame s i \<noteq> k"
    and "map_page (PTOB (of_nat p)) (of_nat k) f s = Some s'"
  obtains xs' where "mem_inv s' xs' (insert p H)" and "xs' = xs \<or> (\<exists>t. xs = t # xs')" and "frame_of s' p = k"
    and "\<And>q. q \<in> H \<Longrightarrow> ptab s' q = ptab s q" and "\<And>j. j \<notin> set xs \<Longrightarrow> pfdb s' j = pfdb s j" and "phys s' = phys s" and "maxmem s' = maxmem s"
    and "\<And>i. i < 1024 \<Longrightarrow> table_at s' i \<Longrightarrow> table_at s i \<and> table_frame s' i = table_frame s i \<or> table_frame s' i \<in> set xs \<and> table_frame s' i \<notin> set xs'"
    and "pdir_state.more s' = pdir_state.more s"
proof -
  have k: "k < 2 ^ 20" using assms(7) pf_repD(5) [OF mem_invD(1) [OF assms(3)]] by simp
  obtain xs' where x: "mem_inv s' xs' H" "xs' = xs \<or> (\<exists>t. xs = t # xs')" "ptab s' p = PTOB (of_nat k) OR f" "table_at s' (p div 1024)"
    and same: "\<And>q. q \<in> H \<Longrightarrow> ptab s' q = ptab s q" "\<And>j. j \<notin> set xs \<Longrightarrow> pfdb s' j = pfdb s j" "phys s' = phys s" "maxmem s' = maxmem s"
    and tabs: "\<And>i. i < 1024 \<Longrightarrow> table_at s' i \<Longrightarrow> table_at s i \<and> table_frame s' i = table_frame s i \<or> table_frame s' i \<in> set xs \<and> table_frame s' i \<notin> set xs'"
    and more: "pdir_state.more s' = pdir_state.more s"
    using map_page_frame [OF assms(3-6) frame_number_valid [OF k] assms(11)] by metis
  have f: "frame_of s' p = k" using x(3) entry_present(2) [OF flags k] by (simp add: frame_of_def)
  have fh: "frame_of s' q = frame_of s q" if "q \<in> H" for q using same(1) [OF that] by (simp add: frame_of_def)
  have "mem_inv s' xs' (insert p H)"
  proof (rule mem_inv_insert [OF x(1) assms(4,5) x(4)])
    show "ptab s' p AND PT_PRESENT \<noteq> 0" unfolding x(3) by (rule entry_present(1) [OF flags k])
    show "frame_of s' p < unat (maxmem s')" "frame_of s' p \<notin> set xs'" using f assms(7,8) same(4) x(2) by auto
    show "frame_of s' p \<notin> frame_of s' ` H" using f fh assms(9) by (auto simp: image_iff)
    show "table_frame s' i \<noteq> frame_of s' p" if "i < 1024" "table_at s' i" for i using tabs [OF that] assms(8,10) that f by metis
  qed
  then show thesis using x(2) f same tabs more by (rule that)
qed

lemmas map_page_hold = hold_page [OF kernel_flags]

lemma fresh_page:
  assumes flags: "f AND PT_PRESENT \<noteq> 0" "unat f < 4096" and "mem_inv s xs H" and "p < 2 ^ 20" "p div 1024 \<noteq> 576" "p \<notin> H" and "tag \<noteq> TAG_FREE" and "alloc_pageframe tag s = Some (pfn, s1)"
    and "map_page (PTOB (of_nat p)) pfn f s1 = Some s2"
  obtains xs' where "mem_inv s2 xs' (insert p H)" and "set xs' \<subseteq> set xs" and "length xs \<le> length xs' + 2" and "frame_of s2 p \<in> set xs"
    and "pfdb s2 (frame_of s2 p) = \<lparr>pf_tag = tag, pf_word = 0\<rparr>"
    and "\<And>q. q \<in> H \<Longrightarrow> ptab s2 q = ptab s q" and "\<And>j. j \<notin> set xs \<Longrightarrow> pfdb s2 j = pfdb s j" and "phys s2 = phys s" and "maxmem s2 = maxmem s"
    and "pdir_state.more s2 = pdir_state.more s"
proof -
  obtain k ys where k: "xs = k # ys" "pfn = of_nat k" "s1 = take_frame k ys tag s"
    using alloc_pageframe_cases [OF mem_invD(1) [OF assms(3)] assms(7,8)] by metis
  have inv1: "mem_inv s1 ys H" using mem_inv_take assms(3,7) unfolding k by blast
  have rep: "pf_rep s (k # ys)" using mem_invD(1) [OF assms(3)] k(1) by simp
  have s1: "ptab s1 = ptab s" "phys s1 = phys s" "maxmem s1 = maxmem s" "pdir_state.more s1 = pdir_state.more s" "pfdb s1 = (pfdb s)(k := \<lparr>pf_tag = tag, pf_word = 0\<rparr>)"
    unfolding k by (simp_all add: take_frame_def)
  have fr: "frame_of s1 = frame_of s" "table_at s1 = table_at s" by (simp_all add: frame_of_def table_at_def s1 fun_eq_iff)
  have kk: "k < unat (maxmem s1)" "k \<notin> set ys" "k \<notin> frame_of s1 ` H" "\<And>i. i < 1024 \<Longrightarrow> table_at s1 i \<Longrightarrow> table_frame s1 i \<noteq> k"
    using pf_rep_bound(2) [OF rep, of k] pf_repD(3) [OF rep] mem_invD(4,5) [OF assms(3)] k(1) by (auto simp: s1 fr)
  obtain xs' where x: "mem_inv s2 xs' (insert p H)" "xs' = ys \<or> (\<exists>t. ys = t # xs')" "frame_of s2 p = k" "\<And>q. q \<in> H \<Longrightarrow> ptab s2 q = ptab s1 q"
    "\<And>j. j \<notin> set ys \<Longrightarrow> pfdb s2 j = pfdb s1 j" "phys s2 = phys s1" "maxmem s2 = maxmem s1" "pdir_state.more s2 = pdir_state.more s1"
    using hold_page [OF flags inv1 assms(4-6) kk assms(9) [unfolded k(2)]] by metis
  show thesis
  proof (rule that [OF x(1)])
    show "pfdb s2 (frame_of s2 p) = \<lparr>pf_tag = tag, pf_word = 0\<rparr>" using x(5) [OF kk(2)] x(3) s1(5) by simp
  qed (use x s1 k(1) in auto)
qed

lemmas map_fresh_step = fresh_page [OF kernel_flags]

definition free_range :: "nat \<Rightarrow> nat \<Rightarrow> nat set \<Rightarrow> bool" where
  "free_range p n H \<longleftrightarrow> (\<forall>q. p \<le> q \<and> q < p + n \<longrightarrow> q \<notin> H \<and> q < 2 ^ 20 \<and> q div 1024 \<noteq> 576)"

lemma free_range_Suc: "free_range p (Suc n) H \<Longrightarrow> p < 2 ^ 20 \<and> p div 1024 \<noteq> 576 \<and> p \<notin> H \<and> free_range (Suc p) n (insert p H)"
  by (auto simp: free_range_def)

lemma range_Suc: "insert p H \<union> {Suc p..<Suc p + n} = H \<union> {p..<p + Suc n}"
  by auto

text \<open>What a loop that maps \<open>n\<close> pages to frames with the given tag from page \<open>p\<close> on leaves behind.\<close>

definition fresh_pages :: "u32 \<Rightarrow> nat \<Rightarrow> nat \<Rightarrow> nat list \<Rightarrow> nat set \<Rightarrow> 'a pdir_state_scheme \<Rightarrow> nat list \<Rightarrow> 'a pdir_state_scheme \<Rightarrow> bool" where
  "fresh_pages tag p n xs H s xs' s' \<longleftrightarrow> mem_inv s' xs' (H \<union> {p..<p + n}) \<and> set xs' \<subseteq> set xs \<and>
     (\<forall>q \<in> {p..<p + n}. frame_of s' q \<in> set xs \<and> pfdb s' (frame_of s' q) = \<lparr>pf_tag = tag, pf_word = 0\<rparr>) \<and>
     (\<forall>q \<in> H. ptab s' q = ptab s q) \<and> (\<forall>j. j \<notin> set xs \<longrightarrow> pfdb s' j = pfdb s j \<and> phys s' j = phys s j) \<and>
     maxmem s' = maxmem s \<and> pdir_state.more s' = pdir_state.more s"

lemma fresh_pages_step:
  assumes "mem_inv s2 ys (insert p H)" "set ys \<subseteq> set xs" "frame_of s2 p \<in> set xs" "pfdb s2 (frame_of s2 p) = \<lparr>pf_tag = tag, pf_word = 0\<rparr>"
    and "\<And>q. q \<in> H \<Longrightarrow> ptab s2 q = ptab s q" "\<And>j. j \<notin> set xs \<Longrightarrow> pfdb s2 j = pfdb s j \<and> phys s2 j = phys s j" "maxmem s2 = maxmem s"
    and "pdir_state.more s2 = pdir_state.more s" and "fresh_pages tag (Suc p) n ys (insert p H) s2 xs' s'"
  shows "fresh_pages tag p (Suc n) xs H s xs' s'"
proof -
  note f = assms(9) [unfolded fresh_pages_def range_Suc]
  have p: "frame_of s' p = frame_of s2 p" using f by (simp add: frame_of_def)
  have "frame_of s2 p \<notin> set ys" using mem_invD(4) [OF assms(1), of p] by simp
  then have "pfdb s' (frame_of s' p) = \<lparr>pf_tag = tag, pf_word = 0\<rparr>" using f p assms(4) by simp
  then have "frame_of s' q \<in> set xs \<and> pfdb s' (frame_of s' q) = \<lparr>pf_tag = tag, pf_word = 0\<rparr>" if "q \<in> {p..<p + Suc n}" for q
    using f that p assms(2,3) by (cases "q = p") auto
  then show ?thesis using f assms(2,5-8) unfolding fresh_pages_def by auto
qed

lemma map_fresh_spec:
  "mem_inv s xs H \<Longrightarrow> free_range (p + i) n H \<Longrightarrow> tag \<noteq> TAG_FREE \<Longrightarrow> map_fresh tag (PTOB (of_nat p)) i n s = Some s' \<Longrightarrow>
   \<exists>xs'. fresh_pages tag (p + i) n xs H s xs' s'"
proof (induction n arbitrary: s xs H i)
  case 0
  then show ?case by (auto simp: fresh_pages_def)
next
  case (Suc n)
  note r = free_range_Suc [OF Suc.prems(2)]
  obtain pfn s1 s2 where st: "alloc_pageframe tag s = Some (pfn, s1)" "map_page (PTOB (of_nat (p + i))) pfn (PT_WRITABLE OR PT_PRESENT) s1 = Some s2"
    "map_fresh tag (PTOB (of_nat p)) (i + 1) n s2 = Some s'"
    using Suc.prems(4) by (auto simp: page_address bind_eq_Some_conv)
  obtain ys where y: "mem_inv s2 ys (insert (p + i) H)" "set ys \<subseteq> set xs" "frame_of s2 (p + i) \<in> set xs" "pfdb s2 (frame_of s2 (p + i)) = \<lparr>pf_tag = tag, pf_word = 0\<rparr>"
    "\<And>q. q \<in> H \<Longrightarrow> ptab s2 q = ptab s q" "\<And>j. j \<notin> set xs \<Longrightarrow> pfdb s2 j = pfdb s j \<and> phys s2 j = phys s j" "maxmem s2 = maxmem s"
    "pdir_state.more s2 = pdir_state.more s"
    using map_fresh_step [OF Suc.prems(1) _ _ _ Suc.prems(3) st(1,2)] r by metis
  have "free_range (p + (i + 1)) n (insert (p + i) H)" using r by simp
  from Suc.IH [OF y(1) this Suc.prems(3) st(3)] show ?case using fresh_pages_step [OF y] by auto
qed

lemma map_fresh_total:
  "mem_inv s xs H \<Longrightarrow> free_range (p + i) n H \<Longrightarrow> tag \<noteq> TAG_FREE \<Longrightarrow> 2 * n \<le> length xs \<Longrightarrow> \<exists>s'. map_fresh tag (PTOB (of_nat p)) i n s = Some s'"
proof (induction n arbitrary: s xs H i)
  case (Suc n)
  note r = free_range_Suc [OF Suc.prems(2)]
  obtain k ys where xs: "xs = k # ys" using Suc.prems(4) by (cases xs) auto
  have rep: "pf_rep s (k # ys)" using mem_invD(1) [OF Suc.prems(1)] xs by simp
  note a = alloc_pageframe_spec [OF rep Suc.prems(3)]
  have k: "k < 2 ^ 20" using pf_rep_bound(1) [OF rep] by simp
  obtain s2 where m: "map_page (PTOB (of_nat (p + i))) (of_nat k) (PT_WRITABLE OR PT_PRESENT) (take_frame k ys tag s) = Some s2"
  proof (cases "table_at (take_frame k ys tag s) ((p + i) div 1024)")
    case True
    then show ?thesis using that map_page_present r by blast
  next
    case False
    obtain t zs where "ys = t # zs" using Suc.prems(4) xs by (cases ys) auto
    then show ?thesis using that map_page_new [OF _ False] a(2) r frame_number_valid [OF k] by blast
  qed
  obtain zs where z: "mem_inv s2 zs (insert (p + i) H)" "length xs \<le> length zs + 2"
    using map_fresh_step [OF Suc.prems(1) _ _ _ Suc.prems(3) a(1) m] r by metis
  have "free_range (p + (i + 1)) n (insert (p + i) H)" "2 * n \<le> length zs" using r z(2) Suc.prems(4) by simp_all
  from Suc.IH [OF z(1) this(1) Suc.prems(3) this(2)] show ?case using a(1) m by (simp add: page_address)
qed simp

lemma map_zeroed_spec:
  "mem_inv s xs H \<Longrightarrow> free_range (p + i) n H \<Longrightarrow> map_zeroed (PTOB (of_nat p)) i n s = Some s' \<Longrightarrow>
   \<exists>xs'. fresh_pages TAG_KMOD (p + i) n xs H s xs' s' \<and> (\<forall>q \<in> {p + i..<p + i + n}. \<forall>w. phys s' (frame_of s' q) w = 0)"
proof (induction n arbitrary: s xs H i)
  case 0
  then show ?case by (auto simp: fresh_pages_def)
next
  case (Suc n)
  note r = free_range_Suc [OF Suc.prems(2)]
  obtain pfn s1 s2 where st: "alloc_pageframe TAG_KMOD s = Some (pfn, s1)" "map_page (PTOB (of_nat (p + i))) pfn (PT_WRITABLE OR PT_PRESENT) s1 = Some s2"
    "map_zeroed (PTOB (of_nat p)) (i + 1) n (zero_page (PTOB (of_nat (p + i))) s2) = Some s'"
    using Suc.prems(3) by (auto simp: page_address bind_eq_Some_conv)
  have "TAG_KMOD \<noteq> TAG_FREE" by (simp add: TAG_KMOD_def TAG_FREE_def)
  then obtain ys where y: "mem_inv s2 ys (insert (p + i) H)" "set ys \<subseteq> set xs" "frame_of s2 (p + i) \<in> set xs" "pfdb s2 (frame_of s2 (p + i)) = \<lparr>pf_tag = TAG_KMOD, pf_word = 0\<rparr>"
    "\<And>q. q \<in> H \<Longrightarrow> ptab s2 q = ptab s q" "\<And>j. j \<notin> set xs \<Longrightarrow> pfdb s2 j = pfdb s j" "phys s2 = phys s" "maxmem s2 = maxmem s"
    "pdir_state.more s2 = pdir_state.more s"
    using map_fresh_step [OF Suc.prems(1) _ _ _ _ st(1,2)] r by metis
  define s3 where "s3 = zero_page (PTOB (of_nat (p + i))) s2"
  have s3: "s3 = s2\<lparr>phys := (phys s2)(frame_of s2 (p + i) := (\<lambda>w. 0))\<rparr>" using r by (simp add: s3_def zero_page_def page_of_PTOB del: of_nat_add)
  have inv: "mem_inv s3 ys (insert (p + i) H)" by (rule mem_inv_cong [OF y(1)]) (simp_all add: s3)
  have "free_range (p + (i + 1)) n (insert (p + i) H)" using r by simp
  from Suc.IH [OF inv this st(3) [folded s3_def]] obtain xs' where
    f: "fresh_pages TAG_KMOD (Suc (p + i)) n ys (insert (p + i) H) s3 xs' s'" and z: "\<forall>q \<in> {Suc (p + i)..<Suc (p + i) + n}. \<forall>w. phys s' (frame_of s' q) w = 0"
    by auto
  have "fresh_pages TAG_KMOD (p + i) (Suc n) xs H s xs' s'"
    by (rule fresh_pages_step [OF inv y(2) _ _ _ _ _ _ f]) (use y in \<open>auto simp: s3 frame_of_def\<close>)
  moreover have "phys s' (frame_of s' (p + i)) w = 0" for w
  proof -
    have "frame_of s' (p + i) = frame_of s3 (p + i)" using f by (simp add: fresh_pages_def frame_of_def)
    moreover have "frame_of s3 (p + i) \<notin> set ys" using mem_invD(4) [OF inv, of "p + i"] by simp
    ultimately have "phys s' (frame_of s' (p + i)) = phys s3 (frame_of s3 (p + i))" using f by (simp add: fresh_pages_def)
    then show ?thesis by (simp add: s3 frame_of_def)
  qed
  moreover have "q \<in> {p + i..<p + i + Suc n} \<Longrightarrow> q = p + i \<or> q \<in> {Suc (p + i)..<Suc (p + i) + n}" for q by auto
  ultimately show ?case using z by metis
qed

text \<open>Frames \<open>k\<close>, \<open>k + 1\<close>, and so on that nobody uses are mapped to consecutive pages.\<close>

definition unused_frames :: "'a pdir_state_scheme \<Rightarrow> nat list \<Rightarrow> nat set \<Rightarrow> nat \<Rightarrow> nat \<Rightarrow> bool" where
  "unused_frames s xs H k n \<longleftrightarrow> (\<forall>j. k \<le> j \<and> j < k + n \<longrightarrow> j < unat (maxmem s) \<and> j \<notin> set xs \<and> j \<notin> frame_of s ` H \<and>
     (\<forall>i < 1024. table_at s i \<longrightarrow> table_frame s i \<noteq> j))"

lemma map_run_spec:
  "mem_inv s xs H \<Longrightarrow> free_range (p + i) n H \<Longrightarrow> unused_frames s xs H (k + i) n \<Longrightarrow> map_run (of_nat k) (PTOB (of_nat p)) i n s = Some s' \<Longrightarrow>
   \<exists>xs'. mem_inv s' xs' (H \<union> {p + i..<p + i + n}) \<and> set xs' \<subseteq> set xs \<and> (\<forall>q. i \<le> q \<and> q < i + n \<longrightarrow> frame_of s' (p + q) = k + q) \<and>
     (\<forall>q \<in> H. ptab s' q = ptab s q) \<and> phys s' = phys s \<and> pdir_state.more s' = pdir_state.more s"
proof (induction n arbitrary: s xs H i)
  case 0
  then show ?case by auto
next
  case (Suc n)
  note r = free_range_Suc [OF Suc.prems(2)]
  note u = Suc.prems(3) [unfolded unused_frames_def]
  have k: "k + i < unat (maxmem s)" "k + i \<notin> set xs" "k + i \<notin> frame_of s ` H" "\<And>j. j < 1024 \<Longrightarrow> table_at s j \<Longrightarrow> table_frame s j \<noteq> k + i"
    using u [rule_format, of "k + i"] by auto
  obtain s1 where st: "map_page (PTOB (of_nat (p + i))) (of_nat (k + i)) (PT_WRITABLE OR PT_PRESENT) s = Some s1" "map_run (of_nat k) (PTOB (of_nat p)) (i + 1) n s1 = Some s'"
    using Suc.prems(4) by (auto simp: page_address bind_eq_Some_conv)
  obtain ys where y: "mem_inv s1 ys (insert (p + i) H)" "ys = xs \<or> (\<exists>t. xs = t # ys)" "frame_of s1 (p + i) = k + i"
    "\<And>q. q \<in> H \<Longrightarrow> ptab s1 q = ptab s q" "phys s1 = phys s" "maxmem s1 = maxmem s"
    "\<And>j. j < 1024 \<Longrightarrow> table_at s1 j \<Longrightarrow> table_at s j \<and> table_frame s1 j = table_frame s j \<or> table_frame s1 j \<in> set xs \<and> table_frame s1 j \<notin> set ys"
    "pdir_state.more s1 = pdir_state.more s"
    using map_page_hold [OF Suc.prems(1) _ _ _ k st(1)] r by metis
  have fh: "frame_of s1 q = frame_of s q" if "q \<in> H" for q using y(4) [OF that] by (simp add: frame_of_def)
  have "unused_frames s1 ys (insert (p + i) H) (k + (i + 1)) n" unfolding unused_frames_def
  proof (intro allI impI conjI)
    fix j assume j: "k + (i + 1) \<le> j \<and> j < k + (i + 1) + n"
    then have uj: "j < unat (maxmem s) \<and> j \<notin> set xs \<and> j \<notin> frame_of s ` H \<and> (\<forall>i < 1024. table_at s i \<longrightarrow> table_frame s i \<noteq> j)" using u by simp
    show "j < unat (maxmem s1)" "j \<notin> set ys" using uj y(2,6) by auto
    show "j \<notin> frame_of s1 ` insert (p + i) H" using uj fh y(3) j by auto
    show "table_frame s1 l \<noteq> j" if "l < 1024" "table_at s1 l" for l using y(7) [OF that] uj that by metis
  qed
  moreover have "free_range (p + (i + 1)) n (insert (p + i) H)" using r by simp
  ultimately obtain xs' where f: "mem_inv s' xs' (insert (p + i) H \<union> {Suc (p + i)..<Suc (p + i) + n})" "set xs' \<subseteq> set ys"
    "\<forall>q. Suc i \<le> q \<and> q < Suc i + n \<longrightarrow> frame_of s' (p + q) = k + q" "\<forall>q \<in> insert (p + i) H. ptab s' q = ptab s1 q" "phys s' = phys s1"
    "pdir_state.more s' = pdir_state.more s1"
    using Suc.IH [OF y(1) _ _ st(2)] by auto
  have "frame_of s' (p + i) = k + i" using f(4) y(3) by (simp add: frame_of_def)
  then have "frame_of s' (p + q) = k + q" if "i \<le> q \<and> q < i + Suc n" for q using f(3) that by (cases "q = i") auto
  then show ?case using f(1,2,4-6) y(2,4,5,8) unfolding range_Suc by (intro exI [of _ xs']) auto
qed

text \<open>Pages that are mapped to foreign memory, as \<^verbatim>\<open>iomap\<close> does, leave the held pages alone.\<close>

lemma map_run_foreign:
  "mem_inv s xs H \<Longrightarrow> free_range (p + i) n H \<Longrightarrow> unat pfn + i + n \<le> 2 ^ 20 \<Longrightarrow> map_run pfn (PTOB (of_nat p)) i n s = Some s' \<Longrightarrow>
   \<exists>xs'. mem_inv s' xs' H \<and> set xs' \<subseteq> set xs \<and> (\<forall>q \<in> H. ptab s' q = ptab s q) \<and> phys s' = phys s \<and> pdir_state.more s' = pdir_state.more s"
proof (induction n arbitrary: s xs i)
  case 0
  then show ?case by auto
next
  case (Suc n)
  note r = free_range_Suc [OF Suc.prems(2)]
  obtain s1 where st: "map_page (PTOB (of_nat (p + i))) (pfn + of_nat i) (PT_WRITABLE OR PT_PRESENT) s = Some s1" "map_run pfn (PTOB (of_nat p)) (i + 1) n s1 = Some s'"
    using Suc.prems(4) by (auto simp: page_address bind_eq_Some_conv)
  have "pfn + of_nat i = of_nat (unat pfn + i)" by simp
  then have v: "pfn + of_nat i \<noteq> 0xFFFFFFFF" using frame_number_valid [of "unat pfn + i"] Suc.prems(3) by simp
  obtain ys where y: "mem_inv s1 ys H" "ys = xs \<or> (\<exists>t. xs = t # ys)" "\<And>q. q \<in> H \<Longrightarrow> ptab s1 q = ptab s q" "phys s1 = phys s" "pdir_state.more s1 = pdir_state.more s"
    using map_page_frame [OF Suc.prems(1) _ _ _ v st(1)] r by metis
  have "free_range (p + (i + 1)) n H" "unat pfn + (i + 1) + n \<le> 2 ^ 20" using r Suc.prems(3) by (auto simp: free_range_def)
  from Suc.IH [OF y(1) this st(2)] show ?case using y by fastforce
qed

section \<open>Releasing pages\<close>

lemma drop_pfnmask: "drop_bit 12 (w AND PT_PFNMASK) = drop_bit 12 w"
proof -
  have m: "PT_PFNMASK = NOT (mask 12)" by (simp add: PT_PFNMASK_def mask_numeral)
  show ?thesis unfolding m by (rule bit_word_eqI) (auto simp: bit_simps dest: bit_imp_le_length)
qed

lemma page_frame_number: "unat (BTOP (virt2phys s (PTOB (of_nat p)))) = frame_of s p" if "p < 2 ^ 20"
proof -
  have "PGOFF (PTOB (of_nat p)) = 0" using page_offset [of "PTOB (of_nat p)"] unat_PTOB [OF that] by (simp add: unat_eq_0 [symmetric])
  moreover have "drop_bit 12 (w AND PT_PFNMASK) = drop_bit 12 w" for w :: u32
    by (rule drop_pfnmask)
  ultimately show ?thesis
    using page_of_PTOB [OF that] by (simp add: BTOP_def virt2phys_def GET_PTE_def frame_of_def drop_bit_eq_div unat_div_distrib)
qed

lemma unmap_free_step:
  assumes "mem_inv s xs H" and "p \<in> H" and "s' = unmap_page (PTOB (of_nat p)) (free_pageframe (BTOP (virt2phys s (PTOB (of_nat p)))) s)"
  shows "mem_inv s' (frame_of s p # xs) (H - {p})" and "\<And>q. q \<noteq> p \<Longrightarrow> ptab s' q = ptab s q" and "phys s' = phys s"
    and "pdir_state.more s' = pdir_state.more s" and "maxmem s' = maxmem s" and "\<And>j. j \<noteq> frame_of s p \<Longrightarrow> pfdb s' j = pfdb s j"
proof -
  note inv = mem_invD [OF assms(1)]
  have p: "p < 2 ^ 20" "p div 1024 \<noteq> 576" using inv(3) [OF assms(2)] by simp_all
  note f = page_frame_number [OF p(1), of s]
  show pt: "ptab s' q = ptab s q" if "q \<noteq> p" for q using that p by (simp add: assms(3) unmap_page_def SET_PTE_def page_of_PTOB free_pageframe_def)
  show ph: "phys s' = phys s" "pdir_state.more s' = pdir_state.more s" "maxmem s' = maxmem s"
    by (simp_all add: assms(3) unmap_page_def SET_PTE_def free_pageframe_def)
  show "pfdb s' j = pfdb s j" if "j \<noteq> frame_of s p" for j using that f by (simp add: assms(3) unmap_page_def SET_PTE_def free_pageframe_def)
  have fr: "frame_of s' q = frame_of s q" if "q \<noteq> p" for q using pt [OF that] by (simp add: frame_of_def)
  have dir: "0x90000 + i \<noteq> p" if "i < 1024" for i using that p(2) by auto
  have tab: "table_at s' i = table_at s i" "table_frame s' i = table_frame s i" if "i < 1024" for i
    using pt dir [OF that] fr by (simp_all add: table_at_def)
  have "pf_rep (free_pageframe (BTOP (virt2phys s (PTOB (of_nat p)))) s) (frame_of s p # xs)"
    using free_pageframe_spec [OF inv(1), of "BTOP (virt2phys s (PTOB (of_nat p)))"] f inv(4) [OF assms(2)] by simp
  then have rep: "pf_rep s' (frame_of s p # xs)" by (rule pf_rep_cong) (simp_all add: assms(3) unmap_page_def SET_PTE_def)
  show "mem_inv s' (frame_of s p # xs) (H - {p})"
  proof (rule mem_invI [OF rep])
    show "inj_on (frame_of s') (H - {p})" using inv(2) fr by (simp add: inj_on_def)
    fix q assume q: "q \<in> H - {p}"
    then have "frame_of s q \<noteq> frame_of s p" using inv(2) assms(2) by (auto dest: inj_onD)
    then show "frame_of s' q < unat (maxmem s') \<and> frame_of s' q \<notin> set (frame_of s p # xs)" using inv(4) [of q] q fr ph by simp
    have "q div 1024 < 1024" using inv(3) [of q] q by (auto simp: div_less_iff_less_mult)
    then show "q < 2 ^ 20 \<and> q div 1024 \<noteq> 576 \<and> table_at s' (q div 1024) \<and> ptab s' q AND PT_PRESENT \<noteq> 0" using inv(3) [of q] q pt tab by simp
  next
    fix i assume i: "i < 1024" "table_at s' i"
    then show "table_frame s' i \<notin> set (frame_of s p # xs)" using inv(5) [of i] inv(6) [of i p] tab assms(2) by simp
    show "table_frame s' i \<noteq> frame_of s' q" if "q \<in> H - {p}" for q using inv(6) [of i q] i tab fr that by simp
  qed
qed

lemma unmap_free_spec:
  "mem_inv s xs H \<Longrightarrow> {p + i..<p + i + n} \<subseteq> H \<Longrightarrow>
   \<exists>ys. mem_inv (unmap_free (PTOB (of_nat p)) i n s) (ys @ xs) (H - {p + i..<p + i + n}) \<and> set ys = frame_of s ` {p + i..<p + i + n} \<and>
     (\<forall>q. q \<notin> {p + i..<p + i + n} \<longrightarrow> ptab (unmap_free (PTOB (of_nat p)) i n s) q = ptab s q) \<and> phys (unmap_free (PTOB (of_nat p)) i n s) = phys s \<and>
     pdir_state.more (unmap_free (PTOB (of_nat p)) i n s) = pdir_state.more s \<and>
     (\<forall>j. j \<notin> frame_of s ` {p + i..<p + i + n} \<longrightarrow> pfdb (unmap_free (PTOB (of_nat p)) i n s) j = pfdb s j)"
proof (induction n arbitrary: s xs H i)
  case 0
  then show ?case by (intro exI [of _ "[]"]) simp
next
  case (Suc n)
  define s1 where "s1 = unmap_page (PTOB (of_nat (p + i))) (free_pageframe (BTOP (virt2phys s (PTOB (of_nat (p + i))))) s)"
  have "p + i \<in> H" using Suc.prems(2) by auto
  note st = unmap_free_step [OF Suc.prems(1) this s1_def]
  have u: "unmap_free (PTOB (of_nat p)) i (Suc n) s = unmap_free (PTOB (of_nat p)) (i + 1) n s1" by (simp add: s1_def page_address Let_def)
  have fr: "frame_of s1 q = frame_of s q" if "q \<noteq> p + i" for q using st(2) [OF that] by (simp add: frame_of_def)
  have rng: "{p + i..<p + i + Suc n} = insert (p + i) {p + (i + 1)..<p + (i + 1) + n}" by auto
  have im: "frame_of s1 ` {p + (i + 1)..<p + (i + 1) + n} = frame_of s ` {p + (i + 1)..<p + (i + 1) + n}" by (rule image_cong) (use fr in auto)
  have "{p + (i + 1)..<p + (i + 1) + n} \<subseteq> H - {p + i}" using Suc.prems(2) by auto
  from Suc.IH [OF st(1) this] obtain ys where
    y: "mem_inv (unmap_free (PTOB (of_nat p)) (i + 1) n s1) (ys @ frame_of s (p + i) # xs) (H - {p + i} - {p + (i + 1)..<p + (i + 1) + n})"
    "set ys = frame_of s ` {p + (i + 1)..<p + (i + 1) + n}" "\<forall>q. q \<notin> {p + (i + 1)..<p + (i + 1) + n} \<longrightarrow> ptab (unmap_free (PTOB (of_nat p)) (i + 1) n s1) q = ptab s1 q"
    "phys (unmap_free (PTOB (of_nat p)) (i + 1) n s1) = phys s1" "pdir_state.more (unmap_free (PTOB (of_nat p)) (i + 1) n s1) = pdir_state.more s1"
    "\<forall>j. j \<notin> frame_of s ` {p + (i + 1)..<p + (i + 1) + n} \<longrightarrow> pfdb (unmap_free (PTOB (of_nat p)) (i + 1) n s1) j = pfdb s1 j"
    unfolding im by blast
  have "H - {p + i} - {p + (i + 1)..<p + (i + 1) + n} = H - {p + i..<p + i + Suc n}" unfolding rng by auto
  then show ?case unfolding u using y st unfolding rng by (intro exI [of _ "ys @ [frame_of s (p + i)]"]) auto
qed

lemma unmap_run_foreign:
  "mem_inv s xs H \<Longrightarrow> free_range (p + i) n H \<Longrightarrow> mem_inv (unmap_run (PTOB (of_nat p)) i n s) xs H \<and>
     (\<forall>q \<in> H. ptab (unmap_run (PTOB (of_nat p)) i n s) q = ptab s q) \<and> pdir_state.more (unmap_run (PTOB (of_nat p)) i n s) = pdir_state.more s"
proof (induction n arbitrary: s i)
  case (Suc n)
  note r = free_range_Suc [OF Suc.prems(2)]
  define s1 where "s1 = unmap_page (PTOB (of_nat (p + i))) s"
  have s1: "s1 = s\<lparr>ptab := (ptab s)(p + i := 0)\<rparr>" using r by (simp add: s1_def unmap_page_def SET_PTE_def page_of_PTOB del: of_nat_add)
  have dir: "0x90000 + j \<noteq> p + i" if "j < 1024" for j using that r by auto
  have tab: "table_at s1 j = table_at s j" "table_frame s1 j = table_frame s j" if "j < 1024" for j
    using dir [OF that] by (simp_all add: table_at_def frame_of_def s1)
  have pf: "pf_rep s1 xs" using mem_invD(1) [OF Suc.prems(1)] by (rule pf_rep_cong) (simp_all add: s1)
  have held: "ptab s1 q = ptab s q \<and> table_at s1 (q div 1024)" if "q \<in> H" for q
  proof -
    have "q div 1024 < 1024" "table_at s (q div 1024)" "q \<noteq> p + i" using mem_invD(3) [OF Suc.prems(1) that] that r by (auto simp: div_less_iff_less_mult)
    then show ?thesis using tab(1) s1 by simp
  qed
  have "mem_inv s1 xs H" using Suc.prems(1) pf by (rule mem_inv_frame) (use tab held in \<open>simp_all add: s1\<close>)
  moreover have "free_range (p + (i + 1)) n H" using r by (auto simp: free_range_def)
  moreover have "unmap_run (PTOB (of_nat p)) i (Suc n) s = unmap_run (PTOB (of_nat p)) (i + 1) n s1" by (simp add: s1_def page_address)
  ultimately show ?case using Suc.IH [of s1 "i + 1"] held by (simp add: s1)
qed simp

section \<open>The invariant of kernel memory\<close>

definition heap_pages :: "nat set" where "heap_pages = {0x92000..<0x100000}"
definition mod_pages :: "nat set" where "mod_pages = {0x80000..<0x90000}"

text \<open>\<open>A\<close> are the pages given out of the kernel heap, \<open>B\<close> those given out for modules, \<open>xs\<close> the free frames.\<close>

definition kmem_inv :: "'a kmem_state_scheme \<Rightarrow> nat list \<Rightarrow> nat set \<Rightarrow> nat set \<Rightarrow> bool" where
  "kmem_inv s xs A B \<longleftrightarrow> mem_inv s xs (A \<union> B) \<and> rmap_ok (osvmap s) \<and> rmap_ok (kmodmap s) \<and>
     A \<inter> free_set (osvmap s) = {} \<and> A \<union> free_set (osvmap s) \<subseteq> heap_pages \<and> B \<inter> free_set (kmodmap s) = {} \<and> B \<union> free_set (kmodmap s) \<subseteq> mod_pages"

lemma more_maps:
  assumes "pdir_state.more s' = pdir_state.more s"
  shows "osvmap s' = osvmap s" "kmodmap s' = kmodmap s" "rmap_lost s' = rmap_lost s" "kmem_state.more s' = kmem_state.more s"
  using assms by (cases s; cases s'; simp)+

lemma area_pages: "q \<in> heap_pages \<Longrightarrow> q < 2 ^ 20 \<and> q div 1024 \<noteq> 576" "q \<in> mod_pages \<Longrightarrow> q < 2 ^ 20 \<and> q div 1024 \<noteq> 576"
proof -
  have "q div 1024 \<noteq> 576" if "q < 0x90000 \<or> 0x90400 \<le> q" for q :: nat using that table_range [of q 576] by auto
  then show "q \<in> heap_pages \<Longrightarrow> q < 2 ^ 20 \<and> q div 1024 \<noteq> 576" "q \<in> mod_pages \<Longrightarrow> q < 2 ^ 20 \<and> q div 1024 \<noteq> 576"
    by (auto simp: heap_pages_def mod_pages_def)
qed

lemma areas_apart: "heap_pages \<inter> mod_pages = {}"
  by (auto simp: heap_pages_def mod_pages_def)

lemma kmem_invD:
  assumes "kmem_inv s xs A B"
  shows "mem_inv s xs (A \<union> B)" "rmap_ok (osvmap s)" "rmap_ok (kmodmap s)" "A \<inter> free_set (osvmap s) = {}" "A \<subseteq> heap_pages" "free_set (osvmap s) \<subseteq> heap_pages"
    "B \<inter> free_set (kmodmap s) = {}" "B \<subseteq> mod_pages" "free_set (kmodmap s) \<subseteq> mod_pages"
  using assms by (simp_all add: kmem_inv_def)

lemma kmem_free_range:
  assumes "kmem_inv s xs A B" and "{p..<p + n} \<subseteq> free_set (osvmap s) \<or> {p..<p + n} \<subseteq> free_set (kmodmap s)"
  shows "free_range p n (A \<union> B)"
  unfolding free_range_def
proof (intro allI impI)
  fix q assume "p \<le> q \<and> q < p + n"
  then have "q \<in> free_set (osvmap s) \<or> q \<in> free_set (kmodmap s)" using assms(2) by auto
  then show "q \<notin> A \<union> B \<and> q < 2 ^ 20 \<and> q div 1024 \<noteq> 576"
    using kmem_invD(4-9) [OF assms(1)] areas_apart area_pages [of q] by blast
qed

lemma kmem_inv_maps:
  assumes "kmem_inv s xs A B"
  shows "mem_inv (s\<lparr>osvmap := m, rmap_lost := l\<rparr>) xs (A \<union> B)" "mem_inv (s\<lparr>kmodmap := m, rmap_lost := l\<rparr>) xs (A \<union> B)"
    "mem_inv (s\<lparr>osvmap := m\<rparr>) xs (A \<union> B)" "mem_inv (s\<lparr>kmodmap := m\<rparr>) xs (A \<union> B)"
  by (rule mem_inv_cong [OF kmem_invD(1) [OF assms]]; simp)+

text \<open>A range taken out of a resource map.\<close>

lemma rmap_alloc_range:
  assumes "rmap_ok m" and "0 < n" "n < 2 ^ 31" and "\<exists>e \<in> set (live m). n \<le> unat (r_size e)"
  obtains p m' where "rmap_alloc m (of_int (int n)) = (of_nat p, m')" "rmap_ok m'" "{p..<p + n} \<subseteq> free_set m" "free_set m' = free_set m - {p..<p + n}"
proof -
  have n: "unat (of_int (int n) :: u32) = n" using assms(3) by (simp add: unat_of_nat_u32)
  obtain idx m' where r: "rmap_alloc m (of_int (int n)) = (idx, m')" by fastforce
  have fit: "\<exists>e \<in> set (live m). of_int (int n) \<le> r_size e" using assms(4) by (simp only: word_le_nat_alt n)
  have "0 < unat (of_int (int n) :: u32)" using n assms(2) by simp
  note sp = rmap_alloc_spec [OF assms(1) this r, unfolded n]
  show thesis
  proof (rule that [of "unat idx" m'])
    show "rmap_alloc m (of_int (int n)) = (of_nat (unat idx), m')" using r by simp
  qed (use sp fit in auto)
qed

lemma alloc_pages_spec:
  assumes "kmem_inv s xs A B" and "0 < n" "n < 2 ^ 31" and "tag \<noteq> TAG_FREE" and "\<exists>e \<in> set (live (osvmap s)). n \<le> unat (r_size e)"
  obtains p m where "{p..<p + n} \<subseteq> free_set (osvmap s)" and "free_set m = free_set (osvmap s) - {p..<p + n}"
    and "\<And>v s'. alloc_pages (int n) tag s = Some (v, s') \<Longrightarrow> v = PTOB (of_nat p) \<and> osvmap s' = m \<and> kmem_state.more s' = kmem_state.more s \<and>
      (\<exists>xs'. kmem_inv s' xs' (A \<union> {p..<p + n}) B \<and> fresh_pages (if tag = 0 then TAG_KMEM else tag) p n xs (A \<union> B) (s\<lparr>osvmap := m\<rparr>) xs' s')"
    and "2 * n \<le> length xs \<Longrightarrow> \<exists>s'. alloc_pages (int n) tag s = Some (PTOB (of_nat p), s')"
proof -
  note inv = kmem_invD [OF assms(1)]
  obtain p m where r: "rmap_alloc (osvmap s) (of_int (int n)) = (of_nat p, m)" "rmap_ok m" "{p..<p + n} \<subseteq> free_set (osvmap s)" "free_set m = free_set (osvmap s) - {p..<p + n}"
    using rmap_alloc_range [OF inv(2) assms(2,3,5)] by metis
  let ?t = "if tag = 0 then TAG_KMEM else tag"
  have t: "?t \<noteq> TAG_FREE" using assms(4) by (simp add: TAG_KMEM_def TAG_FREE_def)
  have fr: "free_range (p + 0) n (A \<union> B)" using kmem_free_range [OF assms(1), of p n] r(3) by simp
  have a: "alloc_pages (int n) tag s = do { s1 \<leftarrow> map_fresh ?t (PTOB (of_nat p)) 0 n (s\<lparr>osvmap := m\<rparr>); Some (PTOB (of_nat p), s1) }"
    using r(1) by (simp add: alloc_pages_def Let_def)
  show thesis
  proof (rule that [OF r(3,4)])
    fix v s' assume "alloc_pages (int n) tag s = Some (v, s')"
    then have m: "map_fresh ?t (PTOB (of_nat p)) 0 n (s\<lparr>osvmap := m\<rparr>) = Some s'" "v = PTOB (of_nat p)" unfolding a by (auto simp: bind_eq_Some_conv)
    obtain xs' where f: "fresh_pages ?t p n xs (A \<union> B) (s\<lparr>osvmap := m\<rparr>) xs' s'"
      using map_fresh_spec [OF kmem_inv_maps(3) [OF assms(1)] fr t m(1)] by auto
    have mm: "osvmap s' = m" "kmodmap s' = kmodmap s" "kmem_state.more s' = kmem_state.more s"
      using f more_maps [of s' "s\<lparr>osvmap := m\<rparr>"] by (simp_all add: fresh_pages_def)
    have "A \<union> B \<union> {p..<p + n} = A \<union> {p..<p + n} \<union> B" by blast
    then have "kmem_inv s' xs' (A \<union> {p..<p + n}) B" using f r(2-4) inv mm unfolding kmem_inv_def fresh_pages_def by auto
    then show "v = PTOB (of_nat p) \<and> osvmap s' = m \<and> kmem_state.more s' = kmem_state.more s \<and>
      (\<exists>xs'. kmem_inv s' xs' (A \<union> {p..<p + n}) B \<and> fresh_pages ?t p n xs (A \<union> B) (s\<lparr>osvmap := m\<rparr>) xs' s')" using f m(2) mm by blast
  next
    assume "2 * n \<le> length xs"
    from map_fresh_total [OF kmem_inv_maps(3) [OF assms(1), of m] fr t this] show "\<exists>s'. alloc_pages (int n) tag s = Some (PTOB (of_nat p), s')" unfolding a by (auto simp: bind_eq_Some_conv)
  qed
qed

lemma BTOP_PTOB: "p < 2 ^ 20 \<Longrightarrow> BTOP (PTOB (of_nat p)) = of_nat p"
proof -
  assume p: "p < 2 ^ 20"
  have "unat (BTOP (PTOB (of_nat p))) = p" using unat_PTOB [OF p] by (simp add: BTOP_def drop_bit_eq_div unat_div_distrib)
  then show ?thesis using p unat_of_nat_u32 [of p] by (simp add: u32_eq_iff)
qed

lemma range_bound: "{p..<p + n} \<subseteq> {a..<b} \<Longrightarrow> 0 < n \<Longrightarrow> a \<le> p \<and> p + n \<le> (b :: nat)"
  using subsetD [of "{p..<p + n}" "{a..<b}" p] subsetD [of "{p..<p + n}" "{a..<b}" "p + n - 1"] by simp

text \<open>A held range is given back to its resource map.\<close>

lemma rmap_free_range:
  assumes "rmap_ok m" and "{p..<p + n} \<inter> free_set m = {}" and "0 < n" "p + n \<le> 2 ^ 20" and "rmap_free m (BTOP (PTOB (of_nat p))) (of_int (int n)) lost = (m', lost')"
  shows "rmap_ok m' \<and> (free_set m' = free_set m \<union> {p..<p + n} \<or> free_set m' = free_set m)"
proof -
  have n: "unat (of_int (int n) :: u32) = n" "unat (BTOP (PTOB (of_nat p))) = p"
    using assms(3,4) by (simp_all add: unat_of_nat_u32 BTOP_PTOB)
  have "unat (BTOP (PTOB (of_nat p))) + unat (of_int (int n) :: u32) < 2 ^ 32" unfolding n using assms(4) by simp
  from rmap_free_spec [OF assms(1) _ _ this assms(5)] assms(2,3) show ?thesis unfolding n by auto
qed

lemma free_pages_spec:
  assumes "kmem_inv s xs A B" and "{p..<p + n} \<subseteq> A" "0 < n"
  obtains ys where "kmem_inv (free_pages (PTOB (of_nat p)) (int n) s) (ys @ xs) (A - {p..<p + n}) B" and "set ys = frame_of s ` {p..<p + n}"
    and "\<And>q. q \<in> A \<union> B - {p..<p + n} \<Longrightarrow> ptab (free_pages (PTOB (of_nat p)) (int n) s) q = ptab s q"
    and "phys (free_pages (PTOB (of_nat p)) (int n) s) = phys s" and "kmem_state.more (free_pages (PTOB (of_nat p)) (int n) s) = kmem_state.more s"
    and "\<And>j. j \<notin> frame_of s ` {p..<p + n} \<Longrightarrow> pfdb (free_pages (PTOB (of_nat p)) (int n) s) j = pfdb s j"
    and "free_set (osvmap (free_pages (PTOB (of_nat p)) (int n) s)) \<subseteq> free_set (osvmap s) \<union> {p..<p + n}"
proof -
  note inv = kmem_invD [OF assms(1)]
  define s1 where "s1 = unmap_free (PTOB (of_nat p)) 0 n s"
  have "{p + 0..<p + 0 + n} \<subseteq> A \<union> B" using assms(2) by auto
  from unmap_free_spec [OF inv(1) this, folded s1_def] obtain ys where
    y: "mem_inv s1 (ys @ xs) (A \<union> B - {p..<p + n})" "set ys = frame_of s ` {p..<p + n}" "\<forall>q. q \<notin> {p..<p + n} \<longrightarrow> ptab s1 q = ptab s q" "phys s1 = phys s"
    "pdir_state.more s1 = pdir_state.more s" "\<forall>j. j \<notin> frame_of s ` {p..<p + n} \<longrightarrow> pfdb s1 j = pfdb s j" by auto
  note mm = more_maps [OF y(5)]
  obtain m l where fr: "rmap_free (osvmap s1) (BTOP (PTOB (of_nat p))) (of_int (int n)) (rmap_lost s1) = (m, l)" by fastforce
  have s': "free_pages (PTOB (of_nat p)) (int n) s = s1\<lparr>osvmap := m, rmap_lost := l\<rparr>" using fr by (simp add: free_pages_def s1_def Let_def)
  have "p + n \<le> 2 ^ 20" using range_bound [OF subset_trans [OF assms(2) inv(5) [unfolded heap_pages_def]] assms(3)] by simp
  then have r: "rmap_ok m" "free_set m = free_set (osvmap s) \<union> {p..<p + n} \<or> free_set m = free_set (osvmap s)"
    using rmap_free_range [OF _ _ assms(3) _ fr] inv(2,4) assms(2) mm by auto
  have "B \<inter> {p..<p + n} = {}" using inv(5,8) assms(2) areas_apart by blast
  then have "A \<union> B - {p..<p + n} = A - {p..<p + n} \<union> B" by blast
  then have "mem_inv (s1\<lparr>osvmap := m, rmap_lost := l\<rparr>) (ys @ xs) (A - {p..<p + n} \<union> B)" using mem_inv_cong [OF y(1), of "s1\<lparr>osvmap := m, rmap_lost := l\<rparr>"] by simp
  moreover have "(A - {p..<p + n}) \<inter> free_set m = {}" "A - {p..<p + n} \<union> free_set m \<subseteq> heap_pages" using r(2) inv(4-6) assms(2) by blast+
  ultimately have "kmem_inv (free_pages (PTOB (of_nat p)) (int n) s) (ys @ xs) (A - {p..<p + n}) B"
    unfolding s' kmem_inv_def using r(1) inv mm by simp
  then show thesis using y(2) by (rule that) (use y mm s' r(2) in auto)
qed

text \<open>The same for the memory of modules.\<close>

lemma alloc_module_mem_spec:
  assumes "kmem_inv s xs A B" and "0 < n" "n < 2 ^ 31" and "\<exists>e \<in> set (live (kmodmap s)). n \<le> unat (r_size e)" and "alloc_module_mem (int n) s = Some (v, s')"
  obtains p xs' where "{p..<p + n} \<subseteq> free_set (kmodmap s)" and "v = PTOB (of_nat p)" and "kmem_inv s' xs' A (B \<union> {p..<p + n})" and "kmem_state.more s' = kmem_state.more s"
    and "\<And>q. q \<in> A \<union> B \<Longrightarrow> ptab s' q = ptab s q" and "\<And>q w. q \<in> {p..<p + n} \<Longrightarrow> phys s' (frame_of s' q) w = 0"
    and "\<And>j. j \<notin> set xs \<Longrightarrow> pfdb s' j = pfdb s j \<and> phys s' j = phys s j" and "set xs' \<subseteq> set xs" and "osvmap s' = osvmap s"
proof -
  note inv = kmem_invD [OF assms(1)]
  obtain p m where r: "rmap_alloc (kmodmap s) (of_int (int n)) = (of_nat p, m)" "rmap_ok m" "{p..<p + n} \<subseteq> free_set (kmodmap s)" "free_set m = free_set (kmodmap s) - {p..<p + n}"
    using rmap_alloc_range [OF inv(3) assms(2-4)] by metis
  have fr: "free_range (p + 0) n (A \<union> B)" using kmem_free_range [OF assms(1), of p n] r(3) by simp
  have m: "map_zeroed (PTOB (of_nat p)) 0 n (s\<lparr>kmodmap := m\<rparr>) = Some s'" "v = PTOB (of_nat p)"
    using assms(5) r(1) by (auto simp: alloc_module_mem_def Let_def bind_eq_Some_conv)
  obtain xs' where f: "fresh_pages TAG_KMOD p n xs (A \<union> B) (s\<lparr>kmodmap := m\<rparr>) xs' s'" and z: "\<forall>q \<in> {p..<p + n}. \<forall>w. phys s' (frame_of s' q) w = 0"
    using map_zeroed_spec [OF kmem_inv_maps(4) [OF assms(1), of m] fr m(1)] by auto
  have mm: "osvmap s' = osvmap s" "kmodmap s' = m" "kmem_state.more s' = kmem_state.more s"
    using f more_maps [of s' "s\<lparr>kmodmap := m\<rparr>"] by (simp_all add: fresh_pages_def)
  have "kmem_inv s' xs' A (B \<union> {p..<p + n})" using f r(2-4) inv mm unfolding kmem_inv_def fresh_pages_def by (auto simp: Un_assoc)
  then show thesis using r(3) m(2) mm f z by (intro that) (auto simp: fresh_pages_def)
qed

lemma free_module_mem_spec:
  assumes "kmem_inv s xs A B" and "{p..<p + n} \<subseteq> B" "0 < n"
  obtains ys where "kmem_inv (free_module_mem (PTOB (of_nat p)) (int n) s) (ys @ xs) A (B - {p..<p + n})" and "set ys = frame_of s ` {p..<p + n}"
    and "\<And>q. q \<in> A \<union> B - {p..<p + n} \<Longrightarrow> ptab (free_module_mem (PTOB (of_nat p)) (int n) s) q = ptab s q"
    and "osvmap (free_module_mem (PTOB (of_nat p)) (int n) s) = osvmap s"
proof -
  note inv = kmem_invD [OF assms(1)]
  define s1 where "s1 = unmap_free (PTOB (of_nat p)) 0 n s"
  have "{p + 0..<p + 0 + n} \<subseteq> A \<union> B" using assms(2) by auto
  from unmap_free_spec [OF inv(1) this, folded s1_def] obtain ys where
    y: "mem_inv s1 (ys @ xs) (A \<union> B - {p..<p + n})" "set ys = frame_of s ` {p..<p + n}" "\<forall>q. q \<notin> {p..<p + n} \<longrightarrow> ptab s1 q = ptab s q"
    "pdir_state.more s1 = pdir_state.more s" by auto
  note mm = more_maps [OF y(4)]
  obtain m l where fr: "rmap_free (kmodmap s1) (BTOP (PTOB (of_nat p))) (of_int (int n)) (rmap_lost s1) = (m, l)" by fastforce
  have s': "free_module_mem (PTOB (of_nat p)) (int n) s = s1\<lparr>kmodmap := m, rmap_lost := l\<rparr>" using fr by (simp add: free_module_mem_def s1_def Let_def)
  have "p + n \<le> 2 ^ 20" using range_bound [OF subset_trans [OF assms(2) inv(8) [unfolded mod_pages_def]] assms(3)] by simp
  then have r: "rmap_ok m" "free_set m = free_set (kmodmap s) \<union> {p..<p + n} \<or> free_set m = free_set (kmodmap s)"
    using rmap_free_range [OF _ _ assms(3) _ fr] inv(3,7) assms(2) mm by auto
  have "A \<inter> {p..<p + n} = {}" using inv(5,8) assms(2) areas_apart by blast
  then have "A \<union> B - {p..<p + n} = A \<union> (B - {p..<p + n})" by blast
  then have "mem_inv (s1\<lparr>kmodmap := m, rmap_lost := l\<rparr>) (ys @ xs) (A \<union> (B - {p..<p + n}))" using mem_inv_cong [OF y(1), of "s1\<lparr>kmodmap := m, rmap_lost := l\<rparr>"] by simp
  moreover have "(B - {p..<p + n}) \<inter> free_set m = {}" "B - {p..<p + n} \<union> free_set m \<subseteq> mod_pages" using r(2) inv(7-9) assms(2) by blast+
  ultimately have "kmem_inv (free_module_mem (PTOB (of_nat p)) (int n) s) (ys @ xs) A (B - {p..<p + n})"
    unfolding s' kmem_inv_def using r(1) inv mm by simp
  then show thesis using y(2) by (rule that) (use y s' mm in auto)
qed

section \<open>The other allocators\<close>

lemma alloc_pages_align_spec:
  assumes "kmem_inv s xs A B" and "0 < n" "n < 2 ^ 31" "0 < al" "al < 2 ^ 31" and "tag \<noteq> TAG_FREE" and "alloc_pages_align (int n) (int al) tag s = Some (v, s')" "v \<noteq> 0"
  obtains p xs' where "{p..<p + n} \<subseteq> free_set (osvmap s)" and "free_set (osvmap s') \<subseteq> free_set (osvmap s) - {p..<p + n}" and "v = PTOB (of_nat p)" and "p mod al = 0"
    and "kmem_inv s' xs' (A \<union> {p..<p + n}) B" and "set xs' \<subseteq> set xs" and "\<And>q. q \<in> A \<union> B \<Longrightarrow> ptab s' q = ptab s q"
proof -
  note inv = kmem_invD [OF assms(1)]
  let ?t = "if tag = 0 then TAG_KMEM else tag"
  have n: "unat (of_int (int n) :: u32) = n" "unat (of_int (int al) :: u32) = al" using assms(3,5) by (simp_all add: unat_of_nat_u32)
  obtain idx m l where r: "rmap_alloc_align (osvmap s) (of_int (int n)) (of_int (int al)) (rmap_lost s) = (idx, m, l)" by (metis prod_cases3)
  have m: "map_fresh ?t (PTOB idx) 0 n (s\<lparr>osvmap := m, rmap_lost := l\<rparr>) = Some s'" "v = PTOB idx"
    using assms(7) r by (auto simp: alloc_pages_align_def Let_def bind_eq_Some_conv)
  have "idx \<noteq> 0" using assms(8) m(2) by (auto simp: PTOB_def)
  moreover have b: "0 < unat (of_int (int n) :: u32)" "0 < unat (of_int (int al) :: u32)" "unat (of_int (int n) :: u32) + unat (of_int (int al) :: u32) < 2 ^ 32"
    using n assms(2-5) by simp_all
  ultimately have f: "rmap_ok m" "unat idx mod al = 0" "{unat idx..<unat idx + n} \<subseteq> free_set (osvmap s)" "free_set m \<subseteq> free_set (osvmap s) - {unat idx..<unat idx + n}"
    using rmap_alloc_align_spec [OF inv(2) b r] unfolding n by (auto split: if_splits)
  have t: "?t \<noteq> TAG_FREE" using assms(6) by (simp add: TAG_KMEM_def TAG_FREE_def)
  have fr: "free_range (unat idx + 0) n (A \<union> B)" using kmem_free_range [OF assms(1), of "unat idx" n] f(3) by simp
  obtain xs' where g: "fresh_pages ?t (unat idx) n xs (A \<union> B) (s\<lparr>osvmap := m, rmap_lost := l\<rparr>) xs' s'"
    using map_fresh_spec [OF kmem_inv_maps(1) [OF assms(1), of l m] fr t] m(1) by auto
  have mm: "osvmap s' = m" "kmodmap s' = kmodmap s" using g more_maps [of s' "s\<lparr>osvmap := m, rmap_lost := l\<rparr>"] by (simp_all add: fresh_pages_def)
  let ?R = "{unat idx..<unat idx + n}"
  have "A \<union> B \<union> ?R = A \<union> ?R \<union> B" by blast
  moreover have "(A \<union> ?R) \<inter> free_set m = {}" "A \<union> ?R \<union> free_set m \<subseteq> heap_pages" using f(3,4) inv(4-6) by blast+
  ultimately have "kmem_inv s' xs' (A \<union> ?R) B" using g f(1) inv mm unfolding kmem_inv_def fresh_pages_def by simp
  then show thesis using f m(2) mm g by (intro that [of "unat idx" xs']) (auto simp: fresh_pages_def)
qed

lemma more_tables:
  assumes "pframe_state.more s' = pframe_state.more s"
  shows "pdir_state.more s' = pdir_state.more s" "ptab s' = ptab s" "phys s' = phys s"
  using assms by (cases s; cases s'; simp)+

lemma mem_inv_linear:
  assumes "mem_inv s (us @ [k..<k + n] @ vs) H" and "pf_rep s1 (us @ vs)" and "maxmem s1 = maxmem s" and "k + n \<le> unat (maxmem s)"
    and "pframe_state.more s1 = pframe_state.more s"
  shows "mem_inv s1 (us @ vs) H" and "unused_frames s1 (us @ vs) H k n" and "pdir_state.more s1 = pdir_state.more s" and "ptab s1 = ptab s" and "phys s1 = phys s"
proof -
  show same: "pdir_state.more s1 = pdir_state.more s" "ptab s1 = ptab s" "phys s1 = phys s" using more_tables [OF assms(5)] by simp_all
  have fr: "frame_of s1 = frame_of s" "table_at s1 = table_at s" by (simp_all add: frame_of_def table_at_def same fun_eq_iff)
  note inv = mem_invD [OF assms(1)]
  show "mem_inv s1 (us @ vs) H" using assms(1,2) by (rule mem_inv_frame) (use inv(3) assms(3) in \<open>auto simp: fr same\<close>)
  have "distinct (us @ [k..<k + n] @ vs)" using pf_repD(3) [OF inv(1)] .
  moreover have "j \<notin> frame_of s ` H" "i < 1024 \<Longrightarrow> table_at s i \<Longrightarrow> table_frame s i \<noteq> j" if "k \<le> j \<and> j < k + n" for i j
    using inv(4,5) that by (auto simp: image_iff)
  ultimately show "unused_frames s1 (us @ vs) H k n" using assms(3,4) unfolding unused_frames_def fr by auto
qed

lemma alloc_pages_linear_spec:
  assumes "kmem_inv s xs A B" and "0 < n" "n < 2 ^ 31" and "tag \<noteq> TAG_FREE" and "alloc_pages_linear (int n) tag s = Some (v, s')" "v \<noteq> 0"
  obtains p k xs' where "{p..<p + n} \<subseteq> free_set (osvmap s)" and "v = PTOB (of_nat p)" and "kmem_inv s' xs' (A \<union> {p..<p + n}) B" and "set xs' \<subseteq> set xs"
    and "\<And>i. i < n \<Longrightarrow> frame_of s' (p + i) = k + i" and "\<And>q. q \<in> A \<union> B \<Longrightarrow> ptab s' q = ptab s q" and "free_set (osvmap s') = free_set (osvmap s) - {p..<p + n}"
proof -
  note inv = kmem_invD [OF assms(1)]
  let ?t = "if tag = 0 then TAG_KMEM else tag"
  have t: "?t \<noteq> TAG_FREE" using assms(4) by (simp add: TAG_KMEM_def TAG_FREE_def)
  obtain pfn s1 where a: "alloc_linear_pageframes (int n) ?t s = Some (pfn, s1)" using assms(5) by (auto simp: alloc_pages_linear_def bind_eq_Some_conv)
  show thesis
  proof (cases rule: alloc_linear_cases [OF mem_invD(1) [OF inv(1)] assms(2) t a])
    case 1
    then show ?thesis using assms(5,6) a by (simp add: alloc_pages_linear_def)
  next
    case (2 us k vs)
    have "k < 2 ^ 20" using 2(2) assms(2) pf_repD(5) [OF mem_invD(1) [OF inv(1)]] by simp
    then have "pfn \<noteq> 0xFFFFFFFF" using frame_number_valid 2(4) by simp
    note lin = mem_inv_linear [OF inv(1) [unfolded 2(1)] 2(5,7,2,8)]
    obtain idx m where r: "rmap_alloc (osvmap s1) (of_int (int n)) = (idx, m)" by fastforce
    have m: "map_run (of_nat k) (PTOB idx) 0 n (s1\<lparr>osvmap := m\<rparr>) = Some s'" "v = PTOB idx"
      using assms(5) a r \<open>pfn \<noteq> 0xFFFFFFFF\<close> 2(4) by (auto simp: alloc_pages_linear_def Let_def bind_eq_Some_conv)
    have idx: "idx \<noteq> 0" using assms(6) m(2) by (auto simp: PTOB_def)
    have nn: "unat (of_int (int n) :: u32) = n" using assms(3) by (simp add: unat_of_nat_u32)
    have os: "osvmap s1 = osvmap s" "kmodmap s1 = kmodmap s" using more_maps [OF lin(3)] by simp_all
    let ?R = "{unat idx..<unat idx + n}"
    have f: "rmap_ok m" "?R \<subseteq> free_set (osvmap s)" "free_set m = free_set (osvmap s) - ?R"
      using rmap_alloc_spec [OF _ _ r, unfolded nn os] inv(2) assms(2) idx by (auto split: if_splits)
    have fr: "free_range (unat idx + 0) n (A \<union> B)" using kmem_free_range [OF assms(1), of "unat idx" n] f(2) by simp
    have lin1: "mem_inv (s1\<lparr>osvmap := m\<rparr>) (us @ vs) (A \<union> B)" using mem_inv_cong [OF lin(1), of "s1\<lparr>osvmap := m\<rparr>"] by simp
    have un: "unused_frames (s1\<lparr>osvmap := m\<rparr>) (us @ vs) (A \<union> B) (k + 0) n" using lin(2) by (simp add: unused_frames_def frame_of_def [abs_def] table_at_def)
    have "map_run (of_nat k) (PTOB (of_nat (unat idx))) 0 n (s1\<lparr>osvmap := m\<rparr>) = Some s'" using m(1) by simp
    from map_run_spec [OF lin1 fr un this] obtain xs' where
      g: "mem_inv s' xs' (A \<union> B \<union> ?R)" "set xs' \<subseteq> set (us @ vs)" "\<forall>q. 0 \<le> q \<and> q < 0 + n \<longrightarrow> frame_of s' (unat idx + q) = k + q"
      "\<forall>q \<in> A \<union> B. ptab s' q = ptab s1 q" "pdir_state.more s' = pdir_state.more (s1\<lparr>osvmap := m\<rparr>)" by auto
    note mm = more_maps [OF g(5)]
    have "A \<union> B \<union> ?R = A \<union> ?R \<union> B" by blast
    moreover have "(A \<union> ?R) \<inter> free_set m = {}" "A \<union> ?R \<union> free_set m \<subseteq> heap_pages" using f(2,3) inv(4-6) by blast+
    ultimately have "kmem_inv s' xs' (A \<union> ?R) B" using g(1) f(1) inv mm os unfolding kmem_inv_def by simp
    then show ?thesis using f m(2) mm g lin(4) 2(1) by (intro that [of "unat idx" xs' k]) auto
  qed
qed

lemma PAGES_bound: "unat (PAGES x) < 2 ^ 20" "sint (PAGES x) = int (unat (PAGES x))"
proof -
  show "unat (PAGES x) < 2 ^ 20" using unat_u32_lt [of "x + 4095"] by (simp add: PAGES_def drop_bit_eq_div unat_div_distrib div_less_iff_less_mult)
  then show "sint (PAGES x) = int (unat (PAGES x))" by (intro sint_small) simp
qed

text \<open>\<open>C\<close> are the pages of the kernel heap that are mapped to the memory of devices.\<close>

definition kmem_areas :: "'a kmem_state_scheme \<Rightarrow> nat list \<Rightarrow> nat set \<Rightarrow> nat set \<Rightarrow> nat set \<Rightarrow> bool" where
  "kmem_areas s xs A B C \<longleftrightarrow> kmem_inv s xs A B \<and> C \<subseteq> heap_pages \<and> C \<inter> A = {} \<and> C \<inter> free_set (osvmap s) = {}"

lemma iomap_spec:
  assumes "kmem_areas s xs A B C" and "n = unat (PAGES (of_int sz))" "0 < n" and "unat (BTOP addr) + n \<le> 2 ^ 20" and "iomap addr sz s = Some (v, s')" "v \<noteq> 0"
  obtains p xs' where "{p..<p + n} \<subseteq> free_set (osvmap s)" and "v = PTOB (of_nat p)" and "kmem_areas s' xs' A B (C \<union> {p..<p + n})"
proof -
  have k: "kmem_inv s xs A B" using assms(1) by (simp add: kmem_areas_def)
  note inv = kmem_invD [OF k]
  obtain idx m where r: "rmap_alloc (osvmap s) (PAGES (of_int sz)) = (idx, m)" by fastforce
  have m: "map_run (BTOP addr) (PTOB (of_nat (unat idx))) 0 n (s\<lparr>osvmap := m\<rparr>) = Some s'" "v = PTOB (of_nat (unat idx))"
    using assms(2,5) r PAGES_bound(2) by (auto simp: iomap_def Let_def bind_eq_Some_conv)
  have "idx \<noteq> 0" using assms(6) m(2) by (auto simp: PTOB_def)
  let ?R = "{unat idx..<unat idx + n}"
  have f: "rmap_ok m" "?R \<subseteq> free_set (osvmap s)" "free_set m = free_set (osvmap s) - ?R"
    using rmap_alloc_spec [OF inv(2) _ r] assms(2,3) \<open>idx \<noteq> 0\<close> by (auto split: if_splits)
  have fr: "free_range (unat idx + 0) n (A \<union> B)" using kmem_free_range [OF k, of "unat idx" n] f(2) by simp
  obtain xs' where g: "mem_inv s' xs' (A \<union> B)" "pdir_state.more s' = pdir_state.more (s\<lparr>osvmap := m\<rparr>)"
    using map_run_foreign [OF kmem_inv_maps(3) [OF k, of m] fr _ m(1)] assms(4) by auto
  note mm = more_maps [OF g(2)]
  have "A \<inter> free_set m = {}" "A \<union> free_set m \<subseteq> heap_pages" "C \<union> ?R \<subseteq> heap_pages" "(C \<union> ?R) \<inter> A = {}" "(C \<union> ?R) \<inter> free_set m = {}"
    using f(2,3) inv(4-6) assms(1) unfolding kmem_areas_def by blast+
  then have "kmem_areas s' xs' A B (C \<union> ?R)" using g(1) f(1) inv mm unfolding kmem_areas_def kmem_inv_def by simp
  with f(2) m(2) show thesis by (rule that)
qed

lemma iounmap_spec:
  assumes "kmem_areas s xs A B C" and "n = unat (PAGES (of_int sz))" "0 < n" and "{p..<p + n} \<subseteq> C"
  shows "kmem_areas (iounmap (PTOB (of_nat p)) sz s) xs A B (C - {p..<p + n})"
proof -
  have k: "kmem_inv s xs A B" and C: "C \<subseteq> heap_pages" "C \<inter> A = {}" "C \<inter> free_set (osvmap s) = {}" using assms(1) by (simp_all add: kmem_areas_def)
  note inv = kmem_invD [OF k]
  have p: "p + n \<le> 2 ^ 20" using range_bound [OF subset_trans [OF assms(4) C(1) [unfolded heap_pages_def]] assms(3)] by simp
  have fr: "free_range (p + 0) n (A \<union> B)" unfolding free_range_def
  proof (intro allI impI)
    fix q assume "p + 0 \<le> q \<and> q < p + 0 + n"
    then have "q \<in> C" using assms(4) by auto
    then show "q \<notin> A \<union> B \<and> q < 2 ^ 20 \<and> q div 1024 \<noteq> 576" using C(1,2) inv(8) areas_apart area_pages(1) [of q] by blast
  qed
  define s1 where "s1 = unmap_run (PTOB (of_nat p)) 0 n s"
  have s1: "mem_inv s1 xs (A \<union> B)" "pdir_state.more s1 = pdir_state.more s" using unmap_run_foreign [OF inv(1) fr] by (simp_all add: s1_def)
  note mm = more_maps [OF s1(2)]
  obtain m l where r: "rmap_free (osvmap s1) (BTOP (PTOB (of_nat p))) (PAGES (of_int sz)) (rmap_lost s1) = (m, l)" by fastforce
  have "PAGES (of_int sz) = of_int (int n)" using assms(2) by simp
  note r' = r [unfolded this]
  have s': "iounmap (PTOB (of_nat p)) sz s = s1\<lparr>osvmap := m, rmap_lost := l\<rparr>" using r assms(2) PAGES_bound(2) by (simp add: iounmap_def s1_def Let_def)
  have f: "rmap_ok m" "free_set m = free_set (osvmap s) \<union> {p..<p + n} \<or> free_set m = free_set (osvmap s)"
    using rmap_free_range [OF _ _ assms(3) p r'] inv(2) C(3) assms(4) mm by auto
  then have "A \<inter> free_set m = {}" "A \<union> free_set m \<subseteq> heap_pages" "(C - {p..<p + n}) \<inter> free_set m = {}" using inv(4-6) C assms(4) by blast+
  moreover have "mem_inv (s1\<lparr>osvmap := m, rmap_lost := l\<rparr>) xs (A \<union> B)" using mem_inv_cong [OF s1(1), of "s1\<lparr>osvmap := m, rmap_lost := l\<rparr>"] by simp
  ultimately show ?thesis using f(1) inv mm C unfolding s' kmem_areas_def kmem_inv_def by auto
qed

section \<open>Reachable states\<close>

text \<open>
  A kernel that allocates and releases pages in any order, releasing only what it holds. An allocation that returns 0 is not followed, since the code
  does not test for it.
\<close>

inductive kmem_reach :: "'a kmem_state_scheme \<Rightarrow> 'a kmem_state_scheme \<Rightarrow> nat set \<Rightarrow> nat set \<Rightarrow> nat set \<Rightarrow> bool" for s0 where
  start: "kmem_reach s0 s0 {} {} {}"
| alloc: "kmem_reach s0 s A B C \<Longrightarrow> 0 < n \<Longrightarrow> n < 2 ^ 31 \<Longrightarrow> tag \<noteq> TAG_FREE \<Longrightarrow> alloc_pages (int n) tag s = Some (v, s') \<Longrightarrow> v \<noteq> 0 \<Longrightarrow>
    kmem_reach s0 s' (A \<union> {PTABIDX v..<PTABIDX v + n}) B C"
| align: "kmem_reach s0 s A B C \<Longrightarrow> 0 < n \<Longrightarrow> n < 2 ^ 31 \<Longrightarrow> 0 < al \<Longrightarrow> al < 2 ^ 31 \<Longrightarrow> tag \<noteq> TAG_FREE \<Longrightarrow>
    alloc_pages_align (int n) (int al) tag s = Some (v, s') \<Longrightarrow> v \<noteq> 0 \<Longrightarrow> kmem_reach s0 s' (A \<union> {PTABIDX v..<PTABIDX v + n}) B C"
| linear: "kmem_reach s0 s A B C \<Longrightarrow> 0 < n \<Longrightarrow> n < 2 ^ 31 \<Longrightarrow> tag \<noteq> TAG_FREE \<Longrightarrow> alloc_pages_linear (int n) tag s = Some (v, s') \<Longrightarrow> v \<noteq> 0 \<Longrightarrow>
    kmem_reach s0 s' (A \<union> {PTABIDX v..<PTABIDX v + n}) B C"
| free: "kmem_reach s0 s A B C \<Longrightarrow> 0 < n \<Longrightarrow> {p..<p + n} \<subseteq> A \<Longrightarrow> kmem_reach s0 (free_pages (PTOB (of_nat p)) (int n) s) (A - {p..<p + n}) B C"
| mod_alloc: "kmem_reach s0 s A B C \<Longrightarrow> 0 < n \<Longrightarrow> n < 2 ^ 31 \<Longrightarrow> alloc_module_mem (int n) s = Some (v, s') \<Longrightarrow> v \<noteq> 0 \<Longrightarrow>
    kmem_reach s0 s' A (B \<union> {PTABIDX v..<PTABIDX v + n}) C"
| mod_free: "kmem_reach s0 s A B C \<Longrightarrow> 0 < n \<Longrightarrow> {p..<p + n} \<subseteq> B \<Longrightarrow> kmem_reach s0 (free_module_mem (PTOB (of_nat p)) (int n) s) A (B - {p..<p + n}) C"
| io: "kmem_reach s0 s A B C \<Longrightarrow> n = unat (PAGES (of_int sz)) \<Longrightarrow> 0 < n \<Longrightarrow> unat (BTOP addr) + n \<le> 2 ^ 20 \<Longrightarrow> iomap addr sz s = Some (v, s') \<Longrightarrow> v \<noteq> 0 \<Longrightarrow>
    kmem_reach s0 s' A B (C \<union> {PTABIDX v..<PTABIDX v + n})"
| io_end: "kmem_reach s0 s A B C \<Longrightarrow> n = unat (PAGES (of_int sz)) \<Longrightarrow> 0 < n \<Longrightarrow> {p..<p + n} \<subseteq> C \<Longrightarrow>
    kmem_reach s0 (iounmap (PTOB (of_nat p)) sz s) A B (C - {p..<p + n})"

text \<open>An allocation that returns an address other than 0 found a range in the map.\<close>

lemma alloc_pages_fits:
  assumes "rmap_ok (osvmap s)" "0 < n" "n < 2 ^ 31" and "alloc_pages (int n) tag s = Some (v, s')" "v \<noteq> 0"
  shows "\<exists>e \<in> set (live (osvmap s)). n \<le> unat (r_size e)"
proof -
  have n: "unat (of_int (int n) :: u32) = n" using assms(3) by (simp add: unat_of_nat_u32)
  obtain idx m where r: "rmap_alloc (osvmap s) (of_int (int n)) = (idx, m)" by fastforce
  then have "v = PTOB idx" using assms(4) by (auto simp: alloc_pages_def Let_def bind_eq_Some_conv)
  then have "idx \<noteq> 0" using assms(5) by (auto simp: PTOB_def)
  then show ?thesis using rmap_alloc_spec [OF assms(1) _ r] assms(2) unfolding word_le_nat_alt n by (auto split: if_splits)
qed

lemma alloc_module_mem_fits:
  assumes "rmap_ok (kmodmap s)" "0 < n" "n < 2 ^ 31" and "alloc_module_mem (int n) s = Some (v, s')" "v \<noteq> 0"
  shows "\<exists>e \<in> set (live (kmodmap s)). n \<le> unat (r_size e)"
proof -
  have n: "unat (of_int (int n) :: u32) = n" using assms(3) by (simp add: unat_of_nat_u32)
  obtain idx m where r: "rmap_alloc (kmodmap s) (of_int (int n)) = (idx, m)" by fastforce
  then have "v = PTOB idx" using assms(4) by (auto simp: alloc_module_mem_def Let_def bind_eq_Some_conv)
  then have "idx \<noteq> 0" using assms(5) by (auto simp: PTOB_def)
  then show ?thesis using rmap_alloc_spec [OF assms(1) _ r] assms(2) unfolding word_le_nat_alt n by (auto split: if_splits)
qed

lemma first_page: "{p..<p + n} \<subseteq> heap_pages \<or> {p..<p + n} \<subseteq> mod_pages \<Longrightarrow> 0 < n \<Longrightarrow> PTABIDX (PTOB (of_nat p)) = p"
  using area_pages [of p] subsetD [of "{p..<p + n}" _ p] by (intro page_of_PTOB) fastforce

lemma kmem_areas_grow:
  assumes "kmem_areas s xs A B C" and "kmem_inv s' xs' (A \<union> {p..<p + n}) B" and "{p..<p + n} \<subseteq> free_set (osvmap s)" and "free_set (osvmap s') \<subseteq> free_set (osvmap s)"
    and "v = PTOB (of_nat p)" "0 < n"
  shows "\<exists>xs'. kmem_areas s' xs' (A \<union> {PTABIDX v..<PTABIDX v + n}) B C"
proof -
  have "PTABIDX v = p" using first_page [of p n] assms(3,5,6) kmem_invD(6) [of s xs A B] assms(1) by (auto simp: kmem_areas_def)
  moreover have "C \<inter> (A \<union> {p..<p + n}) = {}" "C \<inter> free_set (osvmap s') = {}" using assms(1,3,4) unfolding kmem_areas_def by blast+
  ultimately show ?thesis using assms(1,2) unfolding kmem_areas_def by auto
qed

lemma kmem_reach_inv:
  assumes "kmem_inv s0 xs0 {} {}" and "kmem_reach s0 s A B C"
  shows "\<exists>xs. kmem_areas s xs A B C"
  using assms(2)
proof (induction rule: kmem_reach.induct)
  case start
  then show ?case using assms(1) by (auto simp: kmem_areas_def)
next
  case (alloc s A B C n tag v s')
  then obtain xs where k: "kmem_areas s xs A B C" "kmem_inv s xs A B" by (auto simp: kmem_areas_def)
  note fit = alloc_pages_fits [OF kmem_invD(2) [OF k(2)] alloc.hyps(2,3,5,6)]
  obtain p m xs' where "{p..<p + n} \<subseteq> free_set (osvmap s)" "free_set m = free_set (osvmap s) - {p..<p + n}" "v = PTOB (of_nat p)" "osvmap s' = m" "kmem_inv s' xs' (A \<union> {p..<p + n}) B"
    using alloc_pages_spec [OF k(2) alloc.hyps(2-4) fit] alloc.hyps(5) by metis
  then show ?case using alloc.hyps(2) by (intro kmem_areas_grow [OF k(1)]) auto
next
  case (align s A B C n al tag v s')
  then obtain xs where k: "kmem_areas s xs A B C" "kmem_inv s xs A B" by (auto simp: kmem_areas_def)
  obtain p xs' where "{p..<p + n} \<subseteq> free_set (osvmap s)" "free_set (osvmap s') \<subseteq> free_set (osvmap s) - {p..<p + n}" "v = PTOB (of_nat p)" "kmem_inv s' xs' (A \<union> {p..<p + n}) B"
    using alloc_pages_align_spec [OF k(2) align.hyps(2-8)] by metis
  then show ?case using align.hyps(2) by (intro kmem_areas_grow [OF k(1)]) auto
next
  case (linear s A B C n tag v s')
  then obtain xs where k: "kmem_areas s xs A B C" "kmem_inv s xs A B" by (auto simp: kmem_areas_def)
  obtain p xs' where "{p..<p + n} \<subseteq> free_set (osvmap s)" "free_set (osvmap s') = free_set (osvmap s) - {p..<p + n}" "v = PTOB (of_nat p)" "kmem_inv s' xs' (A \<union> {p..<p + n}) B"
    using alloc_pages_linear_spec [OF k(2) linear.hyps(2-6)] by metis
  then show ?case using linear.hyps(2) by (intro kmem_areas_grow [OF k(1)]) auto
next
  case (free s A B C n p)
  then obtain xs where k: "kmem_areas s xs A B C" "kmem_inv s xs A B" by (auto simp: kmem_areas_def)
  obtain ys where f: "kmem_inv (free_pages (PTOB (of_nat p)) (int n) s) (ys @ xs) (A - {p..<p + n}) B"
    "free_set (osvmap (free_pages (PTOB (of_nat p)) (int n) s)) \<subseteq> free_set (osvmap s) \<union> {p..<p + n}"
    using free_pages_spec [OF k(2) free.hyps(3,2)] by metis
  then have "C \<inter> (A - {p..<p + n}) = {}" "C \<inter> free_set (osvmap (free_pages (PTOB (of_nat p)) (int n) s)) = {}"
    using k(1) free.hyps(3) unfolding kmem_areas_def by blast+
  then show ?case using f(1) k(1) unfolding kmem_areas_def by blast
next
  case (mod_alloc s A B C n v s')
  then obtain xs where k: "kmem_areas s xs A B C" "kmem_inv s xs A B" by (auto simp: kmem_areas_def)
  note fit = alloc_module_mem_fits [OF kmem_invD(3) [OF k(2)] mod_alloc.hyps(2-5)]
  obtain p xs' where f: "{p..<p + n} \<subseteq> free_set (kmodmap s)" "v = PTOB (of_nat p)" "kmem_inv s' xs' A (B \<union> {p..<p + n})" "osvmap s' = osvmap s"
    using alloc_module_mem_spec [OF k(2) mod_alloc.hyps(2,3) fit mod_alloc.hyps(4)] by metis
  have "PTABIDX v = p" using first_page [of p n] f(1,2) mod_alloc.hyps(2) kmem_invD(9) [OF k(2)] by auto
  then show ?case using f(3,4) k(1) unfolding kmem_areas_def by auto
next
  case (mod_free s A B C n p)
  then obtain xs where k: "kmem_areas s xs A B C" "kmem_inv s xs A B" by (auto simp: kmem_areas_def)
  obtain ys where "kmem_inv (free_module_mem (PTOB (of_nat p)) (int n) s) (ys @ xs) A (B - {p..<p + n})" "osvmap (free_module_mem (PTOB (of_nat p)) (int n) s) = osvmap s"
    using free_module_mem_spec [OF k(2) mod_free.hyps(3,2)] by metis
  then show ?case using k(1) unfolding kmem_areas_def by auto
next
  case (io s A B C n sz addr v s')
  then obtain xs where k: "kmem_areas s xs A B C" by blast
  obtain p xs' where f: "{p..<p + n} \<subseteq> free_set (osvmap s)" "v = PTOB (of_nat p)" "kmem_areas s' xs' A B (C \<union> {p..<p + n})"
    using iomap_spec [OF k io.hyps(2-6)] by metis
  have "PTABIDX v = p" using first_page [of p n] f(1,2) io.hyps(3) kmem_invD(6) [of s xs A B] k by (auto simp: kmem_areas_def)
  then show ?case using f(3) by auto
next
  case (io_end s A B C n sz p)
  then show ?case using iounmap_spec by blast
qed

section \<open>Booting\<close>

lemma rmap_init_ok:
  assumes "length junk = 512"
  shows "rmap_ok (rmap_init junk OSVMAP_ENTRIES)" "free_set (rmap_init junk OSVMAP_ENTRIES) = {}" "rlim (rmap_init junk OSVMAP_ENTRIES) \<noteq> unat (r_size (rmap_init junk OSVMAP_ENTRIES ! 0))"
proof -
  have "rmap_init junk OSVMAP_ENTRIES ! 0 = \<lparr>r_offset = 0, r_size = 511\<rparr>" using assms by (simp add: rmap_init_def OSVMAP_ENTRIES_def)
  then show "rmap_ok (rmap_init junk OSVMAP_ENTRIES)" "free_set (rmap_init junk OSVMAP_ENTRIES) = {}" "rlim (rmap_init junk OSVMAP_ENTRIES) \<noteq> unat (r_size (rmap_init junk OSVMAP_ENTRIES ! 0))"
    using assms by (auto simp: rmap_ok_def free_set_def ranges_def live_def ents_ok_def) (simp_all add: rmap_init_def)
qed

lemma boot_map:
  assumes "length junk = 512" and "0 < unat sz" and "unat offset + unat sz < 2 ^ 32" and "rmap_free (rmap_init junk OSVMAP_ENTRIES) offset sz lost = (m, l)"
  shows "rmap_ok m" "free_set m = {unat offset..<unat offset + unat sz}"
  using rmap_free_spec [OF rmap_init_ok(1) [OF assms(1)] _ assms(2,3,4)] rmap_init_ok(2,3) [OF assms(1)] by auto

lemma map_system_page:
  assumes "mem_inv s xs {}" and "p < 2 ^ 20" "p div 1024 \<noteq> 576" and "alloc_pageframe TAG_SYS s = Some (pfn, s1)" and "map_page (PTOB (of_nat p)) pfn flags s1 = Some s2"
  obtains xs' where "mem_inv s2 xs' {}" and "pdir_state.more s2 = pdir_state.more s" and "length xs \<le> length xs' + 2"
proof -
  have t: "TAG_SYS \<noteq> TAG_FREE" by (simp add: TAG_SYS_def TAG_FREE_def)
  obtain k ys where k: "xs = k # ys" "pfn = of_nat k" "s1 = take_frame k ys TAG_SYS s"
    using alloc_pageframe_cases [OF mem_invD(1) [OF assms(1)] t assms(4)] by metis
  have "k < 2 ^ 20" using pf_rep_bound(1) [OF mem_invD(1) [OF assms(1)]] k(1) by simp
  then have "pfn \<noteq> 0xFFFFFFFF" using frame_number_valid k(2) by simp
  moreover have "mem_inv s1 ys {}" using mem_inv_take assms(1) t unfolding k by blast
  moreover have "pdir_state.more s1 = pdir_state.more s" unfolding k by (simp add: take_frame_def)
  ultimately obtain xs' where "mem_inv s2 xs' {}" "xs' = ys \<or> (\<exists>t. ys = t # xs')" "pdir_state.more s2 = pdir_state.more s"
    using map_page_frame [OF _ assms(2,3) _ _ assms(5)] by (metis empty_iff)
  then show thesis using k(1) by (intro that) auto
qed

lemma map_system_total:
  assumes "mem_inv s xs {}" and "p < 2 ^ 20" and "2 \<le> length xs"
  shows "\<exists>pfn s1 s2. alloc_pageframe TAG_SYS s = Some (pfn, s1) \<and> map_page (PTOB (of_nat p)) pfn flags s1 = Some s2"
proof -
  obtain k t ys where xs: "xs = k # t # ys" using assms(3) by (cases xs; cases "tl xs") auto
  have rep: "pf_rep s (k # t # ys)" using mem_invD(1) [OF assms(1)] xs by simp
  have g: "TAG_SYS \<noteq> TAG_FREE" by (simp add: TAG_SYS_def TAG_FREE_def)
  note a = alloc_pageframe_spec [OF rep g]
  have "(of_nat k :: u32) \<noteq> 0xFFFFFFFF" using pf_rep_bound(1) [OF rep, of k] by (intro frame_number_valid) simp
  then have "\<exists>s2. map_page (PTOB (of_nat p)) (of_nat k) flags (take_frame k (t # ys) TAG_SYS s) = Some s2"
    using map_page_present [OF assms(2)] map_page_new [OF assms(2) _ a(2)] by blast
  then show ?thesis using a(1) by blast
qed

lemma system_pages: "OSVMAP_ADDRESS = PTOB (of_nat 0x90404)" "KMODMAP_ADDRESS = PTOB (of_nat 0x90405)"
  by (simp_all add: OSVMAP_ADDRESS_def KMODMAP_ADDRESS_def PTOB_def)

lemma init_kmem_cases:
  assumes "init_kmem imgsize junk junk2 s = Some s0"
  obtains pfn s1 s2 m l pfn2 s3 s4 m2 l2 failed m3 l3 where "alloc_pageframe TAG_SYS s = Some (pfn, s1)" and "map_page OSVMAP_ADDRESS pfn (PT_WRITABLE OR PT_PRESENT) s1 = Some s2"
    and "rmap_free (rmap_init junk OSVMAP_ENTRIES) (BTOP KHEAPBASE) (BTOP KHEAPSIZE) (rmap_lost s2) = (m, l)"
    and "alloc_pageframe TAG_SYS (s2\<lparr>osvmap := m, rmap_lost := l\<rparr>) = Some (pfn2, s3)" and "map_page KMODMAP_ADDRESS pfn2 (PT_WRITABLE OR PT_PRESENT) s3 = Some s4"
    and "rmap_free (rmap_init junk2 OSVMAP_ENTRIES) (BTOP OSBASE) (BTOP KMODSIZE) (rmap_lost s4) = (m2, l2)"
    and "rmap_reserve m2 (BTOP OSBASE) (BTOP imgsize) l2 = (failed, m3, l3)" and "s0 = s4\<lparr>kmodmap := m3, rmap_lost := l3\<rparr>"
proof -
  obtain pfn s1 s2 where 1: "alloc_pageframe TAG_SYS s = Some (pfn, s1)" "map_page OSVMAP_ADDRESS pfn (PT_WRITABLE OR PT_PRESENT) s1 = Some s2"
    using assms by (auto simp: init_kmem_def bind_eq_Some_conv)
  obtain m l where m: "rmap_free (rmap_init junk OSVMAP_ENTRIES) (BTOP KHEAPBASE) (BTOP KHEAPSIZE) (rmap_lost s2) = (m, l)" by fastforce
  obtain pfn2 s3 s4 where 2: "alloc_pageframe TAG_SYS (s2\<lparr>osvmap := m, rmap_lost := l\<rparr>) = Some (pfn2, s3)" "map_page KMODMAP_ADDRESS pfn2 (PT_WRITABLE OR PT_PRESENT) s3 = Some s4"
    using assms 1 m by (auto simp: init_kmem_def bind_eq_Some_conv)
  obtain m2 l2 where m2: "rmap_free (rmap_init junk2 OSVMAP_ENTRIES) (BTOP OSBASE) (BTOP KMODSIZE) (rmap_lost s4) = (m2, l2)" by fastforce
  obtain failed m3 l3 where m3: "rmap_reserve m2 (BTOP OSBASE) (BTOP imgsize) l2 = (failed, m3, l3)" by (metis prod_cases3)
  have "s0 = s4\<lparr>kmodmap := m3, rmap_lost := l3\<rparr>" using assms 1 m 2 m2 m3 by (simp add: init_kmem_def)
  with 1 m 2 m2 m3 show thesis by (rule that)
qed

lemma alloc_pageframe_more: "alloc_pageframe tag s = Some (k, s') \<Longrightarrow> pframe_state.more s' = pframe_state.more s"
  by (auto simp: alloc_pageframe_def Let_def split: if_splits)

lemma map_page_more: "map_page v pfn flags s = Some s' \<Longrightarrow> pdir_state.more s' = pdir_state.more s"
  by (auto simp: map_page_def clear_table_def SET_PDE_def SET_PTE_def bind_eq_Some_conv dest!: alloc_pageframe_more more_tables(1) split: if_splits)

lemma init_kmem_more:
  assumes "init_kmem imgsize junk junk2 s = Some s0"
  shows "kmem_state.more s0 = kmem_state.more s"
  using assms
proof (rule init_kmem_cases)
  fix pfn s1 s2 m l pfn2 s3 s4 m3 l3
  assume 1: "alloc_pageframe TAG_SYS s = Some (pfn, s1)" "map_page OSVMAP_ADDRESS pfn (PT_WRITABLE OR PT_PRESENT) s1 = Some s2"
    and 2: "alloc_pageframe TAG_SYS (s2\<lparr>osvmap := m, rmap_lost := l\<rparr>) = Some (pfn2, s3)" "map_page KMODMAP_ADDRESS pfn2 (PT_WRITABLE OR PT_PRESENT) s3 = Some s4"
    and s0: "s0 = s4\<lparr>kmodmap := m3, rmap_lost := l3\<rparr>"
  note frames = more_maps(4) [OF more_tables(1) [OF alloc_pageframe_more]] and tables = more_maps(4) [OF map_page_more]
  have "kmem_state.more s4 = kmem_state.more s2" using frames [OF 2(1)] tables [OF 2(2)] by simp
  moreover have "kmem_state.more s2 = kmem_state.more s" using frames [OF 1(1)] tables [OF 1(2)] by simp
  ultimately show "kmem_state.more s0 = kmem_state.more s" by (simp add: s0)
qed

lemma init_kmem_inv:
  assumes "mem_inv s xs {}" and "length junk = 512" "length junk2 = 512" and "0 < unat imgsize div 4096" "unat imgsize div 4096 \<le> 0x10000" and "init_kmem imgsize junk junk2 s = Some s0"
  shows "\<exists>xs0. kmem_inv s0 xs0 {} {} \<and> free_set (osvmap s0) = heap_pages \<and> length xs \<le> length xs0 + 4"
proof -
  obtain pfn s1 s2 m l pfn2 s3 s4 m2 l2 failed m3 l3 where 1: "alloc_pageframe TAG_SYS s = Some (pfn, s1)" "map_page OSVMAP_ADDRESS pfn (PT_WRITABLE OR PT_PRESENT) s1 = Some s2"
    and m: "rmap_free (rmap_init junk OSVMAP_ENTRIES) (BTOP KHEAPBASE) (BTOP KHEAPSIZE) (rmap_lost s2) = (m, l)"
    and 2: "alloc_pageframe TAG_SYS (s2\<lparr>osvmap := m, rmap_lost := l\<rparr>) = Some (pfn2, s3)" "map_page KMODMAP_ADDRESS pfn2 (PT_WRITABLE OR PT_PRESENT) s3 = Some s4"
    and m2: "rmap_free (rmap_init junk2 OSVMAP_ENTRIES) (BTOP OSBASE) (BTOP KMODSIZE) (rmap_lost s4) = (m2, l2)"
    and m3: "rmap_reserve m2 (BTOP OSBASE) (BTOP imgsize) l2 = (failed, m3, l3)" and s0: "s0 = s4\<lparr>kmodmap := m3, rmap_lost := l3\<rparr>"
    by (rule init_kmem_cases [OF assms(6)])
  have hm: "rmap_ok m" "free_set m = heap_pages"
    using boot_map [OF assms(2) _ _ m] by (simp_all add: heap_pages_def BTOP_def KHEAPBASE_def KHEAPSIZE_def)
  have mm: "rmap_ok m2" "free_set m2 = mod_pages"
    using boot_map [OF assms(3) _ _ m2] by (simp_all add: mod_pages_def BTOP_def OSBASE_def KMODSIZE_def)
  have "unat (BTOP imgsize) = unat imgsize div 4096" by (simp add: BTOP_def drop_bit_eq_div unat_div_distrib)
  then have "rmap_ok m3" "free_set m3 \<subseteq> mod_pages"
    using rmap_reserve_spec [OF mm(1) _ _ m3] assms(4,5) mm(2) by (auto simp: BTOP_def OSBASE_def split: if_splits)
  moreover obtain xs1 where "mem_inv s2 xs1 {}" and l1: "length xs \<le> length xs1 + 2" using map_system_page [OF assms(1) _ _ 1(1) 1(2) [unfolded system_pages]] by auto
  then have "mem_inv (s2\<lparr>osvmap := m, rmap_lost := l\<rparr>) xs1 {}" using mem_inv_cong [of s2 xs1 "{}" "s2\<lparr>osvmap := m, rmap_lost := l\<rparr>"] by simp
  then obtain xs2 where x: "mem_inv s4 xs2 {}" "pdir_state.more s4 = pdir_state.more (s2\<lparr>osvmap := m, rmap_lost := l\<rparr>)" "length xs1 \<le> length xs2 + 2"
    using map_system_page [OF _ _ _ 2(1) 2(2) [unfolded system_pages]] by auto
  moreover have "osvmap s4 = m" using more_maps [OF x(2)] by simp
  moreover have "mem_inv s0 xs2 {}" using mem_inv_cong [OF x(1), of s0] by (simp add: s0)
  ultimately have "kmem_inv s0 xs2 {} {}" "free_set (osvmap s0) = heap_pages" using hm unfolding kmem_inv_def by (auto simp: s0)
  then show ?thesis using l1 x(3) by (intro exI [of _ xs2]) simp
qed

lemma init_kmem_total:
  assumes "mem_inv s xs {}" and "4 \<le> length xs"
  shows "\<exists>s0. init_kmem imgsize junk junk2 s = Some s0"
proof -
  have "2 \<le> length xs" using assms(2) by simp
  then obtain pfn s1 s2 where 1: "alloc_pageframe TAG_SYS s = Some (pfn, s1)" "map_page OSVMAP_ADDRESS pfn (PT_WRITABLE OR PT_PRESENT) s1 = Some s2"
    using map_system_total [OF assms(1), of "0x90404" "PT_WRITABLE OR PT_PRESENT"] unfolding system_pages by auto
  obtain m l where m: "rmap_free (rmap_init junk OSVMAP_ENTRIES) (BTOP KHEAPBASE) (BTOP KHEAPSIZE) (rmap_lost s2) = (m, l)" by fastforce
  obtain xs1 where x: "mem_inv s2 xs1 {}" "length xs \<le> length xs1 + 2" using map_system_page [OF assms(1) _ _ 1(1) 1(2) [unfolded system_pages]] by auto
  have y: "mem_inv (s2\<lparr>osvmap := m, rmap_lost := l\<rparr>) xs1 {}" using mem_inv_cong [OF x(1), of "s2\<lparr>osvmap := m, rmap_lost := l\<rparr>"] by simp
  obtain pfn2 s3 s4 where 2: "alloc_pageframe TAG_SYS (s2\<lparr>osvmap := m, rmap_lost := l\<rparr>) = Some (pfn2, s3)" "map_page KMODMAP_ADDRESS pfn2 (PT_WRITABLE OR PT_PRESENT) s3 = Some s4"
    using map_system_total [OF y, of "0x90405" "PT_WRITABLE OR PT_PRESENT"] x(2) assms(2) unfolding system_pages by auto
  then show ?thesis using 1 m by (simp add: init_kmem_def split: prod.splits)
qed

section \<open>Properties\<close>

text \<open>
  C8: after \<^verbatim>\<open>init_kmem\<close>, whatever pages of the heap and of the module area the kernel allocates, aligned or physically consecutive or not,
  maps to devices, and releases, every page it holds is mapped to a frame that exists and is not free, no two of these pages share a frame, and none of these frames
  serves as a page table.
\<close>

theorem kmem_safe:
  assumes "mem_inv s xs {}" and "length junk = 512" "length junk2 = 512" and "0 < unat imgsize div 4096" "unat imgsize div 4096 \<le> 0x10000"
    and "init_kmem imgsize junk junk2 s = Some s0" and "kmem_reach s0 t A B C"
  shows "inj_on (\<lambda>p. virt2pfn t (PTOB (of_nat p))) (A \<union> B) \<and>
    (\<forall>p \<in> A \<union> B. page_mapped t (PTOB (of_nat p)) \<and> unat (virt2pfn t (PTOB (of_nat p))) < unat (maxmem t) \<and>
      pf_tag (pfdb t (unat (virt2pfn t (PTOB (of_nat p))))) \<noteq> TAG_FREE \<and> (\<forall>i < 1024. table_at t i \<longrightarrow> table_frame t i \<noteq> unat (virt2pfn t (PTOB (of_nat p)))))"
proof -
  obtain xs0 where "kmem_inv s0 xs0 {} {}" using init_kmem_inv [OF assms(1-6)] by blast
  from kmem_reach_inv [OF this assms(7)] obtain ys where "mem_inv t ys (A \<union> B)" by (auto simp: kmem_areas_def kmem_inv_def)
  note inv = mem_invD [OF this]
  have f: "unat (virt2pfn t (PTOB (of_nat p))) = frame_of t p" if "p \<in> A \<union> B" for p
    using inv(3) [OF that] drop_pfnmask [of "ptab t p"]
    by (simp add: virt2pfn_def BTOP_def GET_PTE_def page_of_PTOB frame_of_def drop_bit_eq_div unat_div_distrib)
  have "inj_on (\<lambda>p. virt2pfn t (PTOB (of_nat p))) (A \<union> B)"
    using inv(2) unfolding inj_on_def by (metis f)
  moreover have "page_mapped t (PTOB (of_nat p)) \<and> unat (virt2pfn t (PTOB (of_nat p))) < unat (maxmem t) \<and>
      pf_tag (pfdb t (unat (virt2pfn t (PTOB (of_nat p))))) \<noteq> TAG_FREE \<and> (\<forall>i < 1024. table_at t i \<longrightarrow> table_frame t i \<noteq> unat (virt2pfn t (PTOB (of_nat p))))"
    if p: "p \<in> A \<union> B" for p
    using inv(3) [OF p] inv(4) [OF p] inv(6) [of _ p] p pf_repD(6) [OF inv(1), of "frame_of t p"]
    by (simp add: f [OF p] page_mapped_def GET_PDE_table GET_PTE_def page_of_PTOB table_at_def)
  ultimately show ?thesis by blast
qed

definition boot_state :: "'a \<Rightarrow> 'a kmem_state_scheme" where
  "boot_state x = build_freelist 32 \<lparr>pfdb = mark_frames 2 30 TAG_FREE (\<lambda>k. \<lparr>pf_tag = TAG_RESV, pf_word = 0\<rparr>), freelist = 0, freemem = 0, totalmem = 30, maxmem = 32,
     ptab = (\<lambda>p. if p = 0x90000 + 576 then 0x1003 else 0), phys = (\<lambda>k i. 0), osvmap = [], kmodmap = [], rmap_lost = 0, \<dots> = x\<rparr>"

lemma boot_state_inv: "mem_inv (boot_state x) [2..<32] {}" "kmem_state.more (boot_state x) = x"
proof -
  let ?s = "\<lparr>pfdb = mark_frames 2 30 TAG_FREE (\<lambda>k. \<lparr>pf_tag = TAG_RESV, pf_word = 0\<rparr>), freelist = 0, freemem = 0, totalmem = 30, maxmem = 32,
     ptab = (\<lambda>p. if p = 0x90000 + 576 then 0x1003 else 0), phys = (\<lambda>k i. 0), osvmap = [], kmodmap = [], rmap_lost = 0, \<dots> = x\<rparr> :: 'a kmem_state_scheme"
  have "[0..<32] = 0 # 1 # [2..<32]" by (simp add: upt_rec)
  then have "filter (\<lambda>j. pf_tag (pfdb ?s j) = TAG_FREE) [0..<32] = [2..<32]"
    by (simp add: mark_frames_spec TAG_RESV_def TAG_FREE_def)
  then have rep: "pf_rep (boot_state x) [2..<32]" using build_freelist_rep [of ?s] unfolding boot_state_def by simp
  have m: "maxmem (boot_state x) = 32" "pframe_state.more (boot_state x) = pframe_state.more ?s"
    using build_freelist_spec [of ?s "[]" 32 32] unfolding boot_state_def Let_def by simp_all
  have "ptab (boot_state x) = ptab ?s" by (rule more_tables(2) [OF m(2)])
  then have "table_at (boot_state x) i \<Longrightarrow> i = 576" "table_frame (boot_state x) 576 = 1" for i
    by (auto simp: table_at_def frame_of_def split: if_splits)
  then show "mem_inv (boot_state x) [2..<32] {}" using rep by (intro mem_invI) auto
  show "kmem_state.more (boot_state x) = x" using more_maps(4) [OF more_tables(1) [OF m(2)]] by simp
qed

definition demo_boot :: kmem_state where "demo_boot = boot_state ()"

lemma demo_boot_inv: "mem_inv demo_boot [2..<32] {}"
  unfolding demo_boot_def by (rule boot_state_inv(1))

theorem kmem_safe_witness:
  "\<exists>s0 v s1. init_kmem 0x100000 (replicate 512 \<lparr>r_offset = 7, r_size = 9\<rparr>) (replicate 512 \<lparr>r_offset = 7, r_size = 9\<rparr>) demo_boot = Some s0 \<and>
    alloc_pages (int 1) 0 s0 = Some (v, s1) \<and> page_mapped s1 v \<and> pf_tag (pfdb s1 (unat (virt2pfn s1 v))) \<noteq> TAG_FREE"
proof -
  let ?j = "replicate 512 \<lparr>r_offset = 7, r_size = 9\<rparr> :: rmap"
  have l: "length ?j = 512" "0 < unat (0x100000 :: u32) div 4096" "unat (0x100000 :: u32) div 4096 \<le> 0x10000" by simp_all
  obtain s0 where i: "init_kmem 0x100000 ?j ?j demo_boot = Some s0" using init_kmem_total [OF demo_boot_inv] by fastforce
  obtain xs0 where k: "kmem_inv s0 xs0 {} {}" "free_set (osvmap s0) = heap_pages" "26 \<le> length xs0"
    using init_kmem_inv [OF demo_boot_inv l(1) l(1) l(2,3) i] by auto
  have "0x92000 \<in> free_set (osvmap s0)" unfolding k(2) by (simp add: heap_pages_def)
  then obtain e where "e \<in> set (live (osvmap s0))" "0 < unat (r_size e)" by (auto simp: free_set_def ranges_def)
  then have e: "\<exists>e \<in> set (live (osvmap s0)). 1 \<le> unat (r_size e)" by (intro bexI [of _ e]) simp_all
  obtain p where p: "{p..<p + 1} \<subseteq> free_set (osvmap s0)" "2 * 1 \<le> length xs0 \<Longrightarrow> \<exists>s'. alloc_pages (int 1) 0 s0 = Some (PTOB (of_nat p), s')"
    by (rule alloc_pages_spec [OF k(1) _ _ _ e, of 0]) (auto simp: TAG_FREE_def)
  obtain s1 where a: "alloc_pages (int 1) 0 s0 = Some (PTOB (of_nat p), s1)" using p(2) k(3) by auto
  have h: "p \<in> heap_pages" using p(1) k(2) by auto
  then have pp: "PTABIDX (PTOB (of_nat p)) = p" using area_pages(1) page_of_PTOB by blast
  have "unat (PTOB (of_nat p)) = 4096 * p" "0 < p" using unat_PTOB area_pages(1) [OF h] h by (auto simp: heap_pages_def)
  then have "PTOB (of_nat p) \<noteq> 0" by auto
  then have "kmem_reach s0 s1 ({} \<union> {PTABIDX (PTOB (of_nat p))..<PTABIDX (PTOB (of_nat p)) + 1}) {} {}"
    by (intro kmem_reach.alloc [OF kmem_reach.start _ _ _ a]) (simp_all add: TAG_FREE_def)
  from kmem_safe [OF demo_boot_inv l(1) l(1) l(2,3) i this] show ?thesis using i a unfolding pp by auto
qed

text \<open>
  C15: as long as the map of the kernel heap has a range of \<open>n\<close> pages and there are two free frames per page, one for the page and one for a page table, \<^verbatim>\<open>alloc_pages\<close>
  returns the address of \<open>n\<close> pages that nobody held. Each is mapped to a frame of its own that was free and whose entry in the frame database now has the tag and nothing else. No frame becomes free. Only entries and
  contents of frames that were free change, so every page that was held before keeps its frame, the entry of its frame and its contents; the range leaves the map of the kernel heap, and the map of the
  module area and the space lost from the maps stay as they were.
\<close>

theorem alloc_pages_correct:
  assumes "kmem_inv s xs A B" and "0 < n" "n < 2 ^ 31" and "tag \<noteq> TAG_FREE" and "\<exists>e \<in> set (live (osvmap s)). n \<le> unat (r_size e)" and "2 * n \<le> unat (freemem s)"
  shows "\<exists>p s' xs'. alloc_pages (int n) tag s = Some (PTOB (of_nat p), s') \<and> {p..<p + n} \<subseteq> free_set (osvmap s) \<and> {p..<p + n} \<inter> (A \<union> B) = {} \<and>
    kmem_inv s' xs' (A \<union> {p..<p + n}) B \<and> set xs' \<subseteq> set xs \<and>
    (\<forall>q \<in> {p..<p + n}. frame_of s' q \<in> set xs \<and> pfdb s' (frame_of s' q) = \<lparr>pf_tag = (if tag = 0 then TAG_KMEM else tag), pf_word = 0\<rparr>) \<and>
    (\<forall>q \<in> A \<union> B. ptab s' q = ptab s q \<and> pfdb s' (frame_of s q) = pfdb s (frame_of s q) \<and> phys s' (frame_of s q) = phys s (frame_of s q)) \<and>
    (\<forall>j. j \<notin> set xs \<longrightarrow> pfdb s' j = pfdb s j \<and> phys s' j = phys s j) \<and>
    free_set (osvmap s') = free_set (osvmap s) - {p..<p + n} \<and> kmodmap s' = kmodmap s \<and> rmap_lost s' = rmap_lost s \<and> kmem_state.more s' = kmem_state.more s"
proof -
  have "2 * n \<le> length xs" using assms(6) pf_repD(4) [OF mem_invD(1) [OF kmem_invD(1) [OF assms(1)]]] by simp
  obtain p m where p: "{p..<p + n} \<subseteq> free_set (osvmap s)" "free_set m = free_set (osvmap s) - {p..<p + n}"
    and sp: "\<And>v s'. alloc_pages (int n) tag s = Some (v, s') \<Longrightarrow> v = PTOB (of_nat p) \<and> osvmap s' = m \<and> kmem_state.more s' = kmem_state.more s \<and>
      (\<exists>xs'. kmem_inv s' xs' (A \<union> {p..<p + n}) B \<and> fresh_pages (if tag = 0 then TAG_KMEM else tag) p n xs (A \<union> B) (s\<lparr>osvmap := m\<rparr>) xs' s')"
    and total: "2 * n \<le> length xs \<Longrightarrow> \<exists>s'. alloc_pages (int n) tag s = Some (PTOB (of_nat p), s')"
    by (rule alloc_pages_spec [OF assms(1-5)], rule that)
  obtain s' where s': "alloc_pages (int n) tag s = Some (PTOB (of_nat p), s')" using total [OF \<open>2 * n \<le> length xs\<close>] by blast
  obtain xs' where k: "osvmap s' = m" "kmem_inv s' xs' (A \<union> {p..<p + n}) B" "fresh_pages (if tag = 0 then TAG_KMEM else tag) p n xs (A \<union> B) (s\<lparr>osvmap := m\<rparr>) xs' s'"
    using sp [OF s'] by blast
  have "{p..<p + n} \<inter> (A \<union> B) = {}" using p(1) kmem_invD(4,6,8) [OF assms(1)] areas_apart by blast
  moreover have "kmodmap s' = kmodmap s" "rmap_lost s' = rmap_lost s" "kmem_state.more s' = kmem_state.more s"
    using more_maps [of s' "s\<lparr>osvmap := m\<rparr>"] k(3) by (simp_all add: fresh_pages_def)
  moreover have "frame_of s q \<notin> set xs" if "q \<in> A \<union> B" for q using mem_invD(4) [OF kmem_invD(1) [OF assms(1)] that] by simp
  ultimately show ?thesis using p s' k unfolding fresh_pages_def by (intro exI [of _ p] exI [of _ s'] exI [of _ xs']) simp
qed

definition demo_kmem :: kmem_state where
  "demo_kmem = demo_boot\<lparr>osvmap := [\<lparr>r_offset = 1, r_size = 1\<rparr>, \<lparr>r_offset = 0x92000, r_size = 0x6E000\<rparr>], kmodmap := [\<lparr>r_offset = 1, r_size = 1\<rparr>, \<lparr>r_offset = 0x80100, r_size = 0xFF00\<rparr>]\<rparr>"

lemma demo_kmem_inv: "kmem_inv demo_kmem [2..<32] {} {}" "unat (freemem demo_kmem) = 30"
proof -
  have m: "mem_inv demo_kmem [2..<32] {}" using demo_boot_inv by (rule mem_inv_cong) (simp_all add: demo_kmem_def)
  moreover have "rmap_ok (osvmap demo_kmem)" "rmap_ok (kmodmap demo_kmem)" by (simp_all add: demo_kmem_def rmap_ok_def live_def ents_ok_def)
  moreover have "free_set (osvmap demo_kmem) \<subseteq> heap_pages" "free_set (kmodmap demo_kmem) \<subseteq> mod_pages"
    by (auto simp: demo_kmem_def free_set_def ranges_def live_def heap_pages_def mod_pages_def)
  ultimately show "kmem_inv demo_kmem [2..<32] {} {}" by (simp add: kmem_inv_def)
  show "unat (freemem demo_kmem) = 30" using pf_repD(4) [OF mem_invD(1) [OF m]] by simp
qed

theorem alloc_pages_correct_witness:
  "\<exists>p s'. alloc_pages (int 3) 0 demo_kmem = Some (PTOB (of_nat p), s') \<and> {p..<p + 3} \<subseteq> heap_pages \<and> pf_tag (pfdb s' (frame_of s' (p + 2))) = TAG_KMEM"
proof -
  have "\<exists>e \<in> set (live (osvmap demo_kmem)). 3 \<le> unat (r_size e)" by (simp add: demo_kmem_def live_def)
  then obtain p s' where p: "alloc_pages (int 3) 0 demo_kmem = Some (PTOB (of_nat p), s')" "{p..<p + 3} \<subseteq> free_set (osvmap demo_kmem)"
    "\<forall>q \<in> {p..<p + 3}. pfdb s' (frame_of s' q) = \<lparr>pf_tag = TAG_KMEM, pf_word = 0\<rparr>"
    using alloc_pages_correct [OF demo_kmem_inv(1), of 3 0] demo_kmem_inv(2) by (auto simp: TAG_FREE_def)
  then show ?thesis using kmem_invD(6) [OF demo_kmem_inv(1)] by (intro exI [of _ p] exI [of _ s']) auto
qed

text \<open>
  C39: when the map of the kernel heap has no range of \<open>n\<close> pages left, \<^verbatim>\<open>alloc_pages\<close> does not fail: it takes \<open>n\<close> frames all the same, maps them to the first pages of
  the address space of the running process, writable for the kernel, and returns the null pointer, as it does not test the result of \<^verbatim>\<open>rmap_alloc\<close>.
\<close>

theorem alloc_pages_exhausted:
  assumes "kmem_inv s xs A B" and "0 < n" "n \<le> 0x80000" and "tag \<noteq> TAG_FREE" and "\<forall>e \<in> set (live (osvmap s)). unat (r_size e) < n" and "2 * n \<le> unat (freemem s)"
  shows "\<exists>s' xs'. alloc_pages (int n) tag s = Some (0, s') \<and> mem_inv s' xs' (A \<union> B \<union> {0..<n}) \<and> (\<forall>q < n. frame_of s' q \<in> set xs)"
proof -
  note inv = kmem_invD [OF assms(1)]
  let ?t = "if tag = 0 then TAG_KMEM else tag"
  have n: "unat (of_int (int n) :: u32) = n" using assms(3) by (simp add: unat_of_nat_u32)
  obtain idx m where r: "rmap_alloc (osvmap s) (of_int (int n)) = (idx, m)" by fastforce
  have "idx = 0" using rmap_alloc_spec [OF inv(2) _ r] assms(2,5) unfolding word_le_nat_alt n by (auto split: if_splits)
  have t: "?t \<noteq> TAG_FREE" using assms(4) by (simp add: TAG_KMEM_def TAG_FREE_def)
  have fr: "free_range (0 + 0) n (A \<union> B)" unfolding free_range_def
  proof (intro allI impI)
    fix q assume q: "0 + 0 \<le> q \<and> q < 0 + 0 + n"
    then have "q div 1024 < 576" using assms(3) by (simp add: div_less_iff_less_mult)
    then show "q \<notin> A \<union> B \<and> q < 2 ^ 20 \<and> q div 1024 \<noteq> 576" using q assms(3) inv(5,8) by (auto simp: heap_pages_def mod_pages_def)
  qed
  have "2 * n \<le> length xs" using assms(6) pf_repD(4) [OF mem_invD(1) [OF inv(1)]] by simp
  from map_fresh_total [OF kmem_inv_maps(3) [OF assms(1), of m] fr t this] obtain s' where s': "map_fresh ?t (PTOB (of_nat 0)) 0 n (s\<lparr>osvmap := m\<rparr>) = Some s'" by auto
  from map_fresh_spec [OF kmem_inv_maps(3) [OF assms(1), of m] fr t s'] obtain xs' where "fresh_pages ?t (0 + 0) n xs (A \<union> B) (s\<lparr>osvmap := m\<rparr>) xs' s'" by blast
  moreover have "alloc_pages (int n) tag s = Some (0, s')" using r s' \<open>idx = 0\<close> by (simp add: alloc_pages_def Let_def PTOB_def)
  ultimately show ?thesis by (auto simp: fresh_pages_def)
qed

theorem alloc_pages_exhausted_witness:
  "\<exists>s'. alloc_pages (int 2) 0 (demo_kmem\<lparr>osvmap := [\<lparr>r_offset = 0, r_size = 0\<rparr>]\<rparr>) = Some (0, s') \<and> frame_of s' 0 \<noteq> frame_of s' 1"
proof -
  let ?s = "demo_kmem\<lparr>osvmap := [\<lparr>r_offset = 0, r_size = 0\<rparr>]\<rparr>"
  have k: "kmem_inv ?s [2..<32] {} {}" using kmem_inv_maps(3) [OF demo_kmem_inv(1)] kmem_invD [OF demo_kmem_inv(1)]
    by (simp add: kmem_inv_def rmap_ok_def live_def ents_ok_def free_set_def ranges_def)
  obtain s' xs' where "alloc_pages (int 2) 0 ?s = Some (0, s')" "mem_inv s' xs' ({} \<union> {} \<union> {0..<2})" "\<forall>q < 2. frame_of s' q \<in> set [2..<32]"
    using alloc_pages_exhausted [OF k, of 2 0] demo_kmem_inv(2) by (auto simp: TAG_FREE_def live_def)
  moreover have "frame_of s' 0 \<noteq> frame_of s' 1" using inj_onD [OF mem_invD(2) [OF \<open>mem_inv s' xs' _\<close>], of 0 1] by auto
  ultimately show ?thesis by auto
qed

end
