(* ===== verification/Block_Heap.thy ===== *)
theory Block_Heap
  imports Prelude
begin

text \<open>
  The interface through which the parts of the kernel use its heap: blocks of bytes that are allocated, filled with words, and given back. The locale states what a heap
  promises for one operation; inside it, once for every heap, whole histories of its clients are shown to be safe. \<open>k\<close> stands for what other users of the memory
  below the heap hold.
\<close>

definition word_in :: "u32 \<Rightarrow> nat \<Rightarrow> u32 \<Rightarrow> bool" where
  "word_in v n y \<longleftrightarrow> unat v \<le> unat y \<and> unat y + 4 \<le> unat v + n \<and> unat y mod 4 = 0"

locale block_heap =
  fixes rep :: "'s \<Rightarrow> (u32 \<rightharpoonup> nat) \<Rightarrow> 'k \<Rightarrow> bool"
    and ready :: "'t \<Rightarrow> nat \<Rightarrow> 's \<Rightarrow> bool"
    and alloc :: "'t \<Rightarrow> nat \<Rightarrow> 's \<Rightarrow> (u32 \<times> 's) option"
    and release :: "u32 \<Rightarrow> 's \<Rightarrow> 's"
    and load :: "'s \<Rightarrow> u32 \<Rightarrow> u32"
    and put :: "u32 \<Rightarrow> u32 \<Rightarrow> 's \<Rightarrow> 's"
    and other :: "'s \<Rightarrow> 'k \<Rightarrow> 's \<Rightarrow> 'k \<Rightarrow> bool"
  assumes rep_apart: "rep s bl k \<Longrightarrow> bl v = Some n \<Longrightarrow> bl w = Some m \<Longrightarrow> v \<noteq> w \<Longrightarrow> {unat v..<unat v + n} \<inter> {unat w..<unat w + m} = {}"
    and alloc_rep: "rep s bl k \<Longrightarrow> ready t n s \<Longrightarrow> alloc t n s = Some (v, s') \<Longrightarrow> rep s' (bl(v \<mapsto> n)) k"
    and alloc_new: "rep s bl k \<Longrightarrow> ready t n s \<Longrightarrow> alloc t n s = Some (v, s') \<Longrightarrow> bl v = None"
    and alloc_keeps: "rep s bl k \<Longrightarrow> ready t n s \<Longrightarrow> alloc t n s = Some (v, s') \<Longrightarrow> bl w = Some m \<Longrightarrow> word_in w m y \<Longrightarrow> load s' y = load s y"
    and release_rep: "rep s bl k \<Longrightarrow> bl v = Some n \<Longrightarrow> rep (release v s) (bl(v := None)) k"
    and release_keeps: "rep s bl k \<Longrightarrow> bl v = Some n \<Longrightarrow> bl w = Some m \<Longrightarrow> w \<noteq> v \<Longrightarrow> word_in w m y \<Longrightarrow> load (release v s) y = load s y"
    and put_rep: "rep s bl k \<Longrightarrow> bl v = Some n \<Longrightarrow> word_in v n y \<Longrightarrow> rep (put y x s) bl k"
    and load_put: "rep s bl k \<Longrightarrow> bl v = Some n \<Longrightarrow> word_in v n y \<Longrightarrow> bl w = Some m \<Longrightarrow> word_in w m z \<Longrightarrow> load (put y x s) z = (if y = z then x else load s z)"
    and other_rep: "rep s bl k \<Longrightarrow> other s k s' k' \<Longrightarrow> rep s' bl k'"
    and other_keeps: "rep s bl k \<Longrightarrow> other s k s' k' \<Longrightarrow> bl w = Some m \<Longrightarrow> word_in w m y \<Longrightarrow> load s' y = load s y"
begin

text \<open>
  A history of clients that allocate and release blocks and write words into the blocks they hold, in any order, and that release only what they hold. \<open>mem\<close> are the
  words of the blocks: what was written there last, or what a block had when it was allocated.
\<close>

inductive history :: "'s \<Rightarrow> 'k \<Rightarrow> 's \<Rightarrow> (u32 \<rightharpoonup> nat) \<Rightarrow> 'k \<Rightarrow> (u32 \<Rightarrow> u32) \<Rightarrow> bool" for s0 k0 where
  start: "history s0 k0 s0 Map.empty k0 mem"
| alloc: "history s0 k0 s bl k mem \<Longrightarrow> ready t n s \<Longrightarrow> alloc t n s = Some (v, s') \<Longrightarrow>
    history s0 k0 s' (bl(v \<mapsto> n)) k (\<lambda>y. if word_in v n y then load s' y else mem y)"
| release: "history s0 k0 s bl k mem \<Longrightarrow> bl v = Some n \<Longrightarrow> history s0 k0 (release v s) (bl(v := None)) k mem"
| put: "history s0 k0 s bl k mem \<Longrightarrow> bl v = Some n \<Longrightarrow> word_in v n y \<Longrightarrow> history s0 k0 (put y x s) bl k (mem(y := x))"
| other: "history s0 k0 s bl k mem \<Longrightarrow> other s k s' k' \<Longrightarrow> history s0 k0 s' bl k' mem"

lemma history_rep:
  assumes "history s0 k0 s bl k mem" and "rep s0 Map.empty k0"
  shows "rep s bl k"
  using assms(1) by induction (blast intro: assms(2) alloc_rep release_rep put_rep other_rep)+

lemma history_words:
  assumes "history s0 k0 s bl k mem" and "rep s0 Map.empty k0" and "bl w = Some m" and "word_in w m y"
  shows "load s y = mem y"
  using assms(1,3,4)
proof (induction arbitrary: w m y)
  case (alloc s bl k mem t n v s')
  have r: "rep s bl k" by (rule history_rep [OF alloc.hyps(1) assms(2)])
  show ?case
  proof (cases "word_in v n y")
    case False
    then have "w \<noteq> v" using alloc.prems by auto
    then have "bl w = Some m" using alloc.prems(1) by simp
    then show ?thesis using alloc_keeps [OF r alloc.hyps(2,3) _ alloc.prems(2)] alloc.IH alloc.prems(2) False by simp
  qed simp
next
  case (release s bl k mem v n)
  have "w \<noteq> v" "bl w = Some m" using release.prems(1) by (auto split: if_splits)
  then show ?case using release_keeps [OF history_rep [OF release.hyps(1) assms(2)] release.hyps(2)] release.IH release.prems(2) by simp
next
  case (put s bl k mem v n y' x)
  then show ?case using load_put [OF history_rep [OF put.hyps(1) assms(2)] put.hyps(2,3) put.prems] by simp
next
  case (other s bl k mem s' k')
  then show ?case using other_keeps [OF history_rep [OF other.hyps(1) assms(2)] other.hyps(2)] by simp
qed simp

text \<open>A block that a history adds is new and apart from all the others.\<close>

lemma history_alloc_apart:
  assumes "history s0 k0 s bl k mem" and "rep s0 Map.empty k0" and "ready t n s" and "alloc t n s = Some (v, s')"
  shows "bl v = None" and "bl w = Some m \<Longrightarrow> {unat v..<unat v + n} \<inter> {unat w..<unat w + m} = {}"
proof -
  have r: "rep s bl k" by (rule history_rep [OF assms(1,2)])
  show new: "bl v = None" by (rule alloc_new [OF r assms(3,4)])
  have "rep s' (bl(v \<mapsto> n)) k" by (rule alloc_rep [OF r assms(3,4)])
  from rep_apart [OF this, of v n w m] new show "bl w = Some m \<Longrightarrow> {unat v..<unat v + n} \<inter> {unat w..<unat w + m} = {}"
    by (cases "w = v") simp_all
qed

end

end
