(* ===== verification/Kmalloc.thy ===== *)
theory Kmalloc
  imports Kmem Block_Heap
begin

text \<open>
  The kernel heap: \<^verbatim>\<open>src/src/sys/krnl/kmalloc.c\<close>. Blocks of up to half a page come from buckets of chunks of the same size, whose free chunks are linked through their
  first words; a larger block is a run of pages. The page frame database tells \<^verbatim>\<open>kfree\<close> which of the two it has.
\<close>

unbundle bit_operations_syntax

record bucket =
  b_mem :: u32
  b_elems :: u32
  b_pages :: u32
  b_size :: u32

record kheap_state = kmem_state +
  buckets :: "nat \<Rightarrow> bucket"

definition PAGESHIFT :: nat where "PAGESHIFT = 12"

definition TAG_ALOC :: u32 where "TAG_ALOC = 0x414C4F43"
definition TAG_HEAP :: u32 where "TAG_HEAP = 0x48454150"

definition log2 :: "nat list" where
  "log2 = replicate 16 4 @ replicate 16 5 @ replicate 32 6 @ replicate 64 7 @ replicate 128 8 @ replicate 256 9 @ replicate 512 10 @ replicate 1024 11"

definition BUCKET :: "nat \<Rightarrow> nat" where
  "BUCKET n = log2 ! (n - 1)"

definition page_info :: "'a pdir_state_scheme \<Rightarrow> u32 \<Rightarrow> nat" where
  "page_info s addr = unat (BTOP (virt2phys s addr))"

definition set_page_size :: "u32 \<Rightarrow> u32 \<Rightarrow> 'a pdir_state_scheme \<Rightarrow> 'a pdir_state_scheme" where
  "set_page_size addr w s = (let k = page_info s addr in s\<lparr>pfdb := (pfdb s)(k := (pfdb s k)\<lparr>pf_word := w\<rparr>)\<rparr>)"

definition set_mem :: "nat \<Rightarrow> u32 \<Rightarrow> 'a kheap_state_scheme \<Rightarrow> 'a kheap_state_scheme" where
  "set_mem b m s = s\<lparr>buckets := (buckets s)(b := (buckets s b)\<lparr>b_mem := m\<rparr>)\<rparr>"

text \<open>\<^verbatim>\<open>b\<close> is the number of the bucket whose page at \<^verbatim>\<open>p\<close> is split. With chunks of size 0 the loop would not end.\<close>

partial_function (option) split_page :: "nat \<Rightarrow> u32 \<Rightarrow> nat \<Rightarrow> 'a kheap_state_scheme \<Rightarrow> 'a kheap_state_scheme option" where
  "split_page b p i s =
     (if i < PAGESIZE then split_page b p (i + unat (b_size (buckets s b))) (set_mem b (p + of_nat i) (store32 (p + of_nat i) (b_mem (buckets s b)) s))
      else Some s)"

definition refill :: "nat \<Rightarrow> 'a kheap_state_scheme \<Rightarrow> 'a kheap_state_scheme option" where
  "refill b s = do {
     (addr, s1) \<leftarrow> alloc_pages 1 TAG_HEAP s;
     s2 \<leftarrow> split_page b addr 0 (set_page_size addr (of_nat b) s1);
     Some (s2\<lparr>buckets := (buckets s2)(b := (buckets s2 b)\<lparr>b_pages := b_pages (buckets s2 b) + 1\<rparr>)\<rparr>)
   }"

definition kmalloc_tag :: "int \<Rightarrow> u32 \<Rightarrow> 'a kheap_state_scheme \<Rightarrow> (u32 \<times> 'a kheap_state_scheme) option" where
  "kmalloc_tag sz tag s =
     (if sz > int PAGESIZE div 2 then do {
        (addr, s1) \<leftarrow> alloc_pages (sint (PAGES (of_int sz))) (if tag \<noteq> 0 then tag else TAG_ALOC) s;
        Some (addr, set_page_size addr (PAGES (of_int sz) + of_nat PAGESHIFT) s1)
      }
      else if sz < 1 then None
      else let b = BUCKET (nat sz)
           in do {
             s1 \<leftarrow> (if b_mem (buckets s b) = 0 then refill b s else Some s);
             let addr = b_mem (buckets s1 b);
             Some (addr, set_mem b (load32 s1 addr) s1)
           })"

definition kfree :: "u32 \<Rightarrow> 'a kheap_state_scheme \<Rightarrow> 'a kheap_state_scheme" where
  "kfree addr s =
     (if addr = 0 then s
      else let b = pf_word (pfdb s (page_info s addr))
           in if unat b \<ge> PAGESHIFT then free_pages addr (sint (b - of_nat PAGESHIFT)) s
              else set_mem (unat b) addr (store32 addr (b_mem (buckets s (unat b))) s))"

definition init_malloc :: "'a kheap_state_scheme \<Rightarrow> 'a kheap_state_scheme" where
  "init_malloc s = s\<lparr>buckets := (\<lambda>i. if i < PAGESHIFT then (buckets s i)\<lparr>b_size := push_bit i 1\<rparr> else buckets s i)\<rparr>"

definition kmalloc :: "int \<Rightarrow> 'a kheap_state_scheme \<Rightarrow> (u32 \<times> 'a kheap_state_scheme) option" where
  "kmalloc sz s = kmalloc_tag sz 0 s"

definition krealloc_tag :: "u32 \<Rightarrow> int \<Rightarrow> u32 \<Rightarrow> 'a kheap_state_scheme \<Rightarrow> (u32 \<times> 'a kheap_state_scheme) option" where
  "krealloc_tag addr newsize tag s = None"

definition malloc :: "u32 \<Rightarrow> 'a kheap_state_scheme \<Rightarrow> (u32 \<times> 'a kheap_state_scheme) option" where
  "malloc sz s = kmalloc_tag (sint sz) 0 s"

section \<open>The table of logarithms\<close>

lemma log2_nth:
  assumes "i < 2048"
  shows "4 \<le> log2 ! i \<and> log2 ! i \<le> 11 \<and> i < 2 ^ (log2 ! i) \<and> (log2 ! i = 4 \<or> 2 ^ (log2 ! i - 1) \<le> i)"
proof -
  consider "i < 16" | "16 \<le> i" "i < 32" | "32 \<le> i" "i < 64" | "64 \<le> i" "i < 128" | "128 \<le> i" "i < 256" | "256 \<le> i" "i < 512" | "512 \<le> i" "i < 1024" | "1024 \<le> i"
    by linarith
  then show ?thesis using assms by cases (simp_all add: log2_def nth_append less_diff_conv2)
qed

lemma BUCKET_spec:
  assumes "1 \<le> n" "n \<le> 2048"
  shows "BUCKET n \<in> {4..11}" and "n \<le> 2 ^ BUCKET n" and "BUCKET n = 4 \<or> 2 ^ (BUCKET n - 1) < n"
proof -
  have n: "n - 1 < 2048" "n - 1 + 1 = n" using assms by simp_all
  then show "BUCKET n \<in> {4..11}" "n \<le> 2 ^ BUCKET n" "BUCKET n = 4 \<or> 2 ^ (BUCKET n - 1) < n"
    using log2_nth [OF n(1)] unfolding BUCKET_def by (auto simp del: One_nat_def)
qed

section \<open>Words behind held pages\<close>

lemma load_store:
  assumes "mem_inv s xs H" and "PTABIDX x \<in> H" "PTABIDX y \<in> H" and "unat x mod 4 = 0" "unat y mod 4 = 0"
  shows "load32 (store32 x w s) y = (if x = y then w else load32 s y)"
proof -
  have "x = y" if "frame_of s (PTABIDX x) = frame_of s (PTABIDX y)" "unat (PGOFF x) div 4 = unat (PGOFF y) div 4"
  proof -
    have "PTABIDX x = PTABIDX y" using inj_onD [OF mem_invD(2) [OF assms(1)] that(1) assms(2,3)] .
    moreover have "unat (PGOFF x) mod 4 = 0" "unat (PGOFF y) mod 4 = 0" using assms(4,5) unfolding page_offset by (simp_all add: mod_mod_cancel)
    then have "unat (PGOFF x) = unat (PGOFF y)" using that(2) by (metis add.right_neutral mult_div_mod_eq)
    ultimately have "unat x = unat y" unfolding page_offset page_number by (metis mult_div_mod_eq)
    then show ?thesis by (simp add: u32_eq_iff)
  qed
  then show ?thesis by (auto simp: load32_def store32_def frame_of_def Let_def)
qed

lemma load_other_frame: "frame_of s (PTABIDX y) \<noteq> frame_of s (PTABIDX x) \<Longrightarrow> load32 (store32 x w s) y = load32 s y"
  by (simp add: load32_def store32_def frame_of_def Let_def)

primrec chain :: "'a pdir_state_scheme \<Rightarrow> u32 \<Rightarrow> u32 list \<Rightarrow> bool" where
  "chain s m [] \<longleftrightarrow> m = 0"
| "chain s m (x # xs) \<longleftrightarrow> m = x \<and> x \<noteq> 0 \<and> chain s (load32 s x) xs"

lemma chain_cong: "(\<And>x. x \<in> set xs \<Longrightarrow> load32 s' x = load32 s x) \<Longrightarrow> chain s' m xs = chain s m xs"
  by (induction xs arbitrary: m) simp_all

definition chunk :: "nat \<Rightarrow> nat set \<Rightarrow> u32 \<Rightarrow> bool" where
  "chunk b P x \<longleftrightarrow> PTABIDX x \<in> P \<and> unat x mod 2 ^ b = 0"

lemma chunk_word: "chunk b P x \<Longrightarrow> 4 \<le> b \<Longrightarrow> unat x mod 4 = 0"
proof -
  assume "chunk b P x" "4 \<le> b"
  then have "(2 :: nat) ^ b dvd unat x" by (simp add: chunk_def mod_eq_0_iff_dvd)
  moreover have "(2 :: nat) ^ 2 dvd 2 ^ b" using \<open>4 \<le> b\<close> by (intro le_imp_power_dvd) simp
  ultimately have "(2 :: nat) ^ 2 dvd unat x" using dvd_trans by blast
  then show ?thesis by (simp add: dvd_eq_mod_eq_0)
qed

section \<open>The invariant of a bucket\<close>

definition bucket_ok :: "'a kheap_state_scheme \<Rightarrow> nat \<Rightarrow> nat set \<Rightarrow> u32 list \<Rightarrow> bool" where
  "bucket_ok s b P fl \<longleftrightarrow> b_size (buckets s b) = 2 ^ b \<and> chain s (b_mem (buckets s b)) fl \<and> distinct fl \<and>
     (\<forall>x \<in> set fl. chunk b P x) \<and> (\<forall>p \<in> P. pf_word (pfdb s (frame_of s p)) = of_nat b)"

text \<open>A bucket does not notice what happens outside its pages.\<close>

lemma bucket_ok_frame:
  assumes "bucket_ok s b P fl" and "buckets s' b = buckets s b"
    and "\<And>p. p \<in> P \<Longrightarrow> ptab s' p = ptab s p \<and> pfdb s' (frame_of s p) = pfdb s (frame_of s p) \<and> phys s' (frame_of s p) = phys s (frame_of s p)"
  shows "bucket_ok s' b P fl"
proof -
  have f: "frame_of s' p = frame_of s p" if "p \<in> P" for p using assms(3) [OF that] by (simp add: frame_of_def)
  have "load32 s' x = load32 s x" if "x \<in> set fl" for x
    using that assms(1,3) f by (auto simp: load32_def bucket_ok_def chunk_def)
  then have "chain s' m fl = chain s m fl" for m by (rule chain_cong)
  then show ?thesis using assms f by (simp add: bucket_ok_def)
qed

lemma bucket_push:
  assumes "mem_inv s xs H" and "P \<subseteq> H" "4 \<le> b" and "bucket_ok s b P fl" and "chunk b P x" "x \<noteq> 0" "x \<notin> set fl"
  shows "bucket_ok (set_mem b x (store32 x (b_mem (buckets s b)) s)) b P (x # fl)"
proof -
  let ?s = "set_mem b x (store32 x (b_mem (buckets s b)) s)"
  note ok = assms(4) [unfolded bucket_ok_def]
  have ld: "load32 ?s y = (if x = y then b_mem (buckets s b) else load32 s y)" if "chunk b P y" for y
  proof -
    have "load32 ?s y = load32 (store32 x (b_mem (buckets s b)) s) y" by (simp add: load32_def set_mem_def frame_of_def)
    also have "\<dots> = (if x = y then b_mem (buckets s b) else load32 s y)"
      using assms(2,3,5) that chunk_word by (intro load_store [OF assms(1)]) (auto simp: chunk_def)
    finally show ?thesis .
  qed
  have "chain ?s m fl = chain s m fl" for m
    using ok assms(7) ld by (intro chain_cong) auto
  moreover have "load32 ?s x = b_mem (buckets s b)" using ld [OF assms(5)] by simp
  moreover have "buckets ?s b = (buckets s b)\<lparr>b_mem := x\<rparr>" "pfdb ?s = pfdb s" "frame_of ?s = frame_of s"
    by (simp_all add: set_mem_def store32_def Let_def frame_of_def fun_eq_iff)
  ultimately show ?thesis using ok assms(5-7) by (simp add: bucket_ok_def)
qed

lemma bucket_pop:
  assumes "bucket_ok s b P (x # fl)"
  shows "b_mem (buckets s b) = x" and "bucket_ok (set_mem b (load32 s x) s) b P fl"
proof -
  note ok = assms [unfolded bucket_ok_def]
  show "b_mem (buckets s b) = x" using ok by simp
  have "chain (set_mem b (load32 s x) s) m fl = chain s m fl" for m
    by (rule chain_cong) (simp add: load32_def set_mem_def frame_of_def)
  then show "bucket_ok (set_mem b (load32 s x) s) b P fl" using ok by (simp add: bucket_ok_def set_mem_def frame_of_def)
qed

section \<open>Splitting a page\<close>

lemma unat_power2: "b < 32 \<Longrightarrow> unat (2 ^ b :: u32) = 2 ^ b"
proof -
  assume "b < 32"
  then have "(2 :: nat) ^ b < 2 ^ 32" by (intro power_strict_increasing) simp_all
  then have "unat (of_nat (2 ^ b) :: u32) = 2 ^ b" by (rule unat_of_nat_u32)
  then show ?thesis by simp
qed

lemma chunk_address:
  assumes "p < 2 ^ 20" and "i < 4096"
  shows "unat (PTOB (of_nat p) + of_nat i) = 4096 * p + i" "PTABIDX (PTOB (of_nat p) + of_nat i) = p" "unat (PGOFF (PTOB (of_nat p) + of_nat i)) = i"
proof -
  have "unat (of_nat i :: u32) = i" using assms(2) by (intro unat_of_nat_u32) simp
  then show u: "unat (PTOB (of_nat p) + of_nat i) = 4096 * p + i" using assms unat_PTOB [OF assms(1)] by (subst unat_add_lt) simp_all
  show "PTABIDX (PTOB (of_nat p) + of_nat i) = p" "unat (PGOFF (PTOB (of_nat p) + of_nat i)) = i"
    unfolding page_number page_offset u using assms(2) by simp_all
qed

definition heap_frame :: "'a kheap_state_scheme \<Rightarrow> 'a kheap_state_scheme \<Rightarrow> nat \<Rightarrow> nat \<Rightarrow> bool" where
  "heap_frame s s' b k \<longleftrightarrow> pfdb s' = pfdb s \<and> freelist s' = freelist s \<and> freemem s' = freemem s \<and> maxmem s' = maxmem s \<and> ptab s' = ptab s \<and>
     osvmap s' = osvmap s \<and> kmodmap s' = kmodmap s \<and> (\<forall>j. j \<noteq> k \<longrightarrow> phys s' j = phys s j) \<and> (\<forall>c. c \<noteq> b \<longrightarrow> buckets s' c = buckets s c)"

lemma heap_frame_step: "heap_frame s (set_mem b m (store32 x w s)) b (frame_of s (PTABIDX x))"
  by (simp add: heap_frame_def set_mem_def store32_def Let_def)

lemma heap_frame_trans: "heap_frame s s1 b k \<Longrightarrow> heap_frame s1 s2 b k \<Longrightarrow> heap_frame s s2 b k"
  by (simp add: heap_frame_def)

lemma heap_frame_inv: "heap_frame s s' b k \<Longrightarrow> mem_inv s xs H \<Longrightarrow> mem_inv s' xs H" "heap_frame s s' b k \<Longrightarrow> kmem_inv s xs A B \<Longrightarrow> kmem_inv s' xs A B"
proof -
  assume h: "heap_frame s s' b k"
  show m: "mem_inv s xs H \<Longrightarrow> mem_inv s' xs H" for H by (rule mem_inv_cong) (use h in \<open>simp_all add: heap_frame_def\<close>)
  show "kmem_inv s xs A B \<Longrightarrow> kmem_inv s' xs A B" using h m [of "A \<union> B"] by (simp add: kmem_inv_def heap_frame_def)
qed

lemma split_page_spec:
  assumes "mem_inv s xs H" and "P \<subseteq> H" "p \<in> P" "0 < p" "p < 2 ^ 20" and "4 \<le> b" "b \<le> 11" and "bucket_ok s b P fl"
    and "\<forall>x \<in> set fl. PTABIDX x = p \<longrightarrow> unat (PGOFF x) < j * 2 ^ b" and "j \<le> 2 ^ (12 - b)"
  shows "\<exists>s' fl'. split_page b (PTOB (of_nat p)) (j * 2 ^ b) s = Some s' \<and> bucket_ok s' b P fl' \<and> heap_frame s s' b (frame_of s p) \<and>
    set fl \<subseteq> set fl' \<and> (\<forall>x \<in> set fl'. x \<in> set fl \<or> PTABIDX x = p) \<and> (j < 2 ^ (12 - b) \<longrightarrow> fl' \<noteq> [])"
  using assms(1,8-10)
proof (induction "2 ^ (12 - b) - j" arbitrary: s fl j)
  case 0
  have "(2 :: nat) ^ (12 - b) * 2 ^ b = 4096" using assms(7) by (simp add: power_add [symmetric])
  then have "\<not> j * 2 ^ b < PAGESIZE" using 0 by (simp add: PAGESIZE_def)
  then have "split_page b (PTOB (of_nat p)) (j * 2 ^ b) s = Some s" by (subst split_page.simps) simp
  then show ?case using 0 by (intro exI [of _ s] exI [of _ fl]) (simp add: heap_frame_def)
next
  case (Suc d)
  have pow: "(2 :: nat) ^ (12 - b) * 2 ^ b = 4096" using assms(7) by (simp add: power_add [symmetric])
  have j: "j < 2 ^ (12 - b)" "d = 2 ^ (12 - b) - Suc j" using Suc.hyps(2) by simp_all
  then have "Suc j * 2 ^ b \<le> 4096" using mult_le_mono1 [of "Suc j" "2 ^ (12 - b)" "2 ^ b"] pow by simp
  then have i: "j * 2 ^ b < 4096" by (rule less_le_trans [rotated]) simp
  let ?x = "PTOB (of_nat p) + of_nat (j * 2 ^ b)"
  define s1 where "s1 = set_mem b ?x (store32 ?x (b_mem (buckets s b)) s)"
  note a = chunk_address [OF assms(5) i]
  have "(2 :: nat) ^ b dvd 4096" using pow by (metis dvd_triv_right)
  then have "(2 :: nat) ^ b dvd 4096 * p + j * 2 ^ b" by simp
  then have ch: "chunk b P ?x" unfolding chunk_def a mod_eq_0_iff_dvd using assms(3) by simp
  have x: "?x \<noteq> 0" "?x \<notin> set fl" using a assms(4) Suc.prems(3) by (auto simp: u32_eq_iff)
  have ok: "bucket_ok s1 b P (?x # fl)" unfolding s1_def by (rule bucket_push [OF Suc.prems(1) assms(2,6) Suc.prems(2) ch x])
  have fr: "heap_frame s s1 b (frame_of s p)" using heap_frame_step [of s b ?x ?x "b_mem (buckets s b)"] a(2) by (simp add: s1_def)
  then have f1: "frame_of s1 p = frame_of s p" by (simp add: heap_frame_def frame_of_def)
  have "b_size (buckets s b) = 2 ^ b" using Suc.prems(2) by (simp add: bucket_ok_def)
  moreover have "unat (2 ^ b :: u32) = 2 ^ b" by (rule unat_power2) (use assms(7) in simp)
  ultimately have un: "split_page b (PTOB (of_nat p)) (j * 2 ^ b) s = split_page b (PTOB (of_nat p)) (Suc j * 2 ^ b) s1"
    using i by (subst split_page.simps) (simp add: s1_def PAGESIZE_def add.commute)
  have "\<forall>y \<in> set (?x # fl). PTABIDX y = p \<longrightarrow> unat (PGOFF y) < Suc j * 2 ^ b" using Suc.prems(3) a(3) by (auto intro: less_trans)
  from Suc.hyps(1) [OF j(2) heap_frame_inv(1) [OF fr Suc.prems(1)] ok this] j(1) obtain s' fl' where
    r: "split_page b (PTOB (of_nat p)) (Suc j * 2 ^ b) s1 = Some s'" "bucket_ok s' b P fl'" "heap_frame s1 s' b (frame_of s p)" "set (?x # fl) \<subseteq> set fl'"
    "\<forall>y \<in> set fl'. y \<in> set (?x # fl) \<or> PTABIDX y = p" unfolding f1 by auto
  then show ?case unfolding un using heap_frame_trans [OF fr r(3)] a(2) by (intro exI [of _ s'] exI [of _ fl']) auto
qed

section \<open>The invariant of the heap\<close>

text \<open>
  \<open>P b\<close> are the pages of bucket \<open>b\<close> and \<open>fl b\<close> its free chunks; \<open>U\<close> are the chunks in use with their buckets and \<open>L\<close> the runs of pages in use.
\<close>

definition large_ok :: "'a kheap_state_scheme \<Rightarrow> nat set \<Rightarrow> (nat \<Rightarrow> nat set) \<Rightarrow> nat \<Rightarrow> nat \<Rightarrow> bool" where
  "large_ok s A P p n \<longleftrightarrow> 0 < n \<and> {p..<p + n} \<subseteq> A \<and> (\<forall>b. {p..<p + n} \<inter> P b = {}) \<and> pf_word (pfdb s (frame_of s p)) = of_nat (n + 12)"

definition heap_inv :: "'a kheap_state_scheme \<Rightarrow> nat list \<Rightarrow> nat set \<Rightarrow> nat set \<Rightarrow> (nat \<Rightarrow> nat set) \<Rightarrow> (nat \<Rightarrow> u32 list) \<Rightarrow> (nat \<times> u32) set \<Rightarrow> (nat \<times> nat) set \<Rightarrow> bool" where
  "heap_inv s xs A B P fl U L \<longleftrightarrow> kmem_inv s xs A B \<and> (\<forall>b \<in> {4..11}. bucket_ok s b (P b) (fl b)) \<and> (\<forall>b. P b \<subseteq> A) \<and> (\<forall>b c. b \<noteq> c \<longrightarrow> P b \<inter> P c = {}) \<and>
     (\<forall>(b, x) \<in> U. b \<in> {4..11} \<and> chunk b (P b) x \<and> x \<notin> set (fl b)) \<and> (\<forall>(p, n) \<in> L. large_ok s A P p n) \<and>
     (\<forall>(p, n) \<in> L. \<forall>(q, m) \<in> L. (p, n) \<noteq> (q, m) \<longrightarrow> {p..<p + n} \<inter> {q..<q + m} = {})"

lemma heap_invD:
  assumes "heap_inv s xs A B P fl U L"
  shows "kmem_inv s xs A B" and "b \<in> {4..11} \<Longrightarrow> bucket_ok s b (P b) (fl b)" and "P b \<subseteq> A" and "b \<noteq> c \<Longrightarrow> P b \<inter> P c = {}"
    and "(b, x) \<in> U \<Longrightarrow> b \<in> {4..11} \<and> chunk b (P b) x \<and> x \<notin> set (fl b)" and "(p, n) \<in> L \<Longrightarrow> large_ok s A P p n"
    and "(p, n) \<in> L \<Longrightarrow> (q, m) \<in> L \<Longrightarrow> (p, n) \<noteq> (q, m) \<Longrightarrow> {p..<p + n} \<inter> {q..<q + m} = {}"
  using assms unfolding heap_inv_def by blast+

lemma heap_invI:
  assumes "kmem_inv s xs A B" and "\<And>b. b \<in> {4..11} \<Longrightarrow> bucket_ok s b (P b) (fl b)" and "\<And>b. P b \<subseteq> A" and "\<And>b c. b \<noteq> c \<Longrightarrow> P b \<inter> P c = {}"
    and "\<And>b x. (b, x) \<in> U \<Longrightarrow> b \<in> {4..11} \<and> chunk b (P b) x \<and> x \<notin> set (fl b)" and "\<And>p n. (p, n) \<in> L \<Longrightarrow> large_ok s A P p n"
    and "\<And>p n q m. (p, n) \<in> L \<Longrightarrow> (q, m) \<in> L \<Longrightarrow> (p, n) \<noteq> (q, m) \<Longrightarrow> {p..<p + n} \<inter> {q..<q + m} = {}"
  shows "heap_inv s xs A B P fl U L"
  unfolding heap_inv_def using assms by blast

lemma held_page: "kmem_inv s xs A B \<Longrightarrow> p \<in> A \<Longrightarrow> 0x92000 \<le> p \<and> p < 2 ^ 20"
  using kmem_invD(5) [of s xs A B] by (auto simp: heap_pages_def)

lemma page_info_frame:
  assumes "PTABIDX x < 2 ^ 20"
  shows "page_info s x = frame_of s (PTABIDX x)"
proof -
  let ?w = "GET_PTE s x AND PT_PFNMASK"
  have m: "PT_PFNMASK = NOT (mask 12)" "PGOFF x = take_bit 12 x"
    using take_bit_eq_mask [of 12 x] by (simp_all add: PT_PFNMASK_def PGOFF_def mask_numeral)
  have "?w AND PGOFF x = 0" unfolding m by (rule bit_word_eqI) (auto simp: bit_simps)
  then have "?w + PGOFF x = ?w OR PGOFF x" by (rule disjunctive_add_eq_or)
  moreover have "drop_bit 12 (?w OR PGOFF x) = drop_bit 12 (GET_PTE s x)" unfolding m by (rule bit_word_eqI) (auto simp: bit_simps dest: bit_imp_le_length)
  ultimately show ?thesis by (simp add: page_info_def BTOP_def virt2phys_def GET_PTE_def frame_of_def drop_bit_eq_div unat_div_distrib)
qed

lemma page_info_page: "p < 2 ^ 20 \<Longrightarrow> page_info s (PTOB (of_nat p)) = frame_of s p"
  by (simp add: page_info_def page_frame_number)

lemma set_page_size_inv:
  assumes "kmem_inv s xs A B" and "p \<in> A"
  shows "kmem_inv (set_page_size (PTOB (of_nat p)) w s) xs A B"
proof -
  let ?s = "set_page_size (PTOB (of_nat p)) w s" and ?k = "frame_of s p"
  note inv = mem_invD [OF kmem_invD(1) [OF assms(1)]]
  have s': "?s = s\<lparr>pfdb := (pfdb s)(?k := (pfdb s ?k)\<lparr>pf_word := w\<rparr>)\<rparr>" using held_page [OF assms] by (simp add: set_page_size_def page_info_page Let_def)
  have "?k \<notin> set xs" using inv(4) [of p] assms(2) by simp
  then have "pf_rep ?s xs" using pf_repD [OF inv(1)] unfolding s' by (intro pf_repI) auto
  then have "mem_inv ?s xs (A \<union> B)" using inv(3) by (intro mem_inv_frame [OF kmem_invD(1) [OF assms(1)]]) (simp_all add: s' table_at_def frame_of_def)
  then show ?thesis using assms(1) by (simp add: kmem_inv_def s')
qed

lemma set_page_size_simps:
  assumes "p < 2 ^ 20"
  shows "ptab (set_page_size (PTOB (of_nat p)) w s) = ptab s" "phys (set_page_size (PTOB (of_nat p)) w s) = phys s"
    "pfdb (set_page_size (PTOB (of_nat p)) w s) = (pfdb s)(frame_of s p := (pfdb s (frame_of s p))\<lparr>pf_word := w\<rparr>)"
    "osvmap (set_page_size (PTOB (of_nat p)) w t) = osvmap t" "buckets (set_page_size (PTOB (of_nat p)) w h) = buckets h"
  using assms by (simp_all add: set_page_size_def page_info_page Let_def)

section \<open>Changes outside the pages in use\<close>

text \<open>What a change has to leave alone for the blocks on the pages \<open>H\<close> to stay as they are.\<close>

definition same_pages :: "'a pdir_state_scheme \<Rightarrow> 'a pdir_state_scheme \<Rightarrow> nat set \<Rightarrow> bool" where
  "same_pages s s' H \<longleftrightarrow> (\<forall>p \<in> H. ptab s' p = ptab s p \<and> pfdb s' (frame_of s p) = pfdb s (frame_of s p) \<and> phys s' (frame_of s p) = phys s (frame_of s p))"

lemma same_pages_trans: "same_pages s s1 H \<Longrightarrow> same_pages s1 s2 H \<Longrightarrow> same_pages s s2 H"
  by (simp add: same_pages_def frame_of_def)

lemma same_pages_bucket:
  assumes "same_pages s s' H" and "P \<subseteq> H" and "buckets s' b = buckets s b" and "bucket_ok s b P fl"
  shows "bucket_ok s' b P fl"
  using assms(1,2) by (intro bucket_ok_frame [OF assms(4,3)]) (auto simp: same_pages_def)

lemma same_pages_large:
  assumes "same_pages s s' H" and "{p..<p + n} \<subseteq> H" and "large_ok s A P p n" and "{p..<p + n} \<subseteq> A'" and "\<And>b. {p..<p + n} \<inter> P' b = {}"
  shows "large_ok s' A' P' p n"
proof -
  have "p \<in> {p..<p + n}" using assms(3) by (simp add: large_ok_def)
  then have "p \<in> H" using assms(2) by blast
  then have "ptab s' p = ptab s p" "pfdb s' (frame_of s p) = pfdb s (frame_of s p)" using assms(1) by (simp_all add: same_pages_def)
  then show ?thesis using assms(3-5) by (simp add: large_ok_def frame_of_def)
qed

lemma heap_more:
  assumes "kmem_state.more s' = kmem_state.more s"
  shows "buckets s' = buckets s"
  using assms by (cases s; cases s'; simp)

lemma alloc_pages_same:
  assumes "kmem_inv s xs A B" and "0 < n" "n < 2 ^ 31" and "tag \<noteq> TAG_FREE" and "\<exists>e \<in> set (live (osvmap s)). n \<le> unat (r_size e)"
  obtains p where "{p..<p + n} \<inter> A = {}"
    and "\<And>v s1. alloc_pages (int n) tag s = Some (v, s1) \<Longrightarrow> v = PTOB (of_nat p) \<and> buckets s1 = buckets s \<and> same_pages s s1 A \<and> (\<exists>xs'. kmem_inv s1 xs' (A \<union> {p..<p + n}) B)"
    and "2 * n \<le> length xs \<Longrightarrow> \<exists>s'. alloc_pages (int n) tag s = Some (PTOB (of_nat p), s')"
proof (rule alloc_pages_spec [OF assms])
  fix p m
  let ?t = "if tag = 0 then TAG_KMEM else tag"
  assume free: "{p..<p + n} \<subseteq> free_set (osvmap s)"
    and spec: "\<And>v s'. alloc_pages (int n) tag s = Some (v, s') \<Longrightarrow> v = PTOB (of_nat p) \<and> osvmap s' = m \<and> kmem_state.more s' = kmem_state.more s \<and>
      (\<exists>xs'. kmem_inv s' xs' (A \<union> {p..<p + n}) B \<and> fresh_pages ?t p n xs (A \<union> B) (s\<lparr>osvmap := m\<rparr>) xs' s')"
    and tot: "2 * n \<le> length xs \<Longrightarrow> \<exists>s'. alloc_pages (int n) tag s = Some (PTOB (of_nat p), s')"
  note minv = mem_invD [OF kmem_invD(1) [OF assms(1)]]
  have dis: "{p..<p + n} \<inter> A = {}" using free kmem_invD(4) [OF assms(1)] by blast
  show thesis
  proof (rule that [OF dis _ tot])
    fix v s1 assume "alloc_pages (int n) tag s = Some (v, s1)"
    from spec [OF this] obtain xs' where v: "v = PTOB (of_nat p)" and mo: "kmem_state.more s1 = kmem_state.more s"
      and k: "kmem_inv s1 xs' (A \<union> {p..<p + n}) B" and f: "fresh_pages ?t p n xs (A \<union> B) (s\<lparr>osvmap := m\<rparr>) xs' s1" by blast
    have "ptab s1 q = ptab s q \<and> pfdb s1 (frame_of s q) = pfdb s (frame_of s q) \<and> phys s1 (frame_of s q) = phys s (frame_of s q)" if "q \<in> A" for q
      using f minv(4) [of q] that unfolding fresh_pages_def by auto
    then show "v = PTOB (of_nat p) \<and> buckets s1 = buckets s \<and> same_pages s s1 A \<and> (\<exists>xs'. kmem_inv s1 xs' (A \<union> {p..<p + n}) B)"
      using v heap_more [OF mo] k unfolding same_pages_def by blast
  qed
qed

text \<open>\<^verbatim>\<open>alloc_pages\<close> and setting the size of its first page, as both paths of \<^verbatim>\<open>kmalloc_tag\<close> do.\<close>

lemma alloc_sized:
  assumes "kmem_inv s xs A B" and "0 < n" "n < 2 ^ 31" and "tag \<noteq> TAG_FREE" and "\<exists>e \<in> set (live (osvmap s)). n \<le> unat (r_size e)"
  obtains p where "{p..<p + n} \<inter> A = {}"
    and "\<And>v s1. alloc_pages (int n) tag s = Some (v, s1) \<Longrightarrow> v = PTOB (of_nat p) \<and> (\<exists>xs'. kmem_inv (set_page_size v w s1) xs' (A \<union> {p..<p + n}) B) \<and>
      same_pages s (set_page_size v w s1) A \<and> buckets (set_page_size v w s1) = buckets s \<and> pf_word (pfdb (set_page_size v w s1) (frame_of (set_page_size v w s1) p)) = w"
    and "2 * n \<le> length xs \<Longrightarrow> \<exists>s'. alloc_pages (int n) tag s = Some (PTOB (of_nat p), s')"
proof (rule alloc_pages_same [OF assms])
  fix p
  assume dis: "{p..<p + n} \<inter> A = {}"
    and spec: "\<And>v s1. alloc_pages (int n) tag s = Some (v, s1) \<Longrightarrow> v = PTOB (of_nat p) \<and> buckets s1 = buckets s \<and> same_pages s s1 A \<and> (\<exists>xs'. kmem_inv s1 xs' (A \<union> {p..<p + n}) B)"
    and tot: "2 * n \<le> length xs \<Longrightarrow> \<exists>s'. alloc_pages (int n) tag s = Some (PTOB (of_nat p), s')"
  show thesis
  proof (rule that [OF dis _ tot])
    fix v s1 assume "alloc_pages (int n) tag s = Some (v, s1)"
    from spec [OF this] obtain xs' where v: "v = PTOB (of_nat p)" and bk: "buckets s1 = buckets s" and same: "same_pages s s1 A" and k: "kmem_inv s1 xs' (A \<union> {p..<p + n}) B" by blast
    let ?s = "set_page_size v w s1"
    have pin: "p \<in> A \<union> {p..<p + n}" using assms(2) by simp
    have p: "p < 2 ^ 20" using held_page [OF k pin] by simp
    note sz = set_page_size_simps [OF p, where w = w, folded v]
    have "frame_of s1 q \<noteq> frame_of s1 p" if "q \<in> A" for q
      using inj_onD [OF mem_invD(2) [OF kmem_invD(1) [OF k]], of q p] that pin dis assms(2) by (auto simp: disjoint_iff)
    then have "same_pages s1 ?s A" unfolding same_pages_def sz by simp
    note same_pages_trans [OF same this]
    moreover have "kmem_inv ?s xs' (A \<union> {p..<p + n}) B" unfolding v by (rule set_page_size_inv [OF k pin])
    moreover have "pf_word (pfdb ?s (frame_of ?s p)) = w" by (simp add: sz frame_of_def)
    ultimately show "v = PTOB (of_nat p) \<and> (\<exists>xs'. kmem_inv ?s xs' (A \<union> {p..<p + n}) B) \<and> same_pages s ?s A \<and> buckets ?s = buckets s \<and> pf_word (pfdb ?s (frame_of ?s p)) = w"
      using v bk sz(5) [of s1] by auto
  qed
qed

section \<open>The operations keep the invariant\<close>

text \<open>A change that leaves the pages in use alone, and the buckets but one, keeps everything else.\<close>

lemma heap_inv_step:
  assumes "heap_inv s xs A B P fl U L" and "kmem_inv s' xs' A' B" and "A \<subseteq> A'" and "same_pages s s' (A - P b)" and "\<And>c. c \<noteq> b \<Longrightarrow> buckets s' c = buckets s c"
    and "b \<in> {4..11} \<Longrightarrow> bucket_ok s' b (P b \<union> N) (fl' b)" and "N \<subseteq> A'" "N \<inter> A = {}" and "\<And>c. c \<noteq> b \<Longrightarrow> fl' c = fl c"
    and "\<And>x. x \<in> set (fl' b) \<Longrightarrow> x \<in> set (fl b) \<or> PTABIDX x \<in> N \<or> (b, x) \<notin> U"
  shows "heap_inv s' xs' A' B (P(b := P b \<union> N)) fl' U L"
proof (rule heap_invI [OF assms(2)])
  note inv = heap_invD [OF assms(1)]
  show "bucket_ok s' c ((P(b := P b \<union> N)) c) (fl' c)" if "c \<in> {4..11}" for c
  proof (cases "c = b")
    case False
    then have "P c \<subseteq> A - P b" using inv(3) [of c] inv(4) [of c b] by auto
    then show ?thesis using same_pages_bucket [OF assms(4) _ assms(5) inv(2), of c] that assms(9) [of c] False by simp
  qed (use that assms(6) in simp)
  show "(P(b := P b \<union> N)) c \<subseteq> A'" for c using inv(3) [of c] assms(3,7) by auto
  show "(P(b := P b \<union> N)) c \<inter> (P(b := P b \<union> N)) d = {}" if "c \<noteq> d" for c d
    using that inv(4) [OF that] inv(3) [of c] inv(3) [of d] assms(8) by auto
  show "c \<in> {4..11} \<and> chunk c ((P(b := P b \<union> N)) c) x \<and> x \<notin> set (fl' c)" if "(c, x) \<in> U" for c x
  proof (cases "c = b")
    case True
    have u: "b \<in> {4..11}" "chunk b (P b) x" "x \<notin> set (fl b)" using inv(5) [OF that] True by simp_all
    then have "PTABIDX x \<notin> N" using inv(3) [of b] assms(8) by (auto simp: chunk_def)
    then show ?thesis using True u assms(10) [of x] that by (auto simp: chunk_def)
  qed (use inv(5) [OF that] assms(9) [of c] in simp)
  show "large_ok s' A' (P(b := P b \<union> N)) p n" if "(p, n) \<in> L" for p n
  proof (rule same_pages_large [OF assms(4) _ inv(6) [OF that]])
    have l: "{p..<p + n} \<subseteq> A" "\<And>c. {p..<p + n} \<inter> P c = {}" using inv(6) [OF that] by (simp_all add: large_ok_def)
    show "{p..<p + n} \<subseteq> A - P b" "{p..<p + n} \<subseteq> A'" using l(1) l(2) [of b] assms(3) by auto
    show "{p..<p + n} \<inter> (P(b := P b \<union> N)) c = {}" for c using l(1) l(2) [of c] assms(8) by auto
  qed
  show "{p..<p + n} \<inter> {q..<q + m} = {}" if "(p, n) \<in> L" "(q, m) \<in> L" "(p, n) \<noteq> (q, m)" for p n q m by (rule inv(7) [OF that])
qed

lemma kmem_inv_buckets: "kmem_inv (s\<lparr>buckets := f\<rparr>) xs A B = kmem_inv s xs A B"
proof -
  have "mem_inv (s\<lparr>buckets := f\<rparr>) xs (A \<union> B) = mem_inv s xs (A \<union> B)"
    using mem_inv_cong [of s xs "A \<union> B" "s\<lparr>buckets := f\<rparr>"] mem_inv_cong [of "s\<lparr>buckets := f\<rparr>" xs "A \<union> B" s] by auto
  then show ?thesis by (simp add: kmem_inv_def)
qed

lemma bucket_ok_pages: "bucket_ok (s\<lparr>buckets := (buckets s)(b := (buckets s b)\<lparr>b_pages := n\<rparr>)\<rparr>) b P fl = bucket_ok s b P fl"
proof -
  let ?s = "s\<lparr>buckets := (buckets s)(b := (buckets s b)\<lparr>b_pages := n\<rparr>)\<rparr>"
  have "chain ?s m fl = chain s m fl" for m by (rule chain_cong) (simp add: load32_def frame_of_def)
  then show ?thesis by (simp add: bucket_ok_def frame_of_def)
qed

text \<open>Room for \<open>n\<close> pages in the map of the kernel heap.\<close>

definition heap_room :: "'a kmem_state_scheme \<Rightarrow> nat \<Rightarrow> bool" where
  "heap_room s n \<longleftrightarrow> (\<exists>e \<in> set (live (osvmap s)). n \<le> unat (r_size e))"

text \<open>The page a bucket gets is split after its size has been set.\<close>

lemma fresh_page_split:
  assumes "heap_inv s xs A B P fl U L" and "b \<in> {4..11}" and "fl b = []" and "p \<notin> A"
    and "kmem_inv t xs' (A \<union> {p}) B" and "same_pages s t A" and "buckets t = buckets s" and "pf_word (pfdb t (frame_of t p)) = of_nat b"
  obtains s2 fl' where "split_page b (PTOB (of_nat p)) 0 t = Some s2" and "kmem_inv s2 xs' (A \<union> {p}) B" and "same_pages s s2 A"
    and "\<And>c. c \<noteq> b \<Longrightarrow> buckets s2 c = buckets s c" and "bucket_ok s2 b (P b \<union> {p}) fl'" and "\<And>x. x \<in> set fl' \<Longrightarrow> PTABIDX x = p" and "fl' \<noteq> []"
proof -
  note inv = heap_invD [OF assms(1)]
  have ok: "bucket_ok t b (P b \<union> {p}) []"
    using same_pages_bucket [OF assms(6) inv(3) _ inv(2) [OF assms(2)]] assms(3,7,8) by (simp add: bucket_ok_def)
  have p: "0 < p" "p < 2 ^ 20" using held_page [OF assms(5), of p] by simp_all
  from split_page_spec [OF kmem_invD(1) [OF assms(5)] _ _ p _ _ ok, of 0] inv(3) [of b] assms(2) obtain s2 fl'
    where s2: "split_page b (PTOB (of_nat p)) 0 t = Some s2" "bucket_ok s2 b (P b \<union> {p}) fl'" "heap_frame t s2 b (frame_of t p)" "\<forall>x \<in> set fl'. PTABIDX x = p" "fl' \<noteq> []"
    by fastforce
  have ne: "frame_of t q \<noteq> frame_of t p" if "q \<in> A" for q
    using inj_onD [OF mem_invD(2) [OF kmem_invD(1) [OF assms(5)]], of q p] that assms(4) by auto
  have "frame_of s q = frame_of t q" if "q \<in> A" for q using assms(6) that by (simp add: same_pages_def frame_of_def)
  then have "same_pages s s2 A" using assms(6) s2(3) ne unfolding same_pages_def heap_frame_def by simp
  then show thesis using s2 heap_frame_inv(2) [OF s2(3) assms(5)] assms(7) by (intro that [of s2 fl']) (simp_all add: heap_frame_def)
qed

lemma refill_spec:
  assumes "heap_inv s xs A B P fl U L" and "b \<in> {4..11}" and "fl b = []" and "heap_room s 1"
  obtains p where "p \<notin> A" and "\<And>s'. refill b s = Some s' \<Longrightarrow> \<exists>xs' fl'. heap_inv s' xs' (A \<union> {p}) B (P(b := P b \<union> {p})) fl' U L \<and> fl' b \<noteq> [] \<and> same_pages s s' A"
    and "2 \<le> length xs \<Longrightarrow> \<exists>s'. refill b s = Some s'"
proof (rule alloc_sized [OF heap_invD(1) [OF assms(1)], of 1 TAG_HEAP "of_nat b"])
  note inv = heap_invD [OF assms(1)]
  show "\<exists>e \<in> set (live (osvmap s)). 1 \<le> unat (r_size e)" using assms(4) by (simp add: heap_room_def)
  fix p
  assume dis: "{p..<p + 1} \<inter> A = {}"
    and spec: "\<And>v s1. alloc_pages (int 1) TAG_HEAP s = Some (v, s1) \<Longrightarrow> v = PTOB (of_nat p) \<and>
      (\<exists>xs'. kmem_inv (set_page_size v (of_nat b) s1) xs' (A \<union> {p..<p + 1}) B) \<and> same_pages s (set_page_size v (of_nat b) s1) A \<and>
      buckets (set_page_size v (of_nat b) s1) = buckets s \<and> pf_word (pfdb (set_page_size v (of_nat b) s1) (frame_of (set_page_size v (of_nat b) s1) p)) = of_nat b"
    and tot: "2 * 1 \<le> length xs \<Longrightarrow> \<exists>s'. alloc_pages (int 1) TAG_HEAP s = Some (PTOB (of_nat p), s')"
  have split: "\<exists>s2 xs' fl'. split_page b v 0 (set_page_size v (of_nat b) s1) = Some s2 \<and> kmem_inv s2 xs' (A \<union> {p}) B \<and> same_pages s s2 A \<and>
      (\<forall>c. c \<noteq> b \<longrightarrow> buckets s2 c = buckets s c) \<and> bucket_ok s2 b (P b \<union> {p}) fl' \<and> (\<forall>x \<in> set fl'. PTABIDX x = p) \<and> fl' \<noteq> []"
    if "alloc_pages (int 1) TAG_HEAP s = Some (v, s1)" for v s1
  proof -
    from spec [OF that] obtain xs' where t: "v = PTOB (of_nat p)" "kmem_inv (set_page_size v (of_nat b) s1) xs' (A \<union> {p}) B" "same_pages s (set_page_size v (of_nat b) s1) A"
      "buckets (set_page_size v (of_nat b) s1) = buckets s" "pf_word (pfdb (set_page_size v (of_nat b) s1) (frame_of (set_page_size v (of_nat b) s1) p)) = of_nat b" by auto
    have "p \<notin> A" using dis by auto
    then show ?thesis by (rule fresh_page_split [OF assms(1-3) _ t(2-5), folded t(1)]) blast
  qed
  have "p \<notin> A" using dis by auto
  then show thesis
  proof (rule that)
    fix s' assume "refill b s = Some s'"
    then obtain v s1 s2 where a: "alloc_pages (int 1) TAG_HEAP s = Some (v, s1)" and sp: "split_page b v 0 (set_page_size v (of_nat b) s1) = Some s2"
      and s': "s' = s2\<lparr>buckets := (buckets s2)(b := (buckets s2 b)\<lparr>b_pages := b_pages (buckets s2 b) + 1\<rparr>)\<rparr>"
      by (auto simp: refill_def bind_eq_Some_conv)
    from split [OF a] sp obtain xs' fl' where r: "kmem_inv s2 xs' (A \<union> {p}) B" "same_pages s s2 A" "\<forall>c. c \<noteq> b \<longrightarrow> buckets s2 c = buckets s c"
      "bucket_ok s2 b (P b \<union> {p}) fl'" "\<forall>x \<in> set fl'. PTABIDX x = p" "fl' \<noteq> []" by auto
    have "heap_inv s' xs' (A \<union> {p}) B (P(b := P b \<union> {p})) (fl(b := fl')) U L"
    proof (rule heap_inv_step [OF assms(1)])
      show "kmem_inv s' xs' (A \<union> {p}) B" using r(1) by (simp add: s' kmem_inv_buckets)
      show "same_pages s s' (A - P b)" using r(2) by (simp add: s' same_pages_def)
      show "bucket_ok s' b (P b \<union> {p}) ((fl(b := fl')) b)" using r(4) by (simp add: s' bucket_ok_pages)
    qed (use r dis s' in auto)
    moreover have "same_pages s s' A" using r(2) by (simp add: s' same_pages_def)
    ultimately show "\<exists>xs' fl'. heap_inv s' xs' (A \<union> {p}) B (P(b := P b \<union> {p})) fl' U L \<and> fl' b \<noteq> [] \<and> same_pages s s' A" using r(6) by (metis fun_upd_same)
  next
    assume "2 \<le> length xs"
    then obtain s1 where a: "alloc_pages (int 1) TAG_HEAP s = Some (PTOB (of_nat p), s1)" using tot by auto
    from split [OF a] show "\<exists>s'. refill b s = Some s'" using a by (auto simp: refill_def)
  qed
qed (simp_all add: TAG_HEAP_def TAG_FREE_def)

lemma heap_inv_use:
  assumes "heap_inv s xs A B P fl U L" and "b \<in> {4..11}" and "chunk b (P b) x" and "x \<notin> set (fl b)"
  shows "heap_inv s xs A B P fl (insert (b, x) U) L"
  using assms unfolding heap_inv_def by auto

lemma heap_inv_forget:
  assumes "heap_inv s xs A B P fl U L" and "U' \<subseteq> U" and "L' \<subseteq> L"
  shows "heap_inv s xs A B P fl U' L'"
  by (rule heap_invI [OF heap_invD(1-4) [OF assms(1)]]) (use assms heap_invD(5-7) [OF assms(1)] in blast)+

lemma heap_pop:
  assumes "heap_inv s xs A B P fl U L" and "b \<in> {4..11}" and "fl b = x # r"
  shows "b_mem (buckets s b) = x" and "heap_inv (set_mem b (load32 s x) s) xs A B P (fl(b := r)) (insert (b, x) U) L" and "(b, x) \<notin> U"
proof -
  note inv = heap_invD [OF assms(1)]
  have ok: "bucket_ok s b (P b) (x # r)" using inv(2) [OF assms(2)] assms(3) by simp
  show "b_mem (buckets s b) = x" by (rule bucket_pop(1) [OF ok])
  show "(b, x) \<notin> U" using inv(5) [of b x] assms(3) by auto
  have "heap_inv (set_mem b (load32 s x) s) xs A B (P(b := P b \<union> {})) (fl(b := r)) U L"
  proof (rule heap_inv_step [OF assms(1)])
    show "kmem_inv (set_mem b (load32 s x) s) xs A B" using inv(1) by (simp add: set_mem_def kmem_inv_buckets)
    show "same_pages s (set_mem b (load32 s x) s) (A - P b)" by (simp add: same_pages_def set_mem_def)
    show "bucket_ok (set_mem b (load32 s x) s) b (P b \<union> {}) ((fl(b := r)) b)" using bucket_pop(2) [OF ok] by simp
  qed (use assms(3) in \<open>auto simp: set_mem_def\<close>)
  moreover have "chunk b (P b) x" "x \<notin> set r" using ok by (simp_all add: bucket_ok_def)
  ultimately show "heap_inv (set_mem b (load32 s x) s) xs A B P (fl(b := r)) (insert (b, x) U) L" using assms(2) by (intro heap_inv_use) simp_all
qed

lemma same_pages_mem: "same_pages s (set_mem b m s) H"
  by (simp add: same_pages_def set_mem_def)

lemma kmalloc_small:
  assumes "heap_inv s xs A B P fl U L" and "1 \<le> n" "n \<le> 2048" and "fl (BUCKET n) = [] \<Longrightarrow> heap_room s 1"
  shows "kmalloc_tag (int n) tag s = Some (v, s') \<Longrightarrow> \<exists>xs' A' P' fl'. heap_inv s' xs' A' B P' fl' (insert (BUCKET n, v) U) L \<and> (BUCKET n, v) \<notin> U \<and> same_pages s s' A \<and> A \<subseteq> A' \<and> (\<forall>c. P' c \<inter> A \<subseteq> P c)"
    and "(fl (BUCKET n) = [] \<Longrightarrow> 2 \<le> length xs) \<Longrightarrow> \<exists>r. kmalloc_tag (int n) tag s = Some r"
proof -
  define b where "b = BUCKET n"
  have b: "b \<in> {4..11}" using BUCKET_spec(1) [OF assms(2,3)] by (simp add: b_def)
  have un: "kmalloc_tag (int n) tag s = do { s1 \<leftarrow> (if b_mem (buckets s b) = 0 then refill b s else Some s);
      let addr = b_mem (buckets s1 b); Some (addr, set_mem b (load32 s1 addr) s1) }"
    using assms(2,3) by (simp add: kmalloc_tag_def PAGESIZE_def b_def Let_def)
  have e: "b_mem (buckets s b) = 0 \<longleftrightarrow> fl b = []" using heap_invD(2) [OF assms(1) b] by (cases "fl b") (auto simp: bucket_ok_def)
  have taken: "(\<exists>fl'. heap_inv s' xs1 A1 B P1 fl' (insert (b, v) U) L) \<and> (b, v) \<notin> U \<and> same_pages s s' A"
    if t: "heap_inv s1 xs1 A1 B P1 fl1 U L" "fl1 b \<noteq> []" "same_pages s s1 A" "v = b_mem (buckets s1 b)" "s' = set_mem b (load32 s1 v) s1" for s1 xs1 A1 P1 fl1 v s'
  proof -
    obtain x r where "fl1 b = x # r" using t(2) by (cases "fl1 b") simp_all
    from heap_pop [OF t(1) b this] show ?thesis using t(3-5) same_pages_trans [OF t(3) same_pages_mem [of s1 b _ A]] by auto
  qed
  show "\<exists>xs' A' P' fl'. heap_inv s' xs' A' B P' fl' (insert (BUCKET n, v) U) L \<and> (BUCKET n, v) \<notin> U \<and> same_pages s s' A \<and> A \<subseteq> A' \<and> (\<forall>c. P' c \<inter> A \<subseteq> P c)"
    if k: "kmalloc_tag (int n) tag s = Some (v, s')"
  proof (cases "fl b = []")
    case True
    then obtain s1 where s1: "refill b s = Some s1" "v = b_mem (buckets s1 b)" "s' = set_mem b (load32 s1 v) s1"
      using k e by (auto simp: un Let_def bind_eq_Some_conv)
    obtain p where "p \<notin> A" and
      "\<And>s'. refill b s = Some s' \<Longrightarrow> \<exists>xs' fl'. heap_inv s' xs' (A \<union> {p}) B (P(b := P b \<union> {p})) fl' U L \<and> fl' b \<noteq> [] \<and> same_pages s s' A"
      by (rule refill_spec [OF assms(1) b True assms(4) [folded b_def, OF True]]) (rule that)
    from this(2) [OF s1(1)] obtain xs' fl' where "heap_inv s1 xs' (A \<union> {p}) B (P(b := P b \<union> {p})) fl' U L" "fl' b \<noteq> []" "same_pages s s1 A" by blast
    from taken [OF this s1(2,3)] \<open>p \<notin> A\<close> show ?thesis unfolding b_def
      by (intro exI [of _ xs'] exI [of _ "A \<union> {p}"] exI [of _ "P(b := P b \<union> {p})"]) (auto simp: b_def)
  next
    case False
    have "same_pages s s A" by (simp add: same_pages_def)
    from taken [OF assms(1) False this] have "\<exists>fl'. heap_inv s' xs A B P fl' (insert (b, v) U) L \<and> (b, v) \<notin> U \<and> same_pages s s' A"
      using k e False by (auto simp: un Let_def)
    then show ?thesis unfolding b_def by blast
  qed
  show "\<exists>r. kmalloc_tag (int n) tag s = Some r" if "fl (BUCKET n) = [] \<Longrightarrow> 2 \<le> length xs"
  proof (cases "fl b = []")
    case True
    then have "\<exists>s1. refill b s = Some s1" using refill_spec [OF assms(1) b True] assms(4) that unfolding b_def by metis
    then show ?thesis using e True by (auto simp: un Let_def)
  qed (use e in \<open>auto simp: un Let_def\<close>)
qed

lemma pages_needed: "n < 2 ^ 31 \<Longrightarrow> unat (PAGES (of_nat n)) = (n + 4095) div 4096"
proof -
  assume "n < 2 ^ 31"
  then have "unat (of_nat (n + 4095) :: u32) = n + 4095" by (intro unat_of_nat_u32) simp
  then show ?thesis by (simp add: PAGES_def drop_bit_eq_div unat_div_distrib)
qed

lemma kmalloc_large:
  assumes "heap_inv s xs A B P fl U L" and "2048 < n" "n < 2 ^ 31" and "tag \<noteq> TAG_FREE" and "m = (n + 4095) div 4096" and "heap_room s m"
  shows "kmalloc_tag (int n) tag s = Some (v, s') \<Longrightarrow> \<exists>xs' A' p. heap_inv s' xs' A' B P fl U (insert (p, m) L) \<and> v = PTOB (of_nat p) \<and> {p..<p + m} \<inter> A = {} \<and> same_pages s s' A \<and> A \<subseteq> A'"
    and "2 * m \<le> length xs \<Longrightarrow> \<exists>r. kmalloc_tag (int n) tag s = Some r"
proof -
  let ?t = "if tag \<noteq> 0 then tag else TAG_ALOC" and ?w = "PAGES (of_nat n) + of_nat PAGESHIFT"
  note inv = heap_invD [OF assms(1)]
  have m: "unat (PAGES (of_nat n)) = m" "0 < m" "m < 2 ^ 31" using pages_needed [OF assms(3)] assms(2,3,5) by (simp_all add: div_less_iff_less_mult div_greater_zero_iff)
  have w: "?w = of_nat (m + 12)" using m(1) [symmetric] by (simp add: PAGESHIFT_def)
  have un: "kmalloc_tag (int n) tag s = do { (addr, s1) \<leftarrow> alloc_pages (int m) ?t s; Some (addr, set_page_size addr ?w s1) }"
    using assms(2) PAGES_bound(2) [of "of_nat n"] m(1) by (simp add: kmalloc_tag_def PAGESIZE_def)
  have t: "?t \<noteq> TAG_FREE" using assms(4) by (simp add: TAG_ALOC_def TAG_FREE_def)
  obtain p where p: "{p..<p + m} \<inter> A = {}"
    and spec: "\<And>v s1. alloc_pages (int m) ?t s = Some (v, s1) \<Longrightarrow> v = PTOB (of_nat p) \<and> (\<exists>xs'. kmem_inv (set_page_size v ?w s1) xs' (A \<union> {p..<p + m}) B) \<and>
      same_pages s (set_page_size v ?w s1) A \<and> buckets (set_page_size v ?w s1) = buckets s \<and> pf_word (pfdb (set_page_size v ?w s1) (frame_of (set_page_size v ?w s1) p)) = ?w"
    and tot: "2 * m \<le> length xs \<Longrightarrow> \<exists>s'. alloc_pages (int m) ?t s = Some (PTOB (of_nat p), s')"
    by (rule alloc_sized [OF inv(1) m(2,3) t assms(6) [unfolded heap_room_def], of ?w]) (rule that)
  show "\<exists>r. kmalloc_tag (int n) tag s = Some r" if "2 * m \<le> length xs" using tot [OF that] by (auto simp: un)
  assume "kmalloc_tag (int n) tag s = Some (v, s')"
  then obtain s1 where a: "alloc_pages (int m) ?t s = Some (v, s1)" and s': "s' = set_page_size v ?w s1" by (auto simp: un bind_eq_Some_conv)
  from spec [OF a, folded s'] obtain xs' where r: "v = PTOB (of_nat p)" "kmem_inv s' xs' (A \<union> {p..<p + m}) B" "same_pages s s' A" "buckets s' = buckets s"
    "pf_word (pfdb s' (frame_of s' p)) = ?w" by blast
  have "heap_inv s' xs' (A \<union> {p..<p + m}) B (P(0 := P 0 \<union> {})) fl U L"
    by (rule heap_inv_step [OF assms(1) r(2)]) (use r(3,4) in \<open>auto simp: same_pages_def\<close>)
  then have h: "heap_inv s' xs' (A \<union> {p..<p + m}) B P fl U L" by simp
  have "{p..<p + m} \<inter> P b = {}" for b using inv(3) [of b] p by blast
  then have new: "large_ok s' (A \<union> {p..<p + m}) P p m" using r(5) w m(2) by (simp add: large_ok_def)
  have old: "{p..<p + m} \<inter> {q..<q + k} = {}" if "(q, k) \<in> L" for q k using inv(6) [OF that] p unfolding large_ok_def by blast
  have "heap_inv s' xs' (A \<union> {p..<p + m}) B P fl U (insert (p, m) L)"
    by (rule heap_invI [OF heap_invD(1-5) [OF h]]) (use new old heap_invD(6,7) [OF h] in blast)+
  then show "\<exists>xs' A' p. heap_inv s' xs' A' B P fl U (insert (p, m) L) \<and> v = PTOB (of_nat p) \<and> {p..<p + m} \<inter> A = {} \<and> same_pages s s' A \<and> A \<subseteq> A'"
    using r(1,3) p by blast
qed

lemma kfree_small:
  assumes "heap_inv s xs A B P fl U L" and "(b, x) \<in> U"
  shows "kfree x s = set_mem b x (store32 x (b_mem (buckets s b)) s)" and "heap_inv (kfree x s) xs A B P (fl(b := x # fl b)) (U - {(b, x)}) L"
proof -
  note inv = heap_invD [OF assms(1)]
  have u: "b \<in> {4..11}" "chunk b (P b) x" "x \<notin> set (fl b)" using inv(5) [OF assms(2)] by simp_all
  have page: "PTABIDX x \<in> P b" "PTABIDX x \<in> A" using u(2) inv(3) [of b] by (auto simp: chunk_def)
  have p: "0x92000 \<le> PTABIDX x" "PTABIDX x < 2 ^ 20" using held_page [OF inv(1) page(2)] by simp_all
  then have x: "x \<noteq> 0" by (auto simp: page_number)
  have "pf_word (pfdb s (page_info s x)) = of_nat b" using inv(2) [OF u(1)] page(1) page_info_frame [OF p(2), of s] by (simp add: bucket_ok_def)
  moreover have "unat (of_nat b :: u32) = b" using u(1) by (intro unat_of_nat_u32) simp
  ultimately show k: "kfree x s = set_mem b x (store32 x (b_mem (buckets s b)) s)" using x u(1) by (simp add: kfree_def PAGESHIFT_def Let_def)
  have fr: "heap_frame s (kfree x s) b (frame_of s (PTABIDX x))" unfolding k by (rule heap_frame_step)
  have "heap_inv (kfree x s) xs A B (P(b := P b \<union> {})) (fl(b := x # fl b)) (U - {(b, x)}) L"
  proof (rule heap_inv_step [OF heap_inv_forget [OF assms(1), of "U - {(b, x)}" L]])
    show "kmem_inv (kfree x s) xs A B" by (rule heap_frame_inv(2) [OF fr inv(1)])
    have "frame_of s q \<noteq> frame_of s (PTABIDX x)" if "q \<in> A - P b" for q
      using inj_onD [OF mem_invD(2) [OF kmem_invD(1) [OF inv(1)]], of q "PTABIDX x"] that page by auto
    then show "same_pages s (kfree x s) (A - P b)" using fr by (simp add: same_pages_def heap_frame_def)
    show "bucket_ok (kfree x s) b (P b \<union> {}) ((fl(b := x # fl b)) b)"
      using bucket_push [OF kmem_invD(1) [OF inv(1)] _ _ inv(2) [OF u(1)] u(2) x u(3)] inv(3) [of b] u(1) unfolding k by auto
  qed (use fr in \<open>auto simp: heap_frame_def\<close>)
  then show "heap_inv (kfree x s) xs A B P (fl(b := x # fl b)) (U - {(b, x)}) L" by simp
qed

lemma large_count:
  assumes "kmem_inv s xs A B" and "{p..<p + n} \<subseteq> A" and "0 < n"
  shows "0x92000 \<le> p" and "p + n \<le> 2 ^ 20"
proof -
  have "p \<in> A" "p + n - 1 \<in> A" using assms(2,3) by auto
  then show "0x92000 \<le> p" "p + n \<le> 2 ^ 20" using held_page [OF assms(1)] by fastforce+
qed

text \<open>Pages that no bucket and no block in \<open>L'\<close> uses are given back.\<close>

lemma free_outside:
  assumes "heap_inv s xs A B P fl U L" and "R = {p..<p + n}" and "0 < n" "R \<subseteq> A" and "\<And>b. R \<inter> P b = {}" and "L' \<subseteq> L" and "\<And>q m. (q, m) \<in> L' \<Longrightarrow> R \<inter> {q..<q + m} = {}"
    and "s' = free_pages (PTOB (of_nat p)) (int n) s"
  shows "\<exists>xs'. heap_inv s' xs' (A - R) B P fl U L'" and "same_pages s s' (A - R)"
proof -
  note inv = heap_invD [OF assms(1)]
  obtain ys where k: "kmem_inv s' (ys @ xs) (A - R) B" and pt: "\<And>q. q \<in> A \<union> B - R \<Longrightarrow> ptab s' q = ptab s q"
    and ph: "phys s' = phys s" and mo: "kmem_state.more s' = kmem_state.more s" and pf: "\<And>j. j \<notin> frame_of s ` R \<Longrightarrow> pfdb s' j = pfdb s j"
    by (rule free_pages_spec [OF inv(1) assms(4) [unfolded assms(2)] assms(3), folded assms(8,2)]) (rule that)
  have "frame_of s q \<notin> frame_of s ` R" if "q \<in> A - R" for q
    using inj_onD [OF mem_invD(2) [OF kmem_invD(1) [OF inv(1)]], of q] that assms(4) by blast
  then show same: "same_pages s s' (A - R)" unfolding same_pages_def using pt pf ph by auto
  have P: "P b \<subseteq> A - R" for b using inv(3) [of b] assms(5) [of b] by blast
  have "heap_inv s' (ys @ xs) (A - R) B P fl U L'"
  proof (rule heap_invI [OF k])
    show "bucket_ok s' b (P b) (fl b)" if "b \<in> {4..11}" for b
      using same_pages_bucket [OF same P _ inv(2) [OF that]] heap_more [OF mo] by simp
    show "large_ok s' (A - R) P q m" if "(q, m) \<in> L'" for q m
    proof (rule same_pages_large [OF same])
      have q: "large_ok s A P q m" using inv(6) that assms(6) by blast
      then show "{q..<q + m} \<subseteq> A - R" "{q..<q + m} \<subseteq> A - R" using assms(7) [OF that] by (auto simp: large_ok_def)
      show "large_ok s A P q m" "\<And>b. {q..<q + m} \<inter> P b = {}" using q by (simp_all add: large_ok_def)
    qed
    show "{q..<q + m} \<inter> {r..<r + k} = {}" if "(q, m) \<in> L'" "(r, k) \<in> L'" "(q, m) \<noteq> (r, k)" for q m r k
      using that assms(6) by (intro inv(7)) blast+
  qed (rule P inv(4) inv(5), assumption?)+
  then show "\<exists>xs'. heap_inv s' xs' (A - R) B P fl U L'" by blast
qed

lemma kfree_large:
  assumes "heap_inv s xs A B P fl U L" and "(p, n) \<in> L"
  shows "\<exists>xs'. heap_inv (kfree (PTOB (of_nat p)) s) xs' (A - {p..<p + n}) B P fl U (L - {(p, n)})" and "same_pages s (kfree (PTOB (of_nat p)) s) (A - {p..<p + n})"
proof -
  let ?v = "PTOB (of_nat p)"
  note inv = heap_invD [OF assms(1)]
  have l: "0 < n" "{p..<p + n} \<subseteq> A" "\<And>b. {p..<p + n} \<inter> P b = {}" "pf_word (pfdb s (frame_of s p)) = of_nat (n + 12)" using inv(6) [OF assms(2)] by (simp_all add: large_ok_def)
  have p: "0x92000 \<le> p" "p + n \<le> 2 ^ 20" using large_count [OF inv(1) l(2,1)] by simp_all
  then have p': "p < 2 ^ 20" using l(1) by simp
  have "unat ?v \<noteq> 0" using unat_PTOB [OF p'] p(1) by simp
  then have v: "?v \<noteq> 0" by auto
  have "n + 12 < 2 ^ 32" "n < 2 ^ 32" using p by simp_all
  then have "unat (of_nat (n + 12) :: u32) = n + 12" "unat (of_nat n :: u32) = n" by (blast intro: unat_of_nat_u32)+
  moreover have "sint (of_nat n :: u32) = int n" using sint_small [of "of_nat n"] calculation(2) p by simp
  ultimately have s': "kfree ?v s = free_pages ?v (int n) s" using v l(4) page_info_page [OF p', of s] by (simp add: kfree_def PAGESHIFT_def Let_def)
  have o: "{p..<p + n} \<inter> {q..<q + m} = {}" if "(q, m) \<in> L - {(p, n)}" for q m using inv(7) [OF assms(2), of q m] that by blast
  show "\<exists>xs'. heap_inv (kfree ?v s) xs' (A - {p..<p + n}) B P fl U (L - {(p, n)})" "same_pages s (kfree ?v s) (A - {p..<p + n})"
    by (rule free_outside [OF assms(1) refl l(1-3) Diff_subset o s'], assumption)+
qed

text \<open>A word written outside the free chunks.\<close>

lemma same_pages_load: "same_pages s s' H \<Longrightarrow> PTABIDX y \<in> H \<Longrightarrow> load32 s' y = load32 s y"
  by (simp add: same_pages_def load32_def frame_of_def)

lemma heap_inv_store:
  assumes "heap_inv s xs A B P fl U L" and "PTABIDX y \<in> A" and "unat y mod 4 = 0" and "\<And>b. b \<in> {4..11} \<Longrightarrow> y \<notin> set (fl b)"
  shows "heap_inv (store32 y w s) xs A B P fl U L"
proof -
  let ?s = "store32 y w s"
  note inv = heap_invD [OF assms(1)]
  have eq: "pfdb ?s = pfdb s" "ptab ?s = ptab s" "frame_of ?s = frame_of s" "buckets ?s = buckets s" "heap_frame s ?s 0 (frame_of s (PTABIDX y))"
    by (simp_all add: store32_def Let_def frame_of_def fun_eq_iff heap_frame_def)
  show ?thesis
  proof (rule heap_invI [OF heap_frame_inv(2) [OF eq(5) inv(1)]])
    show "bucket_ok ?s b (P b) (fl b)" if b: "b \<in> {4..11}" for b
    proof -
      note ok = inv(2) [OF b, unfolded bucket_ok_def]
      have "chain ?s k (fl b) = chain s k (fl b)" for k
      proof (rule chain_cong)
        fix x assume x: "x \<in> set (fl b)"
        then have c: "chunk b (P b) x" using ok by blast
        have "PTABIDX x \<in> A \<union> B" "unat x mod 4 = 0" using c inv(3) [of b] chunk_word [OF c] b by (auto simp: chunk_def)
        moreover have "y \<noteq> x" using assms(4) [OF b] x by blast
        ultimately show "load32 ?s x = load32 s x" using load_store [OF kmem_invD(1) [OF inv(1)], of y x w] assms(2,3) by simp
      qed
      then show ?thesis using ok by (simp add: bucket_ok_def eq)
    qed
    show "large_ok ?s A P p n" if "(p, n) \<in> L" for p n using inv(6) [OF that] by (simp add: large_ok_def eq)
  qed (rule inv(3) inv(4) inv(5) inv(7), assumption?)+
qed

section \<open>The heap as its clients see it\<close>

text \<open>
  A client knows the blocks it holds by their addresses and the sizes it asked for. \<open>bl\<close> are these blocks and \<open>K\<close> the kernel pages that other parts of the
  kernel hold.
\<close>

definition pages_of :: "nat \<Rightarrow> nat" where "pages_of n = (n + 4095) div 4096"

definition small_of :: "(u32 \<rightharpoonup> nat) \<Rightarrow> (nat \<times> u32) set" where
  "small_of bl = (\<lambda>(v, n). (BUCKET n, v)) ` {(v, n). bl v = Some n \<and> n \<le> 2048}"

definition large_of :: "(u32 \<rightharpoonup> nat) \<Rightarrow> (nat \<times> nat) set" where
  "large_of bl = (\<lambda>(v, n). (PTABIDX v, pages_of n)) ` {(v, n). bl v = Some n \<and> 2048 < n}"

definition heap_blocks :: "'a kheap_state_scheme \<Rightarrow> nat list \<Rightarrow> nat set \<Rightarrow> nat set \<Rightarrow> (nat \<Rightarrow> nat set) \<Rightarrow> (nat \<Rightarrow> u32 list) \<Rightarrow> (u32 \<rightharpoonup> nat) \<Rightarrow> nat set \<Rightarrow> bool" where
  "heap_blocks s xs A B P fl bl K \<longleftrightarrow> heap_inv s xs A B P fl (small_of bl) (large_of bl) \<and>
     (\<forall>v n. bl v = Some n \<longrightarrow> 1 \<le> n \<and> n < 2 ^ 31 \<and> (2048 < n \<longrightarrow> unat v mod 4096 = 0)) \<and>
     K \<subseteq> A \<and> (\<forall>b. K \<inter> P b = {}) \<and> (\<forall>(p, n) \<in> large_of bl. K \<inter> {p..<p + n} = {})"

lemma heap_blocksD:
  assumes "heap_blocks s xs A B P fl bl K"
  shows "heap_inv s xs A B P fl (small_of bl) (large_of bl)" and "bl v = Some n \<Longrightarrow> 1 \<le> n" and "bl v = Some n \<Longrightarrow> n < 2 ^ 31"
    and "bl v = Some n \<Longrightarrow> 2048 < n \<Longrightarrow> unat v mod 4096 = 0" and "K \<subseteq> A" and "K \<inter> P b = {}" and "(p, m) \<in> large_of bl \<Longrightarrow> K \<inter> {p..<p + m} = {}"
  using assms unfolding heap_blocks_def by blast+

lemma heap_blocksI:
  assumes "heap_inv s xs A B P fl (small_of bl) (large_of bl)" and "\<And>v n. bl v = Some n \<Longrightarrow> 1 \<le> n \<and> n < 2 ^ 31 \<and> (2048 < n \<longrightarrow> unat v mod 4096 = 0)"
    and "K \<subseteq> A" and "\<And>b. K \<inter> P b = {}" and "\<And>p m. (p, m) \<in> large_of bl \<Longrightarrow> K \<inter> {p..<p + m} = {}"
  shows "heap_blocks s xs A B P fl bl K"
  unfolding heap_blocks_def using assms by blast

lemma chunk_bytes:
  assumes "v mod 2 ^ b = 0" "b \<le> 12" "v \<le> k" "k < v + 2 ^ b"
  shows "k div 2 ^ b = v div 2 ^ b" and "k div 4096 = v div (4096 :: nat)"
proof -
  obtain q where q: "v = 2 ^ b * q" using assms(1) by (auto simp: mod_eq_0_iff_dvd)
  obtain r where r: "k = v + r" "r < 2 ^ b" using assms(3,4) by (metis le_Suc_ex nat_add_left_cancel_less)
  show d: "k div 2 ^ b = v div 2 ^ b" using r by (simp add: q)
  have "(4096 :: nat) = 2 ^ b * 2 ^ (12 - b)" using assms(2) by (simp add: power_add [symmetric])
  then show "k div 4096 = v div (4096 :: nat)" using d by (simp only: div_mult2_eq)
qed

lemma pages_cover: "n \<le> 4096 * pages_of n" "0 < n \<Longrightarrow> 0 < pages_of n"
proof -
  have "(n + 4095) mod 4096 < 4096" by simp
  moreover have "n + 4095 = 4096 * pages_of n + (n + 4095) mod 4096" unfolding pages_of_def by presburger
  ultimately show "n \<le> 4096 * pages_of n" by linarith
  then show "0 < n \<Longrightarrow> 0 < pages_of n" by (cases "pages_of n") simp_all
qed

text \<open>The pages of the bytes of a block.\<close>

lemma block_small:
  assumes "heap_blocks s xs A B P fl bl K" and "bl v = Some n" "n \<le> 2048" and "unat v \<le> k" "k < unat v + n"
  shows "k div 2 ^ BUCKET n = unat v div 2 ^ BUCKET n" and "k div 4096 \<in> P (BUCKET n)" and "unat v mod 2 ^ BUCKET n = 0" and "BUCKET n \<in> {4..11}" and "v \<notin> set (fl (BUCKET n))"
proof -
  have "(BUCKET n, v) \<in> small_of bl" using assms(2,3) by (auto simp: small_of_def)
  then have u: "BUCKET n \<in> {4..11}" "PTABIDX v \<in> P (BUCKET n)" "unat v mod 2 ^ BUCKET n = 0" "v \<notin> set (fl (BUCKET n))"
    using heap_invD(5) [OF heap_blocksD(1) [OF assms(1)]] by (auto simp: chunk_def)
  have "n \<le> 2 ^ BUCKET n" by (rule BUCKET_spec(2) [OF heap_blocksD(2) [OF assms(1,2)] assms(3)])
  then have "k < unat v + 2 ^ BUCKET n" using assms(5) by linarith
  note c = chunk_bytes [OF u(3) _ assms(4) this]
  show "k div 2 ^ BUCKET n = unat v div 2 ^ BUCKET n" "k div 4096 \<in> P (BUCKET n)" using c u(1,2) by (simp_all add: page_number)
  show "unat v mod 2 ^ BUCKET n = 0" "BUCKET n \<in> {4..11}" "v \<notin> set (fl (BUCKET n))" using u by simp_all
qed

lemma block_large:
  assumes "heap_blocks s xs A B P fl bl K" and "bl v = Some n" "2048 < n" and "unat v \<le> k" "k < unat v + n"
  shows "k div 4096 \<in> {PTABIDX v..<PTABIDX v + pages_of n}" and "(PTABIDX v, pages_of n) \<in> large_of bl" and "k div 4096 \<in> A" and "k div 4096 \<notin> P b"
proof -
  have "unat v mod 4096 = 0" by (rule heap_blocksD(4) [OF assms(1-3)])
  then have v: "unat v = 4096 * PTABIDX v" unfolding page_number by (metis add.right_neutral mult_div_mod_eq)
  have "k < 4096 * (PTABIDX v + pages_of n)" using assms(5) pages_cover(1) [of n] v by simp
  then have "k div 4096 < PTABIDX v + pages_of n" by (simp add: div_less_iff_less_mult mult.commute)
  moreover have "PTABIDX v \<le> k div 4096" unfolding page_number using assms(4) by (rule div_le_mono)
  ultimately show r: "k div 4096 \<in> {PTABIDX v..<PTABIDX v + pages_of n}" by simp
  show l: "(PTABIDX v, pages_of n) \<in> large_of bl" using assms(2,3) by (auto simp: large_of_def)
  show "k div 4096 \<in> A" "k div 4096 \<notin> P b" using heap_invD(6) [OF heap_blocksD(1) [OF assms(1)] l] r unfolding large_ok_def by blast+
qed

lemma block_held:
  assumes "heap_blocks s xs A B P fl bl K" and "bl v = Some n" and "unat v \<le> k" "k < unat v + n"
  shows "k div 4096 \<in> A - K"
proof (cases "n \<le> 2048")
  case True
  show ?thesis using block_small(2) [OF assms(1,2) True assms(3,4)] heap_invD(3) [OF heap_blocksD(1) [OF assms(1)]] heap_blocksD(6) [OF assms(1)] by blast
next
  case False
  then have n: "2048 < n" by simp
  show ?thesis using block_large [OF assms(1,2) n assms(3,4)] heap_blocksD(7) [OF assms(1)] by blast
qed

lemma blocks_apart:
  assumes "heap_blocks s xs A B P fl bl K" and "bl v = Some n" "bl w = Some m" and "v \<noteq> w" and "unat v \<le> k" "k < unat v + n" and "unat w \<le> k" "k < unat w + m"
  shows False
proof -
  note inv = heap_invD [OF heap_blocksD(1) [OF assms(1)]]
  consider "n \<le> 2048" "m \<le> 2048" | "n \<le> 2048" "2048 < m" | "2048 < n" "m \<le> 2048" | "2048 < n" "2048 < m" by linarith
  then show False
  proof cases
    case 1
    note v = block_small [OF assms(1,2) 1(1) assms(5,6)] and w = block_small [OF assms(1,3) 1(2) assms(7,8)]
    then have "BUCKET n = BUCKET m" using inv(4) [of "BUCKET n" "BUCKET m"] by blast
    then have "unat v = unat w" using v(1,3) w(1,3) by (metis add.right_neutral mult_div_mod_eq)
    then show False using assms(4) by (simp add: u32_eq_iff)
  next
    case 2
    show False using block_small(2) [OF assms(1,2) 2(1) assms(5,6)] block_large(4) [OF assms(1,3) 2(2) assms(7,8)] by blast
  next
    case 3
    show False using block_small(2) [OF assms(1,3) 3(2) assms(7,8)] block_large(4) [OF assms(1,2) 3(1) assms(5,6)] by blast
  next
    case 4
    note v = block_large [OF assms(1,2) 4(1) assms(5,6)] and w = block_large [OF assms(1,3) 4(2) assms(7,8)]
    have "PTABIDX v = PTABIDX w" using inv(7) [OF v(2) w(2)] v(1) w(1) by blast
    then have "unat v = unat w" using heap_blocksD(4) [OF assms(1,2) 4(1)] heap_blocksD(4) [OF assms(1,3) 4(2)] unfolding page_number by (metis add.right_neutral mult_div_mod_eq)
    then show False using assms(4) by (simp add: u32_eq_iff)
  qed
qed

lemma graph_upd: "bl v = None \<Longrightarrow> {(w, m). (bl(v \<mapsto> n)) w = Some m \<and> Q m} = (if Q n then insert (v, n) {(w, m). bl w = Some m \<and> Q m} else {(w, m). bl w = Some m \<and> Q m})"
  by (auto split: if_splits)

lemma graph_del: "bl v = Some n \<Longrightarrow> {(w, m). (bl(v := None)) w = Some m \<and> Q m} = {(w, m). bl w = Some m \<and> Q m} - {(v, n)}"
  by (auto split: if_splits)

lemma small_of_upd: "n \<le> 2048 \<Longrightarrow> bl v = None \<Longrightarrow> small_of (bl(v \<mapsto> n)) = insert (BUCKET n, v) (small_of bl) \<and> large_of (bl(v \<mapsto> n)) = large_of bl"
  unfolding small_of_def large_of_def by (simp add: graph_upd del: fun_upd_apply)

lemma large_of_upd: "2048 < n \<Longrightarrow> bl v = None \<Longrightarrow> small_of (bl(v \<mapsto> n)) = small_of bl \<and> large_of (bl(v \<mapsto> n)) = insert (PTABIDX v, pages_of n) (large_of bl)"
  unfolding small_of_def large_of_def by (simp add: graph_upd del: fun_upd_apply)

lemma small_of_del: "n \<le> 2048 \<Longrightarrow> bl v = Some n \<Longrightarrow> small_of (bl(v := None)) = small_of bl - {(BUCKET n, v)} \<and> large_of (bl(v := None)) = large_of bl"
  unfolding small_of_def large_of_def by (auto simp add: graph_del simp del: fun_upd_apply)

lemma image_without: "(\<And>e. e \<in> G \<Longrightarrow> f e = f x \<Longrightarrow> e = x) \<Longrightarrow> f ` (G - {x}) = f ` G - {f x}"
  by auto

lemma large_of_del:
  assumes "2048 < n" and "bl v = Some n" and "\<And>v n. bl v = Some n \<Longrightarrow> 2048 < n \<Longrightarrow> unat v mod 4096 = 0"
  shows "small_of (bl(v := None)) = small_of bl \<and> large_of (bl(v := None)) = large_of bl - {(PTABIDX v, pages_of n)}"
proof -
  have "w = v \<and> m = n" if "bl w = Some m" "2048 < m" "PTABIDX w = PTABIDX v" for w m
  proof -
    have "unat w = unat v" using assms(3) [OF that(1,2)] assms(3) [OF assms(2,1)] that(3) unfolding page_number by (metis add.right_neutral mult_div_mod_eq)
    then have "w = v" by (simp add: u32_eq_iff)
    then show ?thesis using that(1) assms(2) by simp
  qed
  then have "large_of (bl(v := None)) = large_of bl - {(PTABIDX v, pages_of n)}"
    unfolding large_of_def graph_del [of bl v n, OF assms(2)] by (subst image_without) (auto simp del: fun_upd_apply)
  moreover have "small_of (bl(v := None)) = small_of bl" unfolding small_of_def graph_del [of bl v n, OF assms(2)] using assms(1) by (intro arg_cong [of _ _ "image _"]) auto
  ultimately show ?thesis by simp
qed

lemma small_of_D: "bl v = Some n \<Longrightarrow> n \<le> 2048 \<Longrightarrow> (BUCKET n, v) \<in> small_of bl" "bl v = Some n \<Longrightarrow> 2048 < n \<Longrightarrow> (PTABIDX v, pages_of n) \<in> large_of bl"
  by (auto simp: small_of_def large_of_def)

text \<open>When \<^verbatim>\<open>kmalloc\<close> takes pages from the kernel memory.\<close>

definition needs_pages :: "'a kheap_state_scheme \<Rightarrow> nat \<Rightarrow> bool" where
  "needs_pages s n \<longleftrightarrow> 2048 < n \<or> b_mem (buckets s (BUCKET n)) = 0"

lemma needs_pages_empty:
  assumes "heap_inv s xs A B P fl U L" and "1 \<le> n" "n \<le> 2048" and "fl (BUCKET n) = []"
  shows "needs_pages s n" and "pages_of n = 1"
proof -
  show "needs_pages s n" using heap_invD(2) [OF assms(1) BUCKET_spec(1) [OF assms(2,3)]] assms(4) by (simp add: bucket_ok_def needs_pages_def)
  have "(n + 4095) div 4096 = 1" using assms(2,3) by (intro div_nat_eqI) simp_all
  then show "pages_of n = 1" by (simp add: pages_of_def)
qed

lemma blocks_alloc_small:
  assumes "heap_blocks s xs A B P fl bl K" and "1 \<le> n" "n \<le> 2048" and "needs_pages s n \<Longrightarrow> heap_room s (pages_of n)" and "kmalloc_tag (int n) tag s = Some (v, s')"
  shows "\<exists>xs' A' P' fl'. heap_blocks s' xs' A' B P' fl' (bl(v \<mapsto> n)) K" and "bl v = None" and "same_pages s s' A"
proof -
  note old = heap_blocksD [OF assms(1)]
  have "fl (BUCKET n) = [] \<Longrightarrow> heap_room s 1" using needs_pages_empty [OF old(1) assms(2,3)] assms(4) by simp
  from kmalloc_small(1) [OF old(1) assms(2,3) this assms(5)] obtain xs' A' P' fl' where
    h: "heap_inv s' xs' A' B P' fl' (insert (BUCKET n, v) (small_of bl)) (large_of bl)" "(BUCKET n, v) \<notin> small_of bl" "A \<subseteq> A'" "\<And>c. P' c \<inter> A \<subseteq> P c" and same: "same_pages s s' A" by blast
  note inv = heap_invD [OF h(1)]
  show "same_pages s s' A" by (rule same)
  have page: "PTABIDX v \<in> P' (BUCKET n)" using inv(5) [of "BUCKET n" v] by (simp add: chunk_def)
  show none: "bl v = None"
  proof (rule ccontr)
    assume "bl v \<noteq> None"
    then obtain m where m: "bl v = Some m" by blast
    show False
    proof (cases "m \<le> 2048")
      case True
      then have "PTABIDX v \<in> P' (BUCKET m)" using inv(5) [of "BUCKET m" v] small_of_D(1) [of bl v m, OF m] by (simp add: chunk_def)
      then have "BUCKET m = BUCKET n" using inv(4) [of "BUCKET m" "BUCKET n"] page by blast
      then show False using h(2) small_of_D(1) [of bl v m, OF m True] by simp
    next
      case False
      then have "large_ok s' A' P' (PTABIDX v) (pages_of m)" using inv(6) small_of_D(2) [of bl v m, OF m] by simp
      then have "PTABIDX v \<in> {PTABIDX v..<PTABIDX v + pages_of m}" "{PTABIDX v..<PTABIDX v + pages_of m} \<inter> P' (BUCKET n) = {}" by (simp_all add: large_ok_def)
      then show False using page by blast
    qed
  qed
  have "heap_blocks s' xs' A' B P' fl' (bl(v \<mapsto> n)) K"
  proof (rule heap_blocksI)
    show "heap_inv s' xs' A' B P' fl' (small_of (bl(v \<mapsto> n))) (large_of (bl(v \<mapsto> n)))" using h(1) small_of_upd [OF assms(3), of bl v] none by simp
    show "1 \<le> m \<and> m < 2 ^ 31 \<and> (2048 < m \<longrightarrow> unat w mod 4096 = 0)" if "(bl(v \<mapsto> n)) w = Some m" for w m
      using that assms(2,3) old(2-4) [of w m] by (auto split: if_splits)
    show "K \<inter> P' b = {}" for b using old(5) old(6) [of b] h(4) [of b] by blast
    show "K \<inter> {p..<p + m} = {}" if "(p, m) \<in> large_of (bl(v \<mapsto> n))" for p m using that small_of_upd [OF assms(3), of bl v] none by (intro old(7)) simp
  qed (use old(5) h(3) in blast)
  then show "\<exists>xs' A' P' fl'. heap_blocks s' xs' A' B P' fl' (bl(v \<mapsto> n)) K" by blast
qed

lemma blocks_alloc_large:
  assumes "heap_blocks s xs A B P fl bl K" and "2048 < n" "n < 2 ^ 31" and "tag \<noteq> TAG_FREE" and "heap_room s (pages_of n)" and "kmalloc_tag (int n) tag s = Some (v, s')"
  shows "\<exists>xs' A' P' fl'. heap_blocks s' xs' A' B P' fl' (bl(v \<mapsto> n)) K" and "bl v = None" and "same_pages s s' A"
proof -
  note old = heap_blocksD [OF assms(1)]
  from kmalloc_large(1) [OF old(1) assms(2-4) pages_of_def assms(5,6)] obtain xs' A' p where
    h: "heap_inv s' xs' A' B P fl (small_of bl) (insert (p, pages_of n) (large_of bl))" "v = PTOB (of_nat p)" "{p..<p + pages_of n} \<inter> A = {}" "A \<subseteq> A'" and same: "same_pages s s' A" by blast
  note inv = heap_invD [OF h(1)]
  show "same_pages s s' A" by (rule same)
  have p: "0 < pages_of n" "{p..<p + pages_of n} \<subseteq> A'" using inv(6) [of p "pages_of n"] by (simp_all add: large_ok_def)
  then have "p < 2 ^ 20" using large_count [OF inv(1) p(2,1)] by simp
  then have v: "PTABIDX v = p" "unat v mod 4096 = 0" using page_of_PTOB unat_PTOB unfolding h(2) by simp_all
  have "p \<in> {p..<p + pages_of n}" using p(1) by simp
  then have "p \<notin> A" using h(3) by blast
  show none: "bl v = None"
  proof (rule ccontr)
    assume "bl v \<noteq> None"
    then obtain m where m: "bl v = Some m" by blast
    have "unat v < unat v + m" using old(2) [OF m] by simp
    from block_held [OF assms(1) m order_refl this] show False using \<open>p \<notin> A\<close> v(1) by (simp add: page_number)
  qed
  note upd = large_of_upd [OF assms(2), of bl v, OF none, unfolded v(1)]
  have "heap_blocks s' xs' A' B P fl (bl(v \<mapsto> n)) K"
  proof (rule heap_blocksI)
    show "heap_inv s' xs' A' B P fl (small_of (bl(v \<mapsto> n))) (large_of (bl(v \<mapsto> n)))" using h(1) upd by simp
    show "1 \<le> m \<and> m < 2 ^ 31 \<and> (2048 < m \<longrightarrow> unat w mod 4096 = 0)" if "(bl(v \<mapsto> n)) w = Some m" for w m
      using that assms(2,3) old(2-4) [of w m] v(2) by (auto split: if_splits)
    show "K \<inter> {q..<q + m} = {}" if "(q, m) \<in> large_of (bl(v \<mapsto> n))" for q m
    proof (cases "(q, m) = (p, pages_of n)")
      case True
      then show ?thesis using h(3) old(5) by blast
    qed (use that upd in \<open>intro old(7), auto\<close>)
  qed (use old(5,6) h(4) in blast)+
  then show "\<exists>xs' A' P' fl'. heap_blocks s' xs' A' B P' fl' (bl(v \<mapsto> n)) K" by blast
qed

lemma word_held:
  assumes "heap_blocks s xs A B P fl bl K" and "bl w = Some m" "word_in w m y"
  shows "PTABIDX y \<in> A - K" and "unat y mod 4 = 0" and "unat w \<le> unat y" and "unat y < unat w + m"
  using block_held [OF assms(1,2), of "unat y"] assms(3) by (auto simp: word_in_def page_number)

lemma large_address:
  assumes "heap_blocks s xs A B P fl bl K" and "bl v = Some n" "2048 < n"
  shows "PTOB (of_nat (PTABIDX v)) = v"
proof -
  have "unat v mod 4096 = 0" by (rule heap_blocksD(4) [OF assms])
  then have "unat v = 4096 * PTABIDX v" unfolding page_number by (metis add.right_neutral mult_div_mod_eq)
  moreover have "PTABIDX v < 2 ^ 20" using unat_u32_lt [of v] by (simp add: page_number div_less_iff_less_mult)
  ultimately show ?thesis using unat_PTOB [of "PTABIDX v"] by (simp add: u32_eq_iff)
qed

lemma sizes_del:
  assumes "heap_blocks s xs A B P fl bl K" and "(bl(v := None)) w = Some m"
  shows "1 \<le> m \<and> m < 2 ^ 31 \<and> (2048 < m \<longrightarrow> unat w mod 4096 = 0)"
  using assms(2) heap_blocksD(2-4) [OF assms(1), of w m] by (auto split: if_splits)

lemma blocks_free_small:
  assumes "heap_blocks s xs A B P fl bl K" and "bl v = Some n" "n \<le> 2048"
  shows "\<exists>xs' A' P' fl'. heap_blocks (kfree v s) xs' A' B P' fl' (bl(v := None)) K"
    and "bl w = Some m \<Longrightarrow> w \<noteq> v \<Longrightarrow> word_in w m y \<Longrightarrow> load32 (kfree v s) y = load32 s y"
proof -
  note old = heap_blocksD [OF assms(1)] and del = small_of_del [of n bl v, OF assms(3,2)]
  have u: "(BUCKET n, v) \<in> small_of bl" by (rule small_of_D(1) [of bl v n, OF assms(2,3)])
  have "heap_inv (kfree v s) xs A B P (fl(BUCKET n := v # fl (BUCKET n))) (small_of (bl(v := None))) (large_of (bl(v := None)))"
    using kfree_small(2) [OF old(1) u] del by simp
  moreover have "K \<inter> {p..<p + k} = {}" if "(p, k) \<in> large_of (bl(v := None))" for p k using that del by (intro old(7)) simp
  ultimately have "heap_blocks (kfree v s) xs A B P (fl(BUCKET n := v # fl (BUCKET n))) (bl(v := None)) K"
    by (intro heap_blocksI sizes_del [OF assms(1)] old(5,6))
  then show "\<exists>xs' A' P' fl'. heap_blocks (kfree v s) xs' A' B P' fl' (bl(v := None)) K" by blast
  assume w: "bl w = Some m" "w \<noteq> v" "word_in w m y"
  note y = word_held [OF assms(1) w(1,3)]
  have "y \<noteq> v" using blocks_apart [OF assms(1) w(1) assms(2) w(2), of "unat v"] y(3,4) old(2) [OF assms(2)] by auto
  have "chunk (BUCKET n) (P (BUCKET n)) v" "BUCKET n \<in> {4..11}" using heap_invD(5) [OF old(1) u] by simp_all
  then have "unat v mod 4 = 0" "PTABIDX v \<in> A" using chunk_word heap_invD(3) [OF old(1), of "BUCKET n"] by (auto simp: chunk_def)
  then have "load32 (store32 v (b_mem (buckets s (BUCKET n))) s) y = load32 s y"
    using load_store [OF kmem_invD(1) [OF heap_invD(1) [OF old(1)]], of v y] y(1,2) \<open>y \<noteq> v\<close> by simp
  then show "load32 (kfree v s) y = load32 s y" unfolding kfree_small(1) [OF old(1) u] by (simp add: load32_def set_mem_def frame_of_def)
qed

lemma blocks_free_large:
  assumes "heap_blocks s xs A B P fl bl K" and "bl v = Some n" "2048 < n"
  shows "\<exists>xs' A' P' fl'. heap_blocks (kfree v s) xs' A' B P' fl' (bl(v := None)) K"
    and "bl w = Some m \<Longrightarrow> w \<noteq> v \<Longrightarrow> word_in w m y \<Longrightarrow> load32 (kfree v s) y = load32 s y"
proof -
  let ?R = "{PTABIDX v..<PTABIDX v + pages_of n}"
  note old = heap_blocksD [OF assms(1)]
  have del: "small_of (bl(v := None)) = small_of bl \<and> large_of (bl(v := None)) = large_of bl - {(PTABIDX v, pages_of n)}"
    by (rule large_of_del [of n bl v, OF assms(3,2)]) (rule old(4))
  have u: "(PTABIDX v, pages_of n) \<in> large_of bl" by (rule small_of_D(2) [of bl v n, OF assms(2,3)])
  note k = kfree_large [OF old(1) u, unfolded large_address [OF assms]]
  from k(1) obtain xs' where h: "heap_inv (kfree v s) xs' (A - ?R) B P fl (small_of (bl(v := None))) (large_of (bl(v := None)))" using del by auto
  have "K \<subseteq> A - ?R" using old(5) old(7) [OF u] by blast
  moreover have "K \<inter> {p..<p + k} = {}" if "(p, k) \<in> large_of (bl(v := None))" for p k using that del by (intro old(7)) blast
  ultimately have "heap_blocks (kfree v s) xs' (A - ?R) B P fl (bl(v := None)) K" using h by (intro heap_blocksI sizes_del [OF assms(1)] old(6))
  then show "\<exists>xs' A' P' fl'. heap_blocks (kfree v s) xs' A' B P' fl' (bl(v := None)) K" by blast
  assume w: "bl w = Some m" "w \<noteq> v" "word_in w m y"
  note y = word_held [OF assms(1) w(1,3)]
  have "PTABIDX y \<notin> ?R"
  proof (cases "m \<le> 2048")
    case True
    show ?thesis using block_small(2) [OF assms(1) w(1) True y(3,4)] heap_invD(6) [OF old(1) u] unfolding large_ok_def page_number by blast
  next
    case False
    then have m: "2048 < m" by simp
    note c = block_large [OF assms(1) w(1) m y(3,4)]
    have "PTABIDX w \<noteq> PTABIDX v" using large_address [OF assms] large_address [OF assms(1) w(1) m] w(2) by metis
    then show ?thesis using heap_invD(7) [OF old(1) c(2) u] c(1) unfolding page_number by blast
  qed
  then show "load32 (kfree v s) y = load32 s y" using same_pages_load [OF k(2)] y(1) by blast
qed

lemma blocks_store:
  assumes "heap_blocks s xs A B P fl bl K" and "bl v = Some n" "word_in v n y"
  shows "heap_blocks (store32 y w s) xs A B P fl bl K"
proof -
  note old = heap_blocksD [OF assms(1)] and y = word_held [OF assms]
  have "y \<notin> set (fl c)" if c: "c \<in> {4..11}" for c
  proof
    assume "y \<in> set (fl c)"
    then have ch: "chunk c (P c) y" using heap_invD(2) [OF old(1) c] by (auto simp: bucket_ok_def)
    show False
    proof (cases "n \<le> 2048")
      case True
      note b = block_small [OF assms(1,2) True y(3,4)]
      have "PTABIDX y \<in> P (BUCKET n)" "PTABIDX y \<in> P c" using b(2) ch by (simp_all add: page_number chunk_def)
      then have "c = BUCKET n" using heap_invD(4) [OF old(1), of c "BUCKET n"] by blast
      then have "unat y = unat v" using ch b(1,3) unfolding chunk_def by (metis add.right_neutral mult_div_mod_eq)
      then have "y = v" by (simp add: u32_eq_iff)
      then show False using b(5) \<open>y \<in> set (fl c)\<close> \<open>c = BUCKET n\<close> by simp
    next
      case False
      then have "unat y div 4096 \<notin> P c" using block_large(4) [OF assms(1,2) _ y(3,4)] by simp
      then show False using ch by (simp add: chunk_def page_number)
    qed
  qed
  then have "heap_inv (store32 y w s) xs A B P fl (small_of bl) (large_of bl)" using y(1,2) by (intro heap_inv_store [OF old(1)]) auto
  then show ?thesis using assms(1) by (simp add: heap_blocks_def)
qed

text \<open>Pages that other parts of the kernel take from and give back to the kernel memory.\<close>

lemma blocks_pages:
  assumes "heap_blocks s xs A B P fl bl K" and "0 < n" "n < 2 ^ 31" and "tag \<noteq> TAG_FREE" and "heap_room s n" and "alloc_pages (int n) tag s = Some (v, s')"
  shows "\<exists>xs' A' P' fl'. heap_blocks s' xs' A' B P' fl' bl (K \<union> {PTABIDX v..<PTABIDX v + n})" and "same_pages s s' A"
proof -
  note old = heap_blocksD [OF assms(1)]
  obtain p where dis: "{p..<p + n} \<inter> A = {}"
    and spec: "\<And>v s1. alloc_pages (int n) tag s = Some (v, s1) \<Longrightarrow> v = PTOB (of_nat p) \<and> buckets s1 = buckets s \<and> same_pages s s1 A \<and> (\<exists>xs'. kmem_inv s1 xs' (A \<union> {p..<p + n}) B)"
    by (rule alloc_pages_same [OF heap_invD(1) [OF old(1)] assms(2-4) assms(5) [unfolded heap_room_def]]) (rule that)
  from spec [OF assms(6)] obtain xs' where r: "v = PTOB (of_nat p)" "buckets s' = buckets s" "same_pages s s' A" "kmem_inv s' xs' (A \<union> {p..<p + n}) B" by blast
  show "same_pages s s' A" by (rule r(3))
  have "p \<in> A \<union> {p..<p + n}" using assms(2) by simp
  then have v: "PTABIDX v = p" using held_page [OF r(4)] page_of_PTOB unfolding r(1) by blast
  have "heap_inv s' xs' (A \<union> {p..<p + n}) B (P(0 := P 0 \<union> {})) fl (small_of bl) (large_of bl)"
    by (rule heap_inv_step [OF old(1) r(4)]) (use r(2,3) in \<open>auto simp: same_pages_def\<close>)
  then have h: "heap_inv s' xs' (A \<union> {p..<p + n}) B P fl (small_of bl) (large_of bl)" by simp
  have "heap_blocks s' xs' (A \<union> {p..<p + n}) B P fl bl (K \<union> {p..<p + n})"
  proof (rule heap_blocksI [OF h])
    show "(K \<union> {p..<p + n}) \<inter> P b = {}" for b using heap_invD(3) [OF old(1), of b] old(6) [of b] dis by blast
    show "(K \<union> {p..<p + n}) \<inter> {q..<q + m} = {}" if "(q, m) \<in> large_of bl" for q m
      using heap_invD(6) [OF old(1) that] old(7) [OF that] dis unfolding large_ok_def by blast
  qed (use old(2-5) in blast)+
  then show "\<exists>xs' A' P' fl'. heap_blocks s' xs' A' B P' fl' bl (K \<union> {PTABIDX v..<PTABIDX v + n})" unfolding v by blast
qed

lemma blocks_pages_free:
  assumes "heap_blocks s xs A B P fl bl K" and "0 < n" and "{p..<p + n} \<subseteq> K" and "s' = free_pages (PTOB (of_nat p)) (int n) s"
  shows "\<exists>xs' A' P' fl'. heap_blocks s' xs' A' B P' fl' bl (K - {p..<p + n})" and "same_pages s s' (A - K)"
proof -
  note old = heap_blocksD [OF assms(1)]
  have R: "{p..<p + n} \<subseteq> A" "{p..<p + n} \<inter> P b = {}" for b using assms(3) old(5) old(6) [of b] by blast+
  have L: "{p..<p + n} \<inter> {q..<q + m} = {}" if "(q, m) \<in> large_of bl" for q m using assms(3) old(7) [OF that] by blast
  note f = free_outside [OF old(1) refl assms(2) R subset_refl L assms(4)]
  show "same_pages s s' (A - K)" using f(2) assms(3) by (auto simp: same_pages_def)
  obtain xs' where h: "heap_inv s' xs' (A - {p..<p + n}) B P fl (small_of bl) (large_of bl)" using f(1) by blast
  have "heap_blocks s' xs' (A - {p..<p + n}) B P fl bl (K - {p..<p + n})"
  proof (rule heap_blocksI [OF h])
    show "(K - {p..<p + n}) \<inter> {q..<q + m} = {}" if "(q, m) \<in> large_of bl" for q m using old(7) [OF that] by blast
  qed (use old(2-6) in blast)+
  then show "\<exists>xs' A' P' fl'. heap_blocks s' xs' A' B P' fl' bl (K - {p..<p + n})" by blast
qed

section \<open>The heap as a provider of blocks\<close>

text \<open>What the other users of the kernel memory do: they take pages and give back pages they hold.\<close>

definition page_step :: "'a kheap_state_scheme \<Rightarrow> nat set \<Rightarrow> 'a kheap_state_scheme \<Rightarrow> nat set \<Rightarrow> bool" where
  "page_step s K s' K' \<longleftrightarrow>
     (\<exists>n tag v. 0 < n \<and> n < 2 ^ 31 \<and> tag \<noteq> TAG_FREE \<and> heap_room s n \<and> alloc_pages (int n) tag s = Some (v, s') \<and> K' = K \<union> {PTABIDX v..<PTABIDX v + n}) \<or>
     (\<exists>n p. 0 < n \<and> {p..<p + n} \<subseteq> K \<and> s' = free_pages (PTOB (of_nat p)) (int n) s \<and> K' = K - {p..<p + n})"

definition heap_rep :: "'a kheap_state_scheme \<Rightarrow> (u32 \<rightharpoonup> nat) \<Rightarrow> nat set \<Rightarrow> bool" where
  "heap_rep s bl K \<longleftrightarrow> (\<exists>xs A B P fl. heap_blocks s xs A B P fl bl K)"

lemma heap_repI: "heap_blocks s xs A B P fl bl K \<Longrightarrow> heap_rep s bl K"
  unfolding heap_rep_def by blast

text \<open>A request the heap can serve: the map of the kernel heap has room for the pages that it needs.\<close>

definition heap_ready :: "u32 \<Rightarrow> nat \<Rightarrow> 'a kheap_state_scheme \<Rightarrow> bool" where
  "heap_ready tag n s \<longleftrightarrow> 1 \<le> n \<and> n < 2 ^ 31 \<and> tag \<noteq> TAG_FREE \<and> (needs_pages s n \<longrightarrow> heap_room s (pages_of n))"

lemma same_pages_mono: "same_pages s s' H \<Longrightarrow> G \<subseteq> H \<Longrightarrow> same_pages s s' G"
  by (auto simp: same_pages_def)

lemma heap_alloc:
  assumes "heap_blocks s xs A B P fl bl K" and "heap_ready tag n s" and "kmalloc_tag (int n) tag s = Some (v, s')"
  shows "heap_rep s' (bl(v \<mapsto> n)) K" and "bl v = None" and "same_pages s s' A"
proof -
  have r: "1 \<le> n" "n < 2 ^ 31" "tag \<noteq> TAG_FREE" "needs_pages s n \<Longrightarrow> heap_room s (pages_of n)" using assms(2) by (simp_all add: heap_ready_def)
  have "(\<exists>xs' A' P' fl'. heap_blocks s' xs' A' B P' fl' (bl(v \<mapsto> n)) K) \<and> bl v = None \<and> same_pages s s' A"
  proof (cases "n \<le> 2048")
    case True
    from blocks_alloc_small [OF assms(1) r(1) True r(4) assms(3)] show ?thesis by blast
  next
    case False
    then have "2048 < n" "needs_pages s n" by (simp_all add: needs_pages_def)
    then show ?thesis using blocks_alloc_large [OF assms(1) _ r(2,3) r(4) assms(3)] by blast
  qed
  then show "heap_rep s' (bl(v \<mapsto> n)) K" "bl v = None" "same_pages s s' A" by (blast intro: heap_repI)+
qed

lemma heap_release:
  assumes "heap_blocks s xs A B P fl bl K" and "bl v = Some n"
  shows "heap_rep (kfree v s) (bl(v := None)) K" and "bl w = Some m \<Longrightarrow> w \<noteq> v \<Longrightarrow> word_in w m y \<Longrightarrow> load32 (kfree v s) y = load32 s y"
proof -
  show "heap_rep (kfree v s) (bl(v := None)) K"
    using blocks_free_small(1) [OF assms] blocks_free_large(1) [OF assms] heap_repI not_le by blast
  show "bl w = Some m \<Longrightarrow> w \<noteq> v \<Longrightarrow> word_in w m y \<Longrightarrow> load32 (kfree v s) y = load32 s y"
    using blocks_free_small(2) [OF assms] blocks_free_large(2) [OF assms] by (cases "n \<le> 2048") auto
qed

lemma heap_other:
  assumes "heap_blocks s xs A B P fl bl K" and "page_step s K s' K'"
  shows "heap_rep s' bl K'" and "same_pages s s' (A - K)"
proof -
  have "(\<exists>xs' A' P' fl'. heap_blocks s' xs' A' B P' fl' bl K') \<and> same_pages s s' (A - K)"
    using assms(2) unfolding page_step_def
  proof (elim disjE exE conjE)
    fix n tag v assume a: "0 < n" "n < 2 ^ 31" "tag \<noteq> TAG_FREE" "heap_room s n" "alloc_pages (int n) tag s = Some (v, s')" "K' = K \<union> {PTABIDX v..<PTABIDX v + n}"
    show ?thesis unfolding a(6) using blocks_pages [OF assms(1) a(1-5)] same_pages_mono [of s s' A "A - K"] by blast
  next
    fix n p assume a: "0 < n" "{p..<p + n} \<subseteq> K" "s' = free_pages (PTOB (of_nat p)) (int n) s" "K' = K - {p..<p + n}"
    show ?thesis unfolding a(4) using blocks_pages_free [OF assms(1) a(1-3)] by blast
  qed
  then show "heap_rep s' bl K'" "same_pages s s' (A - K)" by (blast intro: heap_repI)+
qed

lemma heap_load_store:
  assumes "heap_blocks s xs A B P fl bl K" and "bl v = Some n" "word_in v n y" and "bl w = Some m" "word_in w m z"
  shows "load32 (store32 y x s) z = (if y = z then x else load32 s z)"
  using word_held [OF assms(1,4,5)] word_held [OF assms(1-3)]
  by (intro load_store [OF kmem_invD(1) [OF heap_invD(1) [OF heap_blocksD(1) [OF assms(1)]]]]) blast+

lemma kmalloc_provides:
  "block_heap heap_rep heap_ready (\<lambda>tag n. kmalloc_tag (int n) tag) kfree load32 store32 page_step"
proof
  fix s :: "'a kheap_state_scheme" and bl K assume r: "heap_rep s bl K"
  then obtain xs A B P fl where h: "heap_blocks s xs A B P fl bl K" by (auto simp: heap_rep_def)
  show "{unat v..<unat v + n} \<inter> {unat w..<unat w + m} = {}" if "bl v = Some n" "bl w = Some m" "v \<noteq> w" for v w n m
    using blocks_apart [OF h that] unfolding disjoint_iff by (meson atLeastLessThan_iff)
  show "heap_rep s' (bl(v \<mapsto> n)) K" "bl v = None" if "heap_ready t n s" "kmalloc_tag (int n) t s = Some (v, s')" for t n v s'
    using heap_alloc [OF h that] by simp_all
  show "load32 s' y = load32 s y" if "heap_ready t n s" "kmalloc_tag (int n) t s = Some (v, s')" "bl w = Some m" "word_in w m y" for t n v s' w m y
    using same_pages_load [OF heap_alloc(3) [OF h that(1,2)]] word_held(1) [OF h that(3,4)] by blast
  show "heap_rep (kfree v s) (bl(v := None)) K" if "bl v = Some n" for v n by (rule heap_release(1) [OF h that])
  show "load32 (kfree v s) y = load32 s y" if "bl v = Some n" "bl w = Some m" "w \<noteq> v" "word_in w m y" for v n w m y by (rule heap_release(2) [OF h that])
  show "heap_rep (store32 y x s) bl K" if "bl v = Some n" "word_in v n y" for v n y x by (rule heap_repI [OF blocks_store [OF h that]])
  show "load32 (store32 y x s) z = (if y = z then x else load32 s z)" if "bl v = Some n" "word_in v n y" "bl w = Some m" "word_in w m z" for v n y w m z x
    by (rule heap_load_store [OF h that])
  show "heap_rep s' bl K'" if "page_step s K s' K'" for s' K' by (rule heap_other(1) [OF h that])
  show "load32 s' y = load32 s y" if "page_step s K s' K'" "bl w = Some m" "word_in w m y" for s' K' w m y
    by (rule same_pages_load [OF heap_other(2) [OF h that(1)] word_held(1) [OF h that(2,3)]])
qed

interpretation kh: block_heap heap_rep heap_ready "\<lambda>tag n. kmalloc_tag (int n) tag" kfree load32 store32 page_step
  by (rule kmalloc_provides)

text \<open>
  The histories of the heap from the state \<open>s0\<close> on: blocks \<open>bl\<close> are held, the other users hold the pages \<open>K\<close>, and \<open>mem\<close> is what the blocks should contain.
\<close>

abbreviation heap_reach :: "'a kheap_state_scheme \<Rightarrow> 'a kheap_state_scheme \<Rightarrow> (u32 \<rightharpoonup> nat) \<Rightarrow> nat set \<Rightarrow> (u32 \<Rightarrow> u32) \<Rightarrow> bool" where
  "heap_reach s0 t bl K mem \<equiv> kh.history s0 {} t bl K mem"

lemma heap_start:
  assumes "kmem_inv s xs {} {}" and "\<And>b. b_mem (buckets s b) = 0"
  shows "heap_blocks (init_malloc s) xs {} {} (\<lambda>b. {}) (\<lambda>b. []) Map.empty {}"
proof -
  have "kmem_inv (init_malloc s) xs {} {}" using assms(1) by (simp add: init_malloc_def kmem_inv_buckets)
  moreover have "bucket_ok (init_malloc s) b {} []" if "b \<in> {4..11}" for b
    using that assms(2) by (simp add: bucket_ok_def init_malloc_def PAGESHIFT_def push_bit_of_1)
  ultimately show ?thesis by (intro heap_blocksI heap_invI) (simp_all add: small_of_def large_of_def)
qed

lemma block_address:
  assumes "heap_blocks s xs A B P fl bl K" and "bl v = Some n"
  shows "v \<noteq> 0 \<and> unat v mod 16 = 0 \<and> unat v + n \<le> 2 ^ 32"
proof -
  note k = heap_invD(1) [OF heap_blocksD(1) [OF assms(1)]]
  have n: "1 \<le> n" by (rule heap_blocksD(2) [OF assms])
  have "unat v div 4096 \<in> A" "(unat v + n - 1) div 4096 \<in> A" using block_held [OF assms, of "unat v"] block_held [OF assms, of "unat v + n - 1"] n by auto
  then have p: "0x92000 \<le> unat v div 4096" "(unat v + n - 1) div 4096 < 2 ^ 20" using held_page [OF k] by blast+
  then have "v \<noteq> 0" by auto
  moreover have "unat v + n - 1 < 2 ^ 32" using p(2) by (simp add: div_less_iff_less_mult)
  moreover have "(16 :: nat) dvd unat v"
  proof (cases "n \<le> 2048")
    case True
    note b = block_small [OF assms True order_refl]
    have "BUCKET n \<in> {4..11}" "unat v mod 2 ^ BUCKET n = 0" using b(3,4) n by simp_all
    then have "4 \<le> BUCKET n" "2 ^ BUCKET n dvd unat v" by auto
    then have "(2 :: nat) ^ 4 dvd unat v" using dvd_trans [OF le_imp_power_dvd] by blast
    then show ?thesis by simp
  next
    case False
    then have "4096 dvd unat v" using heap_blocksD(4) [OF assms] by auto
    then show ?thesis by (rule dvd_trans [rotated]) simp
  qed
  ultimately show ?thesis by simp
qed

lemma block_mapped:
  assumes "heap_blocks s xs A B P fl bl K" and "bl v = Some n"
  shows "unat v \<le> k \<and> k < unat v + n \<longrightarrow> page_mapped s (of_nat k) \<and> k div 4096 \<notin> K"
proof
  assume k: "unat v \<le> k \<and> k < unat v + n"
  have "k < 2 ^ 32" using k block_address [OF assms] by simp
  then have u: "unat (of_nat k :: u32) = k" by (rule unat_of_nat_u32)
  have a: "k div 4096 \<in> A - K" using block_held [OF assms] k by blast
  have "k div 4096 div 1024 = PDEIDX (of_nat k)" using u by (simp add: PDEIDX_def drop_bit_eq_div unat_div_distrib div_mult2_eq [symmetric])
  moreover have "PTABIDX (of_nat k) = k div 4096" using u by (simp add: page_number)
  moreover have "table_at s (k div 4096 div 1024) \<and> ptab s (k div 4096) AND PT_PRESENT \<noteq> 0"
    using mem_invD(3) [OF kmem_invD(1) [OF heap_invD(1) [OF heap_blocksD(1) [OF assms(1)]]], of "k div 4096"] a by simp
  ultimately show "page_mapped s (of_nat k) \<and> k div 4096 \<notin> K"
    using a by (simp add: page_mapped_def GET_PDE_def GET_PTE_def pde_slot_def directory_slot table_at_def)
qed

lemma heap_boot:
  assumes "mem_inv s xs {}" and "length junk = 512" "length junk2 = 512" and "0 < unat imgsize div 4096" "unat imgsize div 4096 \<le> 0x10000"
    and "init_kmem imgsize junk junk2 s = Some s0" and "\<And>b. b_mem (buckets s b) = 0"
  shows "\<exists>xs0. heap_blocks (init_malloc s0) xs0 {} {} (\<lambda>b. {}) (\<lambda>b. []) Map.empty {} \<and> free_set (osvmap s0) = heap_pages \<and> length xs \<le> length xs0 + 4"
proof -
  obtain xs0 where "kmem_inv s0 xs0 {} {}" "free_set (osvmap s0) = heap_pages" "length xs \<le> length xs0 + 4" using init_kmem_inv [OF assms(1-6)] by blast
  moreover have "b_mem (buckets s0 b) = 0" for b using heap_more [OF init_kmem_more [OF assms(6)]] assms(7) by simp
  ultimately show ?thesis using heap_start by blast
qed

lemma kmalloc_total:
  assumes "heap_blocks s xs A B P fl bl K" and "1 \<le> n" "n < 2 ^ 31" and "tag \<noteq> TAG_FREE" and "needs_pages s n \<Longrightarrow> heap_room s (pages_of n) \<and> 2 * pages_of n \<le> length xs"
  shows "\<exists>v s'. kmalloc_tag (int n) tag s = Some (v, s')"
proof (cases "n \<le> 2048")
  case True
  note h = heap_blocksD(1) [OF assms(1)]
  have "heap_room s 1 \<and> 2 \<le> length xs" if "fl (BUCKET n) = []" using needs_pages_empty [OF h assms(2) True that] assms(5) by simp
  then show ?thesis using kmalloc_small(2) [OF h assms(2) True] by auto
next
  case False
  then have "2048 < n" "needs_pages s n" by (simp_all add: needs_pages_def)
  then show ?thesis using kmalloc_large(2) [OF heap_blocksD(1) [OF assms(1)] _ assms(3,4) pages_of_def] assms(5) by auto
qed

lemma room_of_free: "p \<in> free_set (osvmap s) \<Longrightarrow> heap_room s 1"
proof -
  assume "p \<in> free_set (osvmap s)"
  then obtain e where "e \<in> set (live (osvmap s))" "0 < unat (r_size e)" by (auto simp: free_set_def ranges_def)
  then show ?thesis unfolding heap_room_def by (intro bexI [of _ e]) simp_all
qed

section \<open>Properties\<close>

text \<open>
  C4: after \<^verbatim>\<open>init_kmem\<close> and \<^verbatim>\<open>init_malloc\<close>, whatever blocks the kernel allocates and releases with \<^verbatim>\<open>kmalloc\<close> and \<^verbatim>\<open>kfree\<close>, whatever it writes into them,
  and whatever pages it takes and gives back beside them, every block it holds starts at a multiple of 16, lies within mapped pages that nobody else holds, and holds
  the words that were written there last; and no two of the blocks have a byte in common.
\<close>

theorem heap_safe:
  assumes "mem_inv s xs {}" and "length junk = 512" "length junk2 = 512" and "0 < unat imgsize div 4096" "unat imgsize div 4096 \<le> 0x10000"
    and "init_kmem imgsize junk junk2 s = Some s0" and "\<And>b. b_mem (buckets s b) = 0" and "heap_reach (init_malloc s0) t bl K mem"
  shows "(\<forall>v n. bl v = Some n \<longrightarrow> v \<noteq> 0 \<and> unat v mod 16 = 0 \<and> unat v + n \<le> 2 ^ 32 \<and>
      (\<forall>k. unat v \<le> k \<and> k < unat v + n \<longrightarrow> page_mapped t (of_nat k) \<and> k div 4096 \<notin> K) \<and> (\<forall>y. word_in v n y \<longrightarrow> load32 t y = mem y)) \<and>
    (\<forall>v w n m. bl v = Some n \<longrightarrow> bl w = Some m \<longrightarrow> v \<noteq> w \<longrightarrow> {unat v..<unat v + n} \<inter> {unat w..<unat w + m} = {})"
proof -
  obtain xs0 where "heap_blocks (init_malloc s0) xs0 {} {} (\<lambda>b. {}) (\<lambda>b. []) Map.empty {}" using heap_boot [OF assms(1-7)] by blast
  then have s: "heap_rep (init_malloc s0) Map.empty {}" by (rule heap_repI)
  have r: "heap_rep t bl K" by (rule kh.history_rep [OF assms(8) s])
  then obtain ys A B P fl where h: "heap_blocks t ys A B P fl bl K" unfolding heap_rep_def by blast
  have "v \<noteq> 0 \<and> unat v mod 16 = 0 \<and> unat v + n \<le> 2 ^ 32 \<and> (\<forall>k. unat v \<le> k \<and> k < unat v + n \<longrightarrow> page_mapped t (of_nat k) \<and> k div 4096 \<notin> K)" if "bl v = Some n" for v n
    using block_address [OF h that] block_mapped [OF h that] by blast
  then show ?thesis using kh.rep_apart [OF r] kh.history_words [OF assms(8) s] by blast
qed

definition heap_demo :: kheap_state where
  "heap_demo = boot_state (kheap_state.fields (\<lambda>b. \<lparr>b_mem = 0, b_elems = 0, b_pages = 0, b_size = 0\<rparr>))"

abbreviation heap_junk :: rmap where "heap_junk \<equiv> replicate 512 \<lparr>r_offset = 7, r_size = 9\<rparr>"

lemma heap_fields: "kmem_state.more s = kheap_state.fields f \<Longrightarrow> buckets s = f"
  by (cases s) (simp add: kheap_state.defs)

lemma heap_demo_boot:
  obtains s0 xs0 where "init_kmem 0x100000 heap_junk heap_junk heap_demo = Some s0" and "heap_blocks (init_malloc s0) xs0 {} {} (\<lambda>b. {}) (\<lambda>b. []) Map.empty {}"
    and "heap_room (init_malloc s0) 1" and "26 \<le> length xs0" and "mem_inv heap_demo [2..<32] {}" and "\<And>b. b_mem (buckets heap_demo b) = 0"
proof -
  have m: "mem_inv heap_demo [2..<32] {}" unfolding heap_demo_def by (rule boot_state_inv(1))
  have "kmem_state.more heap_demo = kheap_state.fields (\<lambda>b. \<lparr>b_mem = 0, b_elems = 0, b_pages = 0, b_size = 0\<rparr>)" unfolding heap_demo_def by (rule boot_state_inv(2))
  from heap_fields [OF this] have z: "b_mem (buckets heap_demo b) = 0" for b by simp
  obtain s0 where i: "init_kmem 0x100000 heap_junk heap_junk heap_demo = Some s0" using init_kmem_total [OF m] by fastforce
  from heap_boot [OF m _ _ _ _ i z] obtain xs0 where h: "heap_blocks (init_malloc s0) xs0 {} {} (\<lambda>b. {}) (\<lambda>b. []) Map.empty {}" "free_set (osvmap s0) = heap_pages" "26 \<le> length xs0" by auto
  have "0x92000 \<in> free_set (osvmap (init_malloc s0))" using h(2) by (simp add: heap_pages_def init_malloc_def)
  from that [OF i h(1) room_of_free [OF this] h(3) m z] show thesis .
qed

lemma heap_demo_alloc:
  assumes "heap_blocks (init_malloc s0) xs0 {} {} (\<lambda>b. {}) (\<lambda>b. []) Map.empty {}" and "heap_room (init_malloc s0) 1" and "26 \<le> length xs0"
  obtains v s1 mem where "kmalloc_tag (int 24) 0 (init_malloc s0) = Some (v, s1)" and "heap_reach (init_malloc s0) s1 [v \<mapsto> 24] {} mem" and "word_in v 24 (v + 4)"
proof -
  have "pages_of 24 = 1" by (simp add: pages_of_def)
  then obtain v s1 where k: "kmalloc_tag (int 24) 0 (init_malloc s0) = Some (v, s1)" using kmalloc_total [OF assms(1), of 24 0] assms(2,3) by (auto simp: TAG_FREE_def)
  have r: "heap_reach (init_malloc s0) s1 [v \<mapsto> 24] {} (\<lambda>y. if word_in v 24 y then load32 s1 y else 0)"
    using kh.history.alloc [OF kh.history.start _ k, of "{}" "\<lambda>y. 0"] assms(2) \<open>pages_of 24 = 1\<close> by (simp add: heap_ready_def TAG_FREE_def)
  moreover have "heap_rep (init_malloc s0) Map.empty {}" by (rule heap_repI [OF assms(1)])
  ultimately obtain ys A B P fl where "heap_blocks s1 ys A B P fl [v \<mapsto> 24] {}" using kh.history_rep unfolding heap_rep_def by blast
  from block_address [OF this, of v 24] have v: "unat v mod 16 = 0" "unat v + 24 \<le> 2 ^ 32" by simp_all
  then have "unat (v + 4) = unat v + 4" by (subst unat_add_lt) simp_all
  moreover have "(unat v + 4) mod 4 = 0" using v(1) by presburger
  ultimately have "word_in v 24 (v + 4)" by (simp add: word_in_def)
  with k r show thesis by (rule that)
qed

theorem heap_safe_witness:
  "\<exists>s0 v s1. init_kmem 0x100000 heap_junk heap_junk heap_demo = Some s0 \<and> kmalloc_tag (int 24) 0 (init_malloc s0) = Some (v, s1) \<and>
    unat v mod 16 = 0 \<and> page_mapped s1 v \<and> load32 (store32 (v + 4) 7 s1) (v + 4) = 7"
proof (rule heap_demo_boot)
  fix s0 xs0 assume i: "init_kmem 0x100000 heap_junk heap_junk heap_demo = Some s0" and h: "heap_blocks (init_malloc s0) xs0 {} {} (\<lambda>b. {}) (\<lambda>b. []) Map.empty {}"
    and r: "heap_room (init_malloc s0) 1" "26 \<le> length xs0" and m: "mem_inv heap_demo [2..<32] {}" and z: "\<And>b. b_mem (buckets heap_demo b) = 0"
  from heap_demo_alloc [OF h r] obtain v s1 mem where k: "kmalloc_tag (int 24) 0 (init_malloc s0) = Some (v, s1)"
    and a: "heap_reach (init_malloc s0) s1 [v \<mapsto> 24] {} mem" and w: "word_in v 24 (v + 4)" by metis
  have b: "heap_reach (init_malloc s0) (store32 (v + 4) 7 s1) [v \<mapsto> 24] {} (mem(v + 4 := 7))" by (rule kh.history.put [OF a _ w]) simp
  have l: "length heap_junk = 512" "0 < unat (0x100000 :: u32) div 4096" "unat (0x100000 :: u32) div 4096 \<le> 0x10000" by simp_all
  have "unat v mod 16 = 0" "\<forall>k. unat v \<le> k \<and> k < unat v + 24 \<longrightarrow> page_mapped s1 (of_nat k)" using spec [OF spec [OF conjunct1 [OF heap_safe [OF m l(1) l(1) l(2,3) i z a]], of v], of 24] by simp_all
  moreover have "load32 (store32 (v + 4) 7 s1) (v + 4) = 7" using spec [OF spec [OF conjunct1 [OF heap_safe [OF m l(1) l(1) l(2,3) i z b]], of v], of 24] w by simp
  ultimately show ?thesis using i k spec [of "\<lambda>k. unat v \<le> k \<and> k < unat v + 24 \<longrightarrow> page_mapped s1 (of_nat k)" "unat v"] by auto
qed

text \<open>
  C20: in each of these states \<^verbatim>\<open>kmalloc\<close> returns, provided that the map of the kernel heap has room for the pages it may need and that there are two free frames for
  each of them; the block it returns is none of those that are held and has no byte in common with any of them.
\<close>

theorem kmalloc_returns:
  assumes "mem_inv s xs {}" and "length junk = 512" "length junk2 = 512" and "0 < unat imgsize div 4096" "unat imgsize div 4096 \<le> 0x10000"
    and "init_kmem imgsize junk junk2 s = Some s0" and "\<And>b. b_mem (buckets s b) = 0" and "heap_reach (init_malloc s0) t bl K mem"
    and "1 \<le> n" "n < 2 ^ 31" and "tag \<noteq> TAG_FREE" and "needs_pages t n \<Longrightarrow> heap_room t (pages_of n) \<and> 2 * pages_of n \<le> unat (freemem t)"
  shows "\<exists>v t'. kmalloc_tag (int n) tag t = Some (v, t') \<and> bl v = None \<and> (\<forall>w m. bl w = Some m \<longrightarrow> {unat v..<unat v + n} \<inter> {unat w..<unat w + m} = {})"
proof -
  obtain xs0 where "heap_blocks (init_malloc s0) xs0 {} {} (\<lambda>b. {}) (\<lambda>b. []) Map.empty {}" using heap_boot [OF assms(1-7)] by blast
  then have s: "heap_rep (init_malloc s0) Map.empty {}" by (rule heap_repI)
  from kh.history_rep [OF assms(8) s] obtain ys A B P fl where h: "heap_blocks t ys A B P fl bl K" unfolding heap_rep_def by blast
  have "unat (freemem t) = length ys" by (rule pf_repD(4) [OF mem_invD(1) [OF kmem_invD(1) [OF heap_invD(1) [OF heap_blocksD(1) [OF h]]]]])
  then obtain v t' where k: "kmalloc_tag (int n) tag t = Some (v, t')" using kmalloc_total [OF h assms(9-11)] assms(12) by auto
  have "heap_ready tag n t" using assms(9-12) by (simp add: heap_ready_def)
  from kh.history_alloc_apart [OF assms(8) s this k] show ?thesis using k by blast
qed

theorem kmalloc_returns_witness:
  "\<exists>s0 v t. init_kmem 0x100000 heap_junk heap_junk heap_demo = Some s0 \<and> kmalloc_tag (int 100) 0 (init_malloc s0) = Some (v, t)"
proof (rule heap_demo_boot)
  fix s0 xs0 assume i: "init_kmem 0x100000 heap_junk heap_junk heap_demo = Some s0" and h: "heap_blocks (init_malloc s0) xs0 {} {} (\<lambda>b. {}) (\<lambda>b. []) Map.empty {}"
    and r: "heap_room (init_malloc s0) 1" "26 \<le> length xs0" and m: "mem_inv heap_demo [2..<32] {}" and z: "\<And>b. b_mem (buckets heap_demo b) = 0"
  have l: "length heap_junk = 512" "0 < unat (0x100000 :: u32) div 4096" "unat (0x100000 :: u32) div 4096 \<le> 0x10000" by simp_all
  have "unat (freemem (init_malloc s0)) = length xs0" by (rule pf_repD(4) [OF mem_invD(1) [OF kmem_invD(1) [OF heap_invD(1) [OF heap_blocksD(1) [OF h]]]]])
  then have "\<exists>v t. kmalloc_tag (int 100) 0 (init_malloc s0) = Some (v, t)"
    using kmalloc_returns [OF m l(1) l(1) l(2,3) i z kh.history.start [of _ "{}" "\<lambda>y. 0"], of 100 0] r by (auto simp: TAG_FREE_def pages_of_def)
  then show ?thesis using i by blast
qed

end
