(* ===== verification/Dpc.thy ===== *)
theory Dpc
  imports Linked_List "HOL-Library.Monad_Syntax"
begin

text \<open>
  The queue of deferred procedure calls of \<^verbatim>\<open>src/src/sys/krnl/sched.c\<close>.
  A \<^verbatim>\<open>struct dpc\<close> is linked into a queue by an interrupt handler and executed
  later, from \<^verbatim>\<open>dispatch\<close>. The procedure is a function pointer; what the
  procedures do is the parameter \<open>exec\<close>, which may stop the machine (\<open>None\<close>). A
  procedure may queue further calls, so the loop takes fuel.
\<close>

section \<open>The queue and its operations\<close>

record dpc =
  d_proc :: addr
  d_arg :: addr
  d_next :: "addr option"
  d_queued :: bool
  d_executing :: bool

record dpc_state =
  dpcs :: "addr \<Rightarrow> dpc"
  dpc_queue_head :: "addr option"
  dpc_queue_tail :: "addr option"
  in_dpc :: bool
  dpc_total :: u32
  dpc_lost :: u32

definition upd_dpc :: "addr \<Rightarrow> (dpc \<Rightarrow> dpc) \<Rightarrow> 'a dpc_state_scheme \<Rightarrow> 'a dpc_state_scheme" where
  "upd_dpc d f s = s\<lparr>dpcs := (dpcs s)(d := f (dpcs s d))\<rparr>"

definition init_dpc :: "addr \<Rightarrow> 'a dpc_state_scheme \<Rightarrow> 'a dpc_state_scheme" where
  "init_dpc d s = upd_dpc d (\<lambda>_. \<lparr>d_proc = 0, d_arg = 0, d_next = None, d_queued = False, d_executing = False\<rparr>) s"

definition queue_irq_dpc :: "addr \<Rightarrow> addr \<Rightarrow> addr \<Rightarrow> 'a dpc_state_scheme \<Rightarrow> 'a dpc_state_scheme" where
  "queue_irq_dpc d proc arg s =
     (if d_queued (dpcs s d) then s\<lparr>dpc_lost := dpc_lost s + 1\<rparr>
      else
        let s1 = upd_dpc d (\<lambda>r. r\<lparr>d_proc := proc, d_arg := arg, d_next := None\<rparr>) s;
            s2 = (case dpc_queue_tail s1 of None \<Rightarrow> s1 | Some t \<Rightarrow> upd_dpc t (\<lambda>r. r\<lparr>d_next := Some d\<rparr>) s1);
            s3 = s2\<lparr>dpc_queue_tail := Some d\<rparr>;
            s4 = (if dpc_queue_head s3 = None then s3\<lparr>dpc_queue_head := Some d\<rparr> else s3)
        in upd_dpc d (\<lambda>r. r\<lparr>d_queued := True\<rparr>) s4)"

definition get_next_dpc :: "'a dpc_state_scheme \<Rightarrow> addr option \<times> 'a dpc_state_scheme" where
  "get_next_dpc s =
     (case dpc_queue_head s of
        Some d \<Rightarrow>
          let s1 = s\<lparr>dpc_queue_head := d_next (dpcs s d)\<rparr> in
          (Some d, if dpc_queue_tail s1 = Some d then s1\<lparr>dpc_queue_tail := None\<rparr> else s1)
      | None \<Rightarrow> (None, s))"

text \<open>The procedure is called with the call marked as executing, so that it can queue itself again.\<close>

definition run_dpc :: "(addr \<Rightarrow> addr \<Rightarrow> 'a dpc_state_scheme \<Rightarrow> 'a dpc_state_scheme option) \<Rightarrow>
    addr \<Rightarrow> 'a dpc_state_scheme \<Rightarrow> 'a dpc_state_scheme option" where
  "run_dpc exec d s =
     (let proc = d_proc (dpcs s d); arg = d_arg (dpcs s d);
          s1 = upd_dpc d (\<lambda>r. r\<lparr>d_queued := False\<rparr>) s in
      if \<not> d_executing (dpcs s1 d) then do {
        s2 \<leftarrow> exec proc arg (upd_dpc d (\<lambda>r. r\<lparr>d_executing := True\<rparr>) s1);
        let s3 = upd_dpc d (\<lambda>r. r\<lparr>d_executing := False\<rparr>) s2;
        Some (s3\<lparr>dpc_total := dpc_total s3 + 1\<rparr>)
      }
      else Some s1)"

fun dpc_loop :: "(addr \<Rightarrow> addr \<Rightarrow> 'a dpc_state_scheme \<Rightarrow> 'a dpc_state_scheme option) \<Rightarrow>
    nat \<Rightarrow> 'a dpc_state_scheme \<Rightarrow> 'a dpc_state_scheme option" where
  "dpc_loop exec 0 s = None"
| "dpc_loop exec (Suc fuel) s =
     (case get_next_dpc s of
        (None, s1) \<Rightarrow> Some s1
      | (Some d, s1) \<Rightarrow> do { s2 \<leftarrow> run_dpc exec d s1; dpc_loop exec fuel s2 })"

definition dispatch_dpc_queue :: "(addr \<Rightarrow> addr \<Rightarrow> 'a dpc_state_scheme \<Rightarrow> 'a dpc_state_scheme option) \<Rightarrow>
    nat \<Rightarrow> 'a dpc_state_scheme \<Rightarrow> 'a dpc_state_scheme option" where
  "dispatch_dpc_queue exec fuel s =
     (if in_dpc s then None
      else do { s1 \<leftarrow> dpc_loop exec fuel (s\<lparr>in_dpc := True\<rparr>); Some (s1\<lparr>in_dpc := False\<rparr>) })"

definition check_dpc_queue :: "(addr \<Rightarrow> addr \<Rightarrow> 'a dpc_state_scheme \<Rightarrow> 'a dpc_state_scheme option) \<Rightarrow>
    nat \<Rightarrow> 'a dpc_state_scheme \<Rightarrow> 'a dpc_state_scheme option" where
  "check_dpc_queue exec fuel s = (if dpc_queue_head s \<noteq> None then dispatch_dpc_queue exec fuel s else Some s)"

section \<open>What the queue holds\<close>

definition dpc_queue :: "'a dpc_state_scheme \<Rightarrow> addr list \<Rightarrow> bool" where
  "dpc_queue s xs \<longleftrightarrow> slist (\<lambda>d. d_next (dpcs s d)) (dpc_queue_head s) (dpc_queue_tail s) xs \<and>
     (\<forall>d. d_queued (dpcs s d) \<longleftrightarrow> d \<in> set xs)"

text \<open>An interpretation of the procedures that leaves the queue alone and acts on the rest of the state.\<close>

definition on_rest :: "(addr \<Rightarrow> addr \<Rightarrow> 'a \<Rightarrow> 'a) \<Rightarrow> addr \<Rightarrow> addr \<Rightarrow> 'a dpc_state_scheme \<Rightarrow> 'a dpc_state_scheme option" where
  "on_rest f proc arg s = Some (dpc_state.more_update (f proc arg) s)"

lemma dpcs_upd_dpc [simp]:
  "dpcs (upd_dpc d f s) = (dpcs s)(d := f (dpcs s d))"
  "dpc_queue_head (upd_dpc d f s) = dpc_queue_head s" "dpc_queue_tail (upd_dpc d f s) = dpc_queue_tail s"
  "in_dpc (upd_dpc d f s) = in_dpc s" "dpc_total (upd_dpc d f s) = dpc_total s" "dpc_lost (upd_dpc d f s) = dpc_lost s"
  "dpc_state.more (upd_dpc d f s) = dpc_state.more s"
  by (simp_all add: upd_dpc_def)

lemma queue_irq_dpc_new:
  assumes "dpc_queue s xs" and "d \<notin> set xs"
  shows "dpc_queue (queue_irq_dpc d proc arg s) (xs @ [d])"
    and "d_proc (dpcs (queue_irq_dpc d proc arg s) d) = proc"
    and "d_arg (dpcs (queue_irq_dpc d proc arg s) d) = arg"
proof -
  let ?s = "queue_irq_dpc d proc arg s"
  have t: "dpc_queue_tail s \<noteq> Some d" using assms by (auto simp: dpc_queue_def slist_def dest: final_in_set)
  have nq: "\<not> d_queued (dpcs s d)" using assms by (simp add: dpc_queue_def)
  have "slist (\<lambda>x. d_next (dpcs ?s x)) (if dpc_queue_head s = None then Some d else dpc_queue_head s) (Some d) (xs @ [d])"
    using assms t by (intro slist_append [where nx = "\<lambda>x. d_next (dpcs s x)" and t = "dpc_queue_tail s"])
      (auto simp: dpc_queue_def queue_irq_dpc_def Let_def split: option.splits)
  moreover have "dpc_queue_head ?s = (if dpc_queue_head s = None then Some d else dpc_queue_head s)"
    "dpc_queue_tail ?s = Some d"
    using nq by (simp_all add: queue_irq_dpc_def Let_def split: option.splits)
  moreover have "d_queued (dpcs ?s x) \<longleftrightarrow> x = d \<or> d_queued (dpcs s x)" for x
    using nq t by (simp add: queue_irq_dpc_def Let_def split: option.splits)
  ultimately show "dpc_queue ?s (xs @ [d])" using assms(1) by (simp add: dpc_queue_def)
  show "d_proc (dpcs ?s d) = proc" "d_arg (dpcs ?s d) = arg" using nq t
    by (auto simp: queue_irq_dpc_def Let_def split: option.splits)
qed

lemma get_next_dpc_Nil: "dpc_queue s [] \<Longrightarrow> get_next_dpc s = (None, s)"
  by (simp add: dpc_queue_def slist_def get_next_dpc_def)

lemma get_next_dpc_Cons:
  assumes "dpc_queue s (d # xs)"
  obtains s1 where "get_next_dpc s = (Some d, s1)" "dpcs s1 = dpcs s" "in_dpc s1 = in_dpc s"
    "dpc_total s1 = dpc_total s" "dpc_lost s1 = dpc_lost s" "dpc_state.more s1 = dpc_state.more s"
    "slist (\<lambda>d. d_next (dpcs s1 d)) (dpc_queue_head s1) (dpc_queue_tail s1) xs"
proof -
  from assms have sl: "slist (\<lambda>d. d_next (dpcs s d)) (dpc_queue_head s) (dpc_queue_tail s) (d # xs)"
    by (simp add: dpc_queue_def)
  then have "dpc_queue_head s = Some d" by (simp add: slist_def)
  then show thesis using slist_pop [OF sl] that [of "snd (get_next_dpc s)"]
    by (cases "dpc_queue_tail s = Some d") (simp_all add: get_next_dpc_def Let_def)
qed

lemma run_dpc_on_rest:
  assumes "\<not> d_executing (dpcs s d)"
  obtains s' where "run_dpc (on_rest f) d s = Some s'"
    "dpcs s' = (dpcs s)(d := (dpcs s d)\<lparr>d_queued := False, d_executing := False\<rparr>)"
    "dpc_queue_head s' = dpc_queue_head s" "dpc_queue_tail s' = dpc_queue_tail s" "in_dpc s' = in_dpc s"
    "dpc_total s' = dpc_total s + 1" "dpc_lost s' = dpc_lost s"
    "dpc_state.more s' = f (d_proc (dpcs s d)) (d_arg (dpcs s d)) (dpc_state.more s)"
  using assms that [of "the (run_dpc (on_rest f) d s)"] by (simp add: run_dpc_def on_rest_def)

lemma dpc_loop_fifo:
  "dpc_queue s xs \<Longrightarrow> \<forall>d \<in> set xs. \<not> d_executing (dpcs s d) \<Longrightarrow> length xs < fuel \<Longrightarrow>
   \<exists>s'. dpc_loop (on_rest f) fuel s = Some s' \<and> dpc_queue s' [] \<and> in_dpc s' = in_dpc s \<and>
     dpc_lost s' = dpc_lost s \<and> dpc_total s' = dpc_total s + of_nat (length xs) \<and>
     dpc_state.more s' = fold (\<lambda>d. f (d_proc (dpcs s d)) (d_arg (dpcs s d))) xs (dpc_state.more s)"
proof (induction xs arbitrary: s fuel)
  case Nil
  then show ?case by (cases fuel) (simp_all add: get_next_dpc_Nil)
next
  case (Cons d xs)
  obtain n where fuel: "fuel = Suc n" using Cons.prems(3) by (cases fuel) simp_all
  obtain s1 where s1: "get_next_dpc s = (Some d, s1)" "dpcs s1 = dpcs s" "in_dpc s1 = in_dpc s"
    "dpc_total s1 = dpc_total s" "dpc_lost s1 = dpc_lost s" "dpc_state.more s1 = dpc_state.more s"
    "slist (\<lambda>d. d_next (dpcs s1 d)) (dpc_queue_head s1) (dpc_queue_tail s1) xs"
    by (rule get_next_dpc_Cons [OF Cons.prems(1)])
  have "\<not> d_executing (dpcs s1 d)" using Cons.prems(2) s1(2) by simp
  then obtain s2 where s2: "run_dpc (on_rest f) d s1 = Some s2"
    "dpcs s2 = (dpcs s1)(d := (dpcs s1 d)\<lparr>d_queued := False, d_executing := False\<rparr>)"
    "dpc_queue_head s2 = dpc_queue_head s1" "dpc_queue_tail s2 = dpc_queue_tail s1" "in_dpc s2 = in_dpc s1"
    "dpc_total s2 = dpc_total s1 + 1" "dpc_lost s2 = dpc_lost s1"
    "dpc_state.more s2 = f (d_proc (dpcs s1 d)) (d_arg (dpcs s1 d)) (dpc_state.more s1)"
    by (rule run_dpc_on_rest)
  have d: "d \<notin> set xs" using Cons.prems(1) by (simp add: dpc_queue_def slist_def)
  have "dpc_queue s2 xs" using s1 s2 d Cons.prems(1) by (auto simp: dpc_queue_def elim: slist_cong)
  moreover have "\<forall>d \<in> set xs. \<not> d_executing (dpcs s2 d)" using Cons.prems(2) s1 s2 by simp
  ultimately obtain s' where "dpc_loop (on_rest f) n s2 = Some s'" "dpc_queue s' []" "in_dpc s' = in_dpc s2"
    "dpc_lost s' = dpc_lost s2" "dpc_total s' = dpc_total s2 + of_nat (length xs)"
    "dpc_state.more s' = fold (\<lambda>d. f (d_proc (dpcs s2 d)) (d_arg (dpcs s2 d))) xs (dpc_state.more s2)"
    using Cons.IH [of s2 n] Cons.prems(3) fuel by auto
  moreover have "fold (\<lambda>d. f (d_proc (dpcs s2 d)) (d_arg (dpcs s2 d))) xs m =
      fold (\<lambda>d. f (d_proc (dpcs s d)) (d_arg (dpcs s d))) xs m" for m
    using s1 s2 d by (intro fold_cong) auto
  ultimately show ?case using fuel s1 s2 by simp
qed

section \<open>Correctness of the queue\<close>

definition demo_dpcs :: "addr \<Rightarrow> dpc" where
  "demo_dpcs d = \<lparr>d_proc = 0, d_arg = 0, d_next = None, d_queued = False, d_executing = False\<rparr>"

definition demo_dpc_state :: "addr list dpc_state_scheme" where
  "demo_dpc_state = \<lparr>dpcs = demo_dpcs, dpc_queue_head = None, dpc_queue_tail = None, in_dpc = False,
     dpc_total = 0, dpc_lost = 0, \<dots> = []\<rparr>"

text \<open>
  When the procedures leave the queue alone, \<^verbatim>\<open>dispatch_dpc_queue\<close> returns, has
  called every queued procedure exactly once and in the order in which they were queued,
  counts them, and leaves the queue empty and re-enterable. One unit of fuel more than
  there are queued calls is enough.
\<close>

theorem dispatch_dpc_queue_fifo:
  assumes "dpc_queue s xs" and "\<forall>d \<in> set xs. \<not> d_executing (dpcs s d)" and "\<not> in_dpc s" and "length xs < fuel"
  shows "\<exists>s'. dispatch_dpc_queue (on_rest f) fuel s = Some s' \<and> dpc_queue s' [] \<and> \<not> in_dpc s' \<and>
    dpc_total s' = dpc_total s + of_nat (length xs) \<and>
    dpc_state.more s' = fold (\<lambda>d. f (d_proc (dpcs s d)) (d_arg (dpcs s d))) xs (dpc_state.more s)"
proof -
  have "dpc_queue (s\<lparr>in_dpc := True\<rparr>) xs" using assms(1) by (simp add: dpc_queue_def)
  from dpc_loop_fifo [OF this, of fuel f] assms show ?thesis
    by (auto simp: dispatch_dpc_queue_def dpc_queue_def)
qed

theorem dispatch_dpc_queue_fifo_witness:
  "let s = queue_irq_dpc 2 20 200 (queue_irq_dpc 1 10 100 demo_dpc_state) in
   dpc_queue s [1, 2] \<and>
   (\<exists>s'. dispatch_dpc_queue (on_rest (\<lambda>p a l. l @ [p, a])) 3 s = Some s' \<and> dpc_state.more s' = [10, 100, 20, 200])"
proof -
  let ?s1 = "queue_irq_dpc 1 10 100 demo_dpc_state"
  let ?s = "queue_irq_dpc 2 20 200 ?s1"
  have "dpc_queue demo_dpc_state []" by (simp add: dpc_queue_def demo_dpc_state_def demo_dpcs_def slist_def)
  from queue_irq_dpc_new(1) [OF this, of 1 10 100] have "dpc_queue ?s1 [1]" by simp
  from queue_irq_dpc_new(1) [OF this, of 2 20 200] have q: "dpc_queue ?s [1, 2]" by simp
  have s: "\<not> in_dpc ?s" "\<not> d_executing (dpcs ?s 1)" "\<not> d_executing (dpcs ?s 2)"
    "dpc_state.more ?s = []" "d_proc (dpcs ?s 1) = 10" "d_arg (dpcs ?s 1) = 100" "d_proc (dpcs ?s 2) = 20" "d_arg (dpcs ?s 2) = 200"
    by (simp_all add: queue_irq_dpc_def demo_dpc_state_def demo_dpcs_def upd_dpc_def)
  from dispatch_dpc_queue_fifo [OF q, of 3 "\<lambda>p a l. l @ [p, a]"] s q show ?thesis
    unfolding Let_def by (auto simp del: One_nat_def)
qed

text \<open>
  \<^verbatim>\<open>queue_irq_dpc\<close> puts a call that is not queued behind the others with its
  procedure and argument, and never queues a call twice: a call that is already queued is
  dropped, counted in \<^verbatim>\<open>dpc_lost\<close>, and the queue and every pending call stay as they were.
\<close>

theorem queue_irq_dpc_correct:
  assumes "dpc_queue s xs"
  shows "if d \<in> set xs
    then queue_irq_dpc d proc arg s = s\<lparr>dpc_lost := dpc_lost s + 1\<rparr>
    else dpc_queue (queue_irq_dpc d proc arg s) (xs @ [d]) \<and>
      d_proc (dpcs (queue_irq_dpc d proc arg s) d) = proc \<and> d_arg (dpcs (queue_irq_dpc d proc arg s) d) = arg \<and>
      dpc_lost (queue_irq_dpc d proc arg s) = dpc_lost s"
proof (cases "d \<in> set xs")
  case True
  with assms show ?thesis by (simp add: dpc_queue_def queue_irq_dpc_def)
next
  case False
  moreover have "dpc_lost (queue_irq_dpc d proc arg s) = dpc_lost s"
    using assms False by (simp add: dpc_queue_def queue_irq_dpc_def Let_def split: option.splits)
  ultimately show ?thesis using queue_irq_dpc_new [OF assms False] by simp
qed

theorem queue_irq_dpc_correct_witness:
  "dpc_queue (queue_irq_dpc 1 10 100 demo_dpc_state) [1] \<and>
   dpc_lost (queue_irq_dpc 1 10 100 (queue_irq_dpc 1 10 100 demo_dpc_state)) = 1"
proof -
  have "dpc_queue demo_dpc_state []" by (simp add: dpc_queue_def demo_dpc_state_def demo_dpcs_def slist_def)
  from queue_irq_dpc_correct [OF this, of 1 10 100]
  have q: "dpc_queue (queue_irq_dpc 1 10 100 demo_dpc_state) [1]" "dpc_lost (queue_irq_dpc 1 10 100 demo_dpc_state) = 0"
    by (simp_all add: demo_dpc_state_def)
  from queue_irq_dpc_correct [OF q(1), of 1 10 100] q show ?thesis by simp
qed

end
