(* ===== verification/Sched.thy ===== *)
theory Sched
  imports Dpc
begin

text \<open>
  The thread scheduler of \<^verbatim>\<open>src/src/sys/krnl/sched.c\<close>: 32 priority levels, a
  doubly linked ready queue per level and a bit per level in
  \<^verbatim>\<open>thread_ready_summary\<close>. The definitions work on the links of the thread
  records as the code does. \<^verbatim>\<open>self()\<close> is the field \<open>cur\<close>, and switching
  context makes another thread current. The bits of the word \<^verbatim>\<open>flags\<close> of a
  thread are separate truth values. \<open>None\<close> is a call that does not come back: a
  \<^verbatim>\<open>panic\<close>, or a null pointer that is followed.
\<close>

section \<open>Threads and the state of the scheduler\<close>

datatype tstate = TInitialized | TReady | TRunning | TWaiting | TTerminated | TSuspended | TTransition

record thread =
  t_state :: tstate
  t_quantum :: int
  t_wait_reason :: nat
  t_fpu_enabled :: bool
  t_alertable :: bool
  t_interrupted :: bool
  t_priority :: nat
  t_base_priority :: nat
  t_id :: int
  t_suspend_count :: nat
  t_exitcode :: int
  t_blocked_signals :: u32
  t_pending_signals :: u32
  t_context_switches :: u32
  t_preempts :: u32
  t_next_ready :: "addr option"
  t_prev_ready :: "addr option"
  t_waitlist :: "addr option"
  t_waitkey :: int

record sched = dpc_state +
  threads :: "addr \<Rightarrow> thread"
  ready_queue_head :: "nat \<Rightarrow> addr option"
  ready_queue_tail :: "nat \<Rightarrow> addr option"
  thread_ready_summary :: u32
  preempt :: bool
  cur :: addr

abbreviation thr :: "'a sched_scheme \<Rightarrow> addr \<Rightarrow> thread" where
  "thr s t \<equiv> threads s t"

definition upd_thread :: "addr \<Rightarrow> (thread \<Rightarrow> thread) \<Rightarrow> 'a sched_scheme \<Rightarrow> 'a sched_scheme" where
  "upd_thread t f s = s\<lparr>threads := (threads s)(t := f (threads s t))\<rparr>"

definition THREAD_PRIORITY_LEVELS :: nat where "THREAD_PRIORITY_LEVELS = 32"
definition PRIORITY_TIME_CRITICAL :: nat where "PRIORITY_TIME_CRITICAL = 15"
definition DEFAULT_QUANTUM :: int where "DEFAULT_QUANTUM = 36"

section \<open>Ready queues\<close>

definition insert_ready_head :: "addr \<Rightarrow> 'a sched_scheme \<Rightarrow> 'a sched_scheme" where
  "insert_ready_head t s =
     (let p = t_priority (thr s t) in
      case ready_queue_head s p of
        None \<Rightarrow>
          (upd_thread t (\<lambda>r. r\<lparr>t_next_ready := None, t_prev_ready := None\<rparr>) s)
            \<lparr>ready_queue_head := (ready_queue_head s)(p := Some t), ready_queue_tail := (ready_queue_tail s)(p := Some t),
             thread_ready_summary := thread_ready_summary s OR push_bit p 1\<rparr>
      | Some h \<Rightarrow>
          (upd_thread h (\<lambda>r. r\<lparr>t_prev_ready := Some t\<rparr>)
            (upd_thread t (\<lambda>r. r\<lparr>t_next_ready := Some h, t_prev_ready := None\<rparr>) s))
            \<lparr>ready_queue_head := (ready_queue_head s)(p := Some t)\<rparr>)"

definition insert_ready_tail :: "addr \<Rightarrow> 'a sched_scheme \<Rightarrow> 'a sched_scheme" where
  "insert_ready_tail t s =
     (let p = t_priority (thr s t) in
      case ready_queue_tail s p of
        None \<Rightarrow>
          (upd_thread t (\<lambda>r. r\<lparr>t_next_ready := None, t_prev_ready := None\<rparr>) s)
            \<lparr>ready_queue_head := (ready_queue_head s)(p := Some t), ready_queue_tail := (ready_queue_tail s)(p := Some t),
             thread_ready_summary := thread_ready_summary s OR push_bit p 1\<rparr>
      | Some l \<Rightarrow>
          (upd_thread l (\<lambda>r. r\<lparr>t_next_ready := Some t\<rparr>)
            (upd_thread t (\<lambda>r. r\<lparr>t_next_ready := None, t_prev_ready := Some l\<rparr>) s))
            \<lparr>ready_queue_tail := (ready_queue_tail s)(p := Some t)\<rparr>)"

definition remove_from_ready_queue :: "addr \<Rightarrow> 'a sched_scheme \<Rightarrow> 'a sched_scheme" where
  "remove_from_ready_queue t s =
     (let p = t_priority (thr s t); n = t_next_ready (thr s t); v = t_prev_ready (thr s t);
          s1 = (case n of None \<Rightarrow> s | Some x \<Rightarrow> upd_thread x (\<lambda>r. r\<lparr>t_prev_ready := v\<rparr>) s);
          s2 = (case v of None \<Rightarrow> s1 | Some x \<Rightarrow> upd_thread x (\<lambda>r. r\<lparr>t_next_ready := n\<rparr>) s1);
          s3 = (if ready_queue_head s2 p = Some t then s2\<lparr>ready_queue_head := (ready_queue_head s2)(p := n)\<rparr> else s2);
          s4 = (if ready_queue_tail s3 p = Some t then s3\<lparr>ready_queue_tail := (ready_queue_tail s3)(p := v)\<rparr> else s3)
      in if ready_queue_tail s4 p = None
         then s4\<lparr>thread_ready_summary := thread_ready_summary s4 AND NOT (push_bit p 1)\<rparr> else s4)"

text \<open>The search for the highest bit shifts the mask until its top bit is set or the count is used up.\<close>

fun highest_bit_loop :: "u32 \<Rightarrow> nat \<Rightarrow> nat" where
  "highest_bit_loop m 0 = 0"
| "highest_bit_loop m (Suc n) =
     (if m AND 0x80000000 = 0 then highest_bit_loop (push_bit 1 m) n else Suc n)"

definition find_highest_bit :: "u32 \<Rightarrow> nat" where
  "find_highest_bit m = highest_bit_loop m 31"

text \<open>The inner option is the pointer returned; the outer one is \<open>None\<close> when the code follows a null pointer.\<close>

definition find_ready_thread :: "'a sched_scheme \<Rightarrow> (addr option \<times> 'a sched_scheme) option" where
  "find_ready_thread s =
     (if thread_ready_summary s = 0 then Some (None, s)
      else
        let p = find_highest_bit (thread_ready_summary s) in
        case ready_queue_head s p of
          None \<Rightarrow> None
        | Some t \<Rightarrow>
            let s1 = (case t_next_ready (thr s t) of
                 None \<Rightarrow> s\<lparr>ready_queue_head := (ready_queue_head s)(p := None), ready_queue_tail := (ready_queue_tail s)(p := None),
                          thread_ready_summary := thread_ready_summary s AND NOT (push_bit p 1)\<rparr>
               | Some n \<Rightarrow> (upd_thread n (\<lambda>r. r\<lparr>t_prev_ready := None\<rparr>) s)
                          \<lparr>ready_queue_head := (ready_queue_head s)(p := Some n)\<rparr>)
            in Some (Some t, upd_thread t (\<lambda>r. r\<lparr>t_next_ready := None, t_prev_ready := None\<rparr>) s1))"

section \<open>Making threads ready and switching between them\<close>

definition boosted :: "thread \<Rightarrow> nat \<Rightarrow> nat" where
  "boosted r boost =
     (let newprio = min (t_base_priority r + boost) PRIORITY_TIME_CRITICAL in
      if newprio > t_priority r then newprio else t_priority r)"

definition mark_thread_ready :: "addr \<Rightarrow> int \<Rightarrow> nat \<Rightarrow> 'a sched_scheme \<Rightarrow> 'a sched_scheme option" where
  "mark_thread_ready t charge boost s =
     (if t_suspend_count (thr s t) > 0 then Some (upd_thread t (\<lambda>r. r\<lparr>t_state := TSuspended\<rparr>) s)
      else if t_interrupted (thr s t) \<and> t_state (thr s t) = TReady then Some s
      else
        let s1 = upd_thread t (\<lambda>r. r\<lparr>t_quantum := t_quantum r - charge, t_priority := boosted r boost\<rparr>) s in
        if t_state (thr s1 t) = TReady then None
        else
          let s2 = upd_thread t (\<lambda>r. r\<lparr>t_state := TReady\<rparr>) s1;
              s3 = (if t_quantum (thr s2 t) > 0 then insert_ready_head t s2
                    else insert_ready_tail t (upd_thread t (\<lambda>r. r\<lparr>t_quantum := DEFAULT_QUANTUM,
                           t_priority := (if t_priority r > t_base_priority r then t_priority r - 1 else t_priority r)\<rparr>) s2))
          in Some (if t_priority (thr s3 t) > t_priority (thr s3 (cur s3)) then s3\<lparr>preempt := True\<rparr> else s3))"

definition mark_thread_running :: "'a sched_scheme \<Rightarrow> 'a sched_scheme" where
  "mark_thread_running s =
     upd_thread (cur s) (\<lambda>r. r\<lparr>t_state := TRunning, t_context_switches := t_context_switches r + 1\<rparr>) s"

type_synonym 'a exec = "addr \<Rightarrow> addr \<Rightarrow> 'a sched_scheme \<Rightarrow> 'a sched_scheme option"

definition dispatch :: "'a exec \<Rightarrow> nat \<Rightarrow> 'a sched_scheme \<Rightarrow> 'a sched_scheme option" where
  "dispatch exec fuel s = do {
     s1 \<leftarrow> check_dpc_queue exec fuel (s\<lparr>preempt := False\<rparr>);
     (found, s2) \<leftarrow> find_ready_thread s1;
     t \<leftarrow> found;
     if t = cur s then Some (upd_thread t (\<lambda>r. r\<lparr>t_state := TRunning\<rparr>) s2)
     else
       let s3 = (if t_fpu_enabled (thr s2 (cur s)) then upd_thread t (\<lambda>r. r\<lparr>t_fpu_enabled := False\<rparr>) s2 else s2)
       in Some (mark_thread_running (s3\<lparr>cur := t\<rparr>))
   }"

definition preempt_thread :: "'a exec \<Rightarrow> nat \<Rightarrow> 'a sched_scheme \<Rightarrow> 'a sched_scheme option" where
  "preempt_thread exec fuel s =
     (let t = cur s;
          s1 = upd_thread t (\<lambda>r. r\<lparr>t_preempts := t_preempts r + 1\<rparr>) s;
          s2 = (if t_quantum (thr s1 t) \<le> 0
                then upd_thread t (\<lambda>r. r\<lparr>t_quantum := DEFAULT_QUANTUM,
                       t_priority := (if t_priority r > t_base_priority r then t_priority r - 1 else t_priority r)\<rparr>) s1
                else s1);
          s3 = upd_thread t (\<lambda>r. r\<lparr>t_state := TReady\<rparr>) s2
      in dispatch exec fuel (insert_ready_tail t s3))"

definition yield :: "'a exec \<Rightarrow> nat \<Rightarrow> 'a sched_scheme \<Rightarrow> 'a sched_scheme option" where
  "yield exec fuel s = do {
     s1 \<leftarrow> mark_thread_ready (cur s) 0 0 (upd_thread (cur s) (\<lambda>r. r\<lparr>t_quantum := 0\<rparr>) s);
     dispatch exec fuel s1
   }"

definition enter_wait :: "'a exec \<Rightarrow> nat \<Rightarrow> nat \<Rightarrow> 'a sched_scheme \<Rightarrow> 'a sched_scheme option" where
  "enter_wait exec fuel reason s =
     dispatch exec fuel (upd_thread (cur s) (\<lambda>r. r\<lparr>t_state := TWaiting, t_wait_reason := reason\<rparr>) s)"

text \<open>
  A call that gives up the processor is modelled in two halves: the first ends when another
  thread has been made current (\<open>Blocked\<close>), unless the call returns at once, and the
  second is what the thread does when it runs again. For an alertable wait the second half
  examines the flags.
\<close>

datatype 'r call = Return 'r | Blocked

definition signals_ready :: "thread \<Rightarrow> bool" where
  "signals_ready r \<longleftrightarrow> t_pending_signals r AND NOT (t_blocked_signals r) \<noteq> 0"

definition enter_alertable_wait :: "'a exec \<Rightarrow> nat \<Rightarrow> nat \<Rightarrow> 'a sched_scheme \<Rightarrow> (int call \<times> 'a sched_scheme) option" where
  "enter_alertable_wait exec fuel reason s =
     (if signals_ready (thr s (cur s)) then Some (Return (- EINTR), s)
      else do {
        s1 \<leftarrow> dispatch exec fuel (upd_thread (cur s) (\<lambda>r. r\<lparr>t_state := TWaiting, t_wait_reason := reason,
                t_interrupted := False, t_alertable := True\<rparr>) s);
        Some (Blocked, s1)
      })"

definition resume_alertable_wait :: "'a sched_scheme \<Rightarrow> int \<times> 'a sched_scheme" where
  "resume_alertable_wait s =
     (let s1 = upd_thread (cur s) (\<lambda>r. r\<lparr>t_alertable := False\<rparr>) s in
      if t_interrupted (thr s1 (cur s)) then (- EINTR, upd_thread (cur s) (\<lambda>r. r\<lparr>t_interrupted := False\<rparr>) s1)
      else (0, s1))"

definition interrupt_thread :: "addr \<Rightarrow> 'a sched_scheme \<Rightarrow> (int \<times> 'a sched_scheme) option" where
  "interrupt_thread t s =
     (if t_state (thr s t) \<noteq> TWaiting then Some (- EBUSY, s)
      else if \<not> t_alertable (thr s t) then Some (- EPERM, s)
      else do {
        s1 \<leftarrow> mark_thread_ready t 1 1 (upd_thread t (\<lambda>r. r\<lparr>t_interrupted := True\<rparr>) s);
        Some (0, s1)
      })"

definition suspend_thread :: "'a exec \<Rightarrow> nat \<Rightarrow> addr \<Rightarrow> 'a sched_scheme \<Rightarrow> (nat \<times> 'a sched_scheme) option" where
  "suspend_thread exec fuel t s =
     (let prevcount = t_suspend_count (thr s t);
          s1 = upd_thread t (\<lambda>r. r\<lparr>t_suspend_count := t_suspend_count r + 1\<rparr>) s in
      if prevcount = 0 then
        if t_state (thr s1 t) = TReady
        then Some (prevcount, upd_thread t (\<lambda>r. r\<lparr>t_state := TSuspended\<rparr>) (remove_from_ready_queue t s1))
        else if t_state (thr s1 t) = TRunning
        then do { s2 \<leftarrow> dispatch exec fuel (upd_thread t (\<lambda>r. r\<lparr>t_state := TSuspended\<rparr>) s1); Some (prevcount, s2) }
        else Some (prevcount, s1)
      else Some (prevcount, s1))"

definition resume_thread :: "addr \<Rightarrow> 'a sched_scheme \<Rightarrow> (nat \<times> 'a sched_scheme) option" where
  "resume_thread t s =
     (let prevcount = t_suspend_count (thr s t) in
      if prevcount > 0 then
        let s1 = upd_thread t (\<lambda>r. r\<lparr>t_suspend_count := t_suspend_count r - 1\<rparr>) s in
        if t_suspend_count (thr s1 t) = 0 \<and> (t_state (thr s1 t) = TSuspended \<or> t_state (thr s1 t) = TInitialized)
        then do { s2 \<leftarrow> mark_thread_ready t 0 0 s1; Some (prevcount, s2) }
        else Some (prevcount, s1)
      else Some (prevcount, s))"

definition set_thread_priority :: "'a exec \<Rightarrow> nat \<Rightarrow> addr \<Rightarrow> int \<Rightarrow> 'a sched_scheme \<Rightarrow> (int \<times> 'a sched_scheme) option" where
  "set_thread_priority exec fuel t priority s =
     (if priority < 0 \<or> priority \<ge> int THREAD_PRIORITY_LEVELS then Some (- EINVAL, s)
      else
        let prio = nat priority; set_prio = upd_thread t (\<lambda>r. r\<lparr>t_base_priority := prio, t_priority := prio\<rparr>) in
        if t_base_priority (thr s t) = prio then Some (0, s)
        else if t = cur s then
          if prio < t_priority (thr s t)
          then do { s1 \<leftarrow> mark_thread_ready t 0 0 (set_prio s); s2 \<leftarrow> dispatch exec fuel s1; Some (0, s2) }
          else Some (0, set_prio s)
        else if t_state (thr s t) = TReady
        then do {
          s1 \<leftarrow> mark_thread_ready t 0 0
                 (upd_thread t (\<lambda>r. r\<lparr>t_state := TTransition\<rparr>) (set_prio (remove_from_ready_queue t s)));
          Some (0, s1)
        }
        else Some (0, set_prio s))"

definition system_idle :: "'a sched_scheme \<Rightarrow> bool" where
  "system_idle s \<longleftrightarrow> thread_ready_summary s = 0 \<and> dpc_queue_head s = None"


section \<open>The ready queues as lists\<close>

definition rqs :: "'a sched_scheme \<Rightarrow> (nat \<Rightarrow> addr list) \<Rightarrow> bool" where
  "rqs s Q \<longleftrightarrow>
     (\<forall>p. dlist (\<lambda>t. t_next_ready (thr s t)) (\<lambda>t. t_prev_ready (thr s t)) (ready_queue_head s p) (ready_queue_tail s p) (Q p)) \<and>
     (\<forall>p t. t \<in> set (Q p) \<longrightarrow> t_priority (thr s t) = p \<and> p < 32) \<and>
     (\<forall>p < 32. (Q p \<noteq> [] \<longrightarrow> bit (thread_ready_summary s) p) \<and> (bit (thread_ready_summary s) p \<and> p \<noteq> 0 \<longrightarrow> Q p \<noteq> []))"

lemma upd_thread_simps [simp]:
  "threads (upd_thread t f s) = (threads s)(t := f (threads s t))"
  "ready_queue_head (upd_thread t f s) = ready_queue_head s" "ready_queue_tail (upd_thread t f s) = ready_queue_tail s"
  "thread_ready_summary (upd_thread t f s) = thread_ready_summary s" "preempt (upd_thread t f s) = preempt s"
  "cur (upd_thread t f s) = cur s" "sched.more (upd_thread t f s) = sched.more s"
  "dpcs (upd_thread t f s) = dpcs s" "dpc_queue_head (upd_thread t f s) = dpc_queue_head s"
  "dpc_queue_tail (upd_thread t f s) = dpc_queue_tail s" "in_dpc (upd_thread t f s) = in_dpc s"
  by (simp_all add: upd_thread_def)

lemma rqs_dlist:
  "rqs s Q \<Longrightarrow> dlist (\<lambda>t. t_next_ready (thr s t)) (\<lambda>t. t_prev_ready (thr s t)) (ready_queue_head s p) (ready_queue_tail s p) (Q p)"
  by (simp add: rqs_def)

lemma rqs_level: "rqs s Q \<Longrightarrow> t \<in> set (Q p) \<Longrightarrow> p < 32"
  unfolding rqs_def by blast

lemma rqs_prio: "rqs s Q \<Longrightarrow> t \<in> set (Q p) \<Longrightarrow> t_priority (thr s t) = p"
  by (simp add: rqs_def)

text \<open>A change of the thread records that keeps the links and priorities of the queued threads keeps the queues.\<close>

lemma rqs_frame:
  assumes "rqs s Q" and "ready_queue_head s' = ready_queue_head s" "ready_queue_tail s' = ready_queue_tail s"
    "thread_ready_summary s' = thread_ready_summary s"
    and "\<And>t p. t \<in> set (Q p) \<Longrightarrow> t_next_ready (thr s' t) = t_next_ready (thr s t) \<and>
      t_prev_ready (thr s' t) = t_prev_ready (thr s t) \<and> t_priority (thr s' t) = t_priority (thr s t)"
  shows "rqs s' Q"
  unfolding rqs_def
proof (intro conjI allI)
  fix p
  show "dlist (\<lambda>t. t_next_ready (thr s' t)) (\<lambda>t. t_prev_ready (thr s' t)) (ready_queue_head s' p) (ready_queue_tail s' p) (Q p)"
    using dlist_cong [OF rqs_dlist [OF assms(1), of p]] assms(2-) by simp
qed (use assms in \<open>auto simp: rqs_def\<close>)

text \<open>The simplifier writes \<^verbatim>\<open>1 << p\<close> as a power of two.\<close>

lemma bit_or_push1: "bit (w OR 2 ^ p :: u32) n \<longleftrightarrow> bit w n \<or> n = p \<and> p < 32"
  by (auto simp: bit_or_iff bit_exp_iff)

lemma bit_and_not_push1: "bit (w AND NOT (2 ^ p) :: u32) n \<longleftrightarrow> bit w n \<and> n \<noteq> p"
  by (auto simp: bit_and_iff bit_not_iff bit_exp_iff dest: bit_imp_le_length)

lemmas summary_bits = bit_or_push1 bit_and_not_push1

text \<open>Queue updates at one priority: the list of that level and the summary bit change, nothing else.\<close>

lemma rqs_update:
  assumes "rqs s Q" and "p < 32"
    and "dlist (\<lambda>t. t_next_ready (thr s' t)) (\<lambda>t. t_prev_ready (thr s' t)) (ready_queue_head s' p) (ready_queue_tail s' p) xs"
    and "\<And>q. q \<noteq> p \<Longrightarrow> ready_queue_head s' q = ready_queue_head s q \<and> ready_queue_tail s' q = ready_queue_tail s q \<and>
       bit (thread_ready_summary s') q = bit (thread_ready_summary s) q"
    and "\<And>t q. q \<noteq> p \<Longrightarrow> t \<in> set (Q q) \<Longrightarrow>
       t_next_ready (thr s' t) = t_next_ready (thr s t) \<and> t_prev_ready (thr s' t) = t_prev_ready (thr s t)"
    and "\<And>t. t_priority (thr s' t) = t_priority (thr s t)" and "\<And>t. t \<in> set xs \<Longrightarrow> t_priority (thr s t) = p"
    and "xs \<noteq> [] \<Longrightarrow> bit (thread_ready_summary s') p" and "xs = [] \<Longrightarrow> \<not> bit (thread_ready_summary s') p"
  shows "rqs s' (Q(p := xs))"
proof -
  have "dlist (\<lambda>t. t_next_ready (thr s' t)) (\<lambda>t. t_prev_ready (thr s' t)) (ready_queue_head s' q) (ready_queue_tail s' q) ((Q(p := xs)) q)" for q
    using dlist_cong [OF rqs_dlist [OF assms(1), of q]] assms(3-5) by (cases "q = p") simp_all
  then show ?thesis using assms unfolding rqs_def by simp blast
qed

lemma rqs_bit: "rqs s Q \<Longrightarrow> p < 32 \<Longrightarrow> Q p \<noteq> [] \<Longrightarrow> bit (thread_ready_summary s) p"
  by (simp add: rqs_def)

lemma insert_ready_head_fields:
  assumes "t_priority (thr s t) = p" and "ready_queue_head s p \<noteq> Some t"
  shows "ready_queue_head (insert_ready_head t s) = (ready_queue_head s)(p := Some t)"
    "ready_queue_tail (insert_ready_head t s) =
       (if ready_queue_head s p = None then (ready_queue_tail s)(p := Some t) else ready_queue_tail s)"
    "thread_ready_summary (insert_ready_head t s) =
       (if ready_queue_head s p = None then thread_ready_summary s OR push_bit p 1 else thread_ready_summary s)"
    "t_next_ready (thr (insert_ready_head t s) x) = (if x = t then ready_queue_head s p else t_next_ready (thr s x))"
    "t_prev_ready (thr (insert_ready_head t s) x) =
       (if x = t then None else if ready_queue_head s p = Some x then Some t else t_prev_ready (thr s x))"
    "t_priority (thr (insert_ready_head t s) x) = t_priority (thr s x)"
  using assms by (auto simp: insert_ready_head_def Let_def split: option.splits)

lemma insert_ready_tail_fields:
  assumes "t_priority (thr s t) = p" and "ready_queue_tail s p \<noteq> Some t"
  shows "ready_queue_tail (insert_ready_tail t s) = (ready_queue_tail s)(p := Some t)"
    "ready_queue_head (insert_ready_tail t s) =
       (if ready_queue_tail s p = None then (ready_queue_head s)(p := Some t) else ready_queue_head s)"
    "thread_ready_summary (insert_ready_tail t s) =
       (if ready_queue_tail s p = None then thread_ready_summary s OR push_bit p 1 else thread_ready_summary s)"
    "t_next_ready (thr (insert_ready_tail t s) x) =
       (if x = t then None else if ready_queue_tail s p = Some x then Some t else t_next_ready (thr s x))"
    "t_prev_ready (thr (insert_ready_tail t s) x) = (if x = t then ready_queue_tail s p else t_prev_ready (thr s x))"
    "t_priority (thr (insert_ready_tail t s) x) = t_priority (thr s x)"
  using assms by (auto simp: insert_ready_tail_def Let_def split: option.splits)

lemma rqs_ends:
  assumes "rqs s Q"
  shows "ready_queue_head s p = Some x \<Longrightarrow> x \<in> set (Q p)" "ready_queue_tail s p = Some x \<Longrightarrow> x \<in> set (Q p)"
    "ready_queue_head s p = None \<longleftrightarrow> Q p = []" "ready_queue_tail s p = None \<longleftrightarrow> Q p = []"
  using dlist_fields(1,2) [OF rqs_dlist [OF assms, of p]] by (simp_all add: final_in_set)

lemma rqs_other: "rqs s Q \<Longrightarrow> x \<in> set (Q p) \<Longrightarrow> q \<noteq> p \<Longrightarrow> x \<notin> set (Q q)"
  using rqs_prio by metis

lemma insert_ready_head_rqs:
  assumes "rqs s Q" and "t_priority (thr s t) = p" and "p < 32" and "t \<notin> set (Q p)"
  shows "rqs (insert_ready_head t s) (Q(p := t # Q p))"
proof -
  note e = rqs_ends [OF assms(1), of p]
  have "ready_queue_head s p \<noteq> Some t" using e(1) assms(4) by blast
  note f = insert_ready_head_fields [OF assms(2) this]
  have d: "dlist (\<lambda>x. t_next_ready (thr (insert_ready_head t s) x)) (\<lambda>x. t_prev_ready (thr (insert_ready_head t s) x))
      (Some t) (if Q p = [] then Some t else ready_queue_tail s p) (t # Q p)"
    by (rule dlist_push [OF rqs_dlist [OF assms(1), of p] assms(4)]) (use assms(4) in \<open>auto simp: f\<close>)
  show ?thesis
  proof (rule rqs_update [OF assms(1,3)])
    show "dlist (\<lambda>x. t_next_ready (thr (insert_ready_head t s) x)) (\<lambda>x. t_prev_ready (thr (insert_ready_head t s) x))
        (ready_queue_head (insert_ready_head t s) p) (ready_queue_tail (insert_ready_head t s) p) (t # Q p)"
      using d by (simp add: f e(3) split: if_splits)
    fix x q assume q: "q \<noteq> p" and "x \<in> set (Q q)"
    then have "x \<noteq> t" "x \<notin> set (Q p)" using rqs_prio [OF assms(1)] rqs_other [OF assms(1)] assms(2) by metis+
    then show "t_next_ready (thr (insert_ready_head t s) x) = t_next_ready (thr s x) \<and>
        t_prev_ready (thr (insert_ready_head t s) x) = t_prev_ready (thr s x)" using e(1) by (auto simp: f)
  qed (use rqs_prio [OF assms(1)] rqs_bit [OF assms(1,3)] e(3) assms(2,3) in \<open>auto simp: f summary_bits\<close>)
qed

lemma insert_ready_tail_rqs:
  assumes "rqs s Q" and "t_priority (thr s t) = p" and "p < 32" and "t \<notin> set (Q p)"
  shows "rqs (insert_ready_tail t s) (Q(p := Q p @ [t]))"
proof -
  note e = rqs_ends [OF assms(1), of p]
  have "ready_queue_tail s p \<noteq> Some t" using e(2) assms(4) by blast
  note f = insert_ready_tail_fields [OF assms(2) this]
  have d: "dlist (\<lambda>x. t_next_ready (thr (insert_ready_tail t s) x)) (\<lambda>x. t_prev_ready (thr (insert_ready_tail t s) x))
      (if Q p = [] then Some t else ready_queue_head s p) (Some t) (Q p @ [t])"
    by (rule dlist_append [OF rqs_dlist [OF assms(1), of p] assms(4)]) (use assms(4) in \<open>auto simp: f\<close>)
  show ?thesis
  proof (rule rqs_update [OF assms(1,3)])
    show "dlist (\<lambda>x. t_next_ready (thr (insert_ready_tail t s) x)) (\<lambda>x. t_prev_ready (thr (insert_ready_tail t s) x))
        (ready_queue_head (insert_ready_tail t s) p) (ready_queue_tail (insert_ready_tail t s) p) (Q p @ [t])"
      using d by (simp add: f e(4) split: if_splits)
    fix x q assume q: "q \<noteq> p" and "x \<in> set (Q q)"
    then have "x \<noteq> t" "x \<notin> set (Q p)" using rqs_prio [OF assms(1)] rqs_other [OF assms(1)] assms(2) by metis+
    then show "t_next_ready (thr (insert_ready_tail t s) x) = t_next_ready (thr s x) \<and>
        t_prev_ready (thr (insert_ready_tail t s) x) = t_prev_ready (thr s x)" using e(2) by (auto simp: f)
  qed (use rqs_prio [OF assms(1)] rqs_bit [OF assms(1,3)] e(4) assms(2,3) in \<open>auto simp: f summary_bits\<close>)
qed

lemma remove_from_ready_queue_rqs:
  assumes "rqs s Q" and "Q p = xs @ t # ys"
  shows "rqs (remove_from_ready_queue t s) (Q(p := xs @ ys))"
proof -
  have p: "t_priority (thr s t) = p" "p < 32"
    using rqs_prio [OF assms(1), of t p] rqs_level [OF assms(1), of t p] assms(2) by simp_all
  note d = rqs_dlist [OF assms(1), of p, unfolded assms(2)]
  note lk = dlist_next [OF d]
  let ?s = "remove_from_ready_queue t s"
  have dis: "distinct (xs @ t # ys)" by (rule dlist_fields [OF d])
  have n: "first ys \<noteq> Some t" "final xs \<noteq> Some t" using dis by (auto dest: first_SomeD final_SomeD)
  have ht: "ready_queue_head ?s = (ready_queue_head s)(p := if ready_queue_head s p = Some t then first ys else ready_queue_head s p)"
    "ready_queue_tail ?s = (ready_queue_tail s)(p := if ready_queue_tail s p = Some t then final xs else ready_queue_tail s p)"
    using lk p by (auto simp: remove_from_ready_queue_def Let_def split: option.splits)
  have lks: "t_next_ready (thr ?s x) = (if final xs = Some x then first ys else t_next_ready (thr s x))"
    "t_prev_ready (thr ?s x) = (if first ys = Some x then final xs else t_prev_ready (thr s x))"
    "t_priority (thr ?s x) = t_priority (thr s x)" for x
    using lk p by (auto simp: remove_from_ready_queue_def Let_def split: option.splits)
  have d0: "dlist (\<lambda>t. t_next_ready (thr ?s t)) (\<lambda>t. t_prev_ready (thr ?s t))
      (if ready_queue_head s p = Some t then t_next_ready (thr s t) else ready_queue_head s p)
      (if ready_queue_tail s p = Some t then t_prev_ready (thr s t) else ready_queue_tail s p) (xs @ ys)"
    by (rule dlist_remove [OF d]) (simp_all add: lk lks)
  then have d': "dlist (\<lambda>t. t_next_ready (thr ?s t)) (\<lambda>t. t_prev_ready (thr ?s t)) (ready_queue_head ?s p) (ready_queue_tail ?s p) (xs @ ys)"
    by (simp only: lk ht fun_upd_same)
  have "thread_ready_summary ?s = (if ready_queue_tail ?s p = None then thread_ready_summary s AND NOT (push_bit p 1) else thread_ready_summary s)"
    using lk p by (auto simp: remove_from_ready_queue_def Let_def split: option.splits)
  moreover have "ready_queue_tail ?s p = None \<longleftrightarrow> xs @ ys = []" using dlist_fields(2) [OF d'] by simp
  moreover have "bit (thread_ready_summary s) p" using rqs_bit [OF assms(1) p(2)] assms(2) by simp
  moreover have "\<And>q x. q \<noteq> p \<Longrightarrow> x \<in> set (Q q) \<Longrightarrow> final xs \<noteq> Some x \<and> first ys \<noteq> Some x"
  proof -
    fix q x assume "q \<noteq> p" "x \<in> set (Q q)"
    then have "x \<notin> set (Q p)" using rqs_other [OF assms(1)] by metis
    then show "final xs \<noteq> Some x \<and> first ys \<noteq> Some x" using assms(2) by (auto dest: first_SomeD final_SomeD)
  qed
  ultimately show ?thesis using d' p rqs_prio [OF assms(1), of _ p] assms(2)
    by (intro rqs_update [OF assms(1) p(2)]) (auto simp: ht lks summary_bits)
qed

lemma insert_ready_head_keeps [simp]:
  "t_state (thr (insert_ready_head t s) x) = t_state (thr s x)" "t_quantum (thr (insert_ready_head t s) x) = t_quantum (thr s x)"
  "t_priority (thr (insert_ready_head t s) x) = t_priority (thr s x)" "t_base_priority (thr (insert_ready_head t s) x) = t_base_priority (thr s x)"
  "t_suspend_count (thr (insert_ready_head t s) x) = t_suspend_count (thr s x)" "t_interrupted (thr (insert_ready_head t s) x) = t_interrupted (thr s x)"
  "t_alertable (thr (insert_ready_head t s) x) = t_alertable (thr s x)" "t_waitlist (thr (insert_ready_head t s) x) = t_waitlist (thr s x)"
  "t_waitkey (thr (insert_ready_head t s) x) = t_waitkey (thr s x)" "t_exitcode (thr (insert_ready_head t s) x) = t_exitcode (thr s x)"
  "t_fpu_enabled (thr (insert_ready_head t s) x) = t_fpu_enabled (thr s x)" "t_blocked_signals (thr (insert_ready_head t s) x) = t_blocked_signals (thr s x)"
  "t_pending_signals (thr (insert_ready_head t s) x) = t_pending_signals (thr s x)"
  "cur (insert_ready_head t s) = cur s" "preempt (insert_ready_head t s) = preempt s"
  "sched.more (insert_ready_head t s) = sched.more s" "dpcs (insert_ready_head t s) = dpcs s"
  "dpc_queue_head (insert_ready_head t s) = dpc_queue_head s" "dpc_queue_tail (insert_ready_head t s) = dpc_queue_tail s"
  "in_dpc (insert_ready_head t s) = in_dpc s"
  by (simp_all add: insert_ready_head_def Let_def split: option.splits)

lemma insert_ready_tail_keeps [simp]:
  "t_state (thr (insert_ready_tail t s) x) = t_state (thr s x)" "t_quantum (thr (insert_ready_tail t s) x) = t_quantum (thr s x)"
  "t_priority (thr (insert_ready_tail t s) x) = t_priority (thr s x)" "t_base_priority (thr (insert_ready_tail t s) x) = t_base_priority (thr s x)"
  "t_suspend_count (thr (insert_ready_tail t s) x) = t_suspend_count (thr s x)" "t_interrupted (thr (insert_ready_tail t s) x) = t_interrupted (thr s x)"
  "t_alertable (thr (insert_ready_tail t s) x) = t_alertable (thr s x)" "t_waitlist (thr (insert_ready_tail t s) x) = t_waitlist (thr s x)"
  "t_waitkey (thr (insert_ready_tail t s) x) = t_waitkey (thr s x)" "t_exitcode (thr (insert_ready_tail t s) x) = t_exitcode (thr s x)"
  "t_fpu_enabled (thr (insert_ready_tail t s) x) = t_fpu_enabled (thr s x)" "t_blocked_signals (thr (insert_ready_tail t s) x) = t_blocked_signals (thr s x)"
  "t_pending_signals (thr (insert_ready_tail t s) x) = t_pending_signals (thr s x)"
  "cur (insert_ready_tail t s) = cur s" "preempt (insert_ready_tail t s) = preempt s"
  "sched.more (insert_ready_tail t s) = sched.more s" "dpcs (insert_ready_tail t s) = dpcs s"
  "dpc_queue_head (insert_ready_tail t s) = dpc_queue_head s" "dpc_queue_tail (insert_ready_tail t s) = dpc_queue_tail s"
  "in_dpc (insert_ready_tail t s) = in_dpc s"
  by (simp_all add: insert_ready_tail_def Let_def split: option.splits)

lemma remove_from_ready_queue_keeps [simp]:
  "t_state (thr (remove_from_ready_queue t s) x) = t_state (thr s x)" "t_quantum (thr (remove_from_ready_queue t s) x) = t_quantum (thr s x)"
  "t_priority (thr (remove_from_ready_queue t s) x) = t_priority (thr s x)" "t_base_priority (thr (remove_from_ready_queue t s) x) = t_base_priority (thr s x)"
  "t_suspend_count (thr (remove_from_ready_queue t s) x) = t_suspend_count (thr s x)" "t_interrupted (thr (remove_from_ready_queue t s) x) = t_interrupted (thr s x)"
  "t_alertable (thr (remove_from_ready_queue t s) x) = t_alertable (thr s x)" "t_waitlist (thr (remove_from_ready_queue t s) x) = t_waitlist (thr s x)"
  "t_waitkey (thr (remove_from_ready_queue t s) x) = t_waitkey (thr s x)" "t_exitcode (thr (remove_from_ready_queue t s) x) = t_exitcode (thr s x)"
  "t_fpu_enabled (thr (remove_from_ready_queue t s) x) = t_fpu_enabled (thr s x)" "t_blocked_signals (thr (remove_from_ready_queue t s) x) = t_blocked_signals (thr s x)"
  "t_pending_signals (thr (remove_from_ready_queue t s) x) = t_pending_signals (thr s x)"
  "cur (remove_from_ready_queue t s) = cur s" "preempt (remove_from_ready_queue t s) = preempt s"
  "sched.more (remove_from_ready_queue t s) = sched.more s" "dpcs (remove_from_ready_queue t s) = dpcs s"
  "dpc_queue_head (remove_from_ready_queue t s) = dpc_queue_head s" "dpc_queue_tail (remove_from_ready_queue t s) = dpc_queue_tail s"
  "in_dpc (remove_from_ready_queue t s) = in_dpc s"
  by (simp_all add: remove_from_ready_queue_def Let_def split: option.splits)


section \<open>Selection of the next thread\<close>

lemma highest_bit_loop_spec:
  "n \<le> 31 \<Longrightarrow> m = push_bit (31 - n) w \<Longrightarrow> r = highest_bit_loop m n \<Longrightarrow>
   r \<le> n \<and> (r = 0 \<or> bit w r) \<and> (\<forall>k. r < k \<and> k \<le> n \<longrightarrow> \<not> bit (w :: u32) k)"
proof (induction n arbitrary: m)
  case (Suc n)
  have top: "(m AND 0x80000000 = 0) \<longleftrightarrow> \<not> bit w (Suc n)"
    using Suc.prems(1,2) and_exp_eq_0_iff_not_bit [of m 31] by (simp add: bit_push_bit_iff) linarith
  show ?case
  proof (cases "bit w (Suc n)")
    case True
    with top Suc.prems show ?thesis by auto
  next
    case False
    have "31 - n = 1 + (31 - Suc n)" using Suc.prems(1) by simp
    then have "push_bit 1 m = push_bit (31 - n) w" using Suc.prems(2) by (simp only: push_bit_push_bit)
    from Suc.IH [OF _ this] False top Suc.prems show ?thesis by (auto simp: le_Suc_eq)
  qed
qed simp

lemma find_highest_bit_spec:
  assumes "w \<noteq> (0 :: u32)"
  shows "bit w (find_highest_bit w)" and "bit w k \<Longrightarrow> k \<le> find_highest_bit w"
proof -
  have *: "find_highest_bit w \<le> 31 \<and> (find_highest_bit w = 0 \<or> bit w (find_highest_bit w)) \<and>
      (\<forall>k. find_highest_bit w < k \<and> k \<le> 31 \<longrightarrow> \<not> bit w k)"
    by (rule highest_bit_loop_spec [of 31 w]) (simp_all add: find_highest_bit_def)
  show le: "k \<le> find_highest_bit w" if "bit w k" for k
  proof -
    have "k < 32" using that by (auto dest: bit_imp_le_length)
    then have "k \<le> 31" by simp
    with * that show ?thesis by (meson not_le)
  qed
  obtain k where k: "bit w k" using assms by (auto simp: bit_eq_iff)
  show "bit w (find_highest_bit w)" using * le [OF k] k by (cases "find_highest_bit w = 0") auto
qed


text \<open>The fields that taking a thread off its queue leaves alone.\<close>

lemma find_ready_thread_keeps:
  assumes "find_ready_thread s = Some (r, s')"
  shows "t_state (thr s' x) = t_state (thr s x)" "t_priority (thr s' x) = t_priority (thr s x)"
    "t_base_priority (thr s' x) = t_base_priority (thr s x)" "t_suspend_count (thr s' x) = t_suspend_count (thr s x)"
    "t_fpu_enabled (thr s' x) = t_fpu_enabled (thr s x)" "t_waitkey (thr s' x) = t_waitkey (thr s x)"
    "t_waitlist (thr s' x) = t_waitlist (thr s x)"
    "t_interrupted (thr s' x) = t_interrupted (thr s x)" "t_alertable (thr s' x) = t_alertable (thr s x)"
    "cur s' = cur s" "preempt s' = preempt s" "sched.more s' = sched.more s"
  using assms by (auto simp: find_ready_thread_def Let_def split: if_splits option.splits)

lemma find_ready_thread_rqs:
  assumes rq: "rqs s Q" and "Q q \<noteq> []"
  obtains p t ts s' where "find_ready_thread s = Some (Some t, s')" "Q p = t # ts" "\<forall>q. Q q \<noteq> [] \<longrightarrow> q \<le> p"
    "rqs s' (Q(p := ts))"
proof -
  let ?w = "thread_ready_summary s"
  define p where "p = find_highest_bit ?w"
  have bits: "\<And>q. Q q \<noteq> [] \<Longrightarrow> bit ?w q" using rqs_bit [OF rq] rqs_level [OF rq] by (metis list.set_intros(1) neq_Nil_conv)
  have w: "?w \<noteq> 0" using bits [OF assms(2)] by auto
  note hb = find_highest_bit_spec [OF w, folded p_def]
  have p32: "p < 32" using hb(1) by (auto dest: bit_imp_le_length)
  have le: "\<forall>q. Q q \<noteq> [] \<longrightarrow> q \<le> p" using bits hb(2) by blast
  have "Q p \<noteq> []"
  proof (cases "p = 0")
    case True
    with le assms(2) show ?thesis by (metis le_zero_eq)
  next
    case False
    with rq p32 hb(1) show ?thesis by (simp add: rqs_def)
  qed
  then obtain t ts where Q: "Q p = t # ts" by (cases "Q p") simp_all
  note d = rqs_dlist [OF rq, of p, unfolded Q]
  have hd: "ready_queue_head s p = Some t" using dlist_fields(1) [OF d] by simp
  have lk: "t_next_ready (thr s t) = first ts" "t_prev_ready (thr s t) = None" using dlist_next [of _ _ _ _ "[]" t ts] d by auto
  have tl: "ready_queue_tail s p = final (t # ts)" by (rule dlist_fields [OF d])
  have t: "t \<notin> set ts" using dlist_fields(3) [OF d] by simp
  define s' where "s' = snd (the (find_ready_thread s))"
  have f: "find_ready_thread s = Some (Some t, s')" using w hd by (simp add: s'_def find_ready_thread_def Let_def p_def)
  have qs: "ready_queue_head s' = (ready_queue_head s)(p := first ts)"
    "ready_queue_tail s' = (ready_queue_tail s)(p := if ts = [] then None else ready_queue_tail s p)"
    "thread_ready_summary s' = (if ts = [] then ?w AND NOT (push_bit p 1) else ?w)"
    using w hd lk by (auto simp: s'_def find_ready_thread_def Let_def p_def [symmetric] first_def split: list.splits)
  have lks: "t_next_ready (thr s' x) = (if x = t then None else t_next_ready (thr s x))"
    "t_prev_ready (thr s' x) = (if x = t \<or> first ts = Some x then None else t_prev_ready (thr s x))" for x
    using w hd lk t by (auto simp: s'_def find_ready_thread_def Let_def p_def [symmetric] first_def split: list.splits)
  have d0: "dlist (\<lambda>t. t_next_ready (thr s' t)) (\<lambda>t. t_prev_ready (thr s' t))
      (if ready_queue_head s p = Some t then t_next_ready (thr s t) else ready_queue_head s p)
      (if ready_queue_tail s p = Some t then t_prev_ready (thr s t) else ready_queue_tail s p) ([] @ ts)"
    using d t by (intro dlist_remove [where xs = "[]"]) (auto simp: lk lks)
  have d': "dlist (\<lambda>t. t_next_ready (thr s' t)) (\<lambda>t. t_prev_ready (thr s' t)) (ready_queue_head s' p) (ready_queue_tail s' p) ts"
    using d0 hd lk tl t by (cases "ts = []") (auto simp: qs final_Cons dlist_def split: option.splits if_splits dest: final_in_set)
  have other: "t_next_ready (thr s' x) = t_next_ready (thr s x) \<and> t_prev_ready (thr s' x) = t_prev_ready (thr s x)"
    if "q \<noteq> p" "x \<in> set (Q q)" for q x
  proof -
    have "x \<notin> set (Q p)" using rqs_other [OF rq that(2)] that(1) by metis
    then show ?thesis using Q by (auto simp: lks dest: first_SomeD)
  qed
  have "rqs s' (Q(p := ts))"
    by (rule rqs_update [OF rq p32 d' _ other])
       (use find_ready_thread_keeps(2) [OF f] rqs_prio [OF rq, of _ p] Q hb(1) in \<open>auto simp: qs summary_bits\<close>)
  with f Q le that show thesis by blast
qed

section \<open>The invariant of the scheduler\<close>

definition ready_rep :: "'a sched_scheme \<Rightarrow> (nat \<Rightarrow> addr list) \<Rightarrow> bool" where
  "ready_rep s Q \<longleftrightarrow> rqs s Q \<and> (\<forall>t. t_state (thr s t) = TReady \<longleftrightarrow> t \<in> set (Q (t_priority (thr s t))))"

definition ready_inv :: "'a sched_scheme \<Rightarrow> bool" where
  "ready_inv s \<longleftrightarrow> (\<exists>Q. ready_rep s Q) \<and>
     (\<forall>t. t_priority (thr s t) < 32 \<and> t_base_priority (thr s t) < 32) \<and>
     (\<forall>t. t_state (thr s t) = TReady \<longrightarrow> t_suspend_count (thr s t) = 0)"

definition sched_ok :: "'a sched_scheme \<Rightarrow> bool" where
  "sched_ok s \<longleftrightarrow> ready_inv s \<and> (\<forall>t. t_state (thr s t) = TRunning \<longleftrightarrow> t = cur s) \<and> t_suspend_count (thr s (cur s)) = 0"

lemma ready_rep_mem: "ready_rep s Q \<Longrightarrow> t \<in> set (Q p) \<longleftrightarrow> t_state (thr s t) = TReady \<and> t_priority (thr s t) = p"
  unfolding ready_rep_def using rqs_prio by metis

lemma ready_rep_frame:
  assumes "ready_rep s Q" and "ready_queue_head s' = ready_queue_head s" "ready_queue_tail s' = ready_queue_tail s"
    "thread_ready_summary s' = thread_ready_summary s"
    and "\<And>t. t_state (thr s' t) = TReady \<longleftrightarrow> t_state (thr s t) = TReady"
    and "\<And>t. t_state (thr s t) = TReady \<Longrightarrow> t_next_ready (thr s' t) = t_next_ready (thr s t) \<and>
      t_prev_ready (thr s' t) = t_prev_ready (thr s t) \<and> t_priority (thr s' t) = t_priority (thr s t)"
  shows "ready_rep s' Q"
proof -
  have rq: "rqs s Q" using assms(1) by (simp add: ready_rep_def)
  have "rqs s' Q" by (rule rqs_frame [OF rq assms(2-4)]) (use ready_rep_mem [OF assms(1)] assms(6) in blast)
  moreover have "t_state (thr s' t) = TReady \<longleftrightarrow> t \<in> set (Q (t_priority (thr s' t)))" for t
    using ready_rep_mem [OF assms(1)] assms(5,6) rqs_prio [OF \<open>rqs s' Q\<close>] by metis
  ultimately show ?thesis by (simp add: ready_rep_def)
qed

text \<open>Putting a thread that is not ready on the queue of the priority it is given.\<close>

lemma enqueue_rqs:
  assumes "ready_rep s Q" and "t_state (thr s t) \<noteq> TReady"
  shows "rqs (upd_thread t f s) Q" and "t \<notin> set (Q p)"
proof -
  show nt: "t \<notin> set (Q p)" for p using ready_rep_mem [OF assms(1)] assms(2) by blast
  have rq: "rqs s Q" using assms(1) by (simp add: ready_rep_def)
  show "rqs (upd_thread t f s) Q" by (rule rqs_frame [OF rq]) (use nt in auto)
qed

lemma enqueue_head:
  assumes "ready_rep s Q" and "t_state (thr s t) \<noteq> TReady" and "t_state (f (thr s t)) = TReady"
    and "t_priority (f (thr s t)) = p" and "p < 32"
  shows "ready_rep (insert_ready_head t (upd_thread t f s)) (Q(p := t # Q p))"
proof -
  note r = enqueue_rqs [OF assms(1,2)]
  have "rqs (insert_ready_head t (upd_thread t f s)) (Q(p := t # Q p))"
    using assms r by (intro insert_ready_head_rqs) simp_all
  then show ?thesis using assms ready_rep_mem [OF assms(1)] r(2) by (auto simp: ready_rep_def)
qed

lemma enqueue_tail:
  assumes "ready_rep s Q" and "t_state (thr s t) \<noteq> TReady" and "t_state (f (thr s t)) = TReady"
    and "t_priority (f (thr s t)) = p" and "p < 32"
  shows "ready_rep (insert_ready_tail t (upd_thread t f s)) (Q(p := Q p @ [t]))"
proof -
  note r = enqueue_rqs [OF assms(1,2)]
  have "rqs (insert_ready_tail t (upd_thread t f s)) (Q(p := Q p @ [t]))"
    using assms r by (intro insert_ready_tail_rqs) simp_all
  then show ?thesis using assms ready_rep_mem [OF assms(1)] r(2) by (auto simp: ready_rep_def)
qed

lemma dequeue:
  assumes "ready_rep s Q" and "t_state (thr s t) = TReady" and "t_state (f (thr (remove_from_ready_queue t s) t)) \<noteq> TReady"
  shows "ready_rep (upd_thread t f (remove_from_ready_queue t s)) (Q(t_priority (thr s t) := remove1 t (Q (t_priority (thr s t)))))"
proof -
  let ?p = "t_priority (thr s t)"
  have rq: "rqs s Q" using assms(1) by (simp add: ready_rep_def)
  have "t \<in> set (Q ?p)" using assms(1,2) by (simp add: ready_rep_def)
  then obtain xs ys where Q: "Q ?p = xs @ t # ys" by (meson split_list)
  have "distinct (Q ?p)" by (rule dlist_fields [OF rqs_dlist [OF rq]])
  then have nt: "t \<notin> set xs" "t \<notin> set ys" using Q by auto
  then have rm: "remove1 t (Q ?p) = xs @ ys" using Q by (simp add: remove1_append)
  have r: "rqs (remove_from_ready_queue t s) (Q(?p := xs @ ys))" by (rule remove_from_ready_queue_rqs [OF rq Q])
  have nm: "t \<notin> set ((Q(?p := xs @ ys)) p)" for p using nt ready_rep_mem [OF assms(1), of t p] by auto
  have "rqs (upd_thread t f (remove_from_ready_queue t s)) (Q(?p := xs @ ys))"
    using nm by (intro rqs_frame [OF r]) auto
  moreover have "t_state (thr (upd_thread t f (remove_from_ready_queue t s)) x) = TReady \<longleftrightarrow>
      x \<in> set ((Q(?p := xs @ ys)) (t_priority (thr (upd_thread t f (remove_from_ready_queue t s)) x)))" for x
  proof (cases "x = t")
    case True
    with assms(3) nm show ?thesis by auto
  next
    case False
    then show ?thesis using ready_rep_mem [OF assms(1), of x "t_priority (thr s x)"] Q by auto
  qed
  ultimately show ?thesis unfolding ready_rep_def rm by blast
qed


section \<open>Every operation keeps the invariant\<close>

lemma upd_thread_twice [simp]: "upd_thread t f (upd_thread t g s) = upd_thread t (\<lambda>r. f (g r)) s"
  by (simp add: upd_thread_def)

lemma ready_inv_cong:
  assumes "threads s' = threads s" "ready_queue_head s' = ready_queue_head s" "ready_queue_tail s' = ready_queue_tail s"
    "thread_ready_summary s' = thread_ready_summary s"
  shows "ready_inv s' \<longleftrightarrow> ready_inv s"
  using assms by (simp add: ready_inv_def ready_rep_def rqs_def)

lemma sched_upd_dpc [simp]:
  "threads (upd_dpc d f s) = threads s" "ready_queue_head (upd_dpc d f s) = ready_queue_head s"
  "ready_queue_tail (upd_dpc d f s) = ready_queue_tail s" "thread_ready_summary (upd_dpc d f s) = thread_ready_summary s"
  "cur (upd_dpc d f s) = cur s"
  by (simp_all add: upd_dpc_def)

lemma ready_inv_global [simp]:
  "ready_inv (s\<lparr>preempt := b\<rparr>) = ready_inv s" "ready_inv (s\<lparr>cur := t\<rparr>) = ready_inv s"
  "ready_inv (s\<lparr>in_dpc := b\<rparr>) = ready_inv s" "ready_inv (s\<lparr>dpc_queue_head := h\<rparr>) = ready_inv s"
  "ready_inv (s\<lparr>dpc_queue_tail := h\<rparr>) = ready_inv s" "ready_inv (s\<lparr>dpc_total := n\<rparr>) = ready_inv s"
  "ready_inv (upd_dpc d f s) = ready_inv s"
  by (rule ready_inv_cong; simp)+

lemma ready_inv_repE:
  assumes "ready_inv s"
  obtains Q where "ready_rep s Q" "\<And>t. t_priority (thr s t) < 32" "\<And>t. t_base_priority (thr s t) < 32"
    "\<And>t. t_state (thr s t) = TReady \<Longrightarrow> t_suspend_count (thr s t) = 0"
  using assms unfolding ready_inv_def by blast

lemma ready_inv_upd:
  assumes "ready_inv s" and "t_state (thr s t) \<noteq> TReady" and "t_state (f (thr s t)) \<noteq> TReady"
    and "t_priority (f (thr s t)) < 32" and "t_base_priority (f (thr s t)) < 32"
  shows "ready_inv (upd_thread t f s)"
proof -
  from assms(1) obtain Q where Q: "ready_rep s Q" by (rule ready_inv_repE)
  have "ready_rep (upd_thread t f s) Q" using assms(2,3) by (intro ready_rep_frame [OF Q]) auto
  then show ?thesis using assms by (auto simp: ready_inv_def)
qed

lemma ready_inv_upd_keep:
  assumes "ready_inv s" and "\<And>r. t_state (f r) = t_state r" "\<And>r. t_priority (f r) = t_priority r"
    "\<And>r. t_base_priority (f r) = t_base_priority r" "\<And>r. t_suspend_count (f r) = t_suspend_count r"
    "\<And>r. t_next_ready (f r) = t_next_ready r" "\<And>r. t_prev_ready (f r) = t_prev_ready r"
  shows "ready_inv (upd_thread t f s)"
proof -
  from assms(1) obtain Q where Q: "ready_rep s Q" by (rule ready_inv_repE)
  have "ready_rep (upd_thread t f s) Q" using assms(2-) by (intro ready_rep_frame [OF Q]) auto
  then show ?thesis using assms by (auto simp: ready_inv_def)
qed

lemma boosted_less: "t_priority r < 32 \<Longrightarrow> boosted r boost < 32"
  by (simp add: boosted_def Let_def PRIORITY_TIME_CRITICAL_def min_def)

text \<open>What \<^verbatim>\<open>mark_thread_ready\<close> leaves alone, and when it stops the machine.\<close>

lemma mark_thread_ready_keeps:
  assumes "mark_thread_ready t charge boost s = Some s'"
  shows "x \<noteq> t \<Longrightarrow> t_state (thr s' x) = t_state (thr s x)"
    "t_suspend_count (thr s' x) = t_suspend_count (thr s x)" "t_base_priority (thr s' x) = t_base_priority (thr s x)"
    "t_waitkey (thr s' x) = t_waitkey (thr s x)" "t_waitlist (thr s' x) = t_waitlist (thr s x)"
    "t_exitcode (thr s' x) = t_exitcode (thr s x)" "t_interrupted (thr s' x) = t_interrupted (thr s x)"
    "t_alertable (thr s' x) = t_alertable (thr s x)"
    "t_state (thr s' t) = (if t_suspend_count (thr s t) > 0 then TSuspended else TReady)"
    "x \<noteq> t \<Longrightarrow> t_priority (thr s' x) = t_priority (thr s x)"
    "cur s' = cur s" "sched.more s' = sched.more s"
    "dpcs s' = dpcs s" "dpc_queue_head s' = dpc_queue_head s" "dpc_queue_tail s' = dpc_queue_tail s" "in_dpc s' = in_dpc s"
  using assms by (auto simp: mark_thread_ready_def Let_def split: if_splits)

text \<open>A thread without its links in the ready queues.\<close>

definition unqueued :: "thread \<Rightarrow> thread" where
  "unqueued r = r\<lparr>t_next_ready := None, t_prev_ready := None\<rparr>"

lemma unqueued_insert:
  "unqueued (thr (insert_ready_head t s) u) = unqueued (thr s u)" "unqueued (thr (insert_ready_tail t s) u) = unqueued (thr s u)"
  by (auto simp: insert_ready_head_def insert_ready_tail_def unqueued_def Let_def split: option.splits)

lemma mark_thread_ready_others:
  assumes "mark_thread_ready t charge boost s = Some s'" and "u \<noteq> t"
  shows "unqueued (thr s' u) = unqueued (thr s u)"
  using assms by (auto simp: mark_thread_ready_def Let_def unqueued_insert split: if_splits)

lemma mark_thread_ready_panic:
  "mark_thread_ready t charge boost s = None \<longleftrightarrow>
     t_suspend_count (thr s t) = 0 \<and> \<not> t_interrupted (thr s t) \<and> t_state (thr s t) = TReady"
  by (auto simp: mark_thread_ready_def Let_def)

text \<open>A thread that is neither ready nor suspended is queued at the priority and place the code chooses.\<close>

definition ready_prio :: "thread \<Rightarrow> int \<Rightarrow> nat \<Rightarrow> nat" where
  "ready_prio r charge boost =
     (let b = boosted r boost in if t_quantum r - charge \<le> 0 \<and> t_base_priority r < b then b - 1 else b)"

lemma mark_thread_ready_rep:
  assumes "ready_rep s Q" and "t_state (thr s t) \<noteq> TReady" and "t_suspend_count (thr s t) = 0"
    and "t_priority (thr s t) < 32" and "p = ready_prio (thr s t) charge boost"
    and "mark_thread_ready t charge boost s = Some s'"
  shows "ready_rep s' (Q(p := if t_quantum (thr s t) - charge > 0 then t # Q p else Q p @ [t]))" and "p < 32"
    and "t_priority (thr s' t) = p"
    and "t_quantum (thr s' t) = (if t_quantum (thr s t) - charge > 0 then t_quantum (thr s t) - charge else DEFAULT_QUANTUM)"
    and "preempt s' = (preempt s \<or> p > (if t = cur s then p else t_priority (thr s (cur s))))"
proof -
  have b: "boosted (thr s t) boost < 32" by (rule boosted_less [OF assms(4)])
  then show p: "p < 32" using assms(5) by (simp add: ready_prio_def Let_def) linarith
  let ?h = "\<lambda>r. r\<lparr>t_quantum := t_quantum r - charge, t_priority := boosted r boost, t_state := TReady\<rparr>"
  let ?l = "\<lambda>r. r\<lparr>t_state := TReady, t_quantum := DEFAULT_QUANTUM, t_priority := ready_prio r charge boost\<rparr>"
  have rep_pre: "ready_rep (s2\<lparr>preempt := True\<rparr>) Q' = ready_rep s2 Q'" for Q' and s2 :: "'a sched_scheme"
    by (simp add: ready_rep_def rqs_def)
  have "ready_rep s' (Q(p := if t_quantum (thr s t) - charge > 0 then t # Q p else Q p @ [t])) \<and> t_priority (thr s' t) = p \<and>
    t_quantum (thr s' t) = (if t_quantum (thr s t) - charge > 0 then t_quantum (thr s t) - charge else DEFAULT_QUANTUM) \<and>
    preempt s' = (preempt s \<or> p > (if t = cur s then p else t_priority (thr s (cur s))))"
  proof (cases "t_quantum (thr s t) - charge > 0")
    case True
    have "ready_rep (insert_ready_head t (upd_thread t ?h s)) (Q(p := t # Q p))"
      using assms(2,5) p True by (intro enqueue_head [OF assms(1)]) (simp_all add: ready_prio_def Let_def)
    then show ?thesis using assms(2,3,5,6) True
      by (auto simp: mark_thread_ready_def Let_def ready_prio_def rep_pre split: if_splits)
  next
    case False
    have "ready_rep (insert_ready_tail t (upd_thread t ?l s)) (Q(p := Q p @ [t]))"
      using assms(2,5) p by (intro enqueue_tail [OF assms(1)]) simp_all
    then show ?thesis using assms(2,3,5,6) False
      by (auto simp: mark_thread_ready_def Let_def ready_prio_def rep_pre upd_thread_def split: if_splits)
  qed
  then show "ready_rep s' (Q(p := if t_quantum (thr s t) - charge > 0 then t # Q p else Q p @ [t]))"
    "t_priority (thr s' t) = p"
    "t_quantum (thr s' t) = (if t_quantum (thr s t) - charge > 0 then t_quantum (thr s t) - charge else DEFAULT_QUANTUM)"
    "preempt s' = (preempt s \<or> p > (if t = cur s then p else t_priority (thr s (cur s))))" by blast+
qed

lemma mark_thread_ready_inv:
  assumes "ready_inv s" and "mark_thread_ready t charge boost s = Some s'"
  shows "ready_inv s'"
proof -
  obtain Q where Q: "ready_rep s Q" "\<And>t. t_priority (thr s t) < 32" "\<And>t. t_base_priority (thr s t) < 32"
    "\<And>t. t_state (thr s t) = TReady \<Longrightarrow> t_suspend_count (thr s t) = 0"
    using ready_inv_repE [OF assms(1)] by blast
  note k = mark_thread_ready_keeps [OF assms(2)]
  consider (susp) "t_suspend_count (thr s t) > 0" | (same) "t_suspend_count (thr s t) = 0" "t_state (thr s t) = TReady"
    | (norm) "t_suspend_count (thr s t) = 0" "t_state (thr s t) \<noteq> TReady" by blast
  then show ?thesis
  proof cases
    case susp
    then have "t_state (thr s t) \<noteq> TReady" using Q(4) [of t] by auto
    with susp assms Q(2,3) show ?thesis by (auto simp: mark_thread_ready_def intro!: ready_inv_upd)
  next
    case same
    with assms show ?thesis by (auto simp: mark_thread_ready_def Let_def split: if_splits)
  next
    case norm
    note r = mark_thread_ready_rep [OF Q(1) norm(2,1) Q(2) refl assms(2)]
    have "t_priority (thr s' x) < 32" for x using r(2,3) Q(2) k(10) by (cases "x = t") simp_all
    moreover have "t_state (thr s' x) = TReady \<Longrightarrow> t_suspend_count (thr s' x) = 0" for x
      using norm(1) Q(4) k(1,2) by (cases "x = t") auto
    ultimately show ?thesis using r(1) Q(3) k(3) unfolding ready_inv_def by auto
  qed
qed


section \<open>Switching threads\<close>

text \<open>
  While a thread is being switched no thread is running. The procedures that are called
  from \<^verbatim>\<open>dispatch\<close> may make threads ready, the current one included, but neither
  switch threads nor leave the ready queues inconsistent: the hypothesis \<open>exec_ok\<close>.
\<close>

definition disp_inv :: "'a sched_scheme \<Rightarrow> bool" where
  "disp_inv s \<longleftrightarrow> ready_inv s \<and> (\<forall>t. t_state (thr s t) \<noteq> TRunning)"

definition exec_ok :: "'a exec \<Rightarrow> bool" where
  "exec_ok exec \<longleftrightarrow> (\<forall>p a s s'. disp_inv s \<longrightarrow> exec p a s = Some s' \<longrightarrow> disp_inv s' \<and> cur s' = cur s)"

lemma disp_inv_global [simp]:
  "disp_inv (s\<lparr>preempt := b\<rparr>) = disp_inv s" "disp_inv (s\<lparr>in_dpc := b\<rparr>) = disp_inv s"
  "disp_inv (s\<lparr>dpc_queue_head := h\<rparr>) = disp_inv s" "disp_inv (s\<lparr>dpc_queue_tail := h\<rparr>) = disp_inv s"
  "disp_inv (s\<lparr>dpc_total := n\<rparr>) = disp_inv s" "disp_inv (upd_dpc d f s) = disp_inv s"
  by (simp_all add: disp_inv_def)

lemma get_next_dpc_disp: "get_next_dpc s = (r, s') \<Longrightarrow> disp_inv s \<Longrightarrow> disp_inv s' \<and> cur s' = cur s"
  by (auto simp: get_next_dpc_def Let_def split: option.splits if_splits)

lemma run_dpc_disp:
  assumes "exec_ok exec" "disp_inv s" "run_dpc exec d s = Some s'"
  shows "disp_inv s' \<and> cur s' = cur s"
proof (cases "d_executing (dpcs s d)")
  case True
  with assms show ?thesis by (auto simp: run_dpc_def)
next
  case False
  let ?s1 = "upd_dpc d (\<lambda>r. r\<lparr>d_executing := True\<rparr>) (upd_dpc d (\<lambda>r. r\<lparr>d_queued := False\<rparr>) s)"
  from assms(3) False obtain s2 where s2: "exec (d_proc (dpcs s d)) (d_arg (dpcs s d)) ?s1 = Some s2"
    and s': "s' = (upd_dpc d (\<lambda>r. r\<lparr>d_executing := False\<rparr>) s2)\<lparr>dpc_total := dpc_total s2 + 1\<rparr>"
    by (auto simp: run_dpc_def Let_def split: bind_splits)
  have "disp_inv ?s1" using assms(2) by simp
  with assms(1) s2 have "disp_inv s2 \<and> cur s2 = cur ?s1" unfolding exec_ok_def by blast
  then show ?thesis using s' by simp
qed

lemma dpc_loop_disp:
  "exec_ok exec \<Longrightarrow> disp_inv s \<Longrightarrow> dpc_loop exec fuel s = Some s' \<Longrightarrow> disp_inv s' \<and> cur s' = cur s"
proof (induction fuel arbitrary: s)
  case (Suc n)
  obtain r s1 where g: "get_next_dpc s = (r, s1)" by fastforce
  note i = get_next_dpc_disp [OF g Suc.prems(2)]
  show ?case
  proof (cases r)
    case None
    with g i Suc.prems show ?thesis by simp
  next
    case (Some d)
    with g Suc.prems obtain s2 where "run_dpc exec d s1 = Some s2" "dpc_loop exec n s2 = Some s'"
      by (auto split: bind_splits)
    with run_dpc_disp [OF Suc.prems(1)] Suc.IH [OF Suc.prems(1)] i show ?thesis by metis
  qed
qed simp

lemma check_dpc_queue_disp:
  assumes "exec_ok exec" "disp_inv s" "check_dpc_queue exec fuel s = Some s'"
  shows "disp_inv s' \<and> cur s' = cur s"
proof (cases "dpc_queue_head s = None")
  case True
  with assms show ?thesis by (simp add: check_dpc_queue_def)
next
  case False
  with assms(3) obtain s1 where "dpc_loop exec fuel (s\<lparr>in_dpc := True\<rparr>) = Some s1" "s' = s1\<lparr>in_dpc := False\<rparr>"
    by (auto simp: check_dpc_queue_def dispatch_dpc_queue_def split: bind_splits if_splits)
  with dpc_loop_disp [OF assms(1), of "s\<lparr>in_dpc := True\<rparr>" fuel s1] assms(2) show ?thesis by simp
qed

text \<open>The thread that is switched to: first of its queue, and none of higher priority is ready.\<close>

lemma dispatch_cases:
  assumes "dispatch exec fuel s = Some s'"
  obtains s1 t s2 where "check_dpc_queue exec fuel (s\<lparr>preempt := False\<rparr>) = Some s1"
    "find_ready_thread s1 = Some (Some t, s2)" "t = cur s" "s' = upd_thread t (\<lambda>r. r\<lparr>t_state := TRunning\<rparr>) s2"
  | s1 t s2 b where "check_dpc_queue exec fuel (s\<lparr>preempt := False\<rparr>) = Some s1"
    "find_ready_thread s1 = Some (Some t, s2)" "t \<noteq> cur s"
    "s' = (upd_thread t (\<lambda>r. r\<lparr>t_fpu_enabled := (t_fpu_enabled r \<and> b), t_state := TRunning,
             t_context_switches := t_context_switches r + 1\<rparr>) s2)\<lparr>cur := t\<rparr>"
proof -
  from assms obtain s1 t s2 where d: "check_dpc_queue exec fuel (s\<lparr>preempt := False\<rparr>) = Some s1"
    "find_ready_thread s1 = Some (Some t, s2)"
    and s': "s' = (if t = cur s then upd_thread t (\<lambda>r. r\<lparr>t_state := TRunning\<rparr>) s2
      else mark_thread_running ((if t_fpu_enabled (thr s2 (cur s)) then upd_thread t (\<lambda>r. r\<lparr>t_fpu_enabled := False\<rparr>) s2 else s2)\<lparr>cur := t\<rparr>))"
    by (auto simp: dispatch_def Let_def split: bind_splits if_splits)
  show thesis
  proof (cases "t = cur s")
    case True
    with d s' that(1) show thesis by simp
  next
    case False
    with s' have "s' = (upd_thread t (\<lambda>r. r\<lparr>t_fpu_enabled := (t_fpu_enabled r \<and> \<not> t_fpu_enabled (thr s2 (cur s))), t_state := TRunning,
        t_context_switches := t_context_switches r + 1\<rparr>) s2)\<lparr>cur := t\<rparr>"
      by (simp add: mark_thread_running_def upd_thread_def)
    with d False that(2) show thesis by blast
  qed
qed

lemma run_selected:
  assumes "ready_rep s1 Q" "find_ready_thread s1 = Some (Some t, s2)"
    "ready_inv s1" "\<forall>x. t_state (thr s1 x) \<noteq> TRunning"
    "\<And>r. t_state (f r) = TRunning \<and> t_priority (f r) = t_priority r \<and> t_base_priority (f r) = t_base_priority r \<and>
       t_suspend_count (f r) = t_suspend_count r"
  shows "sched_ok ((upd_thread t f s2)\<lparr>cur := t\<rparr>)"
    and "\<exists>p ts. Q p = t # ts \<and> (\<forall>q. Q q \<noteq> [] \<longrightarrow> q \<le> p) \<and> ready_rep (upd_thread t f s2) (Q(p := ts))"
proof -
  note k = find_ready_thread_keeps [OF assms(2)]
  have rq: "rqs s1 Q" using assms(1) by (simp add: ready_rep_def)
  have "\<exists>q. Q q \<noteq> []"
  proof (rule ccontr)
    assume "\<nexists>q. Q q \<noteq> []"
    then have "Q q = []" for q by blast
    then have "ready_queue_head s1 p = None" for p using rqs_ends(3) [OF rq] by simp
    with assms(2) show False by (auto simp: find_ready_thread_def Let_def split: if_splits)
  qed
  then obtain q where "Q q \<noteq> []" by blast
  from find_ready_thread_rqs [OF rq this] obtain p ts where
    Q: "Q p = t # ts" "\<forall>q. Q q \<noteq> [] \<longrightarrow> q \<le> p" "rqs s2 (Q(p := ts))" using assms(2) by (metis option.inject prod.inject)
  have t: "t_state (thr s1 t) = TReady" "t_priority (thr s1 t) = p" using ready_rep_mem [OF assms(1), of t p] Q(1) by simp_all
  have dis: "t \<notin> set ts" using dlist_fields(3) [OF rqs_dlist [OF rq, of p]] Q(1) by simp
  have nm: "t \<notin> set ((Q(p := ts)) q)" for q using dis ready_rep_mem [OF assms(1), of t q] t by auto
  have "rqs (upd_thread t f s2) (Q(p := ts))" by (rule rqs_frame [OF Q(3)]) (use nm in auto)
  moreover have "t_state (thr (upd_thread t f s2) x) = TReady \<longleftrightarrow>
      x \<in> set ((Q(p := ts)) (t_priority (thr (upd_thread t f s2) x)))" for x
  proof (cases "x = t")
    case True
    with assms(5) nm show ?thesis by auto
  next
    case False
    then show ?thesis using ready_rep_mem [OF assms(1), of x "t_priority (thr s1 x)"] Q(1) k(1,2) by auto
  qed
  ultimately have rep: "ready_rep (upd_thread t f s2) (Q(p := ts))" by (simp add: ready_rep_def)
  then show "\<exists>p ts. Q p = t # ts \<and> (\<forall>q. Q q \<noteq> [] \<longrightarrow> q \<le> p) \<and> ready_rep (upd_thread t f s2) (Q(p := ts))"
    using Q by blast
  have "ready_inv (upd_thread t f s2)" using rep assms(3,5) k(1-4) unfolding ready_inv_def by auto
  moreover have "t_suspend_count (thr s1 t) = 0" using assms(3) t(1) by (simp add: ready_inv_def)
  ultimately show "sched_ok ((upd_thread t f s2)\<lparr>cur := t\<rparr>)"
    using assms(4,5) k(1,4) by (auto simp: sched_ok_def)
qed

lemma dispatch_ok:
  assumes "exec_ok exec" "disp_inv s" "dispatch exec fuel s = Some s'"
  shows "sched_ok s'"
  using assms(3)
proof (cases rule: dispatch_cases [case_names same switch])
  case (same s1 t s2)
  have d: "disp_inv s1" "cur s1 = cur s" using check_dpc_queue_disp [OF assms(1) _ same(1)] assms(2) by simp_all
  then obtain Q where "ready_rep s1 Q" by (auto simp: disp_inv_def ready_inv_def)
  from run_selected(1) [OF this same(2), of "\<lambda>r. r\<lparr>t_state := TRunning\<rparr>"] d same(3,4) find_ready_thread_keeps(10) [OF same(2)]
  show ?thesis by (simp add: disp_inv_def sched_ok_def)
next
  case (switch s1 t s2 b)
  have d: "disp_inv s1" using check_dpc_queue_disp [OF assms(1) _ switch(1)] assms(2) by simp
  then obtain Q where "ready_rep s1 Q" by (auto simp: disp_inv_def ready_inv_def)
  from run_selected(1) [OF this switch(2)] d show ?thesis unfolding switch(4) by (simp add: disp_inv_def)
qed


lemma sched_ok_fields:
  assumes "sched_ok s"
  shows "ready_inv s" "t_state (thr s (cur s)) = TRunning" "t_suspend_count (thr s (cur s)) = 0"
    "\<And>t. t_state (thr s t) = TRunning \<longleftrightarrow> t = cur s" "\<And>t. t_priority (thr s t) < 32" "\<And>t. t_base_priority (thr s t) < 32"
    "t_state (thr s (cur s)) \<noteq> TReady"
proof -
  show run: "t_state (thr s (cur s)) = TRunning" using assms unfolding sched_ok_def by blast
  then show "t_state (thr s (cur s)) \<noteq> TReady" by simp
qed (use assms in \<open>auto simp: sched_ok_def ready_inv_def\<close>)

lemma stop_current:
  assumes "sched_ok s" and "t_state (f (thr s (cur s))) \<noteq> TReady" "t_state (f (thr s (cur s))) \<noteq> TRunning"
    and "\<And>r. t_priority (f r) = t_priority r" "\<And>r. t_base_priority (f r) = t_base_priority r"
  shows "disp_inv (upd_thread (cur s) f s)"
proof -
  note o = sched_ok_fields [OF assms(1)]
  have "ready_inv (upd_thread (cur s) f s)" using assms(2,4,5) o by (intro ready_inv_upd) simp_all
  then show ?thesis using assms(3) o(4) by (simp add: disp_inv_def)
qed

lemma sched_ok_upd_current:
  assumes "sched_ok s" and "t_state (f (thr s t)) = t_state (thr s t)" "t_priority (f (thr s t)) < 32" "t_base_priority (f (thr s t)) < 32"
    "t = cur s \<Longrightarrow> t_suspend_count (f (thr s t)) = 0" "t_state (thr s t) \<noteq> TReady"
  shows "sched_ok (upd_thread t f s)"
proof -
  note o = sched_ok_fields [OF assms(1)]
  have "ready_inv (upd_thread t f s)" using assms o by (intro ready_inv_upd) simp_all
  then show ?thesis using assms o by (auto simp: sched_ok_def)
qed

text \<open>The current thread is marked ready just before it is switched away from.\<close>

lemma mark_current_ready:
  assumes "sched_ok s" and "\<And>r. t_state (f r) = t_state r \<and> t_suspend_count (f r) = t_suspend_count r"
    and "t_priority (f (thr s (cur s))) < 32" "t_base_priority (f (thr s (cur s))) < 32"
    and "mark_thread_ready (cur s) charge boost (upd_thread (cur s) f s) = Some s'"
  shows "disp_inv s'"
proof -
  note o = sched_ok_fields [OF assms(1)]
  note k = mark_thread_ready_keeps [OF assms(5)]
  have "ready_inv (upd_thread (cur s) f s)" using assms(2-4) o by (intro ready_inv_upd) simp_all
  then have "ready_inv s'" using mark_thread_ready_inv assms(5) by blast
  moreover have "t_state (thr s' x) \<noteq> TRunning" for x
    using k(1) [of x] k(9) assms(2) o(3,4) by (cases "x = cur s") auto
  ultimately show ?thesis by (simp add: disp_inv_def)
qed

text \<open>A thread other than the current one is made ready.\<close>

lemma mark_other_ready:
  assumes "sched_ok s" and "t \<noteq> cur s" and "mark_thread_ready t charge boost s = Some s'"
  shows "sched_ok s'"
proof -
  note o = sched_ok_fields [OF assms(1)]
  note k = mark_thread_ready_keeps [OF assms(3)]
  have "t_state (thr s' x) = TRunning \<longleftrightarrow> x = cur s" for x using k(1) [of x] k(9) o(4) assms(2) by (cases "x = t") auto
  then show ?thesis using mark_thread_ready_inv [OF o(1) assms(3)] k(2,11) o(3) by (simp add: sched_ok_def)
qed

lemma preempt_enqueue:
  assumes "sched_ok s" and "t_state (f (thr s (cur s))) = TReady" "t_priority (f (thr s (cur s))) < 32"
    and "\<And>r. t_base_priority (f r) = t_base_priority r \<and> t_suspend_count (f r) = t_suspend_count r"
  shows "disp_inv (insert_ready_tail (cur s) (upd_thread (cur s) f s))"
proof -
  note o = sched_ok_fields [OF assms(1)]
  from o(1) obtain Q where Q: "ready_rep s Q" "\<And>t. t_state (thr s t) = TReady \<Longrightarrow> t_suspend_count (thr s t) = 0"
    by (auto simp: ready_inv_def)
  from enqueue_tail [OF Q(1) o(7), where f = f, OF assms(2) refl assms(3)] have "ready_inv (insert_ready_tail (cur s) (upd_thread (cur s) f s))"
    using Q(2) assms o(3,5,6) unfolding ready_inv_def by auto
  then show ?thesis using assms(2) o(4) by (simp add: disp_inv_def)
qed

lemma preempt_thread_ok:
  assumes "sched_ok s" "exec_ok exec" "preempt_thread exec fuel s = Some s'"
  shows "sched_ok s'"
proof -
  note o = sched_ok_fields [OF assms(1)]
  let ?q = "t_quantum (thr s (cur s))"
  let ?f = "\<lambda>r. if ?q \<le> 0 then r\<lparr>t_preempts := t_preempts r + 1, t_quantum := DEFAULT_QUANTUM,
      t_priority := (if t_priority r > t_base_priority r then t_priority r - 1 else t_priority r), t_state := TReady\<rparr>
    else r\<lparr>t_preempts := t_preempts r + 1, t_state := TReady\<rparr>"
  have "disp_inv (insert_ready_tail (cur s) (upd_thread (cur s) ?f s))"
    by (rule preempt_enqueue [OF assms(1)]) (use o(5) [of "cur s"] in auto)
  moreover have "preempt_thread exec fuel s = dispatch exec fuel (insert_ready_tail (cur s) (upd_thread (cur s) ?f s))"
    by (cases "?q \<le> 0") (simp_all add: preempt_thread_def Let_def cong: if_cong)
  ultimately show ?thesis using dispatch_ok [OF assms(2)] assms(3) by simp
qed

lemma suspend_thread_ok:
  assumes "sched_ok s" "exec_ok exec" "suspend_thread exec fuel t s = Some (n, s')"
  shows "sched_ok s'"
proof -
  note o = sched_ok_fields [OF assms(1)]
  let ?inc = "\<lambda>r. r\<lparr>t_suspend_count := t_suspend_count r + 1\<rparr>"
  consider (nested) "t_suspend_count (thr s t) > 0 \<or> t_state (thr s t) \<noteq> TReady \<and> t_state (thr s t) \<noteq> TRunning"
    | (ready) "t_suspend_count (thr s t) = 0" "t_state (thr s t) = TReady"
    | (running) "t_suspend_count (thr s t) = 0" "t_state (thr s t) = TRunning" by auto
  then show ?thesis
  proof cases
    case nested
    then have "s' = upd_thread t ?inc s" using assms(3) by (auto simp: suspend_thread_def Let_def split: if_splits)
    moreover have "t \<noteq> cur s" "t_state (thr s t) \<noteq> TReady" using nested o by (auto simp: ready_inv_def)
    ultimately show ?thesis using o by (auto intro!: sched_ok_upd_current [OF assms(1)])
  next
    case ready
    then have s': "s' = upd_thread t (\<lambda>r. r\<lparr>t_state := TSuspended\<rparr>) (remove_from_ready_queue t (upd_thread t ?inc s))"
      using assms(3) by (auto simp: suspend_thread_def Let_def)
    from o(1) obtain Q where Q: "ready_rep s Q" "\<And>t. t_state (thr s t) = TReady \<Longrightarrow> t_suspend_count (thr s t) = 0"
      by (auto simp: ready_inv_def)
    have "ready_rep (upd_thread t ?inc s) Q" by (rule ready_rep_frame [OF Q(1)]) auto
    from dequeue [OF this, of t "\<lambda>r. r\<lparr>t_state := TSuspended\<rparr>"] ready
    have "\<exists>Q'. ready_rep s' Q'" unfolding s' by auto
    then have "ready_inv s'" using s' Q(2) o(5,6) by (auto simp: ready_inv_def)
    moreover have "t \<noteq> cur s" using ready o by auto
    ultimately show ?thesis using s' o by (auto simp: sched_ok_def)
  next
    case running
    then have t: "t = cur s" using o by simp
    have "disp_inv (upd_thread (cur s) (\<lambda>r. r\<lparr>t_suspend_count := t_suspend_count r + 1, t_state := TSuspended\<rparr>) s)"
      by (rule stop_current [OF assms(1)]) simp_all
    moreover obtain s2 where "dispatch exec fuel (upd_thread (cur s) (\<lambda>r. r\<lparr>t_suspend_count := t_suspend_count r + 1, t_state := TSuspended\<rparr>) s) = Some s2"
      "s' = s2" using assms(3) running t by (auto simp: suspend_thread_def Let_def split: bind_splits)
    ultimately show ?thesis using dispatch_ok [OF assms(2)] by blast
  qed
qed

lemma resume_thread_ok:
  assumes "sched_ok s" "resume_thread t s = Some (n, s')"
  shows "sched_ok s'"
proof (cases "t_suspend_count (thr s t) > 0")
  case False
  with assms show ?thesis by (simp add: resume_thread_def)
next
  case True
  note o = sched_ok_fields [OF assms(1)]
  let ?s1 = "upd_thread t (\<lambda>r. r\<lparr>t_suspend_count := t_suspend_count r - 1\<rparr>) s"
  have t: "t \<noteq> cur s" "t_state (thr s t) \<noteq> TReady" using True o by (auto simp: ready_inv_def)
  have ok: "sched_ok ?s1" using t o by (intro sched_ok_upd_current [OF assms(1)]) auto
  from assms(2) True have "s' = ?s1 \<or> mark_thread_ready t 0 0 ?s1 = Some s'"
    by (auto simp: resume_thread_def Let_def split: if_splits bind_splits)
  with ok mark_other_ready [OF ok] t(1) show ?thesis by auto
qed

lemma interrupt_thread_ok:
  assumes "sched_ok s" "interrupt_thread t s = Some (rc, s')"
  shows "sched_ok s'"
proof (cases "t_state (thr s t) = TWaiting \<and> t_alertable (thr s t)")
  case False
  with assms show ?thesis by (auto simp: interrupt_thread_def split: if_splits)
next
  case True
  note o = sched_ok_fields [OF assms(1)]
  let ?s1 = "upd_thread t (\<lambda>r. r\<lparr>t_interrupted := True\<rparr>) s"
  have t: "t \<noteq> cur s" using True o(2) by auto
  have ok: "sched_ok ?s1" using True t o by (intro sched_ok_upd_current [OF assms(1)]) auto
  from assms(2) True have "mark_thread_ready t 1 1 ?s1 = Some s'"
    by (auto simp: interrupt_thread_def split: bind_splits)
  with mark_other_ready [OF ok] t show ?thesis by auto
qed

lemma set_ready_priority:
  assumes "sched_ok s" "t_state (thr s t) = TReady" "prio < 32"
  shows "sched_ok (upd_thread t (\<lambda>r. r\<lparr>t_state := TTransition\<rparr>)
    (upd_thread t (\<lambda>r. r\<lparr>t_base_priority := prio, t_priority := prio\<rparr>) (remove_from_ready_queue t s)))" (is "sched_ok ?s'")
proof -
  note o = sched_ok_fields [OF assms(1)]
  from o(1) obtain Q where Q: "ready_rep s Q" "\<And>t. t_state (thr s t) = TReady \<Longrightarrow> t_suspend_count (thr s t) = 0"
    by (auto simp: ready_inv_def)
  have "\<exists>Q'. ready_rep ?s' Q'"
    using dequeue [OF Q(1) assms(2), of "\<lambda>r. r\<lparr>t_base_priority := prio, t_priority := prio, t_state := TTransition\<rparr>"] by auto
  then have "ready_inv ?s'" using Q(2) o(5,6) assms(3) by (auto simp: ready_inv_def)
  moreover have "t \<noteq> cur s" using assms(2) o(2) by auto
  ultimately show ?thesis using o by (auto simp: sched_ok_def)
qed

lemma set_thread_priority_ok:
  assumes "sched_ok s" "exec_ok exec" "set_thread_priority exec fuel t priority s = Some (rc, s')"
  shows "sched_ok s'"
proof -
  note o = sched_ok_fields [OF assms(1)]
  let ?p = "nat priority"
  let ?f = "\<lambda>r. r\<lparr>t_base_priority := ?p, t_priority := ?p\<rparr>"
  note def = assms(3) [unfolded set_thread_priority_def Let_def THREAD_PRIORITY_LEVELS_def]
  show ?thesis
  proof (cases "priority < 0 \<or> priority \<ge> 32 \<or> t_base_priority (thr s t) = ?p")
    case True
    with def assms(1) show ?thesis by (auto split: if_splits)
  next
    case False
    then have p: "?p < 32" "\<not> (priority < 0 \<or> priority \<ge> int 32)" "t_base_priority (thr s t) \<noteq> ?p" by auto
    consider (lower) "t = cur s" "?p < t_priority (thr s t)"
      | (set) "t = cur s \<and> \<not> ?p < t_priority (thr s t) \<or> t \<noteq> cur s \<and> t_state (thr s t) \<noteq> TReady"
      | (ready) "t \<noteq> cur s" "t_state (thr s t) = TReady" by blast
    then show ?thesis
    proof cases
      case set
      then have "s' = upd_thread t ?f s" "t_state (thr s t) \<noteq> TReady" using def p(2,3) o(7) by auto
      with p(1) o(3) show ?thesis by (auto intro!: sched_ok_upd_current [OF assms(1)])
    next
      case lower
      then obtain s1 where s1: "mark_thread_ready (cur s) 0 0 (upd_thread (cur s) ?f s) = Some s1" "dispatch exec fuel s1 = Some s'"
        using def p(2,3) by (simp split: bind_splits)
      have "disp_inv s1" by (rule mark_current_ready [OF assms(1) _ _ _ s1(1)]) (use p(1) in simp_all)
      with s1(2) dispatch_ok [OF assms(2)] show ?thesis by blast
    next
      case ready
      then have "mark_thread_ready t 0 0 (upd_thread t (\<lambda>r. r\<lparr>t_state := TTransition\<rparr>)
          (upd_thread t ?f (remove_from_ready_queue t s))) = Some s'"
        using def p(2,3) by (simp split: bind_splits)
      from mark_other_ready [OF set_ready_priority [OF assms(1) ready(2) p(1)] _ this] ready(1) show ?thesis by simp
    qed
  qed
qed


section \<open>Runs of the scheduler\<close>

text \<open>
  The steps by which the rest of the kernel drives the scheduler. A thread other than the
  current one is made ready when an object it waits for is signalled; the current thread
  gives up the processor by yielding, waiting, being preempted or being suspended.
\<close>

inductive sched_step :: "'a exec \<Rightarrow> nat \<Rightarrow> 'a sched_scheme \<Rightarrow> 'a sched_scheme \<Rightarrow> bool" for exec fuel where
  Yield: "yield exec fuel s = Some s' \<Longrightarrow> sched_step exec fuel s s'"
| Preempt: "preempt_thread exec fuel s = Some s' \<Longrightarrow> sched_step exec fuel s s'"
| Wait: "enter_wait exec fuel reason s = Some s' \<Longrightarrow> sched_step exec fuel s s'"
| AlertableWait: "enter_alertable_wait exec fuel reason s = Some (c, s') \<Longrightarrow> sched_step exec fuel s s'"
| AlertableResume: "resume_alertable_wait s = (rc, s') \<Longrightarrow> sched_step exec fuel s s'"
| Wake: "t \<noteq> cur s \<Longrightarrow> mark_thread_ready t charge boost s = Some s' \<Longrightarrow> sched_step exec fuel s s'"
| Interrupt: "interrupt_thread t s = Some (rc, s') \<Longrightarrow> sched_step exec fuel s s'"
| Suspend: "suspend_thread exec fuel t s = Some (n, s') \<Longrightarrow> sched_step exec fuel s s'"
| Resume: "resume_thread t s = Some (n, s') \<Longrightarrow> sched_step exec fuel s s'"
| SetPriority: "set_thread_priority exec fuel t priority s = Some (rc, s') \<Longrightarrow> sched_step exec fuel s s'"

lemma yield_ok:
  assumes "sched_ok s" "exec_ok exec" "yield exec fuel s = Some s'"
  shows "sched_ok s'"
proof -
  note o = sched_ok_fields [OF assms(1)]
  from assms(3) obtain s1 where s1: "mark_thread_ready (cur s) 0 0 (upd_thread (cur s) (\<lambda>r. r\<lparr>t_quantum := 0\<rparr>) s) = Some s1"
    "dispatch exec fuel s1 = Some s'" by (auto simp: yield_def split: bind_splits)
  have "disp_inv s1" by (rule mark_current_ready [OF assms(1) _ _ _ s1(1)]) (use o(5,6) in simp_all)
  with s1(2) dispatch_ok [OF assms(2)] show ?thesis by blast
qed

lemma enter_wait_ok:
  assumes "sched_ok s" "exec_ok exec" "enter_wait exec fuel reason s = Some s'"
  shows "sched_ok s'"
proof -
  have "disp_inv (upd_thread (cur s) (\<lambda>r. r\<lparr>t_state := TWaiting, t_wait_reason := reason\<rparr>) s)"
    by (rule stop_current [OF assms(1)]) simp_all
  with assms(3) dispatch_ok [OF assms(2)] show ?thesis by (auto simp: enter_wait_def)
qed

lemma enter_alertable_wait_ok:
  assumes "sched_ok s" "exec_ok exec" "enter_alertable_wait exec fuel reason s = Some (c, s')"
  shows "sched_ok s'"
proof (cases "signals_ready (thr s (cur s))")
  case True
  with assms show ?thesis by (simp add: enter_alertable_wait_def)
next
  case False
  let ?s = "upd_thread (cur s) (\<lambda>r. r\<lparr>t_state := TWaiting, t_wait_reason := reason, t_interrupted := False, t_alertable := True\<rparr>) s"
  have "disp_inv ?s" by (rule stop_current [OF assms(1)]) simp_all
  moreover have "dispatch exec fuel ?s = Some s'" using assms(3) False by (auto simp: enter_alertable_wait_def split: bind_splits)
  ultimately show ?thesis using dispatch_ok [OF assms(2)] by blast
qed

lemma resume_alertable_wait_ok:
  assumes "sched_ok s" "resume_alertable_wait s = (rc, s')"
  shows "sched_ok s'"
proof -
  note o = sched_ok_fields [OF assms(1)]
  have ok: "sched_ok (upd_thread (cur s) (\<lambda>r. r\<lparr>t_alertable := False\<rparr>) s)"
    "sched_ok (upd_thread (cur s) (\<lambda>r. r\<lparr>t_alertable := False, t_interrupted := False\<rparr>) s)"
    using o(3,5-7) by (intro sched_ok_upd_current [OF assms(1)]; simp)+
  from assms(2) show ?thesis
    by (cases "t_interrupted (thr s (cur s))") (use ok in \<open>auto simp: resume_alertable_wait_def Let_def\<close>)
qed

lemma sched_step_ok:
  assumes "exec_ok exec" "sched_ok s" "sched_step exec fuel s s'"
  shows "sched_ok s'"
  using assms(3,2)
  by cases (blast intro: yield_ok preempt_thread_ok enter_wait_ok enter_alertable_wait_ok resume_alertable_wait_ok mark_other_ready
      interrupt_thread_ok suspend_thread_ok resume_thread_ok set_thread_priority_ok assms(1))+

definition demo_thread :: thread where
  "demo_thread = \<lparr>t_state = TTerminated, t_quantum = 36, t_wait_reason = 0, t_fpu_enabled = False, t_alertable = False,
     t_interrupted = False, t_priority = 8, t_base_priority = 8, t_id = 0, t_suspend_count = 0, t_exitcode = 0,
     t_blocked_signals = 0, t_pending_signals = 0, t_context_switches = 0, t_preempts = 0,
     t_next_ready = None, t_prev_ready = None, t_waitlist = None, t_waitkey = 0\<rparr>"

text \<open>Thread 0 is the idle thread and ready, thread 1 runs, thread 2 is new and thread 3 waits.\<close>

definition demo_threads :: "addr \<Rightarrow> thread" where
  "demo_threads =
     (\<lambda>_. demo_thread)(0 := demo_thread\<lparr>t_state := TReady, t_priority := 0, t_base_priority := 0\<rparr>,
       1 := demo_thread\<lparr>t_state := TRunning\<rparr>, 2 := demo_thread\<lparr>t_state := TInitialized\<rparr>, 3 := demo_thread\<lparr>t_state := TWaiting\<rparr>)"

definition demo_sched :: sched where
  "demo_sched = \<lparr>dpcs = demo_dpcs, dpc_queue_head = None, dpc_queue_tail = None, in_dpc = False, dpc_total = 0, dpc_lost = 0,
     threads = demo_threads, ready_queue_head = (\<lambda>_. None)(0 := Some 0), ready_queue_tail = (\<lambda>_. None)(0 := Some 0),
     thread_ready_summary = 1, preempt = False, cur = 1\<rparr>"

lemma demo_rep: "ready_rep demo_sched ((\<lambda>_. [])(0 := [0]))"
  by (auto simp: ready_rep_def rqs_def demo_sched_def demo_threads_def demo_thread_def dlist_def bit_1_iff)

lemma demo_inv: "ready_inv demo_sched"
  unfolding ready_inv_def using demo_rep by (auto simp: demo_sched_def demo_threads_def demo_thread_def)

lemma demo_ok: "sched_ok demo_sched"
  using demo_inv by (auto simp: sched_ok_def demo_sched_def demo_threads_def demo_thread_def)

lemma exec_ok_none: "exec_ok (\<lambda>p a s. Some s)"
  by (simp add: exec_ok_def)

section \<open>Correctness of the scheduler\<close>

text \<open>
  C1: whatever sequence of scheduler operations runs, the state stays consistent: the ready
  queues are intact doubly linked lists holding exactly the ready threads, each at its own
  priority; the summary word has a bit for every level that is not empty; no suspended
  thread is ready; and exactly the current thread is in the running state.
\<close>

theorem sched_ok_invariant:
  assumes "exec_ok exec" "sched_ok s" "(sched_step exec fuel)\<^sup>*\<^sup>* s s'"
  shows "sched_ok s'"
  using assms(3,2) by (induction rule: rtranclp_induct) (blast intro: sched_step_ok [OF assms(1)])+

theorem sched_ok_invariant_witness:
  "\<exists>s'. (sched_step (\<lambda>p a s. Some s) 5)\<^sup>*\<^sup>* demo_sched s' \<and> sched_ok s' \<and> cur s' = 0"
proof -
  let ?e = "\<lambda>p a s. Some s"
  have "cur (the (enter_wait ?e 5 0 demo_sched)) = 0" "enter_wait ?e 5 0 demo_sched \<noteq> None"
    by (simp_all add: enter_wait_def dispatch_def check_dpc_queue_def find_ready_thread_def find_highest_bit_def upd_thread_def
        mark_thread_running_def demo_sched_def demo_threads_def demo_thread_def eval_nat_numeral)
  then obtain s' where s': "enter_wait ?e 5 0 demo_sched = Some s'" "cur s' = 0" by auto
  then have "(sched_step ?e 5)\<^sup>*\<^sup>* demo_sched s'" by (blast intro: sched_step.Wait)
  with sched_ok_invariant [OF exec_ok_none demo_ok this] s'(2) show ?thesis by blast
qed

text \<open>
  C2: \<^verbatim>\<open>dispatch\<close> switches to the thread at the head of the ready queue of the highest
  priority at which a thread is ready once the deferred calls have run, takes exactly that
  thread off its queue, and makes it the running thread.
\<close>

theorem dispatch_picks_highest:
  assumes "exec_ok exec" "disp_inv s" "dispatch exec fuel s = Some s'"
  shows "\<exists>s1 Q p ts. check_dpc_queue exec fuel (s\<lparr>preempt := False\<rparr>) = Some s1 \<and> ready_rep s1 Q \<and>
    Q p = cur s' # ts \<and> (\<forall>t. t_state (thr s1 t) = TReady \<longrightarrow> t_priority (thr s1 t) \<le> t_priority (thr s1 (cur s'))) \<and>
    ready_rep s' (Q(p := ts)) \<and> t_state (thr s' (cur s')) = TRunning"
proof -
  obtain s1 s2 f where d: "check_dpc_queue exec fuel (s\<lparr>preempt := False\<rparr>) = Some s1"
    "find_ready_thread s1 = Some (Some (cur s'), s2)" and f: "s' = (upd_thread (cur s') f s2)\<lparr>cur := cur s'\<rparr>"
    "\<And>r. t_state (f r) = TRunning \<and> t_priority (f r) = t_priority r \<and> t_base_priority (f r) = t_base_priority r \<and>
       t_suspend_count (f r) = t_suspend_count r"
    using assms(3)
  proof (cases rule: dispatch_cases [case_names same switch])
    case (same s1 t s2)
    have "cur s1 = cur s" using check_dpc_queue_disp [OF assms(1) _ same(1)] assms(2) by simp
    then have "cur s' = t" using same(3,4) find_ready_thread_keeps(10) [OF same(2)] by simp
    then show thesis using same that [of s1 s2 "\<lambda>r. r\<lparr>t_state := TRunning\<rparr>"] by simp
  next
    case (switch s1 t s2 b)
    then have "cur s' = t" by simp
    then show thesis using switch that [of s1 s2] by simp
  qed
  have "disp_inv s1" using check_dpc_queue_disp [OF assms(1) _ d(1)] assms(2) by simp
  then obtain Q where Q: "ready_rep s1 Q" "ready_inv s1" "\<forall>x. t_state (thr s1 x) \<noteq> TRunning"
    by (auto simp: disp_inv_def ready_inv_def)
  obtain p ts where p: "Q p = cur s' # ts" "\<forall>q. Q q \<noteq> [] \<longrightarrow> q \<le> p" "ready_rep (upd_thread (cur s') f s2) (Q(p := ts))"
    using run_selected(2) [OF Q(1) d(2) Q(2,3) f(2)] by blast
  have pr: "t_priority (thr s1 (cur s')) = p" using ready_rep_mem [OF Q(1), of "cur s'" p] p(1) by simp
  have "t_priority (thr s1 t) \<le> p" if "t_state (thr s1 t) = TReady" for t
  proof -
    have "t \<in> set (Q (t_priority (thr s1 t)))" using ready_rep_mem [OF Q(1)] that by simp
    with p(2) show ?thesis by (metis empty_iff list.set(1))
  qed
  moreover have "ready_rep (s2\<lparr>cur := c\<rparr>) Q' = ready_rep s2 Q'" for Q' c and s2 :: "'a sched_scheme"
    by (simp add: ready_rep_def rqs_def)
  then have "ready_rep s' (Q(p := ts))" using p(3) f(1) by metis
  moreover have "t_state (thr s' (cur s')) = TRunning" using arg_cong [OF f(1), of "\<lambda>s. t_state (thr s (cur s'))"] f(2) by simp
  ultimately show ?thesis using d(1) Q(1) p(1) pr by blast
qed


text \<open>The state of the demonstration after its running thread has begun to wait.\<close>

definition demo_stopped :: sched where
  "demo_stopped = upd_thread 1 (\<lambda>r. r\<lparr>t_state := TWaiting\<rparr>) demo_sched"

lemma demo_stopped_inv: "disp_inv demo_stopped"
  unfolding demo_stopped_def using stop_current [OF demo_ok, of "\<lambda>r. r\<lparr>t_state := TWaiting\<rparr>"]
  by (simp add: demo_sched_def)

lemma demo_dispatch: "\<exists>s'. dispatch (\<lambda>p a s. Some s) 1 demo_stopped = Some s' \<and> cur s' = 0"
  by (simp add: demo_stopped_def dispatch_def check_dpc_queue_def find_ready_thread_def find_highest_bit_def upd_thread_def
      mark_thread_running_def demo_sched_def demo_threads_def demo_thread_def eval_nat_numeral)

theorem dispatch_picks_highest_witness:
  "\<exists>s'. dispatch (\<lambda>p a s. Some s) 1 demo_stopped = Some s' \<and> cur s' = 0 \<and> t_state (thr s' 0) = TRunning"
proof -
  obtain s' where "dispatch (\<lambda>p a s. Some s) 1 demo_stopped = Some s'" "cur s' = 0" using demo_dispatch by blast
  with dispatch_picks_highest [OF exec_ok_none demo_stopped_inv this(1)] show ?thesis by auto
qed

text \<open>
  C30: with no deferred call pending, \<^verbatim>\<open>dispatch\<close> returns whenever some thread is
  ready. The only case in which it stops the machine is an empty set of ready threads,
  which the idle thread excludes.
\<close>

theorem dispatch_returns:
  assumes "ready_inv s" "dpc_queue_head s = None"
  shows "(\<exists>s'. dispatch exec fuel s = Some s') \<longleftrightarrow> (\<exists>t. t_state (thr s t) = TReady)"
proof -
  let ?s = "s\<lparr>preempt := False\<rparr>"
  have c: "check_dpc_queue exec fuel ?s = Some ?s" using assms(2) by (simp add: check_dpc_queue_def)
  have "ready_inv ?s" using assms(1) by simp
  then obtain Q where Q: "ready_rep ?s Q" by (auto simp: ready_inv_def)
  then have rq: "rqs ?s Q" by (simp add: ready_rep_def)
  show ?thesis
  proof
    assume "\<exists>t. t_state (thr s t) = TReady"
    then obtain t where "t \<in> set (Q (t_priority (thr ?s t)))" using Q by (auto simp: ready_rep_def)
    then have "Q (t_priority (thr ?s t)) \<noteq> []" by auto
    from find_ready_thread_rqs [OF rq this] obtain u s2 where "find_ready_thread ?s = Some (Some u, s2)" by metis
    with c show "\<exists>s'. dispatch exec fuel s = Some s'" by (simp add: dispatch_def Let_def)
  next
    assume "\<exists>s'. dispatch exec fuel s = Some s'"
    with c obtain t s2 where f: "find_ready_thread ?s = Some (Some t, s2)"
      by (auto simp: dispatch_def split: bind_splits)
    then obtain p where "ready_queue_head ?s p = Some t"
      by (auto simp: find_ready_thread_def Let_def split: if_splits option.splits)
    then have "t \<in> set (Q p)" using rqs_ends(1) [OF rq, of p t] by simp
    then have "t_state (thr s t) = TReady" using ready_rep_mem [OF Q, of t p] by simp
    then show "\<exists>t. t_state (thr s t) = TReady" by blast
  qed
qed

theorem dispatch_returns_witness:
  "(\<exists>s'. dispatch (\<lambda>p a s. Some s) 0 demo_stopped = Some s') \<and> t_state (thr demo_stopped 0) = TReady"
proof -
  have "dpc_queue_head demo_stopped = None" "t_state (thr demo_stopped 0) = TReady"
    by (simp_all add: demo_stopped_def demo_sched_def demo_threads_def demo_thread_def)
  moreover have "ready_inv demo_stopped" using demo_stopped_inv by (simp add: disp_inv_def)
  ultimately show ?thesis using dispatch_returns [of demo_stopped "\<lambda>p a s. Some s" 0] by blast
qed

text \<open>
  C32: \<^verbatim>\<open>mark_thread_ready\<close> on a thread that is neither ready nor suspended, and is not the running one, returns and makes it
  ready. The boost is added to the base priority, the sum is cut off at level 15 and replaces the priority only when it is higher. The charge is taken off the
  quantum: when something is left the thread goes to the head of the queue of its priority, otherwise it gets a
  new quantum, its priority decays by one unless it is at the base priority or below, and it goes to the tail. A preemption is requested exactly when it then outranks the running thread, and
  every other thread keeps everything but its links in the ready queues.
\<close>

theorem mark_thread_ready_correct:
  assumes "ready_rep s Q" "t_state (thr s t) \<noteq> TReady" "t_suspend_count (thr s t) = 0" "t_priority (thr s t) < 32" "t \<noteq> cur s"
  shows "let r = thr s t; b = max (t_priority r) (min (t_base_priority r + boost) 15); q = t_quantum r - charge;
             p = (if q > 0 then b else if b > t_base_priority r then b - 1 else b)
    in \<exists>s'. mark_thread_ready t charge boost s = Some s' \<and> t_state (thr s' t) = TReady \<and> t_priority (thr s' t) = p \<and>
         t_quantum (thr s' t) = (if q > 0 then q else 36) \<and> ready_rep s' (Q(p := if q > 0 then t # Q p else Q p @ [t])) \<and>
         preempt s' = (preempt s \<or> p > t_priority (thr s (cur s))) \<and> (\<forall>u. u \<noteq> t \<longrightarrow> unqueued (thr s' u) = unqueued (thr s u))"
proof -
  obtain s' where s': "mark_thread_ready t charge boost s = Some s'"
    using mark_thread_ready_panic [of t charge boost s] assms(2) by (cases "mark_thread_ready t charge boost s") auto
  let ?b = "max (t_priority (thr s t)) (min (t_base_priority (thr s t) + boost) 15)" and ?q = "t_quantum (thr s t) - charge"
  let ?p = "if ?q > 0 then ?b else if ?b > t_base_priority (thr s t) then ?b - 1 else ?b"
  have "?p = ready_prio (thr s t) charge boost"
    unfolding ready_prio_def boosted_def Let_def PRIORITY_TIME_CRITICAL_def by (auto simp: max_def min_def)
  note r = mark_thread_ready_rep [OF assms(1-4) this s']
  have "t_state (thr s' t) = TReady" using mark_thread_ready_keeps(9) [OF s'] assms(3) by simp
  moreover have "preempt s' = (preempt s \<or> ?p > t_priority (thr s (cur s)))" using r(5) assms(5) by simp
  moreover have "\<forall>u. u \<noteq> t \<longrightarrow> unqueued (thr s' u) = unqueued (thr s u)" using mark_thread_ready_others [OF s'] by blast
  ultimately show ?thesis unfolding Let_def using s' r(1,3) r(4) [unfolded DEFAULT_QUANTUM_def] by blast
qed

theorem mark_thread_ready_correct_witness:
  "\<exists>s'. mark_thread_ready 3 1 1 demo_sched = Some s' \<and> t_priority (thr s' 3) = 9 \<and> preempt s' \<and> t_quantum (thr s' 3) = t_quantum (thr demo_sched 3) - 1"
proof -
  have "t_state (thr demo_sched 3) \<noteq> TReady" "t_suspend_count (thr demo_sched 3) = 0" "t_priority (thr demo_sched 3) < 32" "3 \<noteq> cur demo_sched"
    by (simp_all add: demo_sched_def demo_threads_def demo_thread_def)
  from mark_thread_ready_correct [OF demo_rep this, of 1 1] show ?thesis
    by (auto simp: Let_def demo_sched_def demo_threads_def demo_thread_def)
qed

text \<open>
  Suspending a thread that is ready and resuming it afterwards makes it ready again with
  its suspension count back at zero, and in between it is on no ready queue. The two calls
  report the counts 0 and 1.
\<close>

theorem suspend_resume_roundtrip:
  assumes "sched_ok s" "exec_ok exec" "t_state (thr s t) = TReady"
  shows "\<exists>s1 s2. suspend_thread exec fuel t s = Some (0, s1) \<and> sched_ok s1 \<and> t_state (thr s1 t) = TSuspended \<and>
    resume_thread t s1 = Some (1, s2) \<and> sched_ok s2 \<and> t_state (thr s2 t) = TReady \<and> t_suspend_count (thr s2 t) = 0 \<and>
    t_base_priority (thr s2 t) = t_base_priority (thr s t)"
proof -
  have c: "t_suspend_count (thr s t) = 0" using assms(1,3) by (simp add: sched_ok_def ready_inv_def)
  obtain s1 where s1: "suspend_thread exec fuel t s = Some (0, s1)" and f: "t_state (thr s1 t) = TSuspended"
    "t_suspend_count (thr s1 t) = 1" "t_base_priority (thr s1 t) = t_base_priority (thr s t)"
    using assms(3) c by (simp add: suspend_thread_def Let_def)
  let ?s = "upd_thread t (\<lambda>r. r\<lparr>t_suspend_count := t_suspend_count r - 1\<rparr>) s1"
  obtain s2 where m: "mark_thread_ready t 0 0 ?s = Some s2"
    using mark_thread_ready_panic [of t 0 0 ?s] f by (cases "mark_thread_ready t 0 0 ?s") auto
  then have s2: "resume_thread t s1 = Some (1, s2)" using f by (simp add: resume_thread_def Let_def)
  note k = mark_thread_ready_keeps [OF m]
  have "sched_ok s1" by (rule suspend_thread_ok [OF assms(1,2) s1])
  moreover have "sched_ok s2" by (rule resume_thread_ok [OF calculation s2])
  moreover have "t_state (thr s2 t) = TReady" "t_suspend_count (thr s2 t) = 0"
    "t_base_priority (thr s2 t) = t_base_priority (thr s t)" using k(2,3,9) f by simp_all
  ultimately show ?thesis using s1 s2 f by blast
qed

theorem suspend_resume_roundtrip_witness:
  "\<exists>s1 s2. suspend_thread (\<lambda>p a s. Some s) 1 0 demo_sched = Some (0, s1) \<and> t_state (thr s1 0) = TSuspended \<and>
     resume_thread 0 s1 = Some (1, s2) \<and> t_state (thr s2 0) = TReady"
proof -
  have "t_state (thr demo_sched 0) = TReady" by (simp add: demo_sched_def demo_threads_def)
  from suspend_resume_roundtrip [OF demo_ok exec_ok_none this, of 1] show ?thesis by blast
qed

end
