(* ===== verification/Timer.thy ===== *)
theory Timer
  imports Sched
begin

text \<open>
  The kernel timers of \<^verbatim>\<open>src/src/sys/krnl/timer.c\<close>: a hierarchical wheel of five
  vectors, the first with 256 slots and one slot per tick, the others with 64 slots each
  and 64 times coarser from one to the next. A slot is a circular list in the code; here it
  is the list of its timers in ring order, so that linking a timer before the head of the
  ring appends it and unlinking it removes it. The vectors are numbered as in
  \<^verbatim>\<open>tvecs\<close>, from 0. Handlers are function pointers: what they do is the parameter
  \<open>fire\<close>, and since a handler may start timers the loops that call them take fuel.
\<close>

section \<open>Timers and the wheel\<close>

record timer =
  tm_expires :: u32
  tm_active :: bool
  tm_handler :: addr
  tm_arg :: addr

record ktimer = sched +
  timers :: "addr \<Rightarrow> timer"
  ticks :: u32
  timer_ticks :: u32
  tv_index :: "nat \<Rightarrow> nat"
  tv_vec :: "nat \<Rightarrow> nat \<Rightarrow> addr list"

definition upd_timer :: "addr \<Rightarrow> (timer \<Rightarrow> timer) \<Rightarrow> 'a ktimer_scheme \<Rightarrow> 'a ktimer_scheme" where
  "upd_timer t f s = s\<lparr>timers := (timers s)(t := f (timers s t))\<rparr>"

definition upd_slot :: "nat \<Rightarrow> nat \<Rightarrow> (addr list \<Rightarrow> addr list) \<Rightarrow> 'a ktimer_scheme \<Rightarrow> 'a ktimer_scheme" where
  "upd_slot l i f s = s\<lparr>tv_vec := (tv_vec s)(l := (tv_vec s l)(i := f (tv_vec s l i)))\<rparr>"

text \<open>The vector and the slot of \<^verbatim>\<open>attach_timer\<close>.\<close>

definition slot_of :: "u32 \<Rightarrow> u32 \<Rightarrow> nat \<Rightarrow> nat \<times> nat" where
  "slot_of expires now index =
     (let idx = expires - now in
      if idx < 256 then (0, unat (expires AND 255))
      else if idx < push_bit 14 1 then (1, unat (drop_bit 8 expires AND 63))
      else if idx < push_bit 20 1 then (2, unat (drop_bit 14 expires AND 63))
      else if idx < push_bit 26 1 then (3, unat (drop_bit 20 expires AND 63))
      else if sint idx < 0 then (0, index)
      else (4, unat (drop_bit 26 expires AND 63)))"

definition attach_timer :: "addr \<Rightarrow> 'a ktimer_scheme \<Rightarrow> 'a ktimer_scheme" where
  "attach_timer t s =
     (case slot_of (tm_expires (timers s t)) (timer_ticks s) (tv_index s 0) of
        (l, i) \<Rightarrow> upd_timer t (\<lambda>r. r\<lparr>tm_active := True\<rparr>) (upd_slot l i (\<lambda>xs. xs @ [t]) s))"

definition unlink_timer :: "addr \<Rightarrow> 'a ktimer_scheme \<Rightarrow> 'a ktimer_scheme" where
  "unlink_timer t s = s\<lparr>tv_vec := (\<lambda>l i. removeAll t (tv_vec s l i))\<rparr>"

definition detach_timer :: "addr \<Rightarrow> 'a ktimer_scheme \<Rightarrow> int \<times> 'a ktimer_scheme" where
  "detach_timer t s =
     (if \<not> tm_active (timers s t) then (0, s)
      else (1, upd_timer t (\<lambda>r. r\<lparr>tm_active := False\<rparr>) (unlink_timer t s)))"

definition init_timers :: "'a ktimer_scheme \<Rightarrow> 'a ktimer_scheme" where
  "init_timers s = s\<lparr>tv_vec := (\<lambda>l i. [])\<rparr>"

definition init_timer :: "addr \<Rightarrow> addr \<Rightarrow> addr \<Rightarrow> 'a ktimer_scheme \<Rightarrow> 'a ktimer_scheme" where
  "init_timer t handler arg s =
     upd_timer t (\<lambda>_. \<lparr>tm_expires = 0, tm_active = False, tm_handler = handler, tm_arg = arg\<rparr>) s"

definition add_timer :: "addr \<Rightarrow> 'a ktimer_scheme \<Rightarrow> 'a ktimer_scheme" where
  "add_timer t s = (if tm_active (timers s t) then s else attach_timer t s)"

definition del_timer :: "addr \<Rightarrow> 'a ktimer_scheme \<Rightarrow> int \<times> 'a ktimer_scheme" where
  "del_timer t s = detach_timer t s"

definition mod_timer :: "addr \<Rightarrow> u32 \<Rightarrow> 'a ktimer_scheme \<Rightarrow> int \<times> 'a ktimer_scheme" where
  "mod_timer t expires s =
     (case detach_timer t (upd_timer t (\<lambda>r. r\<lparr>tm_expires := expires\<rparr>) s) of
        (rc, s1) \<Rightarrow> (rc, attach_timer t s1))"

text \<open>Moving the timers of the current slot of a coarse vector down, and advancing the vector.\<close>

definition cascade_timers :: "nat \<Rightarrow> 'a ktimer_scheme \<Rightarrow> 'a ktimer_scheme" where
  "cascade_timers l s =
     (let i = tv_index s l; s1 = fold attach_timer (tv_vec s l i) s;
          s2 = upd_slot l i (\<lambda>_. []) s1
      in s2\<lparr>tv_index := (tv_index s2)(l := (tv_index s2 l + 1) mod 64)\<rparr>)"

function cascade_from :: "nat \<Rightarrow> 'a ktimer_scheme \<Rightarrow> 'a ktimer_scheme" where
  "cascade_from n s =
     (let s1 = cascade_timers n s in
      if tv_index s1 n = 1 \<and> n + 1 < 5 then cascade_from (n + 1) s1 else s1)"
  by pat_completeness auto
termination by (relation "measure (\<lambda>(n, s). 5 - n)") auto

declare cascade_from.simps [simp del]

text \<open>Firing the timers of the current slot until it is empty.\<close>

fun fire_slot :: "(addr \<Rightarrow> addr \<Rightarrow> 'a ktimer_scheme \<Rightarrow> 'a ktimer_scheme option) \<Rightarrow> nat \<Rightarrow> 'a ktimer_scheme \<Rightarrow>
    'a ktimer_scheme option" where
  "fire_slot fire 0 s = None"
| "fire_slot fire (Suc fuel) s =
     (case tv_vec s 0 (tv_index s 0) of
        [] \<Rightarrow> Some s
      | t # _ \<Rightarrow> do {
          s1 \<leftarrow> fire (tm_handler (timers s t)) (tm_arg (timers s t)) (snd (detach_timer t s));
          fire_slot fire fuel s1
        })"

definition timer_tick :: "(addr \<Rightarrow> addr \<Rightarrow> 'a ktimer_scheme \<Rightarrow> 'a ktimer_scheme option) \<Rightarrow> nat \<Rightarrow> 'a ktimer_scheme \<Rightarrow>
    'a ktimer_scheme option" where
  "timer_tick fire fuel s = do {
     s1 \<leftarrow> fire_slot fire fuel (if tv_index s 0 = 0 then cascade_from 1 s else s);
     Some (s1\<lparr>timer_ticks := timer_ticks s1 + 1, tv_index := (tv_index s1)(0 := (tv_index s1 0 + 1) mod 256)\<rparr>)
   }"

fun run_timer_list :: "(addr \<Rightarrow> addr \<Rightarrow> 'a ktimer_scheme \<Rightarrow> 'a ktimer_scheme option) \<Rightarrow> nat \<Rightarrow> 'a ktimer_scheme \<Rightarrow>
    'a ktimer_scheme option" where
  "run_timer_list fire 0 s = None"
| "run_timer_list fire (Suc fuel) s =
     (if sint (ticks s - timer_ticks s) \<ge> 0 then do { s1 \<leftarrow> timer_tick fire fuel s; run_timer_list fire fuel s1 }
      else Some s)"


section \<open>Sleeping\<close>

definition MSECS_PER_TICK :: u32 where "MSECS_PER_TICK = 10"

definition THREAD_WAIT_SLEEP :: nat where "THREAD_WAIT_SLEEP = 4"

text \<open>The handler of a sleep timer; its argument is the sleeping thread.\<close>

definition tmr_sleep :: "addr \<Rightarrow> 'a ktimer_scheme \<Rightarrow> 'a ktimer_scheme option" where
  "tmr_sleep t s = mark_thread_ready t 1 0 s"

text \<open>
  \<^verbatim>\<open>msleep\<close> up to the point where the thread gives up the processor, and what it does
  when it runs again. \<open>tm\<close> is the address of the timer on the stack of the caller and
  \<open>handler\<close> the address of \<^verbatim>\<open>tmr_sleep\<close>.
\<close>

definition msleep_end :: "addr \<Rightarrow> int \<Rightarrow> 'a ktimer_scheme \<Rightarrow> int \<times> 'a ktimer_scheme" where
  "msleep_end tm rc s =
     (let left = sint ((tm_expires (timers s tm) - ticks s) * MSECS_PER_TICK);
          rc1 = (if rc = - EINTR then (if left < 0 then 0 else left) else rc)
      in (rc1, snd (del_timer tm s)))"

definition msleep :: "'a ktimer_ext exec \<Rightarrow> nat \<Rightarrow> addr \<Rightarrow> addr \<Rightarrow> u32 \<Rightarrow> 'a ktimer_scheme \<Rightarrow> (int call \<times> 'a ktimer_scheme) option" where
  "msleep exec fuel tm handler millisecs s =
     (if millisecs = 0 then do { s1 \<leftarrow> yield exec fuel s; Some (Blocked, s1) }
      else
        let s1 = init_timer tm handler (cur s) s;
            s2 = upd_timer tm (\<lambda>r. r\<lparr>tm_expires := ticks s1 + millisecs div MSECS_PER_TICK\<rparr>) s1;
            s3 = add_timer tm s2
        in do {
          (c, s4) \<leftarrow> enter_alertable_wait exec fuel THREAD_WAIT_SLEEP s3;
          case c of
            Blocked \<Rightarrow> Some (Blocked, s4)
          | Return rc \<Rightarrow> (case msleep_end tm rc s4 of (rc1, s5) \<Rightarrow> Some (Return rc1, s5))
        })"

definition msleep_resume :: "addr \<Rightarrow> u32 \<Rightarrow> 'a ktimer_scheme \<Rightarrow> int \<times> 'a ktimer_scheme" where
  "msleep_resume tm millisecs s =
     (if millisecs = 0 then (0, s)
      else case resume_alertable_wait s of (rc, s1) \<Rightarrow> msleep_end tm rc s1)"

section \<open>The wheel as a set of deadlines\<close>

text \<open>
  The clock of the wheel is a 32-bit counter that wraps around. The specification uses an
  unbounded clock \<open>N\<close> and a map \<open>P\<close> from the active timers to unbounded deadlines. Slot
  \<open>i\<close> of vector \<open>l\<close> covers \<open>unit l\<close> ticks; \<open>c l\<close> is the number of the next slot of
  vector \<open>l\<close> to be taken up, counted without wrap-around.
\<close>

definition unit :: "nat \<Rightarrow> nat" where
  "unit l = (if l = 0 then 1 else 2 ^ (8 + 6 * (l - 1)))"

definition slots :: "nat \<Rightarrow> nat" where
  "slots l = (if l = 0 then 256 else 64)"

definition placed :: "'a ktimer_scheme \<Rightarrow> (nat \<Rightarrow> nat) \<Rightarrow> (addr \<Rightarrow> nat option) \<Rightarrow> nat \<Rightarrow> nat \<Rightarrow> addr \<Rightarrow> bool" where
  "placed s c P l i t \<longleftrightarrow> (\<exists>E. P t = Some E \<and> l < 5 \<and> i = E div unit l mod slots l \<and> c l \<le> E div unit l \<and>
     E div unit l < c l + slots l \<and> (l > 0 \<longrightarrow> tm_expires (timers s t) = of_nat E))"

definition wheel :: "'a ktimer_scheme \<Rightarrow> nat \<Rightarrow> (nat \<Rightarrow> nat) \<Rightarrow> (addr \<Rightarrow> nat option) \<Rightarrow> bool" where
  "wheel s N c P \<longleftrightarrow>
     timer_ticks s = of_nat N \<and> c 0 = N \<and>
     (\<forall>l < 5. N \<le> unit l * c l \<and> unit l * c l \<le> N + unit l \<and> tv_index s l = c l mod slots l) \<and>
     (\<forall>t. tm_active (timers s t) \<longleftrightarrow> t \<in> dom P) \<and>
     (\<forall>l i t. t \<in> set (tv_vec s l i) \<longrightarrow> placed s c P l i t) \<and>
     (\<forall>l i. distinct (tv_vec s l i)) \<and>
     (\<forall>l i l' i' t. t \<in> set (tv_vec s l i) \<longrightarrow> t \<in> set (tv_vec s l' i') \<longrightarrow> l = l' \<and> i = i') \<and>
     (\<forall>t \<in> dom P. \<exists>l i. t \<in> set (tv_vec s l i))"

definition deadline :: "nat \<Rightarrow> u32 \<Rightarrow> nat" where
  "deadline N expires = (if sint (expires - of_nat N) < 0 then N else N + unat (expires - of_nat N))"

lemma upd_timer_simps [simp]:
  "timers (upd_timer t f s) = (timers s)(t := f (timers s t))" "timer_ticks (upd_timer t f s) = timer_ticks s"
  "tv_index (upd_timer t f s) = tv_index s" "tv_vec (upd_timer t f s) = tv_vec s" "ticks (upd_timer t f s) = ticks s"
  "ktimer.more (upd_timer t f s) = ktimer.more s"
  by (simp_all add: upd_timer_def)

lemma upd_slot_simps [simp]:
  "timers (upd_slot l i f s) = timers s" "timer_ticks (upd_slot l i f s) = timer_ticks s"
  "tv_index (upd_slot l i f s) = tv_index s" "ticks (upd_slot l i f s) = ticks s"
  "ktimer.more (upd_slot l i f s) = ktimer.more s"
  "tv_vec (upd_slot l i f s) = (tv_vec s)(l := (tv_vec s l)(i := f (tv_vec s l i)))"
  by (simp_all add: upd_slot_def)

lemma sint_neg_iff: "sint (w :: u32) < 0 \<longleftrightarrow> 2 ^ 31 \<le> unat w"
proof -
  have "sint w < 0 \<longleftrightarrow> bit w 31" using bit_last_iff [of w] by simp
  also have "\<dots> \<longleftrightarrow> bit (unat w) 31" by (simp add: bit_unsigned_iff)
  also have "\<dots> \<longleftrightarrow> odd (unat w div 2 ^ 31)" by (simp add: bit_iff_odd)
  also have "\<dots> \<longleftrightarrow> 2 ^ 31 \<le> unat w"
  proof -
    have "unat w div 2 ^ 31 < 2" using unat_u32_lt [of w] by (simp add: div_less_iff_less_mult)
    then have "odd (unat w div 2 ^ 31) \<longleftrightarrow> unat w div 2 ^ 31 = 1" by (auto dest: less_2_cases)
    also have "\<dots> \<longleftrightarrow> 2 ^ 31 \<le> unat w" using unat_u32_lt [of w] by (auto simp: div_nat_eqI)
    finally show ?thesis .
  qed
  finally show ?thesis .
qed

lemma slot_bits: "k + 6 \<le> 32 \<Longrightarrow> unat (drop_bit k (of_nat E :: u32) AND 63) = E div 2 ^ k mod 64"
proof -
  assume k: "k + 6 \<le> 32"
  have m: "(63 :: u32) = mask 6" by (simp add: mask_eq_exp_minus_1)
  have "unat (drop_bit k (of_nat E :: u32) AND 63) = take_bit 6 (drop_bit k E)"
    unfolding m using k by (intro bit_eqI) (auto simp: bit_unsigned_iff bit_and_iff bit_mask_iff bit_drop_bit_eq bit_take_bit_iff bit_of_nat_iff)
  then show ?thesis by (simp add: take_bit_eq_mod drop_bit_eq_div)
qed

lemma slot_bits0: "unat ((of_nat E :: u32) AND 255) = E mod 256"
proof -
  have m: "(255 :: u32) = mask 8" by (simp add: mask_eq_exp_minus_1)
  have "unat ((of_nat E :: u32) AND 255) = take_bit 8 E"
    unfolding m by (intro bit_eqI) (auto simp: bit_unsigned_iff bit_and_iff bit_mask_iff bit_take_bit_iff bit_of_nat_iff)
  then show ?thesis by (simp add: take_bit_eq_mod)
qed

lemma expires_deadline: "expires = of_nat (N + unat (expires - of_nat N :: u32))"
  by simp

text \<open>A timer is put where its deadline belongs, whatever the deadline is.\<close>

lemma slot_of_spec:
  assumes "slot_of expires (of_nat N) index = (l, i)" and "index = N mod 256" and "E = deadline N expires"
    and "\<forall>l < 5. N \<le> unit l * c l \<and> unit l * c l \<le> N + unit l" and "c 0 = N"
  shows "l < 5 \<and> i = E div unit l mod slots l \<and> c l \<le> E div unit l \<and> E div unit l < c l + slots l \<and>
    (l > 0 \<longrightarrow> expires = of_nat E \<and> N + unit l \<le> E)"
proof -
  let ?d = "unat (expires - of_nat N :: u32)"
  have ex: "expires = of_nat (N + ?d)" by (rule expires_deadline)
  have E: "E = (if 2 ^ 31 \<le> ?d then N else N + ?d)" using assms(3) by (simp add: deadline_def sint_neg_iff)
  have level: "c l \<le> (N + ?d) div unit l \<and> (N + ?d) div unit l < c l + slots l"
    if "l < 5" "l > 0" "unit l \<le> ?d" "?d < unit l * slots l" for l
  proof -
    have u: "0 < unit l" by (simp add: unit_def)
    have c: "N \<le> unit l * c l" "unit l * c l \<le> N + unit l" using assms(4) that(1) by auto
    have "c l * unit l \<le> N + ?d" using c(2) that(3) by (simp add: mult.commute)
    moreover have "N + ?d < (c l + slots l) * unit l" using c(1) that(4) by (simp add: algebra_simps)
    ultimately show ?thesis using u by (simp add: less_eq_div_iff_mult_less_eq div_less_iff_less_mult)
  qed
  note def = assms(1) [unfolded slot_of_def Let_def]
  consider (l0) "?d < 256" "l = 0" "i = unat (expires AND 255)"
    | (l1) "256 \<le> ?d" "?d < 2 ^ 14" "l = 1" "i = unat (drop_bit 8 expires AND 63)"
    | (l2) "2 ^ 14 \<le> ?d" "?d < 2 ^ 20" "l = 2" "i = unat (drop_bit 14 expires AND 63)"
    | (l3) "2 ^ 20 \<le> ?d" "?d < 2 ^ 26" "l = 3" "i = unat (drop_bit 20 expires AND 63)"
    | (over) "2 ^ 31 \<le> ?d" "l = 0" "i = index"
    | (l4) "2 ^ 26 \<le> ?d" "?d < 2 ^ 31" "l = 4" "i = unat (drop_bit 26 expires AND 63)"
    using def by (auto simp: word_less_nat_alt sint_neg_iff split: if_splits)
  then show ?thesis
  proof cases
    case l0
    then have "i = (N + ?d) mod 256" by (subst (asm) ex) (simp only: slot_bits0)
    with l0 E assms(5) show ?thesis by (simp add: unit_def slots_def)
  next
    case over
    with E assms(2,5) show ?thesis by (simp add: unit_def slots_def)
  next
    case l1
    then have "i = (N + ?d) div 2 ^ 8 mod 64" by (subst (asm) ex) (simp only: slot_bits)
    with l1 E ex level [of 1] show ?thesis by (simp add: unit_def slots_def)
  next
    case l2
    then have "i = (N + ?d) div 2 ^ 14 mod 64" by (subst (asm) ex) (simp only: slot_bits)
    with l2 E ex level [of 2] show ?thesis by (simp add: unit_def slots_def)
  next
    case l3
    then have "i = (N + ?d) div 2 ^ 20 mod 64" by (subst (asm) ex) (simp only: slot_bits)
    with l3 E ex level [of 3] show ?thesis by (simp add: unit_def slots_def)
  next
    case l4
    then have "i = (N + ?d) div 2 ^ 26 mod 64" by (subst (asm) ex) (simp only: slot_bits)
    with l4 E ex level [of 4] show ?thesis by (simp add: unit_def slots_def)
  qed
qed


lemma wheel_fields:
  assumes "wheel s N c P"
  shows "timer_ticks s = of_nat N" "c 0 = N" "l < 5 \<Longrightarrow> N \<le> unit l * c l" "l < 5 \<Longrightarrow> unit l * c l \<le> N + unit l"
    "l < 5 \<Longrightarrow> tv_index s l = c l mod slots l" "tm_active (timers s t) \<longleftrightarrow> t \<in> dom P"
    "t \<in> set (tv_vec s l i) \<Longrightarrow> placed s c P l i t" "distinct (tv_vec s l i)"
    "t \<in> set (tv_vec s l i) \<Longrightarrow> t \<in> set (tv_vec s l' i') \<Longrightarrow> l = l' \<and> i = i'"
    "t \<in> dom P \<Longrightarrow> \<exists>l i. t \<in> set (tv_vec s l i)"
  using assms unfolding wheel_def by blast+

lemma wheelI:
  assumes "timer_ticks s = of_nat N" "c 0 = N"
    "\<And>l. l < 5 \<Longrightarrow> N \<le> unit l * c l \<and> unit l * c l \<le> N + unit l \<and> tv_index s l = c l mod slots l"
    "\<And>t. tm_active (timers s t) \<longleftrightarrow> t \<in> dom P" "\<And>l i t. t \<in> set (tv_vec s l i) \<Longrightarrow> placed s c P l i t"
    "\<And>l i. distinct (tv_vec s l i)"
    "\<And>l i l' i' t. t \<in> set (tv_vec s l i) \<Longrightarrow> t \<in> set (tv_vec s l' i') \<Longrightarrow> l = l' \<and> i = i'"
    "\<And>t. t \<in> dom P \<Longrightarrow> \<exists>l i. t \<in> set (tv_vec s l i)"
  shows "wheel s N c P"
  using assms unfolding wheel_def by blast

lemma attach_fields [simp]:
  "timer_ticks (attach_timer t s) = timer_ticks s" "tv_index (attach_timer t s) = tv_index s"
  "tm_expires (timers (attach_timer t s) u) = tm_expires (timers s u)" "ticks (attach_timer t s) = ticks s"
  "tm_handler (timers (attach_timer t s) u) = tm_handler (timers s u)" "tm_arg (timers (attach_timer t s) u) = tm_arg (timers s u)"
  "ktimer.more (attach_timer t s) = ktimer.more s"
  by (auto simp: attach_timer_def split: prod.splits)

lemma placed_same: "tm_expires (timers s' t) = tm_expires (timers s t) \<Longrightarrow> placed s' c P l i t = placed s c P l i t"
  by (simp add: placed_def)

lemma placed_upd: "u \<noteq> t \<Longrightarrow> placed s c (P(t := e)) l i u = placed s c P l i u"
  by (simp add: placed_def)

lemma attach_timer_wheel:
  assumes "wheel s N c P" and "t \<notin> dom P" and "E = deadline N (tm_expires (timers s t))"
  shows "wheel (attach_timer t s) N c (P(t \<mapsto> E))"
proof -
  note w = wheel_fields [OF assms(1)]
  obtain l i where sl: "slot_of (tm_expires (timers s t)) (timer_ticks s) (tv_index s 0) = (l, i)" by fastforce
  have ix: "tv_index s 0 = N mod 256" using w(2) w(5) [of 0] by (simp add: slots_def)
  have "l < 5 \<and> i = E div unit l mod slots l \<and> c l \<le> E div unit l \<and> E div unit l < c l + slots l \<and>
      (l > 0 \<longrightarrow> tm_expires (timers s t) = of_nat E \<and> N + unit l \<le> E)"
    by (rule slot_of_spec [OF sl [unfolded w(1)] ix assms(3)]) (use w(2-4) in auto)
  then have pl: "placed s c (P(t \<mapsto> E)) l i t" by (simp add: placed_def)
  have new: "t \<notin> set (tv_vec s l' i')" for l' i' using w(7) [of t l' i'] assms(2) by (auto simp: placed_def)
  have s': "attach_timer t s = upd_timer t (\<lambda>r. r\<lparr>tm_active := True\<rparr>) (upd_slot l i (\<lambda>xs. xs @ [t]) s)"
    by (simp add: attach_timer_def sl)
  have mem: "u \<in> set (tv_vec (attach_timer t s) l' i') \<longleftrightarrow> u \<in> set (tv_vec s l' i') \<or> u = t \<and> l' = l \<and> i' = i" for u l' i'
    unfolding s' by auto
  show ?thesis
  proof (rule wheelI)
    fix l' i' u assume "u \<in> set (tv_vec (attach_timer t s) l' i')"
    then have "u \<in> set (tv_vec s l' i') \<and> u \<noteq> t \<or> u = t \<and> l' = l \<and> i' = i" using mem new by metis
    then show "placed (attach_timer t s) c (P(t \<mapsto> E)) l' i' u"
      using pl w(7) [of u l' i'] by (auto simp: placed_same [of "attach_timer t s" _ s] placed_upd)
  next
    fix l1 i1 l2 i2 u assume "u \<in> set (tv_vec (attach_timer t s) l1 i1)" "u \<in> set (tv_vec (attach_timer t s) l2 i2)"
    then show "l1 = l2 \<and> i1 = i2" using w(9) [of u l1 i1 l2 i2] new unfolding mem by auto
  next
    fix u assume "u \<in> dom (P(t \<mapsto> E))"
    then show "\<exists>l i. u \<in> set (tv_vec (attach_timer t s) l i)" using w(10) [of u] unfolding mem by auto
  next
    fix l' i' show "distinct (tv_vec (attach_timer t s) l' i')" using w(8) [of l' i'] new unfolding s' by auto
  next
    fix l' assume "l' < (5::nat)"
    then show "N \<le> unit l' * c l' \<and> unit l' * c l' \<le> N + unit l' \<and> tv_index (attach_timer t s) l' = c l' mod slots l'"
      using w(3-5) by (simp add: s')
  qed (use w(1,2,6) in \<open>auto simp: s'\<close>)
qed

lemma unlink_wheel:
  assumes "wheel s N c P"
  shows "wheel (upd_timer t (\<lambda>r. r\<lparr>tm_active := False\<rparr>) (unlink_timer t s)) N c (P(t := None))"
proof -
  note w = wheel_fields [OF assms]
  let ?s = "upd_timer t (\<lambda>r. r\<lparr>tm_active := False\<rparr>) (unlink_timer t s)"
  have mem: "u \<in> set (tv_vec ?s l i) \<longleftrightarrow> u \<noteq> t \<and> u \<in> set (tv_vec s l i)" for u l i by (auto simp: unlink_timer_def)
  show ?thesis
  proof (rule wheelI)
    fix l i u assume "u \<in> set (tv_vec ?s l i)"
    then have u: "u \<noteq> t" "u \<in> set (tv_vec s l i)" unfolding mem by auto
    from w(7) [OF u(2)] u(1) show "placed ?s c (P(t := None)) l i u" by (auto simp: placed_def unlink_timer_def)
  next
    fix l1 i1 l2 i2 u assume "u \<in> set (tv_vec ?s l1 i1)" "u \<in> set (tv_vec ?s l2 i2)"
    then show "l1 = l2 \<and> i1 = i2" using w(9) unfolding mem by blast
  next
    fix u assume "u \<in> dom (P(t := None))"
    then show "\<exists>l i. u \<in> set (tv_vec ?s l i)" using w(10) [of u] unfolding mem by (auto split: if_splits)
  next
    fix l i show "distinct (tv_vec ?s l i)" using w(8) by (simp add: unlink_timer_def distinct_removeAll)
  next
    fix l assume "l < (5::nat)"
    then show "N \<le> unit l * c l \<and> unit l * c l \<le> N + unit l \<and> tv_index ?s l = c l mod slots l"
      using w(3-5) by (simp add: unlink_timer_def)
  qed (use w(1,2,6) in \<open>auto simp: unlink_timer_def\<close>)
qed

lemma detach_timer_wheel:
  assumes "wheel s N c P"
  shows "wheel (snd (detach_timer t s)) N c (P(t := None))"
proof (cases "tm_active (timers s t)")
  case True
  with unlink_wheel [OF assms] show ?thesis by (simp add: detach_timer_def)
next
  case False
  then have "P t = None" using wheel_fields(6) [OF assms, of t] by auto
  then have "P(t := None) = P" by auto
  with False assms show ?thesis by (simp add: detach_timer_def)
qed

text \<open>
  Cascading the slot of a coarse vector. Its timers are re-attached one by one while they
  are still in the old slot; none of them lands in that slot again, because the slot is
  taken up exactly when its first tick is reached.
\<close>



lemma deadline_of_nat:
  assumes "N \<le> E" "E < N + 2 ^ 31"
  shows "deadline N (of_nat E) = E"
proof -
  have "(of_nat E - of_nat N :: u32) = of_nat (E - N)" using assms(1) by simp
  moreover have "unat (of_nat (E - N) :: u32) = E - N" using assms(2) by (simp add: unat_of_nat take_bit_eq_mod)
  ultimately show ?thesis using assms by (simp add: deadline_def sint_neg_iff) linarith
qed

lemma fold_attach_fields [simp]:
  "timer_ticks (fold attach_timer xs s) = timer_ticks s" "tv_index (fold attach_timer xs s) = tv_index s"
  "tm_expires (timers (fold attach_timer xs s) u) = tm_expires (timers s u)" "ticks (fold attach_timer xs s) = ticks s"
  "tm_handler (timers (fold attach_timer xs s) u) = tm_handler (timers s u)"
  "tm_arg (timers (fold attach_timer xs s) u) = tm_arg (timers s u)"
  "ktimer.more (fold attach_timer xs s) = ktimer.more s"
  by (induction xs arbitrary: s) simp_all

lemma attach_active: "tm_active (timers (attach_timer t s) u) \<longleftrightarrow> u = t \<or> tm_active (timers s u)"
  by (auto simp: attach_timer_def split: prod.splits)

lemma fold_attach_active: "tm_active (timers (fold attach_timer xs s) u) \<longleftrightarrow> u \<in> set xs \<or> tm_active (timers s u)"
  by (induction xs arbitrary: s) (auto simp: attach_active)

lemma attach_vec:
  "tv_vec (attach_timer t s) l i =
     tv_vec s l i @ (if slot_of (tm_expires (timers s t)) (timer_ticks s) (tv_index s 0) = (l, i) then [t] else [])"
  by (auto simp: attach_timer_def split: prod.splits)

lemma fold_attach_vec:
  "tv_vec (fold attach_timer xs s) l i =
     tv_vec s l i @ filter (\<lambda>t. slot_of (tm_expires (timers s t)) (timer_ticks s) (tv_index s 0) = (l, i)) xs"
  by (induction xs arbitrary: s) (simp_all add: attach_vec)

lemma level_cases: "0 < l \<Longrightarrow> l < 5 \<Longrightarrow> l = 1 \<or> l = 2 \<or> l = 3 \<or> l = (4::nat)"
  by arith

lemma unit_pos [simp]: "0 < unit l"
  by (simp add: unit_def)

text \<open>The deadline of a timer in a slot that is due.\<close>

lemma due_slot:
  assumes "wheel s N c P" "0 < l" "l < 5" "N = unit l * c l" "t \<in> set (tv_vec s l (c l mod 64))"
  obtains E where "P t = Some E" "tm_expires (timers s t) = of_nat E" "N \<le> E" "E < N + unit l" "deadline N (of_nat E) = E"
proof -
  from wheel_fields(7) [OF assms(1,5)] obtain E where E: "P t = Some E" "c l mod 64 = E div unit l mod 64"
    "c l \<le> E div unit l" "E div unit l < c l + 64" "tm_expires (timers s t) = of_nat E"
    using assms(2) by (auto simp: placed_def slots_def)
  have eq: "E div unit l = c l"
  proof -
    obtain k where "E div unit l = c l + k" using E(3) le_Suc_ex by blast
    with E(2,4) have "k < 64" "(c l + k) mod 64 = c l mod 64" by auto
    then have "64 dvd k" "k < 64" using mod_eq_dvd_iff_nat [of "c l" "c l + k" 64] by auto
    then have "k = 0" using nat_dvd_not_less by blast
    with \<open>E div unit l = c l + k\<close> show ?thesis by simp
  qed
  have "E = unit l * c l + E mod unit l" using eq by (metis mult_div_mod_eq)
  moreover have "E mod unit l < unit l" by simp
  ultimately have ne: "N \<le> E" "E < N + unit l" using assms(4) by linarith+
  moreover have "unit l \<le> 2 ^ 31" using level_cases [OF assms(2,3)] by (elim disjE) (simp_all add: unit_def)
  ultimately show thesis using that E(1,5) deadline_of_nat by simp
qed

lemma cascade_timers_wheel:
  assumes w: "wheel s N c P" and l: "0 < l" "l < 5" and due: "N = unit l * c l"
  shows "wheel (cascade_timers l s) N (c(l := c l + 1)) P"
proof -
  note f = wheel_fields [OF w]
  define i where "i = c l mod 64"
  define xs where "xs = tv_vec s l i"
  let ?slot = "\<lambda>t. slot_of (tm_expires (timers s t)) (timer_ticks s) (tv_index s 0)"
  have ix: "tv_index s l = i" using f(5) l by (simp add: i_def slots_def)
  let ?s = "cascade_timers l s" and ?c = "c(l := c l + 1)"
  have moved: "placed s ?c P l' i' t \<and> l' \<noteq> l" if t: "t \<in> set xs" "?slot t = (l', i')" for t l' i'
  proof -
    obtain E where E: "P t = Some E" "tm_expires (timers s t) = of_nat E" "N \<le> E" "E < N + unit l" "deadline N (of_nat E) = E"
      using due_slot [OF w l due] t(1) by (auto simp: xs_def i_def)
    have ix0: "tv_index s 0 = N mod 256" using f(2) f(5) [of 0] by (simp add: slots_def)
    have c: "\<forall>l < 5. N \<le> unit l * c l \<and> unit l * c l \<le> N + unit l" using f(3,4) by blast
    from slot_of_spec [OF t(2) [unfolded f(1)] ix0 _ c f(2), of E] E(2,5)
    have sp: "l' < 5" "i' = E div unit l' mod slots l'" "c l' \<le> E div unit l'" "E div unit l' < c l' + slots l'"
      "l' > 0 \<longrightarrow> N + unit l' \<le> E" by auto
    then have "l' \<noteq> l" using E(4) l(1) by auto
    then show ?thesis using sp E(1,2) by (auto simp: placed_def)
  qed
  have vec: "tv_vec ?s l' i' = (if l' = l \<and> i' = i then [] else tv_vec s l' i' @ filter (\<lambda>t. ?slot t = (l', i')) xs)" for l' i'
    by (simp add: cascade_timers_def Let_def ix fold_attach_vec xs_def)
  have ex: "tm_expires (timers ?s u) = tm_expires (timers s u)" for u by (simp add: cascade_timers_def Let_def)
  have act: "tm_active (timers ?s u) \<longleftrightarrow> tm_active (timers s u)" for u
    using f(6) [of u] f(7) [of u l i] by (auto simp: cascade_timers_def Let_def ix fold_attach_active xs_def placed_def)
  have stay: "placed s ?c P l' i' t" if m: "t \<in> set (tv_vec s l' i')" "\<not> (l' = l \<and> i' = i)" for t l' i'
  proof -
    obtain E where E: "P t = Some E" "l' < 5" "i' = E div unit l' mod slots l'" "c l' \<le> E div unit l'"
      "E div unit l' < c l' + slots l'" "l' > 0 \<longrightarrow> tm_expires (timers s t) = of_nat E"
      using f(7) [OF m(1)] by (auto simp: placed_def)
    have "c l < E div unit l" if "l' = l"
      using that E(3,4) m(2) l by (auto simp: i_def slots_def le_less)
    then show ?thesis using E by (auto simp: placed_def)
  qed
  show ?thesis
  proof (rule wheelI)
    fix l' i' t assume "t \<in> set (tv_vec ?s l' i')"
    then show "placed ?s ?c P l' i' t"
      using stay [of t l' i'] moved [of t l' i'] by (auto simp: vec placed_same [OF ex] split: if_splits)
  next
    fix l' i' show "distinct (tv_vec ?s l' i')"
    proof -
      have "set (tv_vec s l' i') \<inter> set xs = {}" if "\<not> (l' = l \<and> i' = i)" using f(9) that by (auto simp: xs_def)
      then show ?thesis using f(8) by (auto simp: vec xs_def)
    qed
  next
    fix l1 i1 l2 i2 t assume "t \<in> set (tv_vec ?s l1 i1)" "t \<in> set (tv_vec ?s l2 i2)"
    then show "l1 = l2 \<and> i1 = i2" using f(9) [of t] by (auto simp: vec xs_def split: if_splits)
  next
    fix t assume "t \<in> dom P"
    then obtain l' i' where t: "t \<in> set (tv_vec s l' i')" using f(10) by blast
    obtain l2 i2 where sl: "?slot t = (l2, i2)" by fastforce
    show "\<exists>l i. t \<in> set (tv_vec ?s l i)"
    proof (cases "l' = l \<and> i' = i")
      case True
      then have "t \<in> set xs" using t by (simp add: xs_def)
      then have "t \<in> set (tv_vec ?s l2 i2)" using moved [OF _ sl] sl by (auto simp: vec)
      then show ?thesis by blast
    next
      case False
      then have "t \<in> set (tv_vec ?s l' i')" using t by (auto simp: vec)
      then show ?thesis by blast
    qed
  next
    fix l' assume l': "l' < (5::nat)"
    have "tv_index ?s l' = (if l' = l then (i + 1) mod 64 else tv_index s l')"
      by (simp add: cascade_timers_def Let_def ix)
    then show "N \<le> unit l' * ?c l' \<and> unit l' * ?c l' \<le> N + unit l' \<and> tv_index ?s l' = ?c l' mod slots l'"
      using f(3-5) [OF l'] due l by (auto simp: i_def slots_def mod_Suc_eq)
  qed (use f(1,2,6) l act in \<open>auto simp: cascade_timers_def Let_def\<close>)
qed


section \<open>A tick of the wheel\<close>

definition next_slot :: "nat \<Rightarrow> nat \<Rightarrow> nat" where
  "next_slot N l = (if unit l dvd N then N div unit l else N div unit l + 1)"

text \<open>The wheel between ticks: \<open>N\<close> is the next tick to be processed.\<close>

definition wheel_at :: "'a ktimer_scheme \<Rightarrow> nat \<Rightarrow> (addr \<Rightarrow> nat option) \<Rightarrow> bool" where
  "wheel_at s N P \<longleftrightarrow> wheel s N (next_slot N) P"

lemma unit_0 [simp]: "unit 0 = 1"
  by (simp add: unit_def)

lemma unit_Suc: "0 < n \<Longrightarrow> unit (Suc n) = 64 * unit n"
  by (cases n) (simp_all add: unit_def power_add)

lemma unit_dvd: "0 < n \<Longrightarrow> n \<le> l \<Longrightarrow> unit n dvd unit l"
  by (auto simp: unit_def intro!: le_imp_power_dvd)

lemma next_slot_Suc: "0 < l \<Longrightarrow> next_slot (Suc N) l = N div unit l + 1"
proof -
  assume "0 < l"
  then have u: "2 \<le> unit l" using self_le_power [of 2 "8 + 6 * (l - 1)"] by (simp add: unit_def)
  show ?thesis
  proof (cases "unit l dvd Suc N")
    case True
    then show ?thesis by (simp add: next_slot_def div_Suc dvd_eq_mod_eq_0)
  next
    case False
    then show ?thesis by (simp add: next_slot_def div_Suc dvd_eq_mod_eq_0)
  qed
qed

lemma cascade_from_wheel:
  "wheel s N c P \<Longrightarrow> 0 < n \<Longrightarrow> n < 5 \<Longrightarrow> unit n dvd N \<Longrightarrow>
   (\<forall>l. 0 < l \<and> l < n \<longrightarrow> c l = N div unit l + 1) \<Longrightarrow> (\<forall>l. n \<le> l \<and> l < 5 \<longrightarrow> c l = next_slot N l) \<Longrightarrow>
   \<exists>c'. wheel (cascade_from n s) N c' P \<and> (\<forall>l. 0 < l \<and> l < 5 \<longrightarrow> c' l = N div unit l + 1)"
proof (induction "5 - n" arbitrary: n s c)
  case (Suc k)
  have cn: "c n = N div unit n" using Suc.prems(3,4,6) by (simp add: next_slot_def)
  then have due: "N = unit n * c n" using Suc.prems(4) by simp
  let ?s1 = "cascade_timers n s" and ?c1 = "c(n := c n + 1)"
  have w1: "wheel ?s1 N ?c1 P" by (rule cascade_timers_wheel [OF Suc.prems(1-3) due])
  have "tv_index ?s1 n = (c n + 1) mod 64" using wheel_fields(5) [OF w1 Suc.prems(3)] Suc.prems(2) by (simp add: slots_def)
  also have "\<dots> = 1 \<longleftrightarrow> 64 dvd c n" by (simp add: mod_Suc dvd_eq_mod_eq_0)
  also have "\<dots> \<longleftrightarrow> unit (Suc n) dvd N"
  proof -
    have "N = c n * unit n" using due by (simp add: mult.commute)
    then have "unit (Suc n) dvd N \<longleftrightarrow> 64 * unit n dvd c n * unit n" using unit_Suc [OF Suc.prems(2)] by simp
    then show ?thesis using unit_pos [of n] dvd_times_right_cancel_iff [of "unit n" 64 "c n"] by simp
  qed
  finally have idx: "tv_index ?s1 n = 1 \<longleftrightarrow> unit (Suc n) dvd N" .
  have lower: "\<forall>l. 0 < l \<and> l < Suc n \<longrightarrow> ?c1 l = N div unit l + 1" using Suc.prems(5) cn by (auto simp: less_Suc_eq)
  have upper: "\<forall>l. Suc n \<le> l \<and> l < 5 \<longrightarrow> ?c1 l = next_slot N l" using Suc.prems(6) by auto
  show ?case
  proof (cases "unit (Suc n) dvd N \<and> Suc n < 5")
    case True
    then have "cascade_from n s = cascade_from (Suc n) ?s1" using idx by (subst cascade_from.simps) (simp add: Let_def)
    moreover have "k = 5 - Suc n" using Suc.hyps(2) by simp
    ultimately show ?thesis using Suc.hyps(1) [OF _ w1 _ _ _ lower upper] True by simp
  next
    case False
    then have "cascade_from n s = ?s1" using idx by (subst cascade_from.simps) (auto simp: Let_def)
    moreover have "?c1 l = N div unit l + 1" if "0 < l" "l < 5" for l
    proof (cases "l < Suc n")
      case True
      with lower that show ?thesis by blast
    next
      case l: False
      then have "\<not> unit (Suc n) dvd N" using False that by auto
      then have "\<not> unit l dvd N" using unit_dvd [of "Suc n" l] l by (meson dvd_trans not_less zero_less_Suc)
      then show ?thesis using upper l that by (simp add: next_slot_def)
    qed
    ultimately show ?thesis using w1 by auto
  qed
qed simp

lemma cascade_keeps:
  "ktimer.more (cascade_timers l s) = ktimer.more s" "ticks (cascade_timers l s) = ticks s"
  "tm_handler (timers (cascade_timers l s) t) = tm_handler (timers s t)" "tm_arg (timers (cascade_timers l s) t) = tm_arg (timers s t)"
  by (simp_all add: cascade_timers_def Let_def)

lemma cascade_from_keeps:
  "ktimer.more (cascade_from n s) = ktimer.more s" "ticks (cascade_from n s) = ticks s"
  "tm_handler (timers (cascade_from n s) t) = tm_handler (timers s t)" "tm_arg (timers (cascade_from n s) t) = tm_arg (timers s t)"
  by (induction n s rule: cascade_from.induct; subst cascade_from.simps; simp add: Let_def cascade_keeps)+

text \<open>Handlers that act on the rest of the state and leave the wheel alone.\<close>

definition on_more :: "(addr \<Rightarrow> addr \<Rightarrow> 'a \<Rightarrow> 'a) \<Rightarrow> addr \<Rightarrow> addr \<Rightarrow> 'a ktimer_scheme \<Rightarrow> 'a ktimer_scheme option" where
  "on_more f h a s = Some (ktimer.more_update (f h a) s)"

lemma wheel_cong:
  assumes "timers s' = timers s" "timer_ticks s' = timer_ticks s" "tv_index s' = tv_index s" "tv_vec s' = tv_vec s"
  shows "wheel s' N c P = wheel s N c P"
  using assms by (simp add: wheel_def placed_def)

lemma fire_slot_all:
  "wheel s N c P \<Longrightarrow> tv_vec s 0 (tv_index s 0) = xs \<Longrightarrow> length xs < fuel \<Longrightarrow>
   \<exists>s'. fire_slot (on_more f) fuel s = Some s' \<and> wheel s' N c (P |` (- set xs)) \<and> tv_vec s' 0 (tv_index s' 0) = [] \<and>
     ticks s' = ticks s \<and> (\<forall>t. tm_handler (timers s' t) = tm_handler (timers s t) \<and> tm_arg (timers s' t) = tm_arg (timers s t)) \<and>
     ktimer.more s' = fold (\<lambda>t. f (tm_handler (timers s t)) (tm_arg (timers s t))) xs (ktimer.more s)"
proof (induction xs arbitrary: s P fuel)
  case Nil
  then show ?case by (cases fuel) (simp_all add: restrict_map_def)
next
  case (Cons t xs)
  obtain n where fuel: "fuel = Suc n" using Cons.prems(3) by (cases fuel) simp_all
  note w = wheel_fields [OF Cons.prems(1)]
  let ?i = "tv_index s 0"
  have t: "t \<in> set (tv_vec s 0 ?i)" using Cons.prems(2) by simp
  have act: "tm_active (timers s t)" using w(6) [of t] w(7) [OF t] by (auto simp: placed_def)
  have nt: "t \<notin> set xs" using w(8) [of 0 ?i] Cons.prems(2) by simp
  define s1 where "s1 = ktimer.more_update (f (tm_handler (timers s t)) (tm_arg (timers s t))) (snd (detach_timer t s))"
  have s1: "timers s1 = timers (snd (detach_timer t s))" "timer_ticks s1 = timer_ticks (snd (detach_timer t s))"
    "tv_index s1 = tv_index (snd (detach_timer t s))" "tv_vec s1 = tv_vec (snd (detach_timer t s))"
    by (simp_all add: s1_def)
  have "wheel s1 N c (P(t := None))" using detach_timer_wheel [OF Cons.prems(1), of t] wheel_cong [OF s1] by blast
  moreover have "tv_vec s1 0 (tv_index s1 0) = xs"
    using Cons.prems(2) act nt by (simp add: s1 detach_timer_def unlink_timer_def)
  moreover have "length xs < n" using Cons.prems(3) fuel by simp
  ultimately obtain s' where s': "fire_slot (on_more f) n s1 = Some s'" "wheel s' N c (P(t := None) |` (- set xs))"
    "tv_vec s' 0 (tv_index s' 0) = []" "ticks s' = ticks s1"
    "\<forall>u. tm_handler (timers s' u) = tm_handler (timers s1 u) \<and> tm_arg (timers s' u) = tm_arg (timers s1 u)"
    "ktimer.more s' = fold (\<lambda>t. f (tm_handler (timers s1 t)) (tm_arg (timers s1 t))) xs (ktimer.more s1)"
    using Cons.IH [of s1 "P(t := None)" n] by blast
  have k: "tm_handler (timers s1 u) = tm_handler (timers s u)" "tm_arg (timers s1 u) = tm_arg (timers s u)" for u
    using act by (simp_all add: s1 detach_timer_def unlink_timer_def)
  have "P(t := None) |` (- set xs) = P |` (- set (t # xs))" using nt by (auto simp: restrict_map_def)
  moreover have "fire_slot (on_more f) fuel s = fire_slot (on_more f) n s1"
    using fuel Cons.prems(2) by (simp add: on_more_def s1_def)
  moreover have "ticks s1 = ticks s" "ktimer.more s1 = f (tm_handler (timers s t)) (tm_arg (timers s t)) (ktimer.more s)"
    using act by (simp_all add: s1_def detach_timer_def unlink_timer_def)
  ultimately show ?case using s' k by simp
qed


lemma wheel_advance:
  assumes "wheel s N c P" "tv_vec s 0 (tv_index s 0) = []" "\<forall>l. 0 < l \<and> l < 5 \<longrightarrow> c l = N div unit l + 1"
  shows "wheel_at (s\<lparr>timer_ticks := timer_ticks s + 1, tv_index := (tv_index s)(0 := (tv_index s 0 + 1) mod 256)\<rparr>) (Suc N) P"
    (is "wheel_at ?s _ _")
proof -
  note w = wheel_fields [OF assms(1)]
  have i0: "tv_index s 0 = N mod 256" using w(2) w(5) [of 0] by (simp add: slots_def)
  have c: "next_slot (Suc N) l = (if l = 0 then Suc N else c l)" if "l < 5" for l
    using that assms(3) next_slot_Suc by (auto simp: next_slot_def [of _ 0])
  have bound: "Suc N \<le> unit l * next_slot (Suc N) l \<and> unit l * next_slot (Suc N) l \<le> Suc N + unit l" if "l < 5" for l
  proof (cases "l = 0")
    case False
    have "N < unit l * (N div unit l + 1)" by (metis Suc_eq_plus1 dividend_less_times_div mult_Suc_right unit_pos add.commute)
    moreover have "unit l * (N div unit l) \<le> Suc N" by (rule le_SucI [OF times_div_less_eq_dividend])
    ultimately show ?thesis using False next_slot_Suc [of l N] by (simp add: algebra_simps)
  qed (simp add: c)
  show ?thesis unfolding wheel_at_def
  proof (rule wheelI)
    fix l i t assume t: "t \<in> set (tv_vec ?s l i)"
    then obtain E where E: "P t = Some E" "l < 5" "i = E div unit l mod slots l" "c l \<le> E div unit l"
      "E div unit l < c l + slots l" "l > 0 \<longrightarrow> tm_expires (timers s t) = of_nat E"
      using w(7) [of t l i] by (auto simp: placed_def)
    have "E \<noteq> N" if "l = 0" using t assms(2) E(3) that i0 by (auto simp: slots_def)
    then have "next_slot (Suc N) l \<le> E div unit l" "E div unit l < next_slot (Suc N) l + slots l"
      using E(4,5) c [OF E(2)] w(2) by (auto split: if_splits)
    then show "placed ?s (next_slot (Suc N)) P l i t" using E by (simp add: placed_def)
  next
    fix l assume l: "l < (5::nat)"
    have "tv_index ?s l = next_slot (Suc N) l mod slots l"
      using w(5) [OF l] c [OF l] by (auto simp: slots_def i0 mod_Suc_eq)
    with bound [OF l] show "Suc N \<le> unit l * next_slot (Suc N) l \<and> unit l * next_slot (Suc N) l \<le> Suc N + unit l \<and>
        tv_index ?s l = next_slot (Suc N) l mod slots l" by blast
  qed (use w(1,6,8,9,10) c [of 0] in auto)
qed

lemma timer_tick_wheel:
  assumes "wheel_at s N P" "finite (dom P)" "card (dom P) < fuel"
  shows "\<exists>s' ts. timer_tick (on_more f) fuel s = Some s' \<and> distinct ts \<and> set ts = {t. P t = Some N} \<and>
    wheel_at s' (Suc N) (P |` (- set ts)) \<and> ticks s' = ticks s \<and>
    (\<forall>t. tm_handler (timers s' t) = tm_handler (timers s t) \<and> tm_arg (timers s' t) = tm_arg (timers s t)) \<and>
    ktimer.more s' = fold (\<lambda>t. f (tm_handler (timers s t)) (tm_arg (timers s t))) ts (ktimer.more s)"
proof -
  define s0 where "s0 = (if tv_index s 0 = 0 then cascade_from 1 s else s)"
  have ws: "wheel s N (next_slot N) P" using assms(1) by (simp add: wheel_at_def)
  have i0: "tv_index s 0 = N mod 256" using wheel_fields(2) [OF ws] wheel_fields(5) [OF ws, of 0] by (simp add: slots_def)
  have k: "ktimer.more s0 = ktimer.more s" "ticks s0 = ticks s"
    "tm_handler (timers s0 t) = tm_handler (timers s t)" "tm_arg (timers s0 t) = tm_arg (timers s t)" for t
    by (simp_all add: s0_def cascade_from_keeps)
  obtain c where w0: "wheel s0 N c P" and c: "\<forall>l. 0 < l \<and> l < 5 \<longrightarrow> c l = N div unit l + 1"
  proof (cases "N mod 256 = 0")
    case True
    then have "unit 1 dvd N" by (simp add: unit_def dvd_eq_mod_eq_0)
    from cascade_from_wheel [OF ws _ _ this] True i0 that show thesis by (auto simp: s0_def)
  next
    case False
    have "\<not> unit l dvd N" if "0 < l" for l
      using unit_dvd [of 1 l] that False dvd_trans [of 256 "unit l" N] by (auto simp: unit_def dvd_eq_mod_eq_0)
    then have "\<forall>l. 0 < l \<and> l < 5 \<longrightarrow> next_slot N l = N div unit l + 1" by (simp add: next_slot_def)
    with ws False i0 that show thesis by (simp add: s0_def)
  qed
  note f0 = wheel_fields [OF w0]
  define ts where "ts = tv_vec s0 0 (tv_index s0 0)"
  have i0': "tv_index s0 0 = N mod 256" using f0(2) f0(5) [of 0] by (simp add: slots_def)
  have ts: "set ts = {t. P t = Some N}"
  proof (intro equalityI subsetI)
    fix t assume "t \<in> set ts"
    then obtain E where E: "P t = Some E" "N mod 256 = E mod 256" "N \<le> E" "E < N + 256"
      using f0(7) [of t 0 "tv_index s0 0"] f0(2) i0' by (auto simp: ts_def placed_def slots_def)
    then have "256 dvd E - N" "E - N < 256" using mod_eq_dvd_iff_nat [of N E 256] by auto
    then have "E - N = 0" using nat_dvd_not_less by blast
    then show "t \<in> {t. P t = Some N}" using E by simp
  next
    fix t assume "t \<in> {t. P t = Some N}"
    then have P: "P t = Some N" by simp
    then obtain l i where t: "t \<in> set (tv_vec s0 l i)" using f0(10) [of t] by auto
    with f0(7) [OF t] P have pl: "l < 5" "i = N div unit l mod slots l" "c l \<le> N div unit l" by (auto simp: placed_def)
    then have "l = 0" using c by (metis Suc_eq_plus1 gr0I not_less_eq_eq order_refl)
    then show "t \<in> set ts" using t pl i0' by (simp add: ts_def slots_def)
  qed
  have "length ts = card (set ts)" using f0(8) by (simp add: ts_def distinct_card)
  also have "\<dots> \<le> card (dom P)" using ts assms(2) by (intro card_mono) auto
  finally have fuel: "length ts < fuel" using assms(3) by simp
  from fire_slot_all [OF w0 ts_def [symmetric] fuel, of f] obtain s1 where s1: "fire_slot (on_more f) fuel s0 = Some s1"
    "wheel s1 N c (P |` (- set ts))" "tv_vec s1 0 (tv_index s1 0) = []" "ticks s1 = ticks s0"
    "\<forall>t. tm_handler (timers s1 t) = tm_handler (timers s0 t) \<and> tm_arg (timers s1 t) = tm_arg (timers s0 t)"
    "ktimer.more s1 = fold (\<lambda>t. f (tm_handler (timers s0 t)) (tm_arg (timers s0 t))) ts (ktimer.more s0)" by blast
  have dts: "distinct ts" using f0(8) by (simp add: ts_def)
  let ?s' = "s1\<lparr>timer_ticks := timer_ticks s1 + 1, tv_index := (tv_index s1)(0 := (tv_index s1 0 + 1) mod 256)\<rparr>"
  have "timer_tick (on_more f) fuel s = Some ?s'" using s1(1) by (simp add: timer_tick_def s0_def [symmetric])
  moreover have "wheel_at ?s' (Suc N) (P |` (- set ts))" by (rule wheel_advance [OF s1(2,3) c])
  ultimately show ?thesis using s1(4-6) k ts dts by (intro exI [of _ ?s'] exI [of _ ts]) simp
qed


lemma wheel_future:
  assumes "wheel s N c P" "P t = Some E"
  shows "N \<le> E"
proof -
  have "t \<in> dom P" using assms(2) by auto
  then obtain l i where "t \<in> set (tv_vec s l i)" using wheel_fields(10) [OF assms(1)] by blast
  from wheel_fields(7) [OF assms(1) this] assms(2) have l: "l < 5" "c l \<le> E div unit l" by (auto simp: placed_def)
  have "N \<le> unit l * c l" by (rule wheel_fields(3) [OF assms(1) l(1)])
  also have "\<dots> \<le> unit l * (E div unit l)" using l(2) by simp
  also have "\<dots> \<le> E" by (rule times_div_less_eq_dividend)
  finally show ?thesis .
qed

lemma clock_reached:
  assumes "N \<le> Suc T" "T < N + 2 ^ 31"
  shows "sint (of_nat T - of_nat N :: u32) \<ge> 0 \<longleftrightarrow> N \<le> T"
proof (cases "N \<le> T")
  case True
  have "(of_nat T - of_nat N :: u32) = of_nat (T - N)" using True by simp
  moreover have "unat (of_nat (T - N) :: u32) = T - N" using assms(2) by (simp add: unat_of_nat take_bit_eq_mod)
  moreover have "T - N < 2 ^ 31" using assms(2) True by simp
  ultimately have "\<not> sint (of_nat T - of_nat N :: u32) < 0" by (simp add: sint_neg_iff)
  with True show ?thesis by simp
next
  case False
  then have "N = Suc T" using assms(1) by simp
  then have "(of_nat T - of_nat N :: u32) = -1" by simp
  with False show ?thesis by simp
qed

lemma timer_keeps:
  "wheel_at s N P \<Longrightarrow> wheel_at (snd (detach_timer t s)) N (P(t := None))"
  "wheel_at s N P \<Longrightarrow> t \<notin> dom P \<Longrightarrow> wheel_at (attach_timer t s) N (P(t \<mapsto> deadline N (tm_expires (timers s t))))"
  by (auto simp: wheel_at_def intro: detach_timer_wheel attach_timer_wheel)

text \<open>Changing the fields of a timer that is not active does not touch the wheel.\<close>

lemma wheel_at_upd:
  assumes "wheel_at s N P" "t \<notin> dom P" "tm_active (f (timers s t)) = tm_active (timers s t)"
  shows "wheel_at (upd_timer t f s) N P"
  unfolding wheel_at_def
proof (rule wheelI)
  note w = wheel_fields [OF assms(1) [unfolded wheel_at_def]]
  fix l i u assume u: "u \<in> set (tv_vec (upd_timer t f s) l i)"
  then have "u \<noteq> t" using w(7) [of u l i] assms(2) by (auto simp: placed_def)
  with u w(7) [of u l i] show "placed (upd_timer t f s) (next_slot N) P l i u" by (simp add: placed_def)
next
  note w = wheel_fields [OF assms(1) [unfolded wheel_at_def]]
  fix l assume "l < (5::nat)"
  with w(3-5) show "N \<le> unit l * next_slot N l \<and> unit l * next_slot N l \<le> N + unit l \<and>
      tv_index (upd_timer t f s) l = next_slot N l mod slots l" by simp
qed (use wheel_fields [OF assms(1) [unfolded wheel_at_def]] assms(3) in auto)

definition demo_ktimer :: "addr list ktimer_scheme" where
  "demo_ktimer = sched.extend demo_sched
     \<lparr>timers = (\<lambda>_. \<lparr>tm_expires = 0, tm_active = False, tm_handler = 0, tm_arg = 0\<rparr>)
        (3 := \<lparr>tm_expires = 300, tm_active = False, tm_handler = 9, tm_arg = 10\<rparr>,
         2 := \<lparr>tm_expires = 5, tm_active = False, tm_handler = 9, tm_arg = 20\<rparr>),
      ticks = 300, timer_ticks = 0, tv_index = (\<lambda>_. 0), tv_vec = (\<lambda>_ _. []), \<dots> = []\<rparr>"

lemma demo_ktimer_fields:
  "timer_ticks demo_ktimer = 0" "tv_index demo_ktimer = (\<lambda>_. 0)" "tv_vec demo_ktimer = (\<lambda>_ _. [])" "ticks demo_ktimer = 300"
  "ktimer.more demo_ktimer = []" "\<not> tm_active (timers demo_ktimer t)" "tm_expires (timers demo_ktimer 3) = 300"
  "tm_expires (timers demo_ktimer 2) = 5" "tm_handler (timers demo_ktimer 3) = 9" "tm_arg (timers demo_ktimer 3) = 10"
  "tm_handler (timers demo_ktimer 2) = 9" "tm_arg (timers demo_ktimer 2) = 20"
  by (simp_all add: demo_ktimer_def sched.defs demo_sched_def)

lemma demo_wheel: "wheel_at demo_ktimer 0 Map.empty"
  unfolding wheel_at_def by (rule wheelI) (simp_all add: demo_ktimer_fields next_slot_def)

lemma demo_wheel_two: "wheel_at (attach_timer 2 (attach_timer 3 demo_ktimer)) 0 [3 \<mapsto> 300, 2 \<mapsto> 5]"
proof -
  have d: "deadline 0 300 = 300" "deadline 0 5 = 5" by (simp_all add: deadline_def sint_neg_iff)
  have "wheel_at (attach_timer 3 demo_ktimer) 0 [3 \<mapsto> 300]"
    using timer_keeps(2) [OF demo_wheel, of 3] by (simp add: demo_ktimer_fields d)
  from timer_keeps(2) [OF this, of 2] show ?thesis by (simp add: demo_ktimer_fields d)
qed

section \<open>Correctness of the wheel\<close>

text \<open>
  C3: the wheel is a queue of deadlines, across the wrap-around of the tick counter.
  \<^verbatim>\<open>run_timer_list\<close> returns (with fuel for the ticks to be processed and the pending
  timers), calls the handlers of exactly the timers whose deadline has been reached, each
  once and in the order of their deadlines, and leaves exactly the later ones pending, with
  the wheel ready for the next tick.
\<close>

theorem run_timer_list_correct:
  "wheel_at s N P \<Longrightarrow> finite (dom P) \<Longrightarrow> ticks s = of_nat T \<Longrightarrow> N \<le> Suc T \<Longrightarrow> T < N + 2 ^ 31 \<Longrightarrow>
   Suc T - N + card (dom P) < fuel \<Longrightarrow>
   \<exists>s' ts. run_timer_list (on_more f) fuel s = Some s' \<and> distinct ts \<and> set ts = {t. \<exists>E. P t = Some E \<and> E \<le> T} \<and>
     sorted (map (\<lambda>t. the (P t)) ts) \<and> wheel_at s' (Suc T) (P |` (- set ts)) \<and>
     ktimer.more s' = fold (\<lambda>t. f (tm_handler (timers s t)) (tm_arg (timers s t))) ts (ktimer.more s)"
proof (induction fuel arbitrary: s N P)
  case (Suc fuel)
  have w: "wheel s N (next_slot N) P" using Suc.prems(1) by (simp add: wheel_at_def)
  have tt: "timer_ticks s = of_nat N" by (rule wheel_fields(1) [OF w])
  have go: "sint (ticks s - timer_ticks s) \<ge> 0 \<longleftrightarrow> N \<le> T" using clock_reached [OF Suc.prems(4,5)] Suc.prems(3) tt by simp
  show ?case
  proof (cases "N \<le> T")
    case False
    then have N: "N = Suc T" using Suc.prems(4) by simp
    have none: "{t. \<exists>E. P t = Some E \<and> E \<le> T} = {}" using wheel_future [OF w] N by fastforce
    have "run_timer_list (on_more f) (Suc fuel) s = Some s" using go False by simp
    moreover have "P |` (- set []) = P" by (simp add: restrict_map_def)
    ultimately show ?thesis using none N Suc.prems(1) by (intro exI [of _ s] exI [of _ "[]"]) simp
  next
    case True
    have "card (dom P) < fuel" using Suc.prems(6) True by simp
    from timer_tick_wheel [OF Suc.prems(1,2) this, of f] obtain s1 ts1 where s1: "timer_tick (on_more f) fuel s = Some s1"
      "distinct ts1" "set ts1 = {t. P t = Some N}" "wheel_at s1 (Suc N) (P |` (- set ts1))" "ticks s1 = ticks s"
      "\<forall>t. tm_handler (timers s1 t) = tm_handler (timers s t) \<and> tm_arg (timers s1 t) = tm_arg (timers s t)"
      "ktimer.more s1 = fold (\<lambda>t. f (tm_handler (timers s t)) (tm_arg (timers s t))) ts1 (ktimer.more s)" by blast
    let ?P = "P |` (- set ts1)"
    have "dom ?P \<subseteq> dom P" by (auto simp: restrict_map_def split: if_splits)
    then have fin: "finite (dom ?P)" "card (dom ?P) \<le> card (dom P)" using Suc.prems(2) by (auto intro: finite_subset card_mono)
    have "ticks s1 = of_nat T" "Suc N \<le> Suc T" "T < Suc N + 2 ^ 31" "Suc T - Suc N + card (dom ?P) < fuel"
      using Suc.prems(3,5,6) s1(5) True fin(2) by simp_all
    from Suc.IH [OF s1(4) fin(1) this] obtain s2 ts2 where s2: "run_timer_list (on_more f) fuel s1 = Some s2" "distinct ts2"
      "set ts2 = {t. \<exists>E. ?P t = Some E \<and> E \<le> T}" "sorted (map (\<lambda>t. the (?P t)) ts2)"
      "wheel_at s2 (Suc T) (?P |` (- set ts2))"
      "ktimer.more s2 = fold (\<lambda>t. f (tm_handler (timers s1 t)) (tm_arg (timers s1 t))) ts2 (ktimer.more s1)" by blast
    let ?ts = "ts1 @ ts2"
    have dis: "set ts1 \<inter> set ts2 = {}" using s2(3) by (auto simp: restrict_map_def split: if_splits)
    have "?P t = P t" if "t \<in> set ts2" for t using dis that by (auto simp: restrict_map_def)
    then have P2: "map (\<lambda>t. the (P t)) ts2 = map (\<lambda>t. the (?P t)) ts2" by simp
    have "set ?ts = {t. \<exists>E. P t = Some E \<and> E \<le> T}" using s1(3) s2(3) True by (auto simp: restrict_map_def split: if_splits)
    moreover have "sorted (map (\<lambda>t. the (P t)) ?ts)"
    proof -
      have "map (\<lambda>t. the (P t)) ts1 = replicate (length ts1) N" using s1(3) by (auto intro!: replicate_eqI)
      moreover have "\<forall>t \<in> set ts2. N \<le> the (P t)"
        using s2(3) wheel_future [OF w] by (auto simp: restrict_map_def split: if_splits)
      moreover have "sorted (map (\<lambda>t. the (P t)) ts2)" unfolding P2 by (rule s2(4))
      ultimately show ?thesis by (auto simp: sorted_append)
    qed
    moreover have "?P |` (- set ts2) = P |` (- set ?ts)" by (auto simp: restrict_map_def)
    moreover have "run_timer_list (on_more f) (Suc fuel) s = Some s2" using go True s1(1) s2(1) by simp
    ultimately show ?thesis using s1 s2 dis by (intro exI [of _ s2] exI [of _ ?ts]) simp
  qed
qed simp

theorem run_timer_list_correct_witness:
  "\<exists>s'. run_timer_list (on_more (\<lambda>h a l. l @ [a])) 400 (attach_timer 2 (attach_timer 3 demo_ktimer)) = Some s' \<and>
     ktimer.more s' = [20, 10]"
proof -
  let ?s = "attach_timer 2 (attach_timer 3 demo_ktimer)" and ?P = "[3 \<mapsto> 300, 2 \<mapsto> 5] :: addr \<Rightarrow> nat option"
  have "ticks ?s = of_nat 300" "finite (dom ?P)" "card (dom ?P) = 2" by (simp_all add: demo_ktimer_fields)
  then obtain s' ts where r: "run_timer_list (on_more (\<lambda>h a l. l @ [a])) 400 ?s = Some s'" "distinct ts"
    "set ts = {t. \<exists>E. ?P t = Some E \<and> E \<le> 300}" "sorted (map (\<lambda>t. the (?P t)) ts)"
    "ktimer.more s' = fold (\<lambda>t l. l @ [tm_arg (timers ?s t)]) ts (ktimer.more ?s)"
    using run_timer_list_correct [OF demo_wheel_two, of 300 400 "\<lambda>h a l. l @ [a]"] by auto
  have "set ts = {3, 2}" using r(3) by (auto split: if_splits)
  moreover from this r(2) have "length ts = 2" using distinct_card [of ts] by simp
  ultimately have "ts = [3, 2] \<or> ts = [2, 3]" using r(2)
    by (cases ts; cases "tl ts") (auto simp: insert_commute doubleton_eq_iff length_Suc_conv)
  then have "ts = [2, 3]" using r(4) by auto
  with r(1,5) show ?thesis by (simp add: demo_ktimer_fields)
qed

lemma timer_operations:
  assumes "wheel_at s N P"
  shows "wheel_at (snd (del_timer t s)) N (P(t := None))"
    and "fst (del_timer t s) = (if t \<in> dom P then 1 else 0)"
    and "wheel_at (snd (mod_timer t e s)) N (P(t \<mapsto> deadline N e))"
    and "fst (mod_timer t e s) = (if t \<in> dom P then 1 else 0)"
    and "wheel_at (add_timer t s) N (if t \<in> dom P then P else P(t \<mapsto> deadline N (tm_expires (timers s t))))"
proof -
  note act = wheel_fields(6) [OF assms [unfolded wheel_at_def]]
  show "wheel_at (snd (del_timer t s)) N (P(t := None))" using timer_keeps(1) [OF assms] by (simp add: del_timer_def)
  show "fst (del_timer t s) = (if t \<in> dom P then 1 else 0)" using act [of t] by (simp add: del_timer_def detach_timer_def)
  show "wheel_at (add_timer t s) N (if t \<in> dom P then P else P(t \<mapsto> deadline N (tm_expires (timers s t))))"
    using act [of t] assms timer_keeps(2) [OF assms, of t] by (simp add: add_timer_def)
  let ?s = "upd_timer t (\<lambda>r. r\<lparr>tm_expires := e\<rparr>) s"
  have d: "snd (detach_timer t ?s) = upd_timer t (\<lambda>r. r\<lparr>tm_expires := e\<rparr>) (snd (detach_timer t s))"
    by (cases "timers s t") (simp add: detach_timer_def unlink_timer_def upd_timer_def)
  have "wheel_at (snd (detach_timer t ?s)) N (P(t := None))"
    unfolding d by (rule wheel_at_upd [OF timer_keeps(1) [OF assms]]) simp_all
  from timer_keeps(2) [OF this, of t]
  have "wheel_at (attach_timer t (snd (detach_timer t ?s))) N (P(t \<mapsto> deadline N e))" by (simp add: d)
  then show "wheel_at (snd (mod_timer t e s)) N (P(t \<mapsto> deadline N e))" by (simp add: mod_timer_def case_prod_beta)
  show "fst (mod_timer t e s) = (if t \<in> dom P then 1 else 0)"
    using act [of t] by (simp add: mod_timer_def detach_timer_def)
qed

text \<open>
  C34: \<^verbatim>\<open>mod_timer\<close> and \<^verbatim>\<open>add_timer\<close> give a timer the deadline its expiry time
  denotes relative to the clock of the wheel (at once if it lies in the past), and
  \<^verbatim>\<open>del_timer\<close> removes it; no other timer's deadline changes, and the results tell
  whether the timer was pending.
\<close>

theorem timer_operations_correct:
  assumes "wheel_at s N P"
  shows "wheel_at (snd (del_timer t s)) N (P(t := None)) \<and> fst (del_timer t s) = (if t \<in> dom P then 1 else 0) \<and>
    wheel_at (snd (mod_timer t e s)) N (P(t \<mapsto> deadline N e)) \<and> fst (mod_timer t e s) = (if t \<in> dom P then 1 else 0) \<and>
    wheel_at (add_timer t s) N (if t \<in> dom P then P else P(t \<mapsto> deadline N (tm_expires (timers s t))))"
  using timer_operations [OF assms] by blast

theorem timer_operations_correct_witness:
  "wheel_at (snd (mod_timer 2 7 (attach_timer 2 (attach_timer 3 demo_ktimer)))) 0 [3 \<mapsto> 300, 2 \<mapsto> 7] \<and>
   wheel_at (snd (del_timer 3 (attach_timer 2 (attach_timer 3 demo_ktimer)))) 0 [2 \<mapsto> 5]"
proof -
  have "deadline 0 7 = 7" by (simp add: deadline_def sint_neg_iff)
  moreover have "[3 \<mapsto> 300, 2 \<mapsto> 5](3 := None) = ([2 \<mapsto> 5] :: addr \<Rightarrow> nat option)" by (auto simp: fun_eq_iff)
  moreover have "[3 \<mapsto> 300, 2 \<mapsto> 5](2 \<mapsto> 7) = ([3 \<mapsto> 300, 2 \<mapsto> 7] :: addr \<Rightarrow> nat option)" by simp
  ultimately show ?thesis using timer_operations_correct [OF demo_wheel_two, of 2 7] timer_operations_correct [OF demo_wheel_two, of 3]
    by metis
qed

end
