(* ===== verification/Objects.thy ===== *)
theory Objects
  imports Timer
begin

text \<open>
  The waitable kernel objects of \<^verbatim>\<open>src/src/sys/krnl/object.c\<close>, and the part of
  \<^verbatim>\<open>src/src/sys/krnl/iomux.c\<close> that waiting depends on. Objects and wait blocks are
  structures in a store; the structures that embed a \<^verbatim>\<open>struct object\<close> as their
  first member share its address, so the record below holds the members of all of them
  (events, semaphores, mutexes, I/O multiplexers and I/O objects), and a thread's object
  and a waitable timer's timer are found at the object's address. Wait blocks and timers
  that the code keeps on the stack of the waiting thread are passed by address. \<open>None\<close> is
  a call that does not come back. Loops along links are partial functions, so that a loop
  that runs forever is \<open>None\<close> as well.
\<close>

section \<open>Objects and wait blocks\<close>

datatype otype = ObjThread | ObjEvent | ObjTimer | ObjMutex | ObjSemaphore | ObjFile | ObjSocket | ObjIomux | ObjFilemap

datatype waittype = WaitAll | WaitAny

record kobject =
  o_type :: otype
  o_signaled :: bool
  o_handle_count :: u16
  o_lock_count :: u16
  o_waitlist_head :: "addr option"
  o_waitlist_tail :: "addr option"
  e_manual_reset :: bool
  s_count :: u32
  m_owner :: "addr option"
  m_recursion :: int
  x_flags :: int
  x_ready_head :: "addr option"
  x_ready_tail :: "addr option"
  x_waiting_head :: "addr option"
  x_waiting_tail :: "addr option"
  io_iomux :: "addr option"
  io_context :: int
  io_next :: "addr option"
  io_prev :: "addr option"
  io_events_signaled :: u16
  io_events_monitored :: u16

record waitblock =
  w_thread :: addr
  w_object :: "addr option"
  w_waittype :: waittype
  w_waitkey :: int
  w_next :: "addr option"
  w_next_wait :: "addr option"
  w_prev_wait :: "addr option"

record kernel = ktimer +
  objects :: "addr \<Rightarrow> kobject"
  waitblocks :: "addr \<Rightarrow> waitblock"

type_synonym 'a kexec = "'a kernel_ext ktimer_ext exec"

definition upd_obj :: "addr \<Rightarrow> (kobject \<Rightarrow> kobject) \<Rightarrow> 'a kernel_scheme \<Rightarrow> 'a kernel_scheme" where
  "upd_obj x f s = s\<lparr>objects := (objects s)(x := f (objects s x))\<rparr>"

definition upd_wb :: "addr \<Rightarrow> (waitblock \<Rightarrow> waitblock) \<Rightarrow> 'a kernel_scheme \<Rightarrow> 'a kernel_scheme" where
  "upd_wb w f s = s\<lparr>waitblocks := (waitblocks s)(w := f (waitblocks s w))\<rparr>"

abbreviation upd_wb_opt :: "addr option \<Rightarrow> (waitblock \<Rightarrow> waitblock) \<Rightarrow> 'a kernel_scheme \<Rightarrow> 'a kernel_scheme" where
  "upd_wb_opt p f s \<equiv> (case p of None \<Rightarrow> s | Some w \<Rightarrow> upd_wb w f s)"

definition insert_in_waitlist :: "addr \<Rightarrow> addr \<Rightarrow> 'a kernel_scheme \<Rightarrow> 'a kernel_scheme" where
  "insert_in_waitlist obj wb s =
     (let tl = o_waitlist_tail (objects s obj);
          s1 = upd_wb wb (\<lambda>r. r\<lparr>w_next_wait := None, w_prev_wait := tl\<rparr>) s;
          s2 = upd_wb_opt tl (\<lambda>r. r\<lparr>w_next_wait := Some wb\<rparr>) s1
      in upd_obj obj (\<lambda>r. r\<lparr>o_waitlist_tail := Some wb,
           o_waitlist_head := (if o_waitlist_head r = None then Some wb else o_waitlist_head r)\<rparr>) s2)"

definition remove_from_waitlist :: "addr \<Rightarrow> 'a kernel_scheme \<Rightarrow> 'a kernel_scheme option" where
  "remove_from_waitlist wb s =
     (let n = w_next_wait (waitblocks s wb); p = w_prev_wait (waitblocks s wb);
          s1 = upd_wb_opt n (\<lambda>r. r\<lparr>w_prev_wait := p\<rparr>) s;
          s2 = upd_wb_opt p (\<lambda>r. r\<lparr>w_next_wait := n\<rparr>) s1
      in do {
        x \<leftarrow> w_object (waitblocks s2 wb);
        let s3 = upd_obj x (\<lambda>r. r\<lparr>o_waitlist_head := (if o_waitlist_head r = Some wb then n else o_waitlist_head r),
                     o_waitlist_tail := (if o_waitlist_tail r = Some wb then p else o_waitlist_tail r)\<rparr>) s2;
        Some (upd_wb wb (\<lambda>r. r\<lparr>w_object := None, w_next_wait := None, w_prev_wait := None\<rparr>) s3)
      })"

text \<open>The loop of \<^verbatim>\<open>thread_ready_to_run\<close> over the wait blocks of the thread.\<close>

partial_function (option) ready_loop ::
    "addr \<Rightarrow> addr option \<Rightarrow> bool \<Rightarrow> bool \<Rightarrow> 'a kernel_scheme \<Rightarrow> (bool \<times> 'a kernel_scheme) option" where
  "ready_loop t wb any all s =
     (case wb of
        None \<Rightarrow> Some (any \<or> all, s)
      | Some w \<Rightarrow>
          (case w_object (waitblocks s w) of
             None \<Rightarrow> None
           | Some x \<Rightarrow>
               let sig = o_signaled (objects s x); isany = (w_waittype (waitblocks s w) = WaitAny);
                   s1 = (if sig then upd_thread t (\<lambda>r. r\<lparr>t_waitkey := w_waitkey (waitblocks s w)\<rparr>) s else s)
               in ready_loop t (w_next (waitblocks s1 w)) (any \<or> isany \<and> sig) (all \<and> (isany \<or> sig)) s1))"

definition thread_ready_to_run :: "addr \<Rightarrow> 'a kernel_scheme \<Rightarrow> (bool \<times> 'a kernel_scheme) option" where
  "thread_ready_to_run t s = ready_loop t (t_waitlist (thr s t)) False True s"

partial_function (option) cancel_loop :: "addr option \<Rightarrow> 'a kernel_scheme \<Rightarrow> 'a kernel_scheme option" where
  "cancel_loop wb s =
     (case wb of
        None \<Rightarrow> Some s
      | Some w \<Rightarrow>
          (case remove_from_waitlist w s of
             None \<Rightarrow> None
           | Some s1 \<Rightarrow> cancel_loop (w_next (waitblocks s1 w)) s1))"

definition cancel_wait :: "addr \<Rightarrow> 'a kernel_scheme \<Rightarrow> 'a kernel_scheme option" where
  "cancel_wait t s = do {
     s1 \<leftarrow> cancel_loop (t_waitlist (thr s t)) s;
     Some (upd_thread t (\<lambda>r. r\<lparr>t_waitlist := None\<rparr>) s1)
   }"

definition release_thread :: "addr \<Rightarrow> 'a kernel_scheme \<Rightarrow> 'a kernel_scheme option" where
  "release_thread t s = do { s1 \<leftarrow> cancel_wait t s; mark_thread_ready t 1 1 s1 }"

partial_function (option) release_waiters_loop :: "int \<Rightarrow> addr option \<Rightarrow> 'a kernel_scheme \<Rightarrow> 'a kernel_scheme option" where
  "release_waiters_loop waitkey wb s =
     (case wb of
        None \<Rightarrow> Some s
      | Some w \<Rightarrow>
          let next = w_next_wait (waitblocks s w); t = w_thread (waitblocks s w) in
          (case thread_ready_to_run t s of
             None \<Rightarrow> None
           | Some (rdy, s1) \<Rightarrow>
               if rdy then
                 (case release_thread t (upd_thread t (\<lambda>r. r\<lparr>t_waitkey := waitkey\<rparr>) s1) of
                    None \<Rightarrow> None
                  | Some s2 \<Rightarrow> release_waiters_loop waitkey next s2)
               else release_waiters_loop waitkey next s1))"

definition release_waiters :: "addr \<Rightarrow> int \<Rightarrow> 'a kernel_scheme \<Rightarrow> 'a kernel_scheme option" where
  "release_waiters x waitkey s = release_waiters_loop waitkey (o_waitlist_head (objects s x)) s"

section \<open>I/O multiplexers\<close>

definition detach_ioobject :: "addr \<Rightarrow> 'a kernel_scheme \<Rightarrow> 'a kernel_scheme" where
  "detach_ioobject iob s =
     (case io_iomux (objects s iob) of
        None \<Rightarrow> s
      | Some mx \<Rightarrow>
          let n = io_next (objects s iob); p = io_prev (objects s iob);
              s1 = (case n of None \<Rightarrow> s | Some x \<Rightarrow> upd_obj x (\<lambda>r. r\<lparr>io_prev := p\<rparr>) s);
              s2 = (case p of None \<Rightarrow> s1 | Some x \<Rightarrow> upd_obj x (\<lambda>r. r\<lparr>io_next := n\<rparr>) s1);
              s3 = (if io_events_monitored (objects s2 iob) AND io_events_signaled (objects s2 iob) \<noteq> 0
                    then
                      let s4 = upd_obj mx (\<lambda>r. r\<lparr>x_ready_head := (if x_ready_head r = Some iob then n else x_ready_head r),
                                   x_ready_tail := (if x_ready_tail r = Some iob then p else x_ready_tail r)\<rparr>) s2
                      in if x_ready_head (objects s4 mx) = None then upd_obj mx (\<lambda>r. r\<lparr>o_signaled := False\<rparr>) s4 else s4
                    else upd_obj mx (\<lambda>r. r\<lparr>x_waiting_head := (if x_waiting_head r = Some iob then n else x_waiting_head r),
                           x_waiting_tail := (if x_waiting_tail r = Some iob then p else x_waiting_tail r)\<rparr>) s2)
          in upd_obj iob (\<lambda>r. r\<lparr>io_iomux := None, io_next := None, io_prev := None\<rparr>) s3)"

definition dequeue_event_from_iomux :: "addr \<Rightarrow> 'a kernel_scheme \<Rightarrow> int \<times> 'a kernel_scheme" where
  "dequeue_event_from_iomux mx s =
     (case x_ready_head (objects s mx) of
        None \<Rightarrow> (- ENOENT, s)
      | Some iob \<Rightarrow> let s1 = detach_ioobject iob s in (io_context (objects s1 iob), s1))"

section \<open>Waiting\<close>

definition INFINITE :: u32 where "INFINITE = 0xFFFFFFFF"
definition MAX_WAIT_OBJECTS :: nat where "MAX_WAIT_OBJECTS = 16"
definition THREAD_WAIT_OBJECT :: nat where "THREAD_WAIT_OBJECT = 0"

text \<open>The numbers that stand for the addresses of the two timer handlers.\<close>

definition EXPIRE_WAITABLE_TIMER :: addr where "EXPIRE_WAITABLE_TIMER = 1"
definition TMR_SLEEP :: addr where "TMR_SLEEP = 2"

definition enter_object :: "addr \<Rightarrow> 'a kernel_scheme \<Rightarrow> int \<times> 'a kernel_scheme" where
  "enter_object x s =
     (case o_type (objects s x) of
        ObjThread \<Rightarrow> (t_exitcode (thr s x), s)
      | ObjEvent \<Rightarrow> (0, if \<not> e_manual_reset (objects s x) then upd_obj x (\<lambda>r. r\<lparr>o_signaled := False\<rparr>) s else s)
      | ObjMutex \<Rightarrow> (0, upd_obj x (\<lambda>r. r\<lparr>o_signaled := False, m_owner := Some (cur s), m_recursion := 1\<rparr>) s)
      | ObjSemaphore \<Rightarrow> (0, upd_obj x (\<lambda>r. r\<lparr>s_count := s_count r - 1,
                              o_signaled := (if s_count r - 1 = 0 then False else o_signaled r)\<rparr>) s)
      | ObjIomux \<Rightarrow> dequeue_event_from_iomux x s
      | ObjFilemap \<Rightarrow> (0, upd_obj x (\<lambda>r. r\<lparr>o_signaled := False\<rparr>) s)
      | _ \<Rightarrow> (0, s))"

definition init_object :: "addr \<Rightarrow> otype \<Rightarrow> 'a kernel_scheme \<Rightarrow> 'a kernel_scheme" where
  "init_object x ty s = upd_obj x (\<lambda>r. r\<lparr>o_type := ty, o_signaled := False, o_handle_count := 0, o_lock_count := 0,
     o_waitlist_head := None, o_waitlist_tail := None\<rparr>) s"

definition init_waitable_timer :: "addr \<Rightarrow> u32 \<Rightarrow> 'a kernel_scheme \<Rightarrow> 'a kernel_scheme" where
  "init_waitable_timer x expires s =
     (let s1 = init_object x ObjTimer s;
          s2 = init_timer x EXPIRE_WAITABLE_TIMER x s1;
          s3 = upd_timer x (\<lambda>r. r\<lparr>tm_expires := expires\<rparr>) s2
      in if sint (ticks s3 - expires) \<ge> 0 then upd_obj x (\<lambda>r. r\<lparr>o_signaled := True\<rparr>) s3
         else add_timer x s3)"

definition modify_waitable_timer :: "addr \<Rightarrow> u32 \<Rightarrow> 'a kernel_scheme \<Rightarrow> 'a kernel_scheme" where
  "modify_waitable_timer x expires s = snd (mod_timer x expires s)"

definition cancel_waitable_timer :: "addr \<Rightarrow> 'a kernel_scheme \<Rightarrow> 'a kernel_scheme" where
  "cancel_waitable_timer x s = (if tm_active (timers s x) then snd (del_timer x s) else s)"

text \<open>A wait block is filled in and linked; its queue links are set when it is inserted.\<close>

definition setup_wb :: "addr \<Rightarrow> addr \<Rightarrow> waittype \<Rightarrow> int \<Rightarrow> addr \<Rightarrow> 'a kernel_scheme \<Rightarrow> 'a kernel_scheme" where
  "setup_wb wb x ty key t s =
     insert_in_waitlist x wb (upd_wb wb (\<lambda>r. r\<lparr>w_thread := t, w_object := Some x, w_waittype := ty, w_waitkey := key, w_next := None\<rparr>) s)"

definition add_timeout :: "addr \<Rightarrow> addr \<Rightarrow> addr \<Rightarrow> u32 \<Rightarrow> 'a kernel_scheme \<Rightarrow> 'a kernel_scheme" where
  "add_timeout lastwb wbtmo tm timeout s =
     (let tmo = (if timeout < MSECS_PER_TICK then MSECS_PER_TICK else timeout);
          s1 = init_waitable_timer tm (ticks s + tmo div MSECS_PER_TICK) s;
          s2 = upd_wb lastwb (\<lambda>r. r\<lparr>w_next := Some wbtmo\<rparr>) s1
      in setup_wb wbtmo tm WaitAny (- ETIMEOUT) (cur s) s2)"

definition finish_wait :: "addr option \<Rightarrow> 'a kernel_scheme \<Rightarrow> int \<times> 'a kernel_scheme" where
  "finish_wait tm s =
     (let s1 = (case tm of None \<Rightarrow> s | Some x \<Rightarrow> cancel_waitable_timer x s) in (t_waitkey (thr s1 (cur s1)), s1))"

definition interrupted_wait :: "int \<Rightarrow> 'a kernel_scheme \<Rightarrow> 'a kernel_scheme option" where
  "interrupted_wait rc s =
     (if rc < 0 then do {
        s1 \<leftarrow> cancel_wait (cur s) s;
        Some (upd_thread (cur s) (\<lambda>r. r\<lparr>t_waitkey := rc\<rparr>) s1)
      }
      else Some s)"

definition block_on :: "'a kexec \<Rightarrow> nat \<Rightarrow> bool \<Rightarrow> addr option \<Rightarrow> 'a kernel_scheme \<Rightarrow> (int call \<times> 'a kernel_scheme) option" where
  "block_on exec fuel alertable tm s =
     (if alertable then do {
        (c, s1) \<leftarrow> enter_alertable_wait exec fuel THREAD_WAIT_OBJECT s;
        (case c of
           Blocked \<Rightarrow> Some (Blocked, s1)
         | Return rc \<Rightarrow> do {
             s2 \<leftarrow> interrupted_wait rc s1;
             Some (case finish_wait tm s2 of (k, s3) \<Rightarrow> (Return k, s3))
           })
      }
      else do { s1 \<leftarrow> enter_wait exec fuel THREAD_WAIT_OBJECT s; Some (Blocked, s1) })"

text \<open>What a thread does when it runs again after it was blocked in one of the wait calls.\<close>

definition resume_wait :: "bool \<Rightarrow> addr option \<Rightarrow> 'a kernel_scheme \<Rightarrow> (int \<times> 'a kernel_scheme) option" where
  "resume_wait alertable tm s =
     (if alertable then
        case resume_alertable_wait s of (rc, s1) \<Rightarrow> do { s2 \<leftarrow> interrupted_wait rc s1; Some (finish_wait tm s2) }
      else Some (finish_wait tm s))"

definition wait_for_one_object ::
    "'a kexec \<Rightarrow> nat \<Rightarrow> addr \<Rightarrow> addr \<Rightarrow> addr \<Rightarrow> addr \<Rightarrow> u32 \<Rightarrow> bool \<Rightarrow> 'a kernel_scheme \<Rightarrow> (int call \<times> 'a kernel_scheme) option" where
  "wait_for_one_object exec fuel wb wbtmo tm x timeout alertable s =
     (if o_signaled (objects s x) then Some (case enter_object x s of (rc, s1) \<Rightarrow> (Return rc, s1))
      else if o_type (objects s x) = ObjMutex \<and> m_owner (objects s x) = Some (cur s)
      then Some (Return 0, upd_obj x (\<lambda>r. r\<lparr>m_recursion := m_recursion r + 1\<rparr>) s)
      else if timeout = 0 then Some (Return (- ETIMEOUT), s)
      else
        let s1 = upd_thread (cur s) (\<lambda>r. r\<lparr>t_waitlist := Some wb\<rparr>) s;
            s2 = setup_wb wb x WaitAny 0 (cur s) s1
        in if timeout = INFINITE then block_on exec fuel alertable None s2
           else block_on exec fuel alertable (Some tm) (add_timeout wb wbtmo tm timeout s2))"

definition wait_for_object ::
    "'a kexec \<Rightarrow> nat \<Rightarrow> addr \<Rightarrow> addr \<Rightarrow> addr \<Rightarrow> addr \<Rightarrow> u32 \<Rightarrow> 'a kernel_scheme \<Rightarrow> (int call \<times> 'a kernel_scheme) option" where
  "wait_for_object exec fuel wb wbtmo tm x timeout s = wait_for_one_object exec fuel wb wbtmo tm x timeout False s"

fun setup_blocks :: "waittype \<Rightarrow> nat \<Rightarrow> addr option \<Rightarrow> (addr \<times> addr) list \<Rightarrow> 'a kernel_scheme \<Rightarrow> 'a kernel_scheme" where
  "setup_blocks ty n prev [] s = s"
| "setup_blocks ty n prev ((wb, x) # bs) s =
     (let s1 = (case prev of
                  None \<Rightarrow> upd_thread (cur s) (\<lambda>r. r\<lparr>t_waitlist := Some wb\<rparr>) s
                | Some p \<Rightarrow> upd_wb p (\<lambda>r. r\<lparr>w_next := Some wb\<rparr>) s)
      in setup_blocks ty (n + 1) (Some wb) bs (setup_wb wb x ty (int n) (cur s) s1))"

text \<open>Waiting for no object at all is sleeping.\<close>

definition wait_for_none :: "'a kexec \<Rightarrow> nat \<Rightarrow> addr \<Rightarrow> u32 \<Rightarrow> 'a kernel_scheme \<Rightarrow> (int call \<times> 'a kernel_scheme) option" where
  "wait_for_none exec fuel tm timeout s =
     (if timeout = INFINITE then Some (Return (- EINVAL), s)
      else do {
        (c, s1) \<leftarrow> msleep exec fuel tm TMR_SLEEP timeout s;
        Some (case c of Blocked \<Rightarrow> Blocked | Return rc \<Rightarrow> Return (if rc > 0 then - EINTR else 0), s1)
      })"

definition resume_none :: "addr \<Rightarrow> u32 \<Rightarrow> 'a kernel_scheme \<Rightarrow> int \<times> 'a kernel_scheme" where
  "resume_none tm timeout s = (case msleep_resume tm timeout s of (rc, s1) \<Rightarrow> (if rc > 0 then - EINTR else 0, s1))"

definition wait_on_blocks :: "'a kexec \<Rightarrow> nat \<Rightarrow> waittype \<Rightarrow> addr list \<Rightarrow> addr \<Rightarrow> addr \<Rightarrow> addr list \<Rightarrow> u32 \<Rightarrow> bool \<Rightarrow>
    'a kernel_scheme \<Rightarrow> (int call \<times> 'a kernel_scheme) option" where
  "wait_on_blocks exec fuel ty wbs wbtmo tm objs timeout alertable s =
     (let s1 = setup_blocks ty 0 None (zip wbs objs) s
      in if timeout = INFINITE then block_on exec fuel alertable None s1
         else block_on exec fuel alertable (Some tm) (add_timeout (wbs ! (length objs - 1)) wbtmo tm timeout s1))"

definition all_signaled :: "addr list \<Rightarrow> 'a kernel_scheme \<Rightarrow> bool" where
  "all_signaled objs s \<longleftrightarrow>
     list_all (\<lambda>x. if o_type (objects s x) = ObjMutex then \<not> (\<not> o_signaled (objects s x) \<or> m_owner (objects s x) \<noteq> Some (cur s))
                   else o_signaled (objects s x)) objs"

fun enter_all :: "addr list \<Rightarrow> int \<Rightarrow> 'a kernel_scheme \<Rightarrow> int \<times> 'a kernel_scheme" where
  "enter_all [] rc s = (rc, s)"
| "enter_all (x # xs) rc s =
     (if o_signaled (objects s x) then case enter_object x s of (r, s1) \<Rightarrow> enter_all xs (rc OR r) s1
      else if o_type (objects s x) = ObjMutex \<and> m_owner (objects s x) = Some (cur s)
      then enter_all xs rc (upd_obj x (\<lambda>r. r\<lparr>m_recursion := m_recursion r + 1\<rparr>) s)
      else enter_all xs rc s)"

definition wait_for_all_objects ::
    "'a kexec \<Rightarrow> nat \<Rightarrow> addr list \<Rightarrow> addr \<Rightarrow> addr \<Rightarrow> addr list \<Rightarrow> u32 \<Rightarrow> bool \<Rightarrow> 'a kernel_scheme \<Rightarrow> (int call \<times> 'a kernel_scheme) option" where
  "wait_for_all_objects exec fuel wbs wbtmo tm objs timeout alertable s =
     (if objs = [] then wait_for_none exec fuel tm timeout s
      else if length objs > MAX_WAIT_OBJECTS then Some (Return (- EINVAL), s)
      else if all_signaled objs s then Some (case enter_all objs 0 s of (rc, s1) \<Rightarrow> (Return rc, s1))
      else if timeout = 0 then Some (Return (- ETIMEOUT), s)
      else wait_on_blocks exec fuel WaitAll wbs wbtmo tm objs timeout alertable s)"

fun enter_any :: "nat \<Rightarrow> addr list \<Rightarrow> 'a kernel_scheme \<Rightarrow> (int \<times> 'a kernel_scheme) option" where
  "enter_any n [] s = None"
| "enter_any n (x # xs) s =
     (if o_signaled (objects s x)
      then Some (case enter_object x s of (rc, s1) \<Rightarrow> (if rc \<noteq> 0 then rc else int n, s1))
      else if o_type (objects s x) = ObjMutex \<and> m_owner (objects s x) = Some (cur s)
      then Some (int n, upd_obj x (\<lambda>r. r\<lparr>m_recursion := m_recursion r + 1\<rparr>) s)
      else enter_any (n + 1) xs s)"

definition wait_for_any_object ::
    "'a kexec \<Rightarrow> nat \<Rightarrow> addr list \<Rightarrow> addr \<Rightarrow> addr \<Rightarrow> addr list \<Rightarrow> u32 \<Rightarrow> bool \<Rightarrow> 'a kernel_scheme \<Rightarrow> (int call \<times> 'a kernel_scheme) option" where
  "wait_for_any_object exec fuel wbs wbtmo tm objs timeout alertable s =
     (if objs = [] then wait_for_none exec fuel tm timeout s
      else if length objs > MAX_WAIT_OBJECTS then Some (Return (- EINVAL), s)
      else case enter_any 0 objs s of
        Some (rc, s1) \<Rightarrow> Some (Return rc, s1)
      | None \<Rightarrow>
          if timeout = 0 then Some (Return (- ETIMEOUT), s)
          else wait_on_blocks exec fuel WaitAny wbs wbtmo tm objs timeout alertable s)"

section \<open>Signalling objects\<close>

definition exit_thread :: "addr \<Rightarrow> 'a kernel_scheme \<Rightarrow> 'a kernel_scheme option" where
  "exit_thread t s = release_waiters t (t_exitcode (thr s t)) (upd_obj t (\<lambda>r. r\<lparr>o_signaled := True\<rparr>) s)"

definition expire_waitable_timer :: "addr \<Rightarrow> 'a kernel_scheme \<Rightarrow> 'a kernel_scheme option" where
  "expire_waitable_timer x s = release_waiters x 0 (upd_obj x (\<lambda>r. r\<lparr>o_signaled := True\<rparr>) s)"

definition init_event :: "addr \<Rightarrow> bool \<Rightarrow> bool \<Rightarrow> 'a kernel_scheme \<Rightarrow> 'a kernel_scheme" where
  "init_event x manual_reset initial_state s =
     upd_obj x (\<lambda>r. r\<lparr>e_manual_reset := manual_reset, o_signaled := initial_state\<rparr>) (init_object x ObjEvent s)"

partial_function (option) pulse_loop :: "addr \<Rightarrow> addr option \<Rightarrow> 'a kernel_scheme \<Rightarrow> 'a kernel_scheme option" where
  "pulse_loop x wb s =
     (case wb of
        None \<Rightarrow> Some s
      | Some w \<Rightarrow>
          let next = w_next_wait (waitblocks s w); t = w_thread (waitblocks s w) in
          (case thread_ready_to_run t s of
             None \<Rightarrow> None
           | Some (rdy, s1) \<Rightarrow>
               if rdy then
                 (case release_thread t s1 of
                    None \<Rightarrow> None
                  | Some s2 \<Rightarrow> if \<not> e_manual_reset (objects s2 x) then Some s2 else pulse_loop x next s2)
               else pulse_loop x wb s1))"

definition pulse_event :: "addr \<Rightarrow> 'a kernel_scheme \<Rightarrow> 'a kernel_scheme option" where
  "pulse_event x s = do {
     let s1 = upd_obj x (\<lambda>r. r\<lparr>o_signaled := True\<rparr>) s;
     s2 \<leftarrow> pulse_loop x (o_waitlist_head (objects s1 x)) s1;
     Some (upd_obj x (\<lambda>r. r\<lparr>o_signaled := False\<rparr>) s2)
   }"

partial_function (option) set_event_loop :: "addr \<Rightarrow> addr option \<Rightarrow> 'a kernel_scheme \<Rightarrow> 'a kernel_scheme option" where
  "set_event_loop x wb s =
     (case wb of
        None \<Rightarrow> Some s
      | Some w \<Rightarrow>
          let next = w_next_wait (waitblocks s w); t = w_thread (waitblocks s w) in
          (case thread_ready_to_run t s of
             None \<Rightarrow> None
           | Some (rdy, s1) \<Rightarrow>
               if rdy then
                 (case release_thread t s1 of
                    None \<Rightarrow> None
                  | Some s2 \<Rightarrow>
                      if \<not> e_manual_reset (objects s2 x) then Some (upd_obj x (\<lambda>r. r\<lparr>o_signaled := False\<rparr>) s2)
                      else set_event_loop x next s2)
               else set_event_loop x next s1))"

definition set_event :: "addr \<Rightarrow> 'a kernel_scheme \<Rightarrow> 'a kernel_scheme option" where
  "set_event x s =
     (let s1 = upd_obj x (\<lambda>r. r\<lparr>o_signaled := True\<rparr>) s in set_event_loop x (o_waitlist_head (objects s1 x)) s1)"

definition reset_event :: "addr \<Rightarrow> 'a kernel_scheme \<Rightarrow> 'a kernel_scheme" where
  "reset_event x s = upd_obj x (\<lambda>r. r\<lparr>o_signaled := False\<rparr>) s"

definition init_sem :: "addr \<Rightarrow> u32 \<Rightarrow> 'a kernel_scheme \<Rightarrow> 'a kernel_scheme" where
  "init_sem x initial_count s =
     upd_obj x (\<lambda>r. r\<lparr>s_count := initial_count, o_signaled := (initial_count > 0)\<rparr>) (init_object x ObjSemaphore s)"

text \<open>The loop shared by \<^verbatim>\<open>release_sem\<close> and \<^verbatim>\<open>set_sem\<close>.\<close>

partial_function (option) sem_loop :: "addr \<Rightarrow> addr option \<Rightarrow> 'a kernel_scheme \<Rightarrow> 'a kernel_scheme option" where
  "sem_loop x wb s =
     (case wb of
        None \<Rightarrow> Some s
      | Some w \<Rightarrow>
          let next = w_next_wait (waitblocks s w); t = w_thread (waitblocks s w) in
          (case thread_ready_to_run t s of
             None \<Rightarrow> None
           | Some (rdy, s1) \<Rightarrow>
               if rdy then
                 (case release_thread t (upd_obj x (\<lambda>r. r\<lparr>s_count := s_count r - 1\<rparr>) s1) of
                    None \<Rightarrow> None
                  | Some s2 \<Rightarrow>
                      if s_count (objects s2 x) = 0 then Some (upd_obj x (\<lambda>r. r\<lparr>o_signaled := False\<rparr>) s2)
                      else sem_loop x next s2)
               else sem_loop x next s1))"

definition give_sem :: "addr \<Rightarrow> u32 \<Rightarrow> 'a kernel_scheme \<Rightarrow> (u32 \<times> 'a kernel_scheme) option" where
  "give_sem x count s =
     (let prevcount = s_count (objects s x); s1 = upd_obj x (\<lambda>r. r\<lparr>s_count := count\<rparr>) s in
      if s_count (objects s1 x) > 0 then do {
        let s2 = upd_obj x (\<lambda>r. r\<lparr>o_signaled := True\<rparr>) s1;
        s3 \<leftarrow> sem_loop x (o_waitlist_head (objects s2 x)) s2;
        Some (prevcount, s3)
      }
      else Some (prevcount, s1))"

definition release_sem :: "addr \<Rightarrow> u32 \<Rightarrow> 'a kernel_scheme \<Rightarrow> (u32 \<times> 'a kernel_scheme) option" where
  "release_sem x count s = give_sem x (s_count (objects s x) + count) s"

definition set_sem :: "addr \<Rightarrow> u32 \<Rightarrow> 'a kernel_scheme \<Rightarrow> (u32 \<times> 'a kernel_scheme) option" where
  "set_sem x count s = give_sem x count s"

definition init_mutex :: "addr \<Rightarrow> bool \<Rightarrow> 'a kernel_scheme \<Rightarrow> 'a kernel_scheme" where
  "init_mutex x owned s =
     upd_obj x (\<lambda>r. if owned then r\<lparr>m_owner := Some (cur s), o_signaled := False, m_recursion := 1\<rparr>
                    else r\<lparr>m_owner := None, o_signaled := True, m_recursion := 0\<rparr>) (init_object x ObjMutex s)"

text \<open>The first waiter that is ready to run, with the wait keys set by the tests on the way.\<close>

partial_function (option) first_ready :: "addr option \<Rightarrow> 'a kernel_scheme \<Rightarrow> (addr option \<times> 'a kernel_scheme) option" where
  "first_ready wb s =
     (case wb of
        None \<Rightarrow> Some (None, s)
      | Some w \<Rightarrow>
          (case thread_ready_to_run (w_thread (waitblocks s w)) s of
             None \<Rightarrow> None
           | Some (rdy, s1) \<Rightarrow> if rdy then Some (Some w, s1) else first_ready (w_next_wait (waitblocks s1 w)) s1))"

definition release_mutex :: "addr \<Rightarrow> 'a kernel_scheme \<Rightarrow> (int \<times> 'a kernel_scheme) option" where
  "release_mutex x s =
     (if m_owner (objects s x) \<noteq> Some (cur s) then Some (- EPERM, s)
      else
        let s1 = upd_obj x (\<lambda>r. r\<lparr>m_recursion := m_recursion r - 1\<rparr>) s in
        if m_recursion (objects s1 x) > 0 then Some (0, s1)
        else do {
          let s2 = upd_obj x (\<lambda>r. r\<lparr>o_signaled := True, m_owner := None\<rparr>) s1;
          (found, s3) \<leftarrow> first_ready (o_waitlist_head (objects s2 x)) s2;
          (case found of
             None \<Rightarrow> Some (0, s3)
           | Some w \<Rightarrow> do {
               let t = w_thread (waitblocks s3 w);
               s4 \<leftarrow> release_thread t (upd_obj x (\<lambda>r. r\<lparr>m_owner := Some t, m_recursion := 1, o_signaled := False\<rparr>) s3);
               Some (0, s4)
             })
        })"

definition unlock_filemap :: "addr \<Rightarrow> 'a kernel_scheme \<Rightarrow> (int \<times> 'a kernel_scheme) option" where
  "unlock_filemap x s = do {
     let s1 = upd_obj x (\<lambda>r. r\<lparr>o_signaled := True\<rparr>) s;
     (found, s2) \<leftarrow> first_ready (o_waitlist_head (objects s1 x)) s1;
     (case found of
        None \<Rightarrow> Some (0, s2)
      | Some w \<Rightarrow> do {
          s3 \<leftarrow> release_thread (w_thread (waitblocks s2 w)) (upd_obj x (\<lambda>r. r\<lparr>o_signaled := False\<rparr>) s2);
          Some (0, s3)
        })
   }"

partial_function (option) close_loop :: "addr \<Rightarrow> 'a kernel_scheme \<Rightarrow> 'a kernel_scheme option" where
  "close_loop x s =
     (case o_waitlist_head (objects s x) of
        None \<Rightarrow> Some s
      | Some w \<Rightarrow>
          let t = w_thread (waitblocks s w) in
          (case release_thread t (upd_thread t (\<lambda>r. r\<lparr>t_waitkey := - EINTR\<rparr>) s) of
             None \<Rightarrow> None
           | Some s1 \<Rightarrow> close_loop x s1))"

text \<open>
  Closing a file, a socket or a multiplexer goes on in the component that implements it,
  which is the parameter \<open>close_io\<close>.
\<close>

definition close_object :: "(addr \<Rightarrow> 'a kernel_scheme \<Rightarrow> (int \<times> 'a kernel_scheme) option) \<Rightarrow> addr \<Rightarrow> 'a kernel_scheme \<Rightarrow>
    (int \<times> 'a kernel_scheme) option" where
  "close_object close_io x s = do {
     s1 \<leftarrow> close_loop x s;
     (case o_type (objects s1 x) of
        ObjTimer \<Rightarrow> Some (0, cancel_waitable_timer x s1)
      | ObjFile \<Rightarrow> close_io x s1
      | ObjSocket \<Rightarrow> close_io x s1
      | ObjIomux \<Rightarrow> close_io x s1
      | _ \<Rightarrow> Some (0, s1))
   }"


section \<open>Wait lists\<close>

lemma upd_obj_simps [simp]:
  "objects (upd_obj x f s) = (objects s)(x := f (objects s x))" "waitblocks (upd_obj x f s) = waitblocks s"
  "threads (upd_obj x f s) = threads s" "cur (upd_obj x f s) = cur s" "timers (upd_obj x f s) = timers s"
  by (simp_all add: upd_obj_def)

lemma upd_wb_simps [simp]:
  "waitblocks (upd_wb w f s) = (waitblocks s)(w := f (waitblocks s w))" "objects (upd_wb w f s) = objects s"
  "threads (upd_wb w f s) = threads s" "cur (upd_wb w f s) = cur s" "timers (upd_wb w f s) = timers s"
  by (simp_all add: upd_wb_def)

lemma kernel_upd_thread [simp]:
  "objects (upd_thread t f s) = objects s" "waitblocks (upd_thread t f s) = waitblocks s" "timers (upd_thread t f s) = timers s"
  by (simp_all add: upd_thread_def)

text \<open>An object and a wait block without their wait queue links.\<close>

definition core :: "kobject \<Rightarrow> kobject" where
  "core r = r\<lparr>o_waitlist_head := None, o_waitlist_tail := None\<rparr>"

definition wcore :: "waitblock \<Rightarrow> waitblock" where
  "wcore r = r\<lparr>w_object := None, w_next_wait := None, w_prev_wait := None\<rparr>"

lemma core_eqD:
  assumes "core r' = core r"
  shows "o_signaled r' = o_signaled r" "s_count r' = s_count r" "e_manual_reset r' = e_manual_reset r"
    "m_owner r' = m_owner r" "m_recursion r' = m_recursion r" "o_type r' = o_type r"
  using assms by (cases r; cases r'; simp add: core_def)+

lemma wcore_eqD:
  assumes "wcore r' = wcore r"
  shows "w_thread r' = w_thread r" "w_waittype r' = w_waittype r" "w_waitkey r' = w_waitkey r" "w_next r' = w_next r"
  using assms by (cases r; cases r'; simp add: wcore_def)+

definition wq :: "'a kernel_scheme \<Rightarrow> (addr \<Rightarrow> addr list) \<Rightarrow> bool" where
  "wq s W \<longleftrightarrow>
     (\<forall>x. dlist (\<lambda>w. w_next_wait (waitblocks s w)) (\<lambda>w. w_prev_wait (waitblocks s w))
            (o_waitlist_head (objects s x)) (o_waitlist_tail (objects s x)) (W x)) \<and>
     (\<forall>x w. w \<in> set (W x) \<longrightarrow> w_object (waitblocks s w) = Some x)"

lemma wqD:
  assumes "wq s W"
  shows "dlist (\<lambda>w. w_next_wait (waitblocks s w)) (\<lambda>w. w_prev_wait (waitblocks s w))
      (o_waitlist_head (objects s x)) (o_waitlist_tail (objects s x)) (W x)"
    and "w \<in> set (W x) \<Longrightarrow> w_object (waitblocks s w) = Some x"
    and "w \<in> set (W x) \<Longrightarrow> w \<in> set (W y) \<Longrightarrow> x = y"
proof -
  show o: "w_object (waitblocks s w) = Some x" if "w \<in> set (W x)" for w x using assms that by (simp add: wq_def)
  show "w \<in> set (W x) \<Longrightarrow> w \<in> set (W y) \<Longrightarrow> x = y" using o [of w x] o [of w y] by simp
qed (use assms in \<open>simp add: wq_def\<close>)

text \<open>A change that keeps the links of the queued blocks and the ends of the queues.\<close>

lemma wq_frame:
  assumes "wq s W" and "\<And>x. o_waitlist_head (objects s' x) = o_waitlist_head (objects s x) \<and>
      o_waitlist_tail (objects s' x) = o_waitlist_tail (objects s x)"
    and "\<And>x w. w \<in> set (W x) \<Longrightarrow> w_next_wait (waitblocks s' w) = w_next_wait (waitblocks s w) \<and>
      w_prev_wait (waitblocks s' w) = w_prev_wait (waitblocks s w) \<and> w_object (waitblocks s' w) = w_object (waitblocks s w)"
  shows "wq s' W"
  unfolding wq_def
proof (intro conjI allI)
  fix x show "dlist (\<lambda>w. w_next_wait (waitblocks s' w)) (\<lambda>w. w_prev_wait (waitblocks s' w))
      (o_waitlist_head (objects s' x)) (o_waitlist_tail (objects s' x)) (W x)"
    using dlist_cong [OF wqD(1) [OF assms(1), of x]] assms(2,3) by simp
qed (use assms(3) wqD(2) [OF assms(1)] in auto)

lemma remove_from_waitlist_wq:
  assumes "wq s W" and "W x = us @ w # vs"
  obtains s' where "remove_from_waitlist w s = Some s'" "wq s' (W(x := us @ vs))"
    "s' = s\<lparr>objects := objects s', waitblocks := waitblocks s'\<rparr>"
    "\<And>y. core (objects s' y) = core (objects s y)" "\<And>v. wcore (waitblocks s' v) = wcore (waitblocks s v)"
    "\<And>v. w_object (waitblocks s' v) = (if v = w then None else w_object (waitblocks s v))"
proof -
  note d = wqD(1) [OF assms(1), of x, unfolded assms(2)]
  note lk = dlist_next [OF d]
  have dis: "distinct (us @ w # vs)" by (rule dlist_fields [OF d])
  have ob: "w_object (waitblocks s w) = Some x" using wqD(2) [OF assms(1)] assms(2) by simp
  have n: "first vs \<noteq> Some w" "final us \<noteq> Some w" using dis by (auto dest: first_SomeD final_SomeD)
  define s' where "s' = the (remove_from_waitlist w s)"
  have rm: "remove_from_waitlist w s = Some s'"
    using ob n lk by (auto simp: s'_def remove_from_waitlist_def Let_def split: option.splits)
  have links: "w_next_wait (waitblocks s' v) = (if v = w then None else if final us = Some v then first vs else w_next_wait (waitblocks s v))"
    "w_prev_wait (waitblocks s' v) = (if v = w then None else if first vs = Some v then final us else w_prev_wait (waitblocks s v))"
    "w_object (waitblocks s' v) = (if v = w then None else w_object (waitblocks s v))"
    "wcore (waitblocks s' v) = wcore (waitblocks s v)" for v
    using ob n lk by (auto simp: s'_def remove_from_waitlist_def Let_def wcore_def split: option.splits)
  have ends: "o_waitlist_head (objects s' y) = (if y = x \<and> o_waitlist_head (objects s x) = Some w then first vs else o_waitlist_head (objects s y))"
    "o_waitlist_tail (objects s' y) = (if y = x \<and> o_waitlist_tail (objects s x) = Some w then final us else o_waitlist_tail (objects s y))"
    "core (objects s' y) = core (objects s y)" for y
    using ob n lk by (auto simp: s'_def remove_from_waitlist_def Let_def core_def split: option.splits)
  have fr: "s' = s\<lparr>objects := objects s', waitblocks := waitblocks s'\<rparr>"
    using ob n lk by (auto simp: s'_def remove_from_waitlist_def Let_def upd_obj_def upd_wb_def split: option.splits)
  have d0: "dlist (\<lambda>v. w_next_wait (waitblocks s' v)) (\<lambda>v. w_prev_wait (waitblocks s' v))
      (if o_waitlist_head (objects s x) = Some w then w_next_wait (waitblocks s w) else o_waitlist_head (objects s x))
      (if o_waitlist_tail (objects s x) = Some w then w_prev_wait (waitblocks s w) else o_waitlist_tail (objects s x)) (us @ vs)"
    by (rule dlist_remove [OF d]) (use dis in \<open>auto simp: lk links\<close>)
  have "dlist (\<lambda>v. w_next_wait (waitblocks s' v)) (\<lambda>v. w_prev_wait (waitblocks s' v))
      (o_waitlist_head (objects s' y)) (o_waitlist_tail (objects s' y)) ((W(x := us @ vs)) y)" for y
  proof (cases "y = x")
    case True
    then show ?thesis using d0 by (auto simp: ends lk split: if_splits)
  next
    case False
    have "\<forall>v \<in> set (W y). v \<noteq> w \<and> final us \<noteq> Some v \<and> first vs \<noteq> Some v"
      using wqD(3) [OF assms(1), of _ y x] assms(2) False by (fastforce dest: first_SomeD final_SomeD)
    then show ?thesis using False dlist_cong [OF wqD(1) [OF assms(1), of y]] by (simp add: ends links)
  qed
  moreover have "w_object (waitblocks s' v) = Some y" if "v \<in> set ((W(x := us @ vs)) y)" for v y
  proof -
    have "v \<in> set (W y) \<and> v \<noteq> w"
    proof (cases "y = x")
      case True
      with that assms(2) dis show ?thesis by auto
    next
      case False
      then have "w \<notin> set (W y)" using wqD(3) [OF assms(1), of w y x] assms(2) by auto
      with that False show ?thesis by auto
    qed
    then show ?thesis using wqD(2) [OF assms(1)] by (simp add: links)
  qed
  ultimately have "wq s' (W(x := us @ vs))" unfolding wq_def by blast
  with that rm fr ends(3) links(3,4) show thesis by blast
qed


lemma cancel_loop_simps [simp]:
  "cancel_loop None s = Some s"
  "cancel_loop (Some w) s = (case remove_from_waitlist w s of None \<Rightarrow> None | Some s1 \<Rightarrow> cancel_loop (w_next (waitblocks s1 w)) s1)"
  by (subst cancel_loop.simps, simp)+

lemma ready_loop_simps [simp]:
  "ready_loop t None any all s = Some (any \<or> all, s)"
  "ready_loop t (Some w) any all s =
     (case w_object (waitblocks s w) of
        None \<Rightarrow> None
      | Some x \<Rightarrow>
          let sig = o_signaled (objects s x); isany = (w_waittype (waitblocks s w) = WaitAny);
              s1 = (if sig then upd_thread t (\<lambda>r. r\<lparr>t_waitkey := w_waitkey (waitblocks s w)\<rparr>) s else s)
          in ready_loop t (w_next (waitblocks s1 w)) (any \<or> isany \<and> sig) (all \<and> (isany \<or> sig)) s1)"
  by (subst ready_loop.simps, simp)+

lemma cancel_loop_wq:
  "wq s W \<Longrightarrow> sseg (\<lambda>w. w_next (waitblocks s w)) bs \<Longrightarrow> distinct bs \<Longrightarrow> \<forall>w \<in> set bs. \<exists>x. w \<in> set (W x) \<Longrightarrow>
   \<exists>s'. cancel_loop (first bs) s = Some s' \<and> wq s' (\<lambda>x. filter (\<lambda>w. w \<notin> set bs) (W x)) \<and>
     s' = s\<lparr>objects := objects s', waitblocks := waitblocks s'\<rparr> \<and>
     (\<forall>y. core (objects s' y) = core (objects s y)) \<and> (\<forall>v. wcore (waitblocks s' v) = wcore (waitblocks s v)) \<and>
     (\<forall>v. w_object (waitblocks s' v) = (if v \<in> set bs then None else w_object (waitblocks s v)))"
proof (induction bs arbitrary: s W)
  case Nil
  then show ?case by simp
next
  case (Cons w bs)
  obtain x where "w \<in> set (W x)" using Cons.prems(4) by auto
  then obtain us vs where W: "W x = us @ w # vs" by (meson split_list)
  obtain s1 where s1: "remove_from_waitlist w s = Some s1" "wq s1 (W(x := us @ vs))"
    "s1 = s\<lparr>objects := objects s1, waitblocks := waitblocks s1\<rparr>"
    "\<And>y. core (objects s1 y) = core (objects s y)" "\<And>v. wcore (waitblocks s1 v) = wcore (waitblocks s v)"
    "\<And>v. w_object (waitblocks s1 v) = (if v = w then None else w_object (waitblocks s v))"
    using remove_from_waitlist_wq [OF Cons.prems(1) W] by blast
  have nx: "w_next (waitblocks s1 v) = w_next (waitblocks s v)" for v by (rule wcore_eqD(4) [OF s1(5)])
  have seg: "sseg (\<lambda>w. w_next (waitblocks s1 w)) bs" using Cons.prems(2) by (simp add: nx)
  have dW: "distinct (us @ w # vs)" using dlist_fields(3) [OF wqD(1) [OF Cons.prems(1), of x]] W by simp
  have other: "w \<notin> set (W y)" if "y \<noteq> x" for y using wqD(3) [OF Cons.prems(1), of w y x] W that by auto
  have "\<forall>v \<in> set bs. \<exists>y. v \<in> set ((W(x := us @ vs)) y)"
  proof
    fix v assume v: "v \<in> set bs"
    then obtain y where "v \<in> set (W y)" using Cons.prems(4) by auto
    moreover have "v \<noteq> w" using v Cons.prems(3) by auto
    ultimately have "v \<in> set ((W(x := us @ vs)) y)" using W by auto
    then show "\<exists>y. v \<in> set ((W(x := us @ vs)) y)" by blast
  qed
  from Cons.IH [OF s1(2) seg _ this] Cons.prems(3) obtain s' where s': "cancel_loop (first bs) s1 = Some s'"
    "wq s' (\<lambda>y. filter (\<lambda>w. w \<notin> set bs) ((W(x := us @ vs)) y))" "s' = s1\<lparr>objects := objects s', waitblocks := waitblocks s'\<rparr>"
    "\<forall>y. core (objects s' y) = core (objects s1 y)" "\<forall>v. wcore (waitblocks s' v) = wcore (waitblocks s1 v)"
    "\<forall>v. w_object (waitblocks s' v) = (if v \<in> set bs then None else w_object (waitblocks s1 v))" by auto
  have skip: "filter (\<lambda>v. v \<notin> set (w # bs)) zs = filter (\<lambda>w. w \<notin> set bs) zs" if "w \<notin> set zs" for zs
    using that by (intro filter_cong) auto
  have "filter (\<lambda>w. w \<notin> set bs) ((W(x := us @ vs)) y) = filter (\<lambda>v. v \<notin> set (w # bs)) (W y)" for y
    using W dW other [of y] skip [of us] skip [of vs] skip [of "W y"] by (cases "y = x") simp_all
  then have "wq s' (\<lambda>y. filter (\<lambda>v. v \<notin> set (w # bs)) (W y))" using s'(2) by simp
  moreover have "cancel_loop (first (w # bs)) s = Some s'" using s1(1) s'(1) Cons.prems(2) by (simp add: nx)
  moreover have "s' = s\<lparr>objects := objects s', waitblocks := waitblocks s'\<rparr>" by (subst s'(3), subst s1(3)) simp
  ultimately show ?case using s' s1 by auto
qed

text \<open>
  The wait lists together: \<open>W x\<close> are the blocks queued on object \<open>x\<close> and \<open>B t\<close> the
  blocks of thread \<open>t\<close>. Every queued block belongs to the thread it names, and a thread
  waits at most once on an object.
\<close>

definition wait_rep :: "'a kernel_scheme \<Rightarrow> (addr \<Rightarrow> addr list) \<Rightarrow> (addr \<Rightarrow> addr list) \<Rightarrow> bool" where
  "wait_rep s W B \<longleftrightarrow> wq s W \<and>
     (\<forall>t. t_waitlist (thr s t) = first (B t) \<and> sseg (\<lambda>w. w_next (waitblocks s w)) (B t) \<and> distinct (B t)) \<and>
     (\<forall>t w. w \<in> set (B t) \<longrightarrow> w_thread (waitblocks s w) = t \<and> (\<exists>x. w \<in> set (W x))) \<and>
     (\<forall>x w. w \<in> set (W x) \<longrightarrow> w \<in> set (B (w_thread (waitblocks s w)))) \<and>
     (\<forall>x w v. w \<in> set (W x) \<longrightarrow> v \<in> set (W x) \<longrightarrow> w_thread (waitblocks s w) = w_thread (waitblocks s v) \<longrightarrow> w = v)"

lemma wait_repD:
  assumes "wait_rep s W B"
  shows "wq s W" "t_waitlist (thr s t) = first (B t)" "sseg (\<lambda>w. w_next (waitblocks s w)) (B t)" "distinct (B t)"
    "w \<in> set (B t) \<Longrightarrow> w_thread (waitblocks s w) = t" "w \<in> set (B t) \<Longrightarrow> \<exists>x. w \<in> set (W x)"
    "w \<in> set (W x) \<Longrightarrow> w \<in> set (B (w_thread (waitblocks s w)))"
    "w \<in> set (W x) \<Longrightarrow> v \<in> set (W x) \<Longrightarrow> w_thread (waitblocks s w) = w_thread (waitblocks s v) \<Longrightarrow> w = v"
  using assms unfolding wait_rep_def by blast+

definition leave :: "'a kernel_scheme \<Rightarrow> addr set \<Rightarrow> (addr \<Rightarrow> addr list) \<Rightarrow> addr \<Rightarrow> addr list" where
  "leave s T W = (\<lambda>x. filter (\<lambda>w. w_thread (waitblocks s w) \<notin> T) (W x))"

lemma wait_rep_frame:
  assumes "wait_rep s W B" and "objects s' = objects s" "waitblocks s' = waitblocks s"
    "\<And>t. t_waitlist (thr s' t) = t_waitlist (thr s t)"
  shows "wait_rep s' W B"
  using assms by (simp add: wait_rep_def wq_def)

lemma wait_rep_core:
  assumes "wait_rep s W B" and "\<And>x. o_waitlist_head (objects s' x) = o_waitlist_head (objects s x) \<and>
      o_waitlist_tail (objects s' x) = o_waitlist_tail (objects s x)" and "waitblocks s' = waitblocks s" and "threads s' = threads s"
  shows "wait_rep s' W B"
  using assms by (simp add: wait_rep_def wq_def)

lemma cancel_wait_rep:
  assumes "wait_rep s W B"
  obtains s' where "cancel_wait t s = Some s'" "wait_rep s' (leave s {t} W) (B(t := []))"
    "\<And>y. core (objects s' y) = core (objects s y)" "\<And>v. wcore (waitblocks s' v) = wcore (waitblocks s v)"
    "\<And>v. v \<notin> set (B t) \<Longrightarrow> w_object (waitblocks s' v) = w_object (waitblocks s v)"
    "s' = upd_thread t (\<lambda>r. r\<lparr>t_waitlist := None\<rparr>) (s\<lparr>objects := objects s', waitblocks := waitblocks s'\<rparr>)"
proof -
  note r = wait_repD [OF assms]
  have "\<forall>w \<in> set (B t). \<exists>x. w \<in> set (W x)" using r(6) by blast
  from cancel_loop_wq [OF r(1,3,4) this] obtain s1 where s1: "cancel_loop (first (B t)) s = Some s1"
    "wq s1 (\<lambda>x. filter (\<lambda>w. w \<notin> set (B t)) (W x))" "s1 = s\<lparr>objects := objects s1, waitblocks := waitblocks s1\<rparr>"
    "\<forall>y. core (objects s1 y) = core (objects s y)" "\<forall>v. wcore (waitblocks s1 v) = wcore (waitblocks s v)"
    "\<forall>v. w_object (waitblocks s1 v) = (if v \<in> set (B t) then None else w_object (waitblocks s v))" by auto
  let ?s = "upd_thread t (\<lambda>r. r\<lparr>t_waitlist := None\<rparr>) s1"
  have mine: "w \<in> set (B t) \<longleftrightarrow> w_thread (waitblocks s w) = t" if "w \<in> set (W x)" for w x using r(5,7) that by blast
  have lv: "leave s {t} W = (\<lambda>x. filter (\<lambda>w. w \<notin> set (B t)) (W x))"
    unfolding leave_def using mine by (intro ext filter_cong) auto
  have wc: "wcore (waitblocks s1 v) = wcore (waitblocks s v)" for v using s1(5) by blast
  have thr1: "threads s1 = threads s" by (subst s1(3)) simp
  have "wait_rep ?s (leave s {t} W) (B(t := []))"
    unfolding wait_rep_def
  proof (intro conjI allI impI)
    show "wq ?s (leave s {t} W)" unfolding lv by (rule wq_frame [OF s1(2)]) simp_all
  next
    fix u
    show "t_waitlist (thr ?s u) = first ((B(t := [])) u)" using r(2) by (simp add: thr1)
    show "sseg (\<lambda>w. w_next (waitblocks ?s w)) ((B(t := [])) u)" using r(3) by (simp add: wcore_eqD(4) [OF wc])
    show "distinct ((B(t := [])) u)" using r(4) by simp
  next
    fix u w assume w: "w \<in> set ((B(t := [])) u)"
    then have u: "u \<noteq> t" "w \<in> set (B u)" by (auto split: if_splits)
    then show "w_thread (waitblocks ?s w) = u" using r(5) by (simp add: wcore_eqD(1) [OF wc])
    obtain x where "w \<in> set (W x)" using r(6) u(2) by blast
    then have "w \<in> set (leave s {t} W x)" using r(5) [OF u(2)] u(1) by (simp add: leave_def)
    then show "\<exists>x. w \<in> set (leave s {t} W x)" by blast
  next
    fix x w assume "w \<in> set (leave s {t} W x)"
    then show "w \<in> set ((B(t := [])) (w_thread (waitblocks ?s w)))"
      using r(7) by (auto simp: leave_def wcore_eqD(1) [OF wc])
  next
    fix x w v assume "w \<in> set (leave s {t} W x)" "v \<in> set (leave s {t} W x)"
      "w_thread (waitblocks ?s w) = w_thread (waitblocks ?s v)"
    then show "w = v" using r(8) [of w x v] by (auto simp: leave_def wcore_eqD(1) [OF wc])
  qed
  moreover have "cancel_wait t s = Some ?s" using s1(1) r(2) by (simp add: cancel_wait_def)
  moreover have "?s = upd_thread t (\<lambda>r. r\<lparr>t_waitlist := None\<rparr>) (s\<lparr>objects := objects ?s, waitblocks := waitblocks ?s\<rparr>)"
    using s1(3) by simp
  ultimately show thesis using that [of ?s] s1(4-6) by simp
qed

section \<open>Who is ready to run\<close>

definition wb_sig :: "'a kernel_scheme \<Rightarrow> addr \<Rightarrow> bool" where
  "wb_sig s w \<longleftrightarrow> (\<exists>x. w_object (waitblocks s w) = Some x \<and> o_signaled (objects s x))"

definition can_run :: "'a kernel_scheme \<Rightarrow> addr list \<Rightarrow> bool" where
  "can_run s bs \<longleftrightarrow> (\<exists>w \<in> set bs. w_waittype (waitblocks s w) = WaitAny \<and> wb_sig s w) \<or>
     (\<forall>w \<in> set bs. w_waittype (waitblocks s w) = WaitAny \<or> wb_sig s w)"

fun last_key :: "'a kernel_scheme \<Rightarrow> int \<Rightarrow> addr list \<Rightarrow> int" where
  "last_key s k [] = k"
| "last_key s k (w # ws) = last_key s (if wb_sig s w then w_waitkey (waitblocks s w) else k) ws"

lemma wb_sig_upd_thread [simp]: "wb_sig (upd_thread t f s) w = wb_sig s w"
  by (simp add: wb_sig_def)

lemma last_key_upd_thread [simp]: "last_key (upd_thread t f s) k ws = last_key s k ws"
  by (induction ws arbitrary: k) simp_all

lemma ready_loop_eq:
  "sseg (\<lambda>w. w_next (waitblocks s w)) bs \<Longrightarrow> \<forall>w \<in> set bs. w_object (waitblocks s w) \<noteq> None \<Longrightarrow>
   ready_loop t (first bs) any all s =
     Some (any \<or> (\<exists>w \<in> set bs. w_waittype (waitblocks s w) = WaitAny \<and> wb_sig s w) \<or>
             all \<and> (\<forall>w \<in> set bs. w_waittype (waitblocks s w) = WaitAny \<or> wb_sig s w),
           upd_thread t (\<lambda>r. r\<lparr>t_waitkey := last_key s (t_waitkey r) bs\<rparr>) s)"
proof (induction bs arbitrary: any all s)
  case Nil
  then show ?case by (simp add: upd_thread_def)
next
  case (Cons w bs)
  obtain x where x: "w_object (waitblocks s w) = Some x" using Cons.prems(2) by auto
  let ?s1 = "if o_signaled (objects s x) then upd_thread t (\<lambda>r. r\<lparr>t_waitkey := w_waitkey (waitblocks s w)\<rparr>) s else s"
  have k: "waitblocks ?s1 = waitblocks s" "objects ?s1 = objects s" by simp_all
  have sg: "wb_sig s w \<longleftrightarrow> o_signaled (objects s x)" using x by (simp add: wb_sig_def)
  have sg1: "wb_sig ?s1 v = wb_sig s v" for v by (simp add: wb_sig_def)
  have "ready_loop t (first bs) (any \<or> w_waittype (waitblocks s w) = WaitAny \<and> o_signaled (objects s x))
      (all \<and> (w_waittype (waitblocks s w) = WaitAny \<or> o_signaled (objects s x))) ?s1 =
    Some ((any \<or> w_waittype (waitblocks s w) = WaitAny \<and> o_signaled (objects s x)) \<or>
        (\<exists>w \<in> set bs. w_waittype (waitblocks s w) = WaitAny \<and> wb_sig s w) \<or>
        (all \<and> (w_waittype (waitblocks s w) = WaitAny \<or> o_signaled (objects s x))) \<and>
        (\<forall>w \<in> set bs. w_waittype (waitblocks s w) = WaitAny \<or> wb_sig s w),
      upd_thread t (\<lambda>r. r\<lparr>t_waitkey := last_key ?s1 (t_waitkey r) bs\<rparr>) ?s1)"
    using Cons.IH [of ?s1] Cons.prems unfolding k sg1 by simp
  then show ?case using Cons.prems(1) x sg
    by (cases "o_signaled (objects s x)") (auto simp: Let_def)
qed

lemma thread_ready_to_run_eq:
  assumes "wait_rep s W B"
  shows "thread_ready_to_run t s = Some (can_run s (B t), upd_thread t (\<lambda>r. r\<lparr>t_waitkey := last_key s (t_waitkey r) (B t)\<rparr>) s)"
proof -
  note r = wait_repD [OF assms]
  have "\<forall>w \<in> set (B t). w_object (waitblocks s w) \<noteq> None"
    using r(6) wqD(2) [OF r(1)] by fastforce
  from ready_loop_eq [OF r(3) this] show ?thesis by (simp add: thread_ready_to_run_def r(2) can_run_def)
qed


section \<open>Releasing threads\<close>

lemma kernel_of_more:
  assumes "sched.more s' = sched.more s"
  shows "objects s' = objects s" "waitblocks s' = waitblocks s" "timers s' = timers s"
  using assms by (cases s; cases s'; simp)+

definition wait_ok :: "'a kernel_scheme \<Rightarrow> (addr \<Rightarrow> addr list) \<Rightarrow> (addr \<Rightarrow> addr list) \<Rightarrow> bool" where
  "wait_ok s W B \<longleftrightarrow> wait_rep s W B \<and> ready_inv s \<and>
     (\<forall>t. B t \<noteq> [] \<and> t_state (thr s t) = TReady \<longrightarrow> t_interrupted (thr s t))"

lemma wait_okD:
  assumes "wait_ok s W B"
  shows "wait_rep s W B" "ready_inv s" "B t \<noteq> [] \<Longrightarrow> t_state (thr s t) = TReady \<Longrightarrow> t_interrupted (thr s t)"
  using assms by (simp_all add: wait_ok_def)

definition woken :: "thread \<Rightarrow> tstate" where
  "woken r = (if t_suspend_count r > 0 then TSuspended else TReady)"

text \<open>A thread without its links in the ready queues and its wait key.\<close>

definition tcore :: "thread \<Rightarrow> thread" where
  "tcore r = (unqueued r)\<lparr>t_waitkey := 0\<rparr>"

lemma tcore_eqD:
  assumes "tcore r' = tcore r"
  shows "t_state r' = t_state r" "t_suspend_count r' = t_suspend_count r"
  using assms by (cases r; cases r'; simp add: tcore_def unqueued_def)+

lemma tcore_waitkey [simp]: "tcore (r\<lparr>t_waitkey := k\<rparr>) = tcore r"
  by (simp add: tcore_def unqueued_def)

text \<open>
  \<open>released s s' B T\<close>: between \<open>s\<close> and \<open>s'\<close> exactly the threads in \<open>T\<close> were taken out of
  their waits and made ready, the wait blocks of the others are as they were, and so are the other threads themselves but for their wait keys and their
  links in the ready queues.
\<close>

definition released :: "'a kernel_scheme \<Rightarrow> 'a kernel_scheme \<Rightarrow> (addr \<Rightarrow> addr list) \<Rightarrow> addr set \<Rightarrow> bool" where
  "released s s' B T \<longleftrightarrow>
     (\<forall>v. wcore (waitblocks s' v) = wcore (waitblocks s v)) \<and>
     (\<forall>t v. t \<notin> T \<longrightarrow> v \<in> set (B t) \<longrightarrow> w_object (waitblocks s' v) = w_object (waitblocks s v)) \<and>
     (\<forall>t. t_state (thr s' t) = (if t \<in> T then woken (thr s t) else t_state (thr s t))) \<and>
     (\<forall>t. t_suspend_count (thr s' t) = t_suspend_count (thr s t)) \<and> cur s' = cur s \<and>
     (\<forall>t. t \<notin> T \<longrightarrow> tcore (thr s' t) = tcore (thr s t))"

lemma releasedD:
  assumes "released s s' B T"
  shows "wcore (waitblocks s' v) = wcore (waitblocks s v)"
    "t \<notin> T \<Longrightarrow> v \<in> set (B t) \<Longrightarrow> w_object (waitblocks s' v) = w_object (waitblocks s v)"
    "t_state (thr s' t) = (if t \<in> T then woken (thr s t) else t_state (thr s t))"
    "t_suspend_count (thr s' t) = t_suspend_count (thr s t)" "cur s' = cur s"
    "w_thread (waitblocks s' v) = w_thread (waitblocks s v)" "w_waittype (waitblocks s' v) = w_waittype (waitblocks s v)"
    "t \<notin> T \<Longrightarrow> tcore (thr s' t) = tcore (thr s t)"
  using assms wcore_eqD [of "waitblocks s' v" "waitblocks s v"] unfolding released_def by blast+

definition without :: "addr set \<Rightarrow> (addr \<Rightarrow> addr list) \<Rightarrow> addr \<Rightarrow> addr list" where
  "without T B = (\<lambda>t. if t \<in> T then [] else B t)"

lemma released_trans:
  assumes "released s s1 B T1" "released s1 s2 (without T1 B) T2"
  shows "released s s2 B (T1 \<union> T2)"
  using releasedD [OF assms(1)] releasedD [OF assms(2)]
  by (auto simp: released_def without_def woken_def split: if_splits)

lemma leave_leave:
  assumes "\<And>v. w_thread (waitblocks s1 v) = w_thread (waitblocks s v)"
  shows "leave s1 T2 (leave s T1 W) = leave s (T1 \<union> T2) W"
  by (auto simp: leave_def assms intro!: ext filter_cong)

lemma without_without: "without T2 (without T1 B) = without (T1 \<union> T2) B"
  by (auto simp: without_def)

lemma ready_inv_kernel [simp]:
  "ready_inv (s\<lparr>objects := a, waitblocks := b\<rparr>) = ready_inv s" "ready_inv (upd_obj x f s) = ready_inv s"
  by (rule ready_inv_cong; simp add: upd_obj_def)+

lemma wait_ok_upd_obj:
  assumes "wait_ok s W B" and "\<And>r. o_waitlist_head (f r) = o_waitlist_head r" "\<And>r. o_waitlist_tail (f r) = o_waitlist_tail r"
  shows "wait_ok (upd_obj x f s) W B"
proof -
  have "wait_rep (upd_obj x f s) W B" by (rule wait_rep_core [OF wait_okD(1) [OF assms(1)]]) (use assms(2,3) in auto)
  then show ?thesis using assms(1) by (simp add: wait_ok_def)
qed

lemma wait_ok_waitkey:
  assumes "wait_ok s W B"
  shows "wait_ok (upd_thread t (\<lambda>r. r\<lparr>t_waitkey := k r\<rparr>) s) W B"
proof -
  have "wait_rep (upd_thread t (\<lambda>r. r\<lparr>t_waitkey := k r\<rparr>) s) W B"
    by (rule wait_rep_frame [OF wait_okD(1) [OF assms]]) simp_all
  moreover have "ready_inv (upd_thread t (\<lambda>r. r\<lparr>t_waitkey := k r\<rparr>) s)"
    by (rule ready_inv_upd_keep [OF wait_okD(2) [OF assms]]) simp_all
  ultimately show ?thesis using assms by (simp add: wait_ok_def)
qed

lemma release_thread_ok:
  assumes "wait_ok s W B" and "B t \<noteq> []"
  obtains s' where "release_thread t s = Some s'" "wait_ok s' (leave s {t} W) (without {t} B)" "released s s' B {t}"
    "\<And>y. core (objects s' y) = core (objects s y)" "\<And>u. t_waitkey (thr s' u) = t_waitkey (thr s u)"
proof -
  note o = wait_okD [OF assms(1)]
  obtain s1 where s1: "cancel_wait t s = Some s1" "wait_rep s1 (leave s {t} W) (B(t := []))"
    "\<And>y. core (objects s1 y) = core (objects s y)" "\<And>v. wcore (waitblocks s1 v) = wcore (waitblocks s v)"
    "\<And>v. v \<notin> set (B t) \<Longrightarrow> w_object (waitblocks s1 v) = w_object (waitblocks s v)"
    "s1 = upd_thread t (\<lambda>r. r\<lparr>t_waitlist := None\<rparr>) (s\<lparr>objects := objects s1, waitblocks := waitblocks s1\<rparr>)"
    using cancel_wait_rep [OF o(1)] by blast
  have t1: "threads s1 = (threads s)(t := (thr s t)\<lparr>t_waitlist := None\<rparr>)" "cur s1 = cur s" by (subst s1(6), simp)+
  have i1: "ready_inv s1" by (subst s1(6), rule ready_inv_upd_keep) (use o(2) in simp_all)
  have "mark_thread_ready t 1 1 s1 \<noteq> None"
    using o(3) [OF assms(2)] by (auto simp: mark_thread_ready_panic t1)
  then obtain s2 where s2: "mark_thread_ready t 1 1 s1 = Some s2" by auto
  note k = mark_thread_ready_keeps [OF s2] kernel_of_more [OF mark_thread_ready_keeps(12) [OF s2]]
  have i2: "ready_inv s2" by (rule mark_thread_ready_inv [OF i1 s2])
  have wo: "B(t := []) = without {t} B" by (auto simp: without_def)
  have r2: "wait_rep s2 (leave s {t} W) (without {t} B)"
    using wait_rep_frame [OF s1(2) k(17,18,5)] by (simp only: wo)
  have "wait_ok s2 (leave s {t} W) (without {t} B)" unfolding wait_ok_def
  proof (intro conjI allI impI)
    fix u assume "without {t} B u \<noteq> [] \<and> t_state (thr s2 u) = TReady"
    then have "u \<noteq> t" "B u \<noteq> []" "t_state (thr s2 u) = TReady" by (auto simp: without_def split: if_splits)
    then show "t_interrupted (thr s2 u)" using k(1,7) o(3) by (simp add: t1)
  qed (use r2 i2 in simp_all)
  moreover have mine: "v \<notin> set (B t)" if "v \<in> set (B u)" "u \<noteq> t" for u v
    using wait_repD(5) [OF o(1)] that by blast
  have "released s s2 B {t}" unfolding released_def
  proof (intro conjI allI impI)
    fix u
    show "t_state (thr s2 u) = (if u \<in> {t} then woken (thr s u) else t_state (thr s u))"
      using k(1) [of u] k(9) by (auto simp: woken_def t1)
    show "t_suspend_count (thr s2 u) = t_suspend_count (thr s u)" using k(2) by (simp add: t1)
    show "tcore (thr s2 u) = tcore (thr s u)" if "u \<notin> {t}" using mark_thread_ready_others [OF s2, of u] that by (simp add: tcore_def t1)
    fix v assume "u \<notin> {t}" "v \<in> set (B u)"
    then show "w_object (waitblocks s2 v) = w_object (waitblocks s v)" using s1(5) mine by (simp add: k)
  qed (use k t1 s1(4) in simp_all)
  moreover have "release_thread t s = Some s2" using s1(1) s2 by (simp add: release_thread_def)
  moreover have "core (objects s2 y) = core (objects s y)" for y using s1(3) by (simp add: k)
  moreover have "t_waitkey (thr s2 u) = t_waitkey (thr s u)" for u using k(4) by (simp add: t1)
  ultimately show thesis using that by blast
qed

text \<open>One visit of a loop over the waiters of an object.\<close>

lemma visit:
  assumes "wait_ok s W B" "W x = us @ w # vs" "t = w_thread (waitblocks s w)"
  shows "w_next_wait (waitblocks s w) = first vs" "B t \<noteq> []"
    "thread_ready_to_run t s = Some (can_run s (B t), upd_thread t (\<lambda>r. r\<lparr>t_waitkey := last_key s (t_waitkey r) (B t)\<rparr>) s)"
    "leave s {t} W x = us @ vs"
proof -
  note r = wait_okD(1) [OF assms(1)]
  show "w_next_wait (waitblocks s w) = first vs"
    using dlist_next(1) wqD(1) [OF wait_repD(1) [OF r], of x] assms(2) by metis
  have "w \<in> set (B t)" using wait_repD(7) [OF r, of w x] assms by simp
  then show "B t \<noteq> []" by auto
  show "thread_ready_to_run t s = Some (can_run s (B t), upd_thread t (\<lambda>r. r\<lparr>t_waitkey := last_key s (t_waitkey r) (B t)\<rparr>) s)"
    by (rule thread_ready_to_run_eq [OF r])
  have "distinct (us @ w # vs)" using dlist_fields(3) [OF wqD(1) [OF wait_repD(1) [OF r], of x]] assms(2) by simp
  then have "w_thread (waitblocks s v) \<noteq> t" if "v \<in> set (us @ vs)" for v
    using wait_repD(8) [OF r, of v x w] that assms(2,3) by auto
  then show "leave s {t} W x = us @ vs" using assms(2,3) by (auto simp: leave_def filter_id_conv)
qed

lemma can_run_cong:
  assumes "\<And>w. w \<in> set bs \<Longrightarrow> w_waittype (waitblocks s' w) = w_waittype (waitblocks s w) \<and> w_object (waitblocks s' w) = w_object (waitblocks s w)"
    and "\<And>y. o_signaled (objects s' y) = o_signaled (objects s y)"
  shows "can_run s' bs = can_run s bs"
  using assms by (simp add: can_run_def wb_sig_def)

lemma can_run_released:
  assumes "released s s' B T" "\<And>y. o_signaled (objects s' y) = o_signaled (objects s y)" "t \<notin> T"
  shows "can_run s' (without T B t) = can_run s (B t)"
  using assms(3) releasedD(2,7) [OF assms(1)] assms(2) by (simp add: without_def) (rule can_run_cong, simp_all)

lemma leave_pre: "waitblocks s0 = waitblocks s \<Longrightarrow> leave s0 T W = leave s T W"
  by (simp add: leave_def)


text \<open>The waiters of a list whose threads can run, and the threads behind a list of wait blocks.\<close>

definition runnable :: "'a kernel_scheme \<Rightarrow> (addr \<Rightarrow> addr list) \<Rightarrow> addr list \<Rightarrow> addr list" where
  "runnable s B ws = filter (\<lambda>w. can_run s (B (w_thread (waitblocks s w)))) ws"

definition threads_of :: "'a kernel_scheme \<Rightarrow> addr list \<Rightarrow> addr set" where
  "threads_of s ws = (\<lambda>w. w_thread (waitblocks s w)) ` set ws"

lemma threads_of_simps [simp]:
  "threads_of s [] = {}" "threads_of s (w # ws) = insert (w_thread (waitblocks s w)) (threads_of s ws)"
    "threads_of s (us @ ws) = threads_of s us \<union> threads_of s ws"
  by (simp_all add: threads_of_def image_Un)

text \<open>
  \<open>wakes x s s' W B T\<close>: an operation on the object \<open>x\<close> took \<open>s\<close> to \<open>s'\<close>, woke exactly the
  threads in \<open>T\<close>, and left the state of every other object and the wait key of every thread alone that did not wait for \<open>x\<close>.
\<close>

definition wakes :: "addr \<Rightarrow> 'a kernel_scheme \<Rightarrow> 'a kernel_scheme \<Rightarrow> (addr \<Rightarrow> addr list) \<Rightarrow> (addr \<Rightarrow> addr list) \<Rightarrow> addr set \<Rightarrow> bool" where
  "wakes x s s' W B T \<longleftrightarrow> wait_ok s' (leave s T W) (without T B) \<and> released s s' B T \<and>
     (\<forall>y. y \<noteq> x \<longrightarrow> core (objects s' y) = core (objects s y)) \<and>
     (\<forall>t. t \<notin> threads_of s (W x) \<longrightarrow> t_waitkey (thr s' t) = t_waitkey (thr s t))"

lemma wakesD:
  assumes "wakes x s s' W B T"
  shows "wait_ok s' (leave s T W) (without T B)" "released s s' B T" "y \<noteq> x \<Longrightarrow> core (objects s' y) = core (objects s y)"
    "t \<notin> threads_of s (W x) \<Longrightarrow> t_waitkey (thr s' t) = t_waitkey (thr s t)"
  using assms by (simp_all add: wakes_def)

lemma leave_none [simp]: "leave s {} W = W" by (simp add: leave_def)

lemma without_none [simp]: "without {} B = B" by (simp add: without_def)

lemma wakes_same:
  assumes "wait_ok s' W B" "waitblocks s' = waitblocks s" "cur s' = cur s" "\<And>t. tcore (thr s' t) = tcore (thr s t)"
    "\<And>y. y \<noteq> x \<Longrightarrow> core (objects s' y) = core (objects s y)" "\<And>t. t \<notin> threads_of s (W x) \<Longrightarrow> t_waitkey (thr s' t) = t_waitkey (thr s t)"
  shows "wakes x s s' W B {}"
  using assms tcore_eqD [OF assms(4)] by (simp add: wakes_def released_def)

lemma threads_of_leave:
  assumes "\<And>v. w_thread (waitblocks s1 v) = w_thread (waitblocks s v)"
  shows "threads_of s1 (leave s T W x) \<subseteq> threads_of s (W x)"
  using assms by (auto simp: threads_of_def leave_def)

lemma wakes_trans:
  assumes "wakes x s s1 W B T1" "wakes x s1 s2 (leave s T1 W) (without T1 B) T2"
  shows "wakes x s s2 W B (T1 \<union> T2)"
proof -
  note 1 = wakesD [OF assms(1)] and 2 = wakesD [OF assms(2)]
  have "t_waitkey (thr s2 t) = t_waitkey (thr s t)" if "t \<notin> threads_of s (W x)" for t
    using 1(4) [OF that] 2(4) [of t] threads_of_leave [of s1 s T1 W x, OF releasedD(6) [OF 1(2)]] that by auto
  then show ?thesis using 1 2 released_trans [OF 1(2) 2(2)] leave_leave [of s1 s T2 T1 W, OF releasedD(6) [OF 1(2)]]
    by (simp add: wakes_def without_without)
qed

lemma wakes_step:
  assumes "wakes x s s1 W B {}" "wakes x s1 s2 W B T"
  shows "wakes x s s2 W B T"
  using wakes_trans [OF assms(1), of s2 T] assms(2) by simp

lemma wakes_obj:
  assumes "wait_ok s W B" "\<And>r. o_waitlist_head (f r) = o_waitlist_head r" "\<And>r. o_waitlist_tail (f r) = o_waitlist_tail r"
  shows "wakes x s (upd_obj x f s) W B {}"
  by (rule wakes_same [OF wait_ok_upd_obj [OF assms]]) simp_all

lemma wakes_key:
  assumes "wait_ok s W B" "t \<in> threads_of s (W x)"
  shows "wakes x s (upd_thread t (\<lambda>r. r\<lparr>t_waitkey := k r\<rparr>) s) W B {}"
  by (rule wakes_same [OF wait_ok_waitkey [OF assms(1)]]) (use assms(2) in auto)

lemma wakes_then_obj:
  assumes "wakes x s s1 W B T" "\<And>r. o_waitlist_head (f r) = o_waitlist_head r" "\<And>r. o_waitlist_tail (f r) = o_waitlist_tail r"
  shows "wakes x s (upd_obj x f s1) W B T"
  using wakes_trans [OF assms(1) wakes_obj [OF wakesD(1) [OF assms(1)] assms(2,3)]] by simp

lemma wakes_release:
  assumes "wait_ok s W B" "B t \<noteq> []"
  obtains s' where "release_thread t s = Some s'" "wakes x s s' W B {t}" "\<And>y. core (objects s' y) = core (objects s y)"
    "\<And>u. t_waitkey (thr s' u) = t_waitkey (thr s u)"
proof -
  obtain s' where "release_thread t s = Some s'" "wait_ok s' (leave s {t} W) (without {t} B)" "released s s' B {t}"
    "\<And>y. core (objects s' y) = core (objects s y)" "\<And>u. t_waitkey (thr s' u) = t_waitkey (thr s u)"
    using release_thread_ok [OF assms] by blast
  then show thesis using that unfolding wakes_def by blast
qed

lemma runnable_wakes:
  assumes "wakes x s s1 W B T" "\<And>y. o_signaled (objects s1 y) = o_signaled (objects s y)"
    "\<And>v. v \<in> set vs \<Longrightarrow> w_thread (waitblocks s v) \<notin> T"
  shows "runnable s1 (without T B) vs = runnable s B vs" "threads_of s1 vs = threads_of s vs"
proof -
  note r = wakesD(2) [OF assms(1)]
  show "runnable s1 (without T B) vs = runnable s B vs"
    unfolding runnable_def by (rule filter_cong) (simp_all add: releasedD(6) [OF r] can_run_released [OF r assms(2) assms(3)])
  show "threads_of s1 vs = threads_of s vs" by (simp add: threads_of_def releasedD(6) [OF r])
qed

lemma waiters_distinct:
  assumes "wait_ok s W B" "W x = us @ w # vs"
  shows "v \<in> set vs \<Longrightarrow> w_thread (waitblocks s v) \<noteq> w_thread (waitblocks s w)"
proof -
  note r = wait_okD(1) [OF assms(1)]
  assume v: "v \<in> set vs"
  have "distinct (us @ w # vs)" using dlist_fields(3) [OF wqD(1) [OF wait_repD(1) [OF r], of x]] assms(2) by simp
  then show ?thesis using wait_repD(8) [OF r, of v x w] v assms(2) by auto
qed

lemma core_signaled: "core r' = core r \<Longrightarrow> o_signaled r' = o_signaled r"
  by (auto dest: core_eqD)

subsection \<open>Semaphores\<close>

lemma sem_loop_nil [simp]: "sem_loop x None s = Some s"
  by (subst sem_loop.simps) simp

lemma sem_loop_correct:
  assumes "wait_ok s W B" "W x = us @ vs" "o_signaled (objects s x)" "s_count (objects s x) \<noteq> 0"
  shows "\<exists>s'. sem_loop x (first vs) s = Some s' \<and>
    (let rel = take (unat (s_count (objects s x))) (runnable s B vs) in
       wakes x s s' W B (threads_of s rel) \<and>
       s_count (objects s' x) = s_count (objects s x) - of_nat (length rel) \<and>
       o_signaled (objects s' x) = (s_count (objects s' x) \<noteq> 0))"
  using assms
proof (induction vs arbitrary: s us W B)
  case Nil
  then show ?case by (auto simp: Let_def runnable_def intro!: wakes_same)
next
  case (Cons w vs)
  define t where "t = w_thread (waitblocks s w)"
  define k where "k = upd_thread t (\<lambda>r. r\<lparr>t_waitkey := last_key s (t_waitkey r) (B t)\<rparr>) s"
  define n where "n = unat (s_count (objects s x))"
  note v = visit [OF Cons.prems(1,2) t_def]
  have wk: "wakes x s k W B {}" unfolding k_def by (rule wakes_key [OF Cons.prems(1)]) (simp add: t_def Cons.prems(2))
  have n0: "n \<noteq> 0" using Cons.prems(4) by (simp add: n_def unat_eq_0)
  show ?case
  proof (cases "can_run s (B t)")
    case False
    have "sem_loop x (first (w # vs)) s = sem_loop x (first vs) k"
      using v False by (subst sem_loop.simps) (simp add: t_def [symmetric] k_def)
    moreover have "wait_ok k W B" using wakesD(1) [OF wk] by simp
    moreover have "runnable k B vs = runnable s B vs" "\<And>ws. threads_of k ws = threads_of s ws"
      using runnable_wakes [OF wk] by (simp_all add: k_def threads_of_def)
    moreover have "runnable s B (w # vs) = runnable s B vs" using False by (simp add: runnable_def t_def)
    ultimately show ?thesis using Cons.IH [of k W B "us @ [w]"] Cons.prems wakes_step [OF wk]
      by (fastforce simp: Let_def k_def)
  next
    case True
    define q where "q = upd_obj x (\<lambda>r. r\<lparr>s_count := s_count r - 1\<rparr>) k"
    have wq: "wakes x s q W B {}" unfolding q_def by (rule wakes_then_obj [OF wk]) simp_all
    have okq: "wait_ok q W B" using wakesD(1) [OF wq] by simp
    obtain s2 where s2: "release_thread t q = Some s2" "wakes x q s2 W B {t}" "\<And>y. core (objects s2 y) = core (objects q y)"
      using wakes_release [where x = x, OF okq v(2)] by blast
    have w2: "wakes x s s2 W B {t}" by (rule wakes_step [OF wq s2(2)])
    have c2: "s_count (objects s2 x) = s_count (objects s x) - 1" "o_signaled (objects s2 x)"
      "o_signaled (objects s2 y) = o_signaled (objects s y)" for y
      using core_eqD [OF s2(3) [of x]] core_eqD [OF s2(3) [of y]] Cons.prems(3) by (simp_all add: q_def k_def)
    have un: "unat (s_count (objects s2 x)) = n - 1"
      using unat_sub [of 1 "s_count (objects s x)"] Cons.prems(4) by (simp add: c2(1) n_def word_le_nat_alt unat_gt_0 Suc_le_eq)
    have rn: "runnable s B (w # vs) = w # runnable s B vs" using True by (simp add: runnable_def t_def)
    have r2: "runnable s2 (without {t} B) vs = runnable s B vs"
      using runnable_wakes(1) [OF w2 c2(3)] waiters_distinct [OF Cons.prems(1,2)] by (simp add: t_def)
    have t2: "threads_of s2 ws = threads_of s ws" for ws
      by (simp add: threads_of_def releasedD(6) [OF wakesD(2) [OF w2]])
    have l: "sem_loop x (first (w # vs)) s =
      (if s_count (objects s2 x) = 0 then Some (upd_obj x (\<lambda>r. r\<lparr>o_signaled := False\<rparr>) s2) else sem_loop x (first vs) s2)"
      using v True s2(1) by (subst sem_loop.simps) (simp add: t_def [symmetric] k_def q_def)
    have tk: "take n (w # xs) = w # take (n - 1) xs" for xs using n0 by (cases n) simp_all
    show ?thesis
    proof (cases "s_count (objects s2 x) = 0")
      case z: True
      then have n1: "n = 1" using un n0 by simp
      have "wakes x s (upd_obj x (\<lambda>r. r\<lparr>o_signaled := False\<rparr>) s2) W B {t}"
        by (rule wakes_then_obj [OF w2]) simp_all
      then show ?thesis using l z c2(1) by (simp add: rn n_def [symmetric] n1 t_def)
    next
      case nz: False
      obtain s' where s': "sem_loop x (first vs) s2 = Some s'"
        "wakes x s2 s' (leave s {t} W) (without {t} B) (threads_of s (take (n - 1) (runnable s B vs)))"
        "s_count (objects s' x) = s_count (objects s2 x) - of_nat (length (take (n - 1) (runnable s B vs)))"
        "o_signaled (objects s' x) = (s_count (objects s' x) \<noteq> 0)"
        using Cons.IH [OF wakesD(1) [OF w2] v(4) c2(2) nz] unfolding Let_def un r2 t2 by blast
      show ?thesis using s' l nz wakes_trans [OF w2 s'(2)] by (simp add: rn n_def [symmetric] tk t_def c2(1) Let_def)
    qed
  qed
qed


lemma upd_obj_twice: "upd_obj x f (upd_obj x g s) = upd_obj x (\<lambda>r. f (g r)) s"
  by (simp add: upd_obj_def)

lemma give_sem_correct:
  fixes x :: addr and n :: u32
  assumes "wait_ok s W B"
  defines "s1 \<equiv> upd_obj x (\<lambda>r. r\<lparr>s_count := n, o_signaled := True\<rparr>) s"
  shows "if n = 0 then give_sem x n s = Some (s_count (objects s x), upd_obj x (\<lambda>r. r\<lparr>s_count := 0\<rparr>) s)
    else \<exists>s'. give_sem x n s = Some (s_count (objects s x), s') \<and>
      (let rel = take (unat n) (runnable s1 B (W x)) in
         wakes x s s' W B (threads_of s rel) \<and>
         s_count (objects s' x) = n - of_nat (length rel) \<and> o_signaled (objects s' x) = (s_count (objects s' x) \<noteq> 0))"
proof (cases "n = 0")
  case True
  then show ?thesis by (simp add: give_sem_def)
next
  case False
  have w1: "wakes x s s1 W B {}" unfolding s1_def by (rule wakes_obj [OF assms(1)]) simp_all
  have ok1: "wait_ok s1 W B" using wakesD(1) [OF w1] by simp
  have g: "give_sem x n s = map_option (\<lambda>s'. (s_count (objects s x), s')) (sem_loop x (first (W x)) s1)"
    using False dlist_fields(1) [OF wqD(1) [OF wait_repD(1) [OF wait_okD(1) [OF assms(1)]], of x]]
    by (cases "sem_loop x (first (W x)) s1") (simp_all add: give_sem_def s1_def upd_obj_twice word_gt_0)
  have t: "threads_of s1 ws = threads_of s ws" for ws by (simp add: threads_of_def s1_def)
  have "o_signaled (objects s1 x)" "s_count (objects s1 x) = n" by (simp_all add: s1_def)
  then obtain s' where s': "sem_loop x (first (W x)) s1 = Some s'"
    "wakes x s1 s' W B (threads_of s (take (unat n) (runnable s1 B (W x))))"
    "s_count (objects s' x) = n - of_nat (length (take (unat n) (runnable s1 B (W x))))"
    "o_signaled (objects s' x) = (s_count (objects s' x) \<noteq> 0)"
    using sem_loop_correct [OF ok1, of x "[]" "W x"] False unfolding Let_def t by auto
  then show ?thesis using g False wakes_step [OF w1 s'(2)] by (simp add: Let_def)
qed


subsection \<open>Events\<close>

lemma set_event_loop_nil [simp]: "set_event_loop x None s = Some s"
  by (subst set_event_loop.simps) simp

lemma set_event_loop_correct:
  assumes "wait_ok s W B" "W x = us @ vs" "o_signaled (objects s x)"
  shows "\<exists>s'. set_event_loop x (first vs) s = Some s' \<and>
    e_manual_reset (objects s' x) = e_manual_reset (objects s x) \<and>
    (if e_manual_reset (objects s x)
     then wakes x s s' W B (threads_of s (runnable s B vs)) \<and> o_signaled (objects s' x)
     else wakes x s s' W B (threads_of s (take 1 (runnable s B vs))) \<and>
       o_signaled (objects s' x) = (runnable s B vs = []))"
  using assms
proof (induction vs arbitrary: s us W B)
  case Nil
  then show ?case by (auto simp: runnable_def intro!: wakes_same)
next
  case (Cons w vs)
  define t where "t = w_thread (waitblocks s w)"
  define k where "k = upd_thread t (\<lambda>r. r\<lparr>t_waitkey := last_key s (t_waitkey r) (B t)\<rparr>) s"
  note v = visit [OF Cons.prems(1,2) t_def]
  have wk: "wakes x s k W B {}" unfolding k_def by (rule wakes_key [OF Cons.prems(1)]) (simp add: t_def Cons.prems(2))
  have okk: "wait_ok k W B" using wakesD(1) [OF wk] by simp
  show ?case
  proof (cases "can_run s (B t)")
    case False
    have l: "set_event_loop x (first (w # vs)) s = set_event_loop x (first vs) k"
      using v False by (subst set_event_loop.simps) (simp add: t_def [symmetric] k_def)
    have r: "runnable k B vs = runnable s B vs" "threads_of k ws = threads_of s ws" for ws
      using runnable_wakes [OF wk] by (simp_all add: k_def threads_of_def)
    have rn: "runnable s B (w # vs) = runnable s B vs" using False by (simp add: runnable_def t_def)
    have "o_signaled (objects k x)" "W x = (us @ [w]) @ vs" using Cons.prems by (simp_all add: k_def)
    from Cons.IH [OF okk this(2,1)] show ?thesis using wakes_step [OF wk] unfolding l rn r by (auto simp: k_def)
  next
    case True
    obtain s2 where s2: "release_thread t k = Some s2" "wakes x k s2 W B {t}" "\<And>y. core (objects s2 y) = core (objects k y)"
      using wakes_release [where x = x, OF okk v(2)] by blast
    have w2: "wakes x s s2 W B {t}" by (rule wakes_step [OF wk s2(2)])
    have c2: "e_manual_reset (objects s2 x) = e_manual_reset (objects s x)" "o_signaled (objects s2 x)"
      "o_signaled (objects s2 y) = o_signaled (objects s y)" for y
      using core_eqD [OF s2(3) [of x]] core_eqD [OF s2(3) [of y]] Cons.prems(3) by (simp_all add: k_def)
    have rn: "runnable s B (w # vs) = w # runnable s B vs" using True by (simp add: runnable_def t_def)
    have r2: "runnable s2 (without {t} B) vs = runnable s B vs"
      using runnable_wakes(1) [OF w2 c2(3)] waiters_distinct [OF Cons.prems(1,2)] by (simp add: t_def)
    have t2: "threads_of s2 ws = threads_of s ws" for ws
      by (simp add: threads_of_def releasedD(6) [OF wakesD(2) [OF w2]])
    have l: "set_event_loop x (first (w # vs)) s =
      (if \<not> e_manual_reset (objects s2 x) then Some (upd_obj x (\<lambda>r. r\<lparr>o_signaled := False\<rparr>) s2) else set_event_loop x (first vs) s2)"
      using v True s2(1) by (subst set_event_loop.simps) (simp add: t_def [symmetric] k_def)
    show ?thesis
    proof (cases "e_manual_reset (objects s x)")
      case False
      have "wakes x s (upd_obj x (\<lambda>r. r\<lparr>o_signaled := False\<rparr>) s2) W B {t}"
        by (rule wakes_then_obj [OF w2]) simp_all
      then show ?thesis using l False c2(1) by (simp add: rn t_def)
    next
      case m: True
      then obtain s' where s': "set_event_loop x (first vs) s2 = Some s'" "e_manual_reset (objects s' x)"
        "wakes x s2 s' (leave s {t} W) (without {t} B) (threads_of s (runnable s B vs))" "o_signaled (objects s' x)"
        using Cons.IH [OF wakesD(1) [OF w2] v(4) c2(2)] unfolding r2 t2 c2(1) by auto
      then show ?thesis using l m c2(1) wakes_trans [OF w2 s'(3)] by (simp add: rn t_def)
    qed
  qed
qed

lemma head_first: "wait_ok s W B \<Longrightarrow> o_waitlist_head (objects s x) = first (W x)"
  by (rule dlist_fields(1) [OF wqD(1) [OF wait_repD(1) [OF wait_okD(1)]]])

lemma set_event_ok:
  fixes x :: addr
  assumes "wait_ok s W B"
  defines "s1 \<equiv> upd_obj x (\<lambda>r. r\<lparr>o_signaled := True\<rparr>) s"
  shows "\<exists>s'. set_event x s = Some s' \<and>
    (if e_manual_reset (objects s x)
     then wakes x s s' W B (threads_of s (runnable s1 B (W x))) \<and> o_signaled (objects s' x)
     else wakes x s s' W B (threads_of s (take 1 (runnable s1 B (W x)))) \<and>
       o_signaled (objects s' x) = (runnable s1 B (W x) = []))"
proof -
  have w1: "wakes x s s1 W B {}" unfolding s1_def by (rule wakes_obj [OF assms(1)]) simp_all
  have ok1: "wait_ok s1 W B" using wakesD(1) [OF w1] by simp
  have t: "threads_of s1 ws = threads_of s ws" for ws by (simp add: threads_of_def s1_def)
  have g: "set_event x s = set_event_loop x (first (W x)) s1"
    using head_first [OF assms(1)] by (simp add: set_event_def s1_def)
  have "o_signaled (objects s1 x)" "e_manual_reset (objects s1 x) = e_manual_reset (objects s x)" by (simp_all add: s1_def)
  then show ?thesis using set_event_loop_correct [OF ok1, of x "[]" "W x"] wakes_step [OF w1] unfolding g t
    by (auto split: if_splits)
qed

subsection \<open>Mutexes\<close>

lemma first_ready_nil [simp]: "first_ready None s = Some (None, s)"
  by (subst first_ready.simps) simp

lemma first_ready_correct:
  assumes "wait_ok s W B" "W x = us @ vs"
  shows "\<exists>s'. first_ready (first vs) s = Some (first (runnable s B vs), s') \<and> wakes x s s' W B {} \<and>
     objects s' = objects s \<and> waitblocks s' = waitblocks s"
  using assms
proof (induction vs arbitrary: s us)
  case Nil
  then show ?case by (auto simp: runnable_def intro!: wakes_same)
next
  case (Cons w vs)
  define t where "t = w_thread (waitblocks s w)"
  define k where "k = upd_thread t (\<lambda>r. r\<lparr>t_waitkey := last_key s (t_waitkey r) (B t)\<rparr>) s"
  note v = visit [OF Cons.prems t_def]
  have wk: "wakes x s k W B {}" unfolding k_def by (rule wakes_key [OF Cons.prems(1)]) (simp add: t_def Cons.prems(2))
  have okk: "wait_ok k W B" using wakesD(1) [OF wk] by simp
  have k: "objects k = objects s" "waitblocks k = waitblocks s" by (simp_all add: k_def)
  show ?case
  proof (cases "can_run s (B t)")
    case False
    have l: "first_ready (first (w # vs)) s = first_ready (first vs) k"
      using v False k by (subst first_ready.simps) (simp add: t_def [symmetric] k_def)
    have r: "runnable k B vs = runnable s B vs" using runnable_wakes(1) [OF wk] by (simp add: k)
    have rn: "runnable s B (w # vs) = runnable s B vs" using False by (simp add: runnable_def t_def)
    have "W x = (us @ [w]) @ vs" using Cons.prems by simp
    from Cons.IH [OF okk this] show ?thesis using wakes_step [OF wk] unfolding l rn r k by auto
  next
    case True
    then have "first_ready (first (w # vs)) s = Some (Some w, k)"
      using v by (subst first_ready.simps) (simp add: t_def [symmetric] k_def)
    moreover have "first (runnable s B (w # vs)) = Some w" using True by (simp add: runnable_def t_def)
    ultimately show ?thesis using wk k by auto
  qed
qed

lemma release_mutex_ok:
  fixes x :: addr
  assumes "wait_ok s W B" "m_owner (objects s x) = Some (cur s)" "m_recursion (objects s x) = 1"
  defines "s1 \<equiv> upd_obj x (\<lambda>r. r\<lparr>m_recursion := 0, o_signaled := True, m_owner := None\<rparr>) s"
  shows "\<exists>s'. release_mutex x s = Some (0, s') \<and>
    (case runnable s1 B (W x) of
       [] \<Rightarrow> wakes x s s' W B {} \<and> o_signaled (objects s' x) \<and> m_owner (objects s' x) = None \<and> m_recursion (objects s' x) = 0
     | w # _ \<Rightarrow> let t = w_thread (waitblocks s w) in
         wakes x s s' W B {t} \<and> \<not> o_signaled (objects s' x) \<and> m_owner (objects s' x) = Some t \<and> m_recursion (objects s' x) = 1)"
proof -
  have w1: "wakes x s s1 W B {}" unfolding s1_def by (rule wakes_obj [OF assms(1)]) simp_all
  have ok1: "wait_ok s1 W B" using wakesD(1) [OF w1] by simp
  obtain s3 where s3: "first_ready (first (W x)) s1 = Some (first (runnable s1 B (W x)), s3)" "wakes x s1 s3 W B {}"
    "objects s3 = objects s1" "waitblocks s3 = waitblocks s1"
    using first_ready_correct [OF ok1, of x "[]" "W x"] by auto
  have w3: "wakes x s s3 W B {}" by (rule wakes_step [OF w1 s3(2)])
  have s1': "upd_obj x (\<lambda>r. r\<lparr>o_signaled := True, m_owner := None\<rparr>) (upd_obj x (\<lambda>r. r\<lparr>m_recursion := m_recursion r - 1\<rparr>) s) = s1"
    using assms(3) by (simp add: s1_def upd_obj_def)
  show ?thesis
  proof (cases "runnable s1 B (W x)")
    case Nil
    then have "release_mutex x s = Some (0, s3)"
      using s3(1) assms(2,3) by (simp add: release_mutex_def Let_def s1' head_first [OF ok1])
    then show ?thesis using Nil w3 s3(3) by (simp add: s1_def)
  next
    case (Cons w vs)
    define t where "t = w_thread (waitblocks s w)"
    define q where "q = upd_obj x (\<lambda>r. r\<lparr>m_owner := Some t, m_recursion := 1, o_signaled := False\<rparr>) s3"
    have wq: "wakes x s q W B {}" unfolding q_def by (rule wakes_then_obj [OF w3]) simp_all
    have okq: "wait_ok q W B" using wakesD(1) [OF wq] by simp
    have "w \<in> set (W x)" using Cons filter_is_subset unfolding runnable_def by (metis list.set_intros(1) subsetD)
    then obtain us vs' where "W x = us @ w # vs'" by (meson split_list)
    then have "B t \<noteq> []" using visit(2) [OF assms(1) _ t_def] by blast
    then obtain s4 where s4: "release_thread t q = Some s4" "wakes x q s4 W B {t}" "\<And>y. core (objects s4 y) = core (objects q y)"
      using wakes_release [where x = x, OF okq] by blast
    have "waitblocks s3 w = waitblocks s w" by (simp add: s3(4) s1_def)
    then have "release_mutex x s = Some (0, s4)"
      using s3(1) s4(1) assms(2,3) Cons by (simp add: release_mutex_def Let_def s1' head_first [OF ok1] t_def q_def)
    moreover have "\<not> o_signaled (objects s4 x)" "m_owner (objects s4 x) = Some t" "m_recursion (objects s4 x) = 1"
      using core_eqD [OF s4(3) [of x]] by (simp_all add: q_def)
    ultimately show ?thesis using wakes_step [OF wq s4(2)] by (simp add: Cons Let_def t_def)
  qed
qed

subsection \<open>Closing an object\<close>

lemma close_loop_correct:
  assumes "wait_ok s W B"
  shows "\<exists>s'. close_loop x s = Some s' \<and> wakes x s s' W B (threads_of s (W x)) \<and>
     (\<forall>t \<in> threads_of s (W x). t_waitkey (thr s' t) = - EINTR) \<and>
     (\<forall>t. t \<notin> threads_of s (W x) \<longrightarrow> t_waitkey (thr s' t) = t_waitkey (thr s t)) \<and>
     core (objects s' x) = core (objects s x)"
  using assms
proof (induction "W x" arbitrary: s W B)
  case Nil
  then have "close_loop x s = Some s" by (subst close_loop.simps) (simp add: head_first [OF Nil(2)])
  then show ?case using Nil by (auto intro!: wakes_same)
next
  case (Cons w vs)
  define t where "t = w_thread (waitblocks s w)"
  define k where "k = upd_thread t (\<lambda>r. r\<lparr>t_waitkey := - EINTR\<rparr>) s"
  have W: "W x = [] @ w # vs" using Cons.hyps(2) by simp
  note v = visit [OF Cons.prems W t_def]
  have wk: "wakes x s k W B {}" unfolding k_def by (rule wakes_key [OF Cons.prems]) (simp add: t_def W)
  have okk: "wait_ok k W B" using wakesD(1) [OF wk] by simp
  obtain s2 where s2: "release_thread t k = Some s2" "wakes x k s2 W B {t}" "\<And>y. core (objects s2 y) = core (objects k y)"
    "\<And>u. t_waitkey (thr s2 u) = t_waitkey (thr k u)"
    using wakes_release [where x = x, OF okk v(2)] by blast
  have w2: "wakes x s s2 W B {t}" by (rule wakes_step [OF wk s2(2)])
  have t2: "threads_of s2 ws = threads_of s ws" for ws
    by (simp add: threads_of_def releasedD(6) [OF wakesD(2) [OF w2]])
  have l: "close_loop x s = close_loop x s2"
    using s2(1) by (subst close_loop.simps) (simp add: head_first [OF Cons.prems] W t_def [symmetric] k_def)
  have vs: "vs = leave s {t} W x" using v(4) by simp
  have T: "threads_of s (W x) = insert t (threads_of s vs)" by (simp add: W t_def)
  obtain s' where s': "close_loop x s2 = Some s'" "wakes x s2 s' (leave s {t} W) (without {t} B) (threads_of s vs)"
     "\<forall>u \<in> threads_of s vs. t_waitkey (thr s' u) = - EINTR"
     "\<forall>u. u \<notin> threads_of s vs \<longrightarrow> t_waitkey (thr s' u) = t_waitkey (thr s2 u)"
     "core (objects s' x) = core (objects s2 x)"
    using Cons.hyps(1) [OF vs wakesD(1) [OF w2]] unfolding vs [symmetric] t2 by blast
  have "t_waitkey (thr s2 u) = (if u = t then - EINTR else t_waitkey (thr s u))" for u
    using s2(4) [of u] by (simp add: k_def)
  moreover have "core (objects s' x) = core (objects s x)" using s'(5) s2(3) by (simp add: k_def)
  moreover have "wakes x s s' W B (insert t (threads_of s vs))" using wakes_trans [OF w2 s'(2)] by simp
  ultimately show ?case using s'(1,3,4) unfolding T l by (metis insert_iff)
qed


subsection \<open>Blocking on an object\<close>

text \<open>A call of \<^verbatim>\<open>dispatch\<close> with no deferred call pending and a thread ready to run.\<close>

lemma dispatch_quiet:
  assumes "ready_inv s" "dpc_queue_head s = None" "t_state (thr s u) = TReady" "\<And>t. t_state (thr s t) \<noteq> TRunning"
  obtains s' where "dispatch exec fuel s = Some s'" "sched_ok s'" "sched.more s' = sched.more s"
    "t_state (thr s (cur s')) = TReady" "\<And>t. t \<noteq> cur s' \<Longrightarrow> t_state (thr s' t) = t_state (thr s t)"
    "\<And>t. t_waitlist (thr s' t) = t_waitlist (thr s t)" "\<And>t. t_interrupted (thr s' t) = t_interrupted (thr s t)"
proof -
  let ?s = "s\<lparr>preempt := False\<rparr>"
  have c: "check_dpc_queue exec fuel ?s = Some ?s" using assms(2) by (simp add: check_dpc_queue_def)
  have ri: "ready_inv ?s" using assms(1) by simp
  then obtain Q where Q: "ready_rep ?s Q" by (auto simp: ready_inv_def)
  have rq: "rqs ?s Q" using Q by (simp add: ready_rep_def)
  have "u \<in> set (Q (t_priority (thr ?s u)))" using Q assms(3) by (auto simp: ready_rep_def)
  then have "Q (t_priority (thr ?s u)) \<noteq> []" by auto
  from find_ready_thread_rqs [OF rq this] obtain p t ts s2 where f: "find_ready_thread ?s = Some (Some t, s2)" "Q p = t # ts"
    by metis
  note k = find_ready_thread_keeps [OF f(1)]
  have tr: "t_state (thr s t) = TReady" using ready_rep_mem [OF Q, of t p] f(2) by simp
  have "\<exists>s'. dispatch exec fuel s = Some s'" using c f(1) by (simp add: dispatch_def Let_def)
  then obtain s' where d: "dispatch exec fuel s = Some s'" by blast
  have nr: "\<forall>x. t_state (thr ?s x) \<noteq> TRunning" using assms(4) by simp
  from d obtain f where s': "s' = (upd_thread t f s2)\<lparr>cur := t\<rparr>" and
    fr: "\<And>r. t_state (f r) = TRunning \<and> t_priority (f r) = t_priority r \<and> t_base_priority (f r) = t_base_priority r \<and>
       t_suspend_count (f r) = t_suspend_count r" and
    fw: "\<And>r. t_waitlist (f r) = t_waitlist r" "\<And>r. t_interrupted (f r) = t_interrupted r"
  proof (cases rule: dispatch_cases [case_names same switch])
    case (same s1 t' s2')
    then have e: "t' = t" "s2' = s2" using c f(1) by simp_all
    have "s' = (upd_thread t (\<lambda>r. r\<lparr>t_state := TRunning\<rparr>) s2)\<lparr>cur := t\<rparr>"
      using same(3,4) k(10) unfolding e by (cases s2) (simp add: upd_thread_def)
    then show thesis by (rule that) simp_all
  next
    case (switch s1 t' s2' b)
    then have e: "t' = t" "s2' = s2" using c f(1) by simp_all
    from switch(4) [unfolded e] show thesis by (rule that) simp_all
  qed
  have "sched_ok s'" unfolding s' by (rule run_selected(1) [OF Q f(1) ri nr fr])
  moreover have "sched.more s' = sched.more s" using k(12) by (simp add: s' upd_thread_def)
  moreover have "cur s' = t" by (simp add: s')
  moreover have "u \<noteq> t \<Longrightarrow> t_state (thr s' u) = t_state (thr s u)" "t_waitlist (thr s' u) = t_waitlist (thr s u)"
    "t_interrupted (thr s' u) = t_interrupted (thr s u)" for u
    using k(1,7,8) [of u] fw by (auto simp: s')
  ultimately show thesis using that [OF d] tr by simp
qed

lemma setup_wb_rep:
  fixes x :: addr and ty :: waittype and k :: int
  assumes rep: "wait_rep s W B" and "B t = []" and new: "\<And>y. wb \<notin> set (W y)"
  defines "s' \<equiv> setup_wb wb x ty k t (upd_thread t (\<lambda>r. r\<lparr>t_waitlist := Some wb\<rparr>) s)"
  shows "wait_rep s' (W(x := W x @ [wb])) (B(t := [wb]))" "threads s' = (threads s)(t := (thr s t)\<lparr>t_waitlist := Some wb\<rparr>)"
    "core (objects s' y) = core (objects s y)" "w_thread (waitblocks s' wb) = t" "w_waittype (waitblocks s' wb) = ty"
    "w_waitkey (waitblocks s' wb) = k" "w_object (waitblocks s' wb) = Some x"
    "v \<noteq> wb \<Longrightarrow> waitblocks s' v = (waitblocks s v)\<lparr>w_next_wait := w_next_wait (waitblocks s' v)\<rparr>"
proof -
  let ?tl = "o_waitlist_tail (objects s x)"
  note q = wqD [OF wait_repD(1) [OF rep]]
  have tl: "?tl = final (W x)" by (rule dlist_fields(2) [OF q(1)])
  have tn: "?tl \<noteq> Some wb" using final_in_set [of "W x" wb] new [of x] tl by auto
  have o': "objects s' = (objects s)(x := (objects s x)\<lparr>o_waitlist_tail := Some wb,
      o_waitlist_head := if o_waitlist_head (objects s x) = None then Some wb else o_waitlist_head (objects s x)\<rparr>)"
    by (cases ?tl) (simp_all add: s'_def setup_wb_def insert_in_waitlist_def Let_def)
  have w': "waitblocks s' v = (if v = wb then (waitblocks s wb)\<lparr>w_thread := t, w_object := Some x, w_waittype := ty, w_waitkey := k,
        w_next := None, w_next_wait := None, w_prev_wait := ?tl\<rparr>
      else if ?tl = Some v then (waitblocks s v)\<lparr>w_next_wait := Some wb\<rparr> else waitblocks s v)" for v
    using tn by (cases ?tl) (simp_all add: s'_def setup_wb_def insert_in_waitlist_def Let_def)
  show t': "threads s' = (threads s)(t := (thr s t)\<lparr>t_waitlist := Some wb\<rparr>)"
    by (cases ?tl) (simp_all add: s'_def setup_wb_def insert_in_waitlist_def Let_def)
  show "core (objects s' y) = core (objects s y)" "w_thread (waitblocks s' wb) = t" "w_waittype (waitblocks s' wb) = ty"
    "w_waitkey (waitblocks s' wb) = k" "w_object (waitblocks s' wb) = Some x"
    "v \<noteq> wb \<Longrightarrow> waitblocks s' v = (waitblocks s v)\<lparr>w_next_wait := w_next_wait (waitblocks s' v)\<rparr>"
    by (simp_all add: o' w' core_def)
  have d: "dlist (\<lambda>w. w_next_wait (waitblocks s' w)) (\<lambda>w. w_prev_wait (waitblocks s' w))
      (o_waitlist_head (objects s' y)) (o_waitlist_tail (objects s' y)) ((W(x := W x @ [wb])) y)" for y
  proof (cases "y = x")
    case True
    have d0: "dlist (\<lambda>w. w_next_wait (waitblocks s' w)) (\<lambda>w. w_prev_wait (waitblocks s' w))
      (if W x = [] then Some wb else o_waitlist_head (objects s x)) (Some wb) (W x @ [wb])"
      by (rule dlist_append [OF q(1)]) (use new [of x] in \<open>auto simp: w'\<close>)
    have "o_waitlist_head (objects s x) = None \<longleftrightarrow> W x = []"
      using dlist_fields(1) [OF q(1), of x] by (cases "W x") simp_all
    then show ?thesis using d0 True by (simp add: o')
  next
    case False
    have "?tl \<noteq> Some v \<and> v \<noteq> wb" if "v \<in> set (W y)" for v
      using that new [of y] final_in_set [of "W x" v] q(3) [of v x y] False tl by auto
    then show ?thesis using False by (simp add: o') (rule dlist_cong [OF q(1)], auto simp: w')
  qed
  have ob: "w_object (waitblocks s' w) = Some y" if "w \<in> set ((W(x := W x @ [wb])) y)" for w y
    using that q(2) [of w y] new [of y] by (auto simp: w' split: if_splits)
  have th: "w_thread (waitblocks s' w) = (if w = wb then t else w_thread (waitblocks s w))" for w by (simp add: w')
  have nb: "wb \<notin> set (B u)" for u using wait_repD(6) [OF rep, of wb u] new by blast
  have nt: "w_thread (waitblocks s w) \<noteq> t" if "w \<in> set (W y)" for w y
    using wait_repD(7) [OF rep that] assms(2) by auto
  show "wait_rep s' (W(x := W x @ [wb])) (B(t := [wb]))" unfolding wait_rep_def
  proof (intro conjI allI impI)
    show "wq s' (W(x := W x @ [wb]))" unfolding wq_def using d ob by blast
    fix u
    show "t_waitlist (thr s' u) = first ((B(t := [wb])) u)" using wait_repD(2) [OF rep, of u] by (simp add: t')
    show "sseg (\<lambda>w. w_next (waitblocks s' w)) ((B(t := [wb])) u)"
    proof (cases "u = t")
      case False
      have "sseg (\<lambda>w. w_next (waitblocks s' w)) (B u)"
        by (rule sseg_cong [THEN iffD2, OF _ wait_repD(3) [OF rep]]) (use nb [of u] in \<open>auto simp: w'\<close>)
      then show ?thesis using False by simp
    qed (simp add: w')
    show "distinct ((B(t := [wb])) u)" using wait_repD(4) [OF rep, of u] by simp
    fix w assume w: "w \<in> set ((B(t := [wb])) u)"
    show "w_thread (waitblocks s' w) = u" using w wait_repD(5) [OF rep, of w u] nb [of u] by (auto simp: th split: if_splits)
    show "\<exists>y. w \<in> set ((W(x := W x @ [wb])) y)"
    proof (cases "u = t")
      case False
      then obtain y where "w \<in> set (W y)" using w wait_repD(6) [OF rep, of w u] by auto
      then have "w \<in> set ((W(x := W x @ [wb])) y)" by auto
      then show ?thesis by blast
    qed (use w in \<open>auto intro: exI [of _ x]\<close>)
  next
    fix y w assume w: "w \<in> set ((W(x := W x @ [wb])) y)"
    then have "w = wb \<or> w \<in> set (W y)" by (auto split: if_splits)
    then show "w \<in> set ((B(t := [wb])) (w_thread (waitblocks s' w)))"
      using wait_repD(7) [OF rep, of w y] nt [of w y] by (auto simp: th)
    fix v assume v: "v \<in> set ((W(x := W x @ [wb])) y)" "w_thread (waitblocks s' w) = w_thread (waitblocks s' v)"
    have "v = wb \<or> v \<in> set (W y)" using v by (auto split: if_splits)
    then show "w = v" using \<open>w = wb \<or> w \<in> set (W y)\<close> wait_repD(8) [OF rep, of w y v] nt [of w y] nt [of v y] v(2)
      by (auto simp: th split: if_splits)
  qed
qed

lemma wait_for_one_object_infinite:
  assumes ok: "wait_ok s W B" and so: "sched_ok s" and B: "B (cur s) = []" and new: "\<And>y. wb \<notin> set (W y)"
    and ns: "\<not> o_signaled (objects s x)" and nm: "o_type (objects s x) = ObjMutex \<longrightarrow> m_owner (objects s x) \<noteq> Some (cur s)"
    and dpc: "dpc_queue_head s = None" and rdy: "t_state (thr s u) = TReady"
    and sig: "alertable \<Longrightarrow> \<not> signals_ready (thr s (cur s))"
  obtains s' where "wait_for_one_object exec fuel wb wbtmo tm x INFINITE alertable s = Some (Blocked, s')"
    "wait_ok s' (W(x := W x @ [wb])) (B(cur s := [wb]))" "sched_ok s'"
    "t_state (thr s' (cur s)) = TWaiting" "t_state (thr s (cur s')) = TReady" "\<And>y. core (objects s' y) = core (objects s y)"
proof -
  let ?t = "cur s"
  define s2 where "s2 = setup_wb wb x WaitAny 0 ?t (upd_thread ?t (\<lambda>r. r\<lparr>t_waitlist := Some wb\<rparr>) s)"
  note p = setup_wb_rep [where x = x and ty = WaitAny and k = 0, OF wait_okD(1) [OF ok] B new, folded s2_def]
  define f where "f = (\<lambda>r :: thread. if alertable then r\<lparr>t_state := TWaiting, t_wait_reason := THREAD_WAIT_OBJECT, t_interrupted := False, t_alertable := True\<rparr>
    else r\<lparr>t_state := TWaiting, t_wait_reason := THREAD_WAIT_OBJECT\<rparr>)"
  have f: "t_state (f r) = TWaiting" "t_waitlist (f r) = t_waitlist r" "t_priority (f r) = t_priority r" "t_base_priority (f r) = t_base_priority r" for r by (simp_all add: f_def)
  define s3 where "s3 = upd_thread ?t f s2"
  have s2': "s2 = upd_thread ?t (\<lambda>r. r\<lparr>t_waitlist := Some wb\<rparr>) (s\<lparr>objects := objects s2, waitblocks := waitblocks s2\<rparr>)"
    by (cases s; cases "o_waitlist_tail (objects s x)")
      (simp_all add: s2_def setup_wb_def insert_in_waitlist_def Let_def upd_obj_def upd_wb_def upd_thread_def)
  have c2: "cur s2 = ?t" "dpc_queue_head s2 = None" using dpc by (subst s2', simp)+
  have ri2: "ready_inv s2" by (subst s2', rule ready_inv_upd_keep) (use wait_okD(2) [OF ok] in simp_all)
  have run: "t_state (thr s t) = TRunning \<longleftrightarrow> t = ?t" for t using so by (auto simp: sched_ok_def)
  have prio: "t_priority (thr s2 t) < 32" "t_base_priority (thr s2 t) < 32" for t
    using ri2 by (auto elim: ready_inv_repE)
  have s3': "threads s3 = (threads s)(?t := f ((thr s ?t)\<lparr>t_waitlist := Some wb\<rparr>))"
    "objects s3 = objects s2" "waitblocks s3 = waitblocks s2" "dpc_queue_head s3 = None"
    using p(2) c2 by (simp_all add: s3_def)
  have ri3: "ready_inv s3" unfolding s3_def
    by (rule ready_inv_upd [OF ri2]) (use p(2) run [of ?t] prio [of ?t] f in simp_all)
  have "t_state (thr s3 u) = TReady" using rdy run [of u] by (auto simp: s3' f)
  moreover have "t_state (thr s3 t) \<noteq> TRunning" for t using run [of t] by (simp add: s3' f)
  ultimately obtain s' where d: "dispatch exec fuel s3 = Some s'" "sched_ok s'" "sched.more s' = sched.more s3"
    "t_state (thr s3 (cur s')) = TReady" "\<And>t. t \<noteq> cur s' \<Longrightarrow> t_state (thr s' t) = t_state (thr s3 t)"
    "\<And>t. t_waitlist (thr s' t) = t_waitlist (thr s3 t)" "\<And>t. t_interrupted (thr s' t) = t_interrupted (thr s3 t)"
    using dispatch_quiet [OF ri3 s3'(4)] by blast
  note m = kernel_of_more [OF d(3)]
  have wl: "t_waitlist (thr s' t) = t_waitlist (thr s2 t)" for t using d(6) by (simp add: s3' p(2) f)
  have rep: "wait_rep s' (W(x := W x @ [wb])) (B(?t := [wb]))"
    by (rule wait_rep_frame [OF p(1)]) (simp_all add: m s3' wl)
  have cn: "cur s' \<noteq> ?t" using d(4) by (auto simp: s3' f)
  have "wait_ok s' (W(x := W x @ [wb])) (B(?t := [wb]))" unfolding wait_ok_def
  proof (intro conjI allI impI)
    show "ready_inv s'" using d(2) by (simp add: sched_ok_def)
    fix t assume a: "(B(?t := [wb])) t \<noteq> [] \<and> t_state (thr s' t) = TReady"
    have "t_state (thr s' (cur s')) = TRunning" using d(2) by (simp add: sched_ok_def)
    then have "t \<noteq> cur s'" using a by auto
    then have "t_state (thr s3 t) = TReady" using d(5) a by simp
    then have "t \<noteq> ?t" "t_state (thr s t) = TReady" by (auto simp: s3' f split: if_splits)
    then show "t_interrupted (thr s' t)" using wait_okD(3) [OF ok, of t] a d(7) [of t] by (simp add: s3')
  qed (rule rep)
  moreover have "wait_for_one_object exec fuel wb wbtmo tm x INFINITE alertable s = Some (Blocked, s')"
    using ns nm d(1) c2 sig p(2)
    by (auto simp: wait_for_one_object_def INFINITE_def block_on_def enter_wait_def enter_alertable_wait_def signals_ready_def s2_def [symmetric] s3_def f_def)
  moreover have "t_state (thr s' ?t) = TWaiting" using d(5) [of ?t] cn by (simp add: s3' f)
  moreover have "t_state (thr s (cur s')) = TReady" using d(4) cn by (simp add: s3')
  moreover have "core (objects s' y) = core (objects s y)" for y using p(3) by (simp add: m s3')
  ultimately show thesis using that d(2) by blast
qed

text \<open>An alertable wait with a signal pending: the wait block is linked and taken out again.\<close>

lemma leave_new:
  assumes rep: "wait_rep s W B" and t: "B t = []" and new: "\<And>y. wb \<notin> set (W y)"
    and "w_thread (waitblocks s2 wb) = t" and "\<And>v. v \<noteq> wb \<Longrightarrow> w_thread (waitblocks s2 v) = w_thread (waitblocks s v)"
  shows "leave s2 {t} (W(x := W x @ [wb])) = W"
proof -
  have "w_thread (waitblocks s2 v) \<noteq> t" if v: "v \<in> set (W y)" for v y
  proof -
    have "v \<in> set (B (w_thread (waitblocks s v)))" using wait_repD(7) [OF rep] v by blast
    then have "w_thread (waitblocks s v) \<noteq> t" using t by auto
    then show ?thesis using assms(5) [of v] new [of y] v by metis
  qed
  then have "filter (\<lambda>w. w_thread (waitblocks s2 w) \<notin> {t}) (W y) = W y" for y by (auto simp: filter_id_conv)
  then show ?thesis using assms(4) by (auto simp: leave_def)
qed

lemma wait_for_one_object_interrupted:
  assumes ok: "wait_ok s W B" and B: "B (cur s) = []" and new: "\<And>y. wb \<notin> set (W y)"
    and ns: "\<not> o_signaled (objects s x)" and nm: "o_type (objects s x) = ObjMutex \<longrightarrow> m_owner (objects s x) \<noteq> Some (cur s)"
    and sig: "signals_ready (thr s (cur s))"
  obtains s' where "wait_for_one_object exec fuel wb wbtmo tm x INFINITE True s = Some (Return (- EINTR), s')" "wait_ok s' W B"
    "threads s' = (threads s)(cur s := (thr s (cur s))\<lparr>t_waitlist := None, t_waitkey := - EINTR\<rparr>)" "\<And>y. core (objects s' y) = core (objects s y)"
proof -
  let ?t = "cur s"
  define s2 where "s2 = setup_wb wb x WaitAny 0 ?t (upd_thread ?t (\<lambda>r. r\<lparr>t_waitlist := Some wb\<rparr>) s)"
  note p = setup_wb_rep [where x = x and ty = WaitAny and k = 0, OF wait_okD(1) [OF ok] B new, folded s2_def]
  have c2: "cur s2 = ?t" by (cases "o_waitlist_tail (objects s x)") (simp_all add: s2_def setup_wb_def insert_in_waitlist_def Let_def)
  obtain s3 where s3: "cancel_wait ?t s2 = Some s3" "wait_rep s3 (leave s2 {?t} (W(x := W x @ [wb]))) (B(?t := [wb], ?t := []))"
    "\<And>y. core (objects s3 y) = core (objects s2 y)" "\<And>v. wcore (waitblocks s3 v) = wcore (waitblocks s2 v)"
    "\<And>v. v \<notin> set ((B(?t := [wb])) ?t) \<Longrightarrow> w_object (waitblocks s3 v) = w_object (waitblocks s2 v)"
    "s3 = upd_thread ?t (\<lambda>r. r\<lparr>t_waitlist := None\<rparr>) (s2\<lparr>objects := objects s3, waitblocks := waitblocks s3\<rparr>)"
    by (rule cancel_wait_rep [OF p(1), of ?t]) (rule that)
  have "w_thread (waitblocks s2 v) = w_thread (waitblocks s v)" if "v \<noteq> wb" for v by (subst p(8) [OF that]) simp
  with leave_new [OF wait_okD(1) [OF ok] B new p(4)] have "leave s2 {?t} (W(x := W x @ [wb])) = W" by blast
  moreover have "B(?t := [wb], ?t := []) = B" using B by (auto simp: fun_eq_iff)
  ultimately have rep: "wait_rep s3 W B" using s3(2) by simp
  define s4 where "s4 = upd_thread ?t (\<lambda>r. r\<lparr>t_waitkey := - EINTR\<rparr>) s3"
  have t3: "threads s3 = (threads s)(?t := (thr s ?t)\<lparr>t_waitlist := None\<rparr>)" by (subst s3(6)) (simp add: p(2))
  have rq: "ready_inv s3 = ready_inv (upd_thread ?t (\<lambda>r. r\<lparr>t_waitlist := None\<rparr>) s)"
    by (subst s3(6)) (rule ready_inv_cong; cases "o_waitlist_tail (objects s x)"; simp add: s2_def setup_wb_def insert_in_waitlist_def Let_def upd_thread_def upd_obj_def upd_wb_def)
  have "ready_inv s3" unfolding rq by (rule ready_inv_upd_keep [OF wait_okD(2) [OF ok]]) simp_all
  then have "wait_ok s3 W B" using rep wait_okD(3) [OF ok] by (auto simp: wait_ok_def t3)
  then have "wait_ok s4 W B" unfolding s4_def by (rule wait_ok_waitkey)
  moreover have "cur s3 = ?t" by (subst s3(6)) (simp add: c2)
  then have "wait_for_one_object exec fuel wb wbtmo tm x INFINITE True s = Some (Return (- EINTR), s4)"
    using ns nm sig p(2) c2 s3(1)
    by (auto simp: wait_for_one_object_def INFINITE_def block_on_def enter_alertable_wait_def signals_ready_def s2_def [symmetric] interrupted_wait_def finish_wait_def EINTR_def s4_def)
  moreover have "threads s4 = (threads s)(?t := (thr s ?t)\<lparr>t_waitlist := None, t_waitkey := - EINTR\<rparr>)" by (simp add: s4_def t3)
  moreover have "core (objects s4 y) = core (objects s y)" for y using s3(3) p(3) by (simp add: s4_def)
  ultimately show thesis using that by blast
qed

section \<open>Correctness of the objects\<close>

definition demo_object :: kobject where
  "demo_object = \<lparr>o_type = ObjEvent, o_signaled = False, o_handle_count = 0, o_lock_count = 0, o_waitlist_head = None,
     o_waitlist_tail = None, e_manual_reset = False, s_count = 0, m_owner = None, m_recursion = 0, x_flags = 0, x_ready_head = None,
     x_ready_tail = None, x_waiting_head = None, x_waiting_tail = None, io_iomux = None, io_context = 0, io_next = None,
     io_prev = None, io_events_signaled = 0, io_events_monitored = 0\<rparr>"

text \<open>Thread 3 waits for the object at address 20 with the wait block at address 30.\<close>

definition demo_kernel :: kernel where
  "demo_kernel = upd_thread 3 (\<lambda>r. r\<lparr>t_waitlist := Some 30\<rparr>) (sched.extend demo_sched
     \<lparr>timers = (\<lambda>_. \<lparr>tm_expires = 0, tm_active = False, tm_handler = 0, tm_arg = 0\<rparr>),
      ticks = 0, timer_ticks = 0, tv_index = (\<lambda>_. 0), tv_vec = (\<lambda>_ _. []),
      objects = (\<lambda>_. demo_object)(20 := demo_object\<lparr>o_waitlist_head := Some 30, o_waitlist_tail := Some 30\<rparr>),
      waitblocks = (\<lambda>_. \<lparr>w_thread = 3, w_object = Some 20, w_waittype = WaitAny, w_waitkey = 0, w_next = None,
        w_next_wait = None, w_prev_wait = None\<rparr>)\<rparr>)"

abbreviation demo_W :: "addr \<Rightarrow> addr list" where "demo_W \<equiv> (\<lambda>_. [])(20 := [30])"
abbreviation demo_B :: "addr \<Rightarrow> addr list" where "demo_B \<equiv> (\<lambda>_. [])(3 := [30])"

lemma demo_kernel_fields:
  "threads demo_kernel = demo_threads(3 := (demo_threads 3)\<lparr>t_waitlist := Some 30\<rparr>)" "cur demo_kernel = 1"
  "objects demo_kernel = (\<lambda>_. demo_object)(20 := demo_object\<lparr>o_waitlist_head := Some 30, o_waitlist_tail := Some 30\<rparr>)"
  "waitblocks demo_kernel = (\<lambda>_. \<lparr>w_thread = 3, w_object = Some 20, w_waittype = WaitAny, w_waitkey = 0, w_next = None,
        w_next_wait = None, w_prev_wait = None\<rparr>)" "dpc_queue_head demo_kernel = None"
  by (simp_all add: demo_kernel_def sched.defs demo_sched_def)

lemma demo_kernel_ready: "ready_inv demo_kernel"
proof -
  have "ready_inv (sched.extend demo_sched z)" for z :: "'z"
    using demo_inv by (simp add: ready_inv_def ready_rep_def rqs_def sched.defs)
  then show ?thesis unfolding demo_kernel_def by (rule ready_inv_upd_keep) simp_all
qed

lemma demo_kernel_sched: "sched_ok demo_kernel"
  using demo_kernel_ready by (auto simp: sched_ok_def demo_kernel_fields demo_threads_def demo_thread_def)

lemma demo_kernel_wait: "wait_ok demo_kernel demo_W demo_B"
proof -
  have "wait_rep demo_kernel demo_W demo_B"
    by (auto simp: wait_rep_def wq_def demo_kernel_fields demo_object_def dlist_def demo_threads_def demo_thread_def)
  then show ?thesis using demo_kernel_ready by (auto simp: wait_ok_def demo_kernel_fields demo_threads_def split: if_splits)
qed

text \<open>
  C5: \<^verbatim>\<open>release_sem\<close> adds to the count of the semaphore (modulo 2\^32) and hands the
  count to the waiters whose wait is satisfied, in the order in which they wait: the first of
  them, as many as the count allows, leave all their wait lists and become ready (or stay
  suspended), every one for one unit of the count. Every other thread keeps everything but its links in the ready queues and, if it waits for the semaphore, its wait key,
  which the test of its wait may overwrite; its wait blocks stay where they are, and the other objects keep all but the links of
  the wait lists. The semaphore ends signalled exactly when units are left, except that adding up to 0 leaves the signal as it was; the old count is returned.
\<close>

theorem release_sem_correct:
  assumes "wait_ok s W B"
  shows "\<exists>s'. release_sem x count s = Some (s_count (objects s x), s') \<and>
    (let n = s_count (objects s x) + count;
         rel = take (unat n) (runnable (upd_obj x (\<lambda>r. r\<lparr>s_count := n, o_signaled := True\<rparr>) s) B (W x)) in
       wakes x s s' W B (threads_of s rel) \<and> s_count (objects s' x) = n - of_nat (length rel) \<and>
       o_signaled (objects s' x) = (if n = 0 then o_signaled (objects s x) else s_count (objects s' x) \<noteq> 0))"
proof (cases "s_count (objects s x) + count = 0")
  case True
  have "wakes x s (upd_obj x (\<lambda>r. r\<lparr>s_count := 0\<rparr>) s) W B {}" by (rule wakes_obj [OF assms]) simp_all
  then show ?thesis using give_sem_correct [OF assms, of "s_count (objects s x) + count" x] True
    by (simp add: release_sem_def)
next
  case False
  then show ?thesis using give_sem_correct [OF assms, of "s_count (objects s x) + count" x]
    by (simp add: release_sem_def Let_def)
qed

theorem release_sem_correct_witness:
  "\<exists>s'. release_sem 20 2 demo_kernel = Some (0, s') \<and> t_state (thr s' 3) = TReady \<and> s_count (objects s' 20) = 1 \<and>
     o_signaled (objects s' 20)"
proof -
  let ?s1 = "upd_obj 20 (\<lambda>r. r\<lparr>s_count := 2, o_signaled := True\<rparr>) demo_kernel"
  have c: "s_count (objects demo_kernel 20) = 0" by (simp add: demo_kernel_fields demo_object_def)
  have r: "runnable ?s1 demo_B (demo_W 20) = [30]"
    by (simp add: runnable_def can_run_def wb_sig_def demo_kernel_fields)
  have t: "threads_of demo_kernel [30] = {3}" by (simp add: demo_kernel_fields)
  have "unat (2 :: u32) = 2" by simp
  with release_sem_correct [OF demo_kernel_wait, of 20 2] obtain s' where s': "release_sem 20 2 demo_kernel = Some (0, s')"
    "wakes 20 demo_kernel s' demo_W demo_B {3}" "s_count (objects s' 20) = 1" "o_signaled (objects s' 20)"
    unfolding c Let_def add_0 r by (auto simp: demo_kernel_fields)
  have "t_state (thr s' 3) = TReady"
    using releasedD(3) [OF wakesD(2) [OF s'(2)], of 3]
    by (simp add: woken_def demo_kernel_fields demo_threads_def demo_thread_def)
  then show ?thesis using s' by blast
qed


text \<open>
  C13: \<^verbatim>\<open>set_event\<close> on a manual-reset event makes every waiter ready whose wait is
  satisfied and leaves the event signalled. On an auto-reset event it makes exactly the first of them ready
  and takes the signal back, or leaves the event signalled when there is none. Every other thread keeps everything but its links in the ready queues and, if it waits for the event, its
  wait key; its wait blocks stay where they are, and the other objects keep all but the links of the wait lists.
\<close>

theorem set_event_correct:
  assumes "wait_ok s W B"
  shows "\<exists>s'. set_event x s = Some s' \<and>
    (let ready = runnable (upd_obj x (\<lambda>r. r\<lparr>o_signaled := True\<rparr>) s) B (W x) in
     if e_manual_reset (objects s x)
     then wakes x s s' W B (threads_of s ready) \<and> o_signaled (objects s' x)
     else wakes x s s' W B (threads_of s (take 1 ready)) \<and> o_signaled (objects s' x) = (ready = []))"
  unfolding Let_def by (rule set_event_ok [OF assms])

theorem set_event_correct_witness:
  "\<exists>s'. set_event 20 demo_kernel = Some s' \<and> t_state (thr s' 3) = TReady \<and> \<not> o_signaled (objects s' 20)"
proof -
  let ?s1 = "upd_obj 20 (\<lambda>r. r\<lparr>o_signaled := True\<rparr>) demo_kernel"
  have c: "\<not> e_manual_reset (objects demo_kernel 20)" by (simp add: demo_kernel_fields demo_object_def)
  have r: "runnable ?s1 demo_B (demo_W 20) = [30]"
    by (simp add: runnable_def can_run_def wb_sig_def demo_kernel_fields)
  from set_event_correct [OF demo_kernel_wait, of 20] obtain s' where s': "set_event 20 demo_kernel = Some s'"
    "wakes 20 demo_kernel s' demo_W demo_B {3}" "\<not> o_signaled (objects s' 20)"
    unfolding Let_def r using c by (auto simp: demo_kernel_fields)
  have "t_state (thr s' 3) = TReady"
    using releasedD(3) [OF wakesD(2) [OF s'(2)], of 3]
    by (simp add: woken_def demo_kernel_fields demo_threads_def demo_thread_def)
  then show ?thesis using s' by blast
qed

text \<open>
  C9: \<^verbatim>\<open>release_mutex\<close> fails with \<^verbatim>\<open>EPERM\<close> and without effect for a
  thread that does not own the mutex. A nested release only counts down. The last release hands the mutex over
  to the first waiter whose wait is satisfied, which becomes its owner with recursion count 1 and ready to run while the
  mutex stays unsignalled; without such a waiter the mutex is free and signalled.
\<close>

theorem release_mutex_correct:
  assumes "wait_ok s W B" "m_owner (objects s x) = Some (cur s) \<longrightarrow> m_recursion (objects s x) \<ge> 1"
  shows "\<exists>rc s'. release_mutex x s = Some (rc, s') \<and>
    (if m_owner (objects s x) \<noteq> Some (cur s) then rc = - EPERM \<and> s' = s
     else if m_recursion (objects s x) > 1 then rc = 0 \<and> s' = upd_obj x (\<lambda>r. r\<lparr>m_recursion := m_recursion r - 1\<rparr>) s
     else rc = 0 \<and>
       (case runnable (upd_obj x (\<lambda>r. r\<lparr>m_recursion := 0, o_signaled := True, m_owner := None\<rparr>) s) B (W x) of
          [] \<Rightarrow> wakes x s s' W B {} \<and> o_signaled (objects s' x) \<and> m_owner (objects s' x) = None \<and> m_recursion (objects s' x) = 0
        | w # _ \<Rightarrow> let t = w_thread (waitblocks s w) in
            wakes x s s' W B {t} \<and> \<not> o_signaled (objects s' x) \<and> m_owner (objects s' x) = Some t \<and> m_recursion (objects s' x) = 1))"
proof (cases "m_owner (objects s x) = Some (cur s) \<and> m_recursion (objects s x) = 1")
  case True
  then show ?thesis using release_mutex_ok [OF assms(1), of x] by simp
next
  case False
  then show ?thesis using assms(2) by (auto simp: release_mutex_def Let_def)
qed

theorem release_mutex_correct_witness:
  "\<exists>s'. release_mutex 20 (upd_obj 20 (\<lambda>r. r\<lparr>o_type := ObjMutex, m_owner := Some 1, m_recursion := 1\<rparr>) demo_kernel) = Some (0, s') \<and>
     m_owner (objects s' 20) = Some 3 \<and> t_state (thr s' 3) = TReady"
proof -
  let ?s = "upd_obj 20 (\<lambda>r. r\<lparr>o_type := ObjMutex, m_owner := Some 1, m_recursion := 1\<rparr>) demo_kernel"
  let ?s1 = "upd_obj 20 (\<lambda>r. r\<lparr>m_recursion := 0, o_signaled := True, m_owner := None\<rparr>) ?s"
  have ok: "wait_ok ?s demo_W demo_B" by (rule wait_ok_upd_obj [OF demo_kernel_wait]) simp_all
  have r: "runnable ?s1 demo_B (demo_W 20) = [30]"
    by (simp add: runnable_def can_run_def wb_sig_def demo_kernel_fields)
  have o: "m_owner (objects ?s 20) = Some (cur ?s)" "m_recursion (objects ?s 20) = 1" by (simp_all add: demo_kernel_fields)
  from release_mutex_correct [OF ok, of 20] obtain s' where s': "release_mutex 20 ?s = Some (0, s')"
    "wakes 20 ?s s' demo_W demo_B {3}" "m_owner (objects s' 20) = Some 3"
    unfolding r o by (auto simp: demo_kernel_fields Let_def)
  have "t_state (thr s' 3) = TReady"
    using releasedD(3) [OF wakesD(2) [OF s'(2)], of 3]
    by (simp add: woken_def demo_kernel_fields demo_threads_def demo_thread_def)
  then show ?thesis using s' by blast
qed

text \<open>
  C18: \<^verbatim>\<open>close_object\<close> on an event, a mutex, a semaphore, a thread or a file mapping
  makes every thread that waits for it ready, with the result \<^verbatim>\<open>-EINTR\<close> for its wait, and
  leaves nobody in its wait list. No other thread is touched.
\<close>

theorem close_object_wakes_all:
  assumes "wait_ok s W B" "o_type (objects s x) \<in> {ObjThread, ObjEvent, ObjMutex, ObjSemaphore, ObjFilemap}"
  shows "\<exists>s'. close_object close_io x s = Some (0, s') \<and> wakes x s s' W B (threads_of s (W x)) \<and>
     o_waitlist_head (objects s' x) = None \<and> o_waitlist_tail (objects s' x) = None \<and>
     (\<forall>t. t_waitkey (thr s' t) = (if t \<in> threads_of s (W x) then - EINTR else t_waitkey (thr s t)))"
proof -
  obtain s' where s': "close_loop x s = Some s'" "wakes x s s' W B (threads_of s (W x))"
     "\<forall>t \<in> threads_of s (W x). t_waitkey (thr s' t) = - EINTR"
     "\<forall>t. t \<notin> threads_of s (W x) \<longrightarrow> t_waitkey (thr s' t) = t_waitkey (thr s t)"
     "core (objects s' x) = core (objects s x)"
    using close_loop_correct [OF assms(1), of x] by blast
  have "close_object close_io x s = Some (0, s')"
    using s'(1) assms(2) core_eqD(6) [OF s'(5)] by (auto simp: close_object_def)
  moreover have l: "leave s (threads_of s (W x)) W x = []" by (auto simp: leave_def threads_of_def filter_empty_conv)
  note r = wait_okD(1) [OF wakesD(1) [OF s'(2)]]
  have "o_waitlist_head (objects s' x) = None" "o_waitlist_tail (objects s' x) = None"
    using dlist_fields(1,2) [OF wqD(1) [OF wait_repD(1) [OF r], of x]] l by simp_all
  ultimately show ?thesis using s'(2-4) by auto
qed

theorem close_object_wakes_all_witness:
  "\<exists>s'. close_object (\<lambda>_ _. None) 20 demo_kernel = Some (0, s') \<and> t_state (thr s' 3) = TReady \<and> t_waitkey (thr s' 3) = - EINTR"
proof -
  have t: "threads_of demo_kernel (demo_W 20) = {3}" by (simp add: demo_kernel_fields)
  have "o_type (objects demo_kernel 20) \<in> {ObjThread, ObjEvent, ObjMutex, ObjSemaphore, ObjFilemap}"
    by (simp add: demo_kernel_fields demo_object_def)
  from close_object_wakes_all [OF demo_kernel_wait this, of "\<lambda>_ _. None"] obtain s' where
    s': "close_object (\<lambda>_ _. None) 20 demo_kernel = Some (0, s')" "wakes 20 demo_kernel s' demo_W demo_B {3}"
    "t_waitkey (thr s' 3) = - EINTR" unfolding t by auto
  have "t_state (thr s' 3) = TReady"
    using releasedD(3) [OF wakesD(2) [OF s'(2)], of 3]
    by (simp add: woken_def demo_kernel_fields demo_threads_def demo_thread_def)
  then show ?thesis using s' by blast
qed

text \<open>
  C10: what a wait without a time limit does, alertable or not, when no deferred call is pending and some thread is ready. On a signalled object it enters the object and returns. On an unsignalled mutex
  of the caller it counts one more level and returns 0. Otherwise an alertable wait of a thread with a signal pending returns \<^verbatim>\<open>-EINTR\<close> with every wait list as before, and every other wait
  puts the thread at the tail of the object's wait list and stops it in favour of a thread that was ready, while all wait lists and ready queues stay well formed.
\<close>

theorem wait_for_one_object_correct:
  assumes "wait_ok s W B" "sched_ok s" "B (cur s) = []" "\<forall>y. wb \<notin> set (W y)" "dpc_queue_head s = None" "t_state (thr s u) = TReady"
  shows "let ob = objects s x; call = wait_for_one_object exec fuel wb wbtmo tm x INFINITE alertable s in
    if o_signaled ob then call = Some (case enter_object x s of (rc, s1) \<Rightarrow> (Return rc, s1))
    else if o_type ob = ObjMutex \<and> m_owner ob = Some (cur s) then call = Some (Return 0, upd_obj x (\<lambda>r. r\<lparr>m_recursion := m_recursion r + 1\<rparr>) s)
    else if alertable \<and> signals_ready (thr s (cur s)) then
      \<exists>s'. call = Some (Return (- EINTR), s') \<and> wait_ok s' W B \<and> (\<forall>y. core (objects s' y) = core (objects s y)) \<and>
        threads s' = (threads s)(cur s := (thr s (cur s))\<lparr>t_waitlist := None, t_waitkey := - EINTR\<rparr>)
    else
      \<exists>s'. call = Some (Blocked, s') \<and> wait_ok s' (W(x := W x @ [wb])) (B(cur s := [wb])) \<and> sched_ok s' \<and>
        t_state (thr s' (cur s)) = TWaiting \<and> t_state (thr s (cur s')) = TReady \<and> (\<forall>y. core (objects s' y) = core (objects s y))"
proof -
  have new: "wb \<notin> set (W y)" for y using assms(4) by blast
  consider (now) "o_signaled (objects s x)" | (owned) "\<not> o_signaled (objects s x)" "o_type (objects s x) = ObjMutex" "m_owner (objects s x) = Some (cur s)"
    | (wait) "\<not> o_signaled (objects s x)" "o_type (objects s x) = ObjMutex \<longrightarrow> m_owner (objects s x) \<noteq> Some (cur s)" by blast
  then show ?thesis
  proof cases
    case wait
    show ?thesis
    proof (cases "alertable \<and> signals_ready (thr s (cur s))")
      case True
      obtain s' where "wait_for_one_object exec fuel wb wbtmo tm x INFINITE True s = Some (Return (- EINTR), s')" "wait_ok s' W B"
        "threads s' = (threads s)(cur s := (thr s (cur s))\<lparr>t_waitlist := None, t_waitkey := - EINTR\<rparr>)" "\<And>y. core (objects s' y) = core (objects s y)"
        by (rule wait_for_one_object_interrupted [OF assms(1,3) new wait conjunct2 [OF True], of exec fuel wbtmo tm]) (rule that)
      then show ?thesis using True wait unfolding Let_def by auto
    next
      case False
      then have sig: "alertable \<Longrightarrow> \<not> signals_ready (thr s (cur s))" by blast
      obtain s' where "wait_for_one_object exec fuel wb wbtmo tm x INFINITE alertable s = Some (Blocked, s')" "wait_ok s' (W(x := W x @ [wb])) (B(cur s := [wb]))" "sched_ok s'"
        "t_state (thr s' (cur s)) = TWaiting" "t_state (thr s (cur s')) = TReady" "\<And>y. core (objects s' y) = core (objects s y)"
        by (rule wait_for_one_object_infinite [where alertable = alertable and exec = exec and fuel = fuel and wbtmo = wbtmo and tm = tm, OF assms(1-3) new wait assms(5,6)]) (erule sig, rule that)
      then show ?thesis using False wait unfolding Let_def by auto
    qed
  qed (simp_all add: wait_for_one_object_def Let_def)
qed

theorem wait_for_one_object_correct_witness:
  "\<exists>s'. wait_for_one_object (\<lambda>p a s. Some s) 1 31 32 33 20 INFINITE True demo_kernel = Some (Blocked, s') \<and>
     wait_ok s' ((\<lambda>_. [])(20 := [30, 31])) ((\<lambda>_. [])(3 := [30], 1 := [31]))"
proof -
  have W: "demo_W(20 := demo_W 20 @ [31]) = (\<lambda>_. [])(20 := [30, 31])" and c: "cur demo_kernel = 1"
    by (auto simp: demo_kernel_fields)
  have h: "demo_B (cur demo_kernel) = []" "\<forall>y. 31 \<notin> set (demo_W y)" "dpc_queue_head demo_kernel = None" "t_state (thr demo_kernel 0) = TReady"
    by (simp_all add: demo_kernel_fields demo_object_def demo_threads_def)
  have n: "\<not> o_signaled (objects demo_kernel 20)" "o_type (objects demo_kernel 20) \<noteq> ObjMutex" "\<not> signals_ready (thr demo_kernel (cur demo_kernel))"
    by (simp_all add: demo_kernel_fields demo_object_def signals_ready_def demo_threads_def demo_thread_def)
  show ?thesis
    using wait_for_one_object_correct [OF demo_kernel_wait demo_kernel_sched h, of 20 "\<lambda>p a s. Some s" 1 32 33 True] n
    unfolding W Let_def unfolding c by auto
qed

text \<open>
  Locking a free mutex that nobody waits for and unlocking it, or locking it again and unlocking it once, brings
  the kernel back to exactly the state before; in between the caller owns the mutex. Neither call blocks.
\<close>

theorem mutex_roundtrip:
  assumes "o_type (objects s x) = ObjMutex" "o_waitlist_head (objects s x) = None"
    and "o_signaled (objects s x) \<and> m_owner (objects s x) = None \<and> m_recursion (objects s x) = 0 \<or>
      \<not> o_signaled (objects s x) \<and> m_owner (objects s x) = Some (cur s) \<and> m_recursion (objects s x) > 0"
  shows "\<exists>s1. wait_for_one_object exec fuel wb wbtmo tm x timeout alertable s = Some (Return 0, s1) \<and>
    m_owner (objects s1 x) = Some (cur s1) \<and> \<not> o_signaled (objects s1 x) \<and> release_mutex x s1 = Some (0, s)"
proof -
  have id: "upd_obj x f s = s" if "f (objects s x) = objects s x" for f
    using that by (cases s) (simp add: upd_obj_def fun_upd_idem)
  from assms(3) show ?thesis
  proof
    assume a: "o_signaled (objects s x) \<and> m_owner (objects s x) = None \<and> m_recursion (objects s x) = 0"
    let ?s1 = "upd_obj x (\<lambda>r. r\<lparr>o_signaled := False, m_owner := Some (cur s), m_recursion := 1\<rparr>) s"
    have "upd_obj x (\<lambda>r. r\<lparr>o_signaled := True, m_owner := None\<rparr>) (upd_obj x (\<lambda>r. r\<lparr>m_recursion := m_recursion r - 1\<rparr>) ?s1) = s"
      unfolding upd_obj_twice by (rule id) (use a in \<open>cases "objects s x"; simp\<close>)
    then have "release_mutex x ?s1 = Some (0, s)" using assms(2) by (simp add: release_mutex_def Let_def)
    moreover have "wait_for_one_object exec fuel wb wbtmo tm x timeout alertable s = Some (Return 0, ?s1)"
      using a assms(1) by (simp add: wait_for_one_object_def enter_object_def)
    ultimately show ?thesis by simp
  next
    assume a: "\<not> o_signaled (objects s x) \<and> m_owner (objects s x) = Some (cur s) \<and> m_recursion (objects s x) > 0"
    let ?s1 = "upd_obj x (\<lambda>r. r\<lparr>m_recursion := m_recursion r + 1\<rparr>) s"
    have "upd_obj x (\<lambda>r. r\<lparr>m_recursion := m_recursion r - 1\<rparr>) ?s1 = s"
      unfolding upd_obj_twice by (rule id) simp
    then have "release_mutex x ?s1 = Some (0, s)" using a by (simp add: release_mutex_def Let_def)
    moreover have "wait_for_one_object exec fuel wb wbtmo tm x timeout alertable s = Some (Return 0, ?s1)"
      using a assms(1) by (simp add: wait_for_one_object_def)
    ultimately show ?thesis using a by simp
  qed
qed

theorem mutex_roundtrip_witness:
  "\<exists>s1. wait_for_one_object (\<lambda>_ _ _. None) 0 2 3 4 21 0 False (upd_obj 21 (\<lambda>r. r\<lparr>o_type := ObjMutex, o_signaled := True\<rparr>) demo_kernel) =
      Some (Return 0, s1) \<and> m_owner (objects s1 21) = Some 1 \<and>
      release_mutex 21 s1 = Some (0, upd_obj 21 (\<lambda>r. r\<lparr>o_type := ObjMutex, o_signaled := True\<rparr>) demo_kernel)"
proof -
  let ?s = "upd_obj 21 (\<lambda>r. r\<lparr>o_type := ObjMutex, o_signaled := True\<rparr>) demo_kernel"
  have h: "o_type (objects ?s 21) = ObjMutex" "o_waitlist_head (objects ?s 21) = None"
    "o_signaled (objects ?s 21) \<and> m_owner (objects ?s 21) = None \<and> m_recursion (objects ?s 21) = 0"
    by (simp_all add: demo_kernel_fields demo_object_def)
  obtain s1 where "wait_for_one_object (\<lambda>_ _ _. None) 0 2 3 4 21 0 False ?s = Some (Return 0, s1)"
    "m_owner (objects s1 21) = Some (cur s1)" "release_mutex 21 s1 = Some (0, ?s)"
    using mutex_roundtrip [OF h(1,2), of "\<lambda>_ _ _. None" 0 2 3 4 0 False] h(3) by auto
  moreover have "cur s1 = 1"
    using calculation(1) h by (auto simp: wait_for_one_object_def enter_object_def demo_kernel_fields)
  ultimately show ?thesis by auto
qed


lemma pulse_loop_stuck:
  assumes "pulse_loop x wb s = Some y"
  shows "\<not> (\<exists>w us vs. wb = Some w \<and> wait_ok s W B \<and> W x = us @ w # vs \<and> \<not> can_run s (B (w_thread (waitblocks s w))))"
  using assms
proof (rule pulse_loop.raw_induct [where P = "\<lambda>x wb s y. \<not> (\<exists>w us vs. wb = Some w \<and> wait_ok s W B \<and> W x = us @ w # vs \<and> \<not> can_run s (B (w_thread (waitblocks s w))))"
    and xa = "((x, wb), s)" and y = y, unfolded prod.case, rotated])
  fix f :: "addr \<Rightarrow> addr option \<Rightarrow> 'a kernel_scheme \<Rightarrow> 'a kernel_scheme option" and x wb and s y :: "'a kernel_scheme"
  assume IH: "\<And>x wb s y. f x wb s = Some y \<Longrightarrow>
      \<not> (\<exists>w us vs. wb = Some w \<and> wait_ok s W B \<and> W x = us @ w # vs \<and> \<not> can_run s (B (w_thread (waitblocks s w))))"
    and run: "(case wb of None \<Rightarrow> Some s
      | Some w \<Rightarrow> let next = w_next_wait (waitblocks s w); t = w_thread (waitblocks s w) in
          (case thread_ready_to_run t s of None \<Rightarrow> None
           | Some (rdy, s1) \<Rightarrow> if rdy then (case release_thread t s1 of None \<Rightarrow> None
                  | Some s2 \<Rightarrow> if \<not> e_manual_reset (objects s2 x) then Some s2 else f x next s2)
               else f x wb s1)) = Some y"
  show "\<not> (\<exists>w us vs. wb = Some w \<and> wait_ok s W B \<and> W x = us @ w # vs \<and> \<not> can_run s (B (w_thread (waitblocks s w))))"
  proof
    assume "\<exists>w us vs. wb = Some w \<and> wait_ok s W B \<and> W x = us @ w # vs \<and> \<not> can_run s (B (w_thread (waitblocks s w)))"
    then obtain w us vs where w: "wb = Some w" "wait_ok s W B" "W x = us @ w # vs" "\<not> can_run s (B (w_thread (waitblocks s w)))"
      by blast
    let ?t = "w_thread (waitblocks s w)"
    let ?k = "upd_thread ?t (\<lambda>r. r\<lparr>t_waitkey := last_key s (t_waitkey r) (B ?t)\<rparr>) s"
    have "f x (Some w) ?k = Some y" using run w(1,4) visit(3) [OF w(2,3) refl] by (simp add: Let_def)
    moreover have "wait_ok ?k W B" by (rule wait_ok_waitkey [OF w(2)])
    moreover have "can_run ?k bs = can_run s bs" for bs by (rule can_run_cong) simp_all
    ultimately show False using IH [of x "Some w" ?k y] w(3,4) by auto
  qed
qed

text \<open>Thread 3 waits for the objects at addresses 20 and 21 together.\<close>

definition demo_pair :: kernel where
  "demo_pair = upd_obj 21 (\<lambda>r. r\<lparr>o_waitlist_head := Some 31, o_waitlist_tail := Some 31\<rparr>)
     (upd_wb 31 (\<lambda>r. r\<lparr>w_object := Some 21, w_waittype := WaitAll\<rparr>)
       (upd_wb 30 (\<lambda>r. r\<lparr>w_waittype := WaitAll, w_next := Some 31\<rparr>) demo_kernel))"

lemma demo_pair_wait: "wait_ok demo_pair ((\<lambda>_. [])(20 := [30], 21 := [31])) ((\<lambda>_. [])(3 := [30, 31]))"
proof -
  have "wait_rep demo_pair ((\<lambda>_. [])(20 := [30], 21 := [31])) ((\<lambda>_. [])(3 := [30, 31]))"
    by (auto simp: wait_rep_def wq_def demo_pair_def demo_kernel_fields demo_object_def dlist_def demo_threads_def demo_thread_def)
      (rule exI [of _ 20], simp)
  moreover have "ready_inv demo_pair \<longleftrightarrow> ready_inv demo_kernel"
    by (rule ready_inv_cong) (simp_all add: demo_pair_def upd_obj_def upd_wb_def)
  ultimately show ?thesis using demo_kernel_ready
    by (auto simp: wait_ok_def demo_pair_def demo_kernel_fields demo_threads_def split: if_splits)
qed

text \<open>
  C36: \<^verbatim>\<open>pulse_event\<close> does not come back when the first waiter of the event cannot run
  yet, for example because it waits for another object at the same time: its loop only moves on to the next waiter after
  releasing one.
\<close>

theorem pulse_event_stuck:
  assumes "wait_ok s W B" "W x = w # ws"
    and "\<not> can_run (upd_obj x (\<lambda>r. r\<lparr>o_signaled := True\<rparr>) s) (B (w_thread (waitblocks s w)))"
  shows "pulse_event x s = None"
proof -
  let ?s1 = "upd_obj x (\<lambda>r. r\<lparr>o_signaled := True\<rparr>) s"
  have ok: "wait_ok ?s1 W B" by (rule wait_ok_upd_obj [OF assms(1)]) simp_all
  have "pulse_loop x (Some w) ?s1 \<noteq> Some y" for y
    using pulse_loop_stuck [of x "Some w" ?s1 y W B] ok assms(2,3) append_Nil [of "w # ws"] by auto
  then have "pulse_loop x (Some w) ?s1 = None" by blast
  then show ?thesis using head_first [OF ok, of x] assms(2) by (simp add: pulse_event_def)
qed

theorem pulse_event_stuck_witness: "pulse_event 20 demo_pair = None"
proof (rule pulse_event_stuck [OF demo_pair_wait, of 20 30 "[]"])
  show "\<not> can_run (upd_obj 20 (\<lambda>r. r\<lparr>o_signaled := True\<rparr>) demo_pair) (((\<lambda>_. [])(3 := [30, 31])) (w_thread (waitblocks demo_pair 30)))"
    by (simp add: demo_pair_def demo_kernel_fields demo_object_def can_run_def wb_sig_def)
qed simp

end
