(* ===== verification/Iomux.thy ===== *)
theory Iomux
  imports Objects
begin

text \<open>
  I/O multiplexers: the rest of \<^verbatim>\<open>src/src/sys/krnl/iomux.c\<close> below \<^verbatim>\<open>select\<close> and \<^verbatim>\<open>poll\<close>. A multiplexer keeps the I/O
  objects attached to it on two queues: ready objects have an event that is both monitored and signalled, waiting ones have none. An event mask is an
  \<^verbatim>\<open>int\<close> in the calls and 16 bits wide in the object.
\<close>

unbundle bit_operations_syntax

definition IOEVT_READ :: u32 where "IOEVT_READ = 1"

partial_function (option) release_waiting_loop :: "addr \<Rightarrow> addr option \<Rightarrow> addr option \<Rightarrow> 'a kernel_scheme \<Rightarrow> 'a kernel_scheme option" where
  "release_waiting_loop mx iob wb s =
     (case iob of
        None \<Rightarrow> Some s
      | Some x \<Rightarrow>
          (case wb of
             None \<Rightarrow> Some s
           | Some w \<Rightarrow>
               let wb_next = w_next_wait (waitblocks s w); t = w_thread (waitblocks s w) in
               (case thread_ready_to_run t s of
                  None \<Rightarrow> None
                | Some (rdy, s1) \<Rightarrow>
                    if rdy then
                      (case release_thread t (detach_ioobject x
                              (upd_thread t (\<lambda>r. r\<lparr>t_waitkey := io_context (objects s1 x)\<rparr>) s1)) of
                         None \<Rightarrow> None
                       | Some s2 \<Rightarrow> release_waiting_loop mx (x_ready_head (objects s2 mx)) wb_next s2)
                    else release_waiting_loop mx iob wb_next s1)))"

definition release_waiting_threads :: "addr \<Rightarrow> 'a kernel_scheme \<Rightarrow> 'a kernel_scheme option" where
  "release_waiting_threads mx s = release_waiting_loop mx (x_ready_head (objects s mx)) (o_waitlist_head (objects s mx)) s"

definition init_iomux :: "addr \<Rightarrow> int \<Rightarrow> 'a kernel_scheme \<Rightarrow> 'a kernel_scheme" where
  "init_iomux mx flags s =
     upd_obj mx (\<lambda>r. r\<lparr>x_flags := flags, x_ready_head := None, x_ready_tail := None, x_waiting_head := None,
       x_waiting_tail := None\<rparr>) (init_object mx ObjIomux s)"

partial_function (option) unlink_all :: "addr option \<Rightarrow> 'a kernel_scheme \<Rightarrow> 'a kernel_scheme option" where
  "unlink_all iob s =
     (case iob of
        None \<Rightarrow> Some s
      | Some x \<Rightarrow>
          unlink_all (io_next (objects s x)) (upd_obj x (\<lambda>r. r\<lparr>io_iomux := None, io_next := None, io_prev := None\<rparr>) s))"

definition close_iomux :: "addr \<Rightarrow> 'a kernel_scheme \<Rightarrow> (int \<times> 'a kernel_scheme) option" where
  "close_iomux mx s = do {
     s1 \<leftarrow> unlink_all (x_ready_head (objects s mx)) s;
     s2 \<leftarrow> unlink_all (x_waiting_head (objects s1 mx)) s1;
     Some (0, s2)
   }"

definition append_ready :: "addr \<Rightarrow> addr \<Rightarrow> 'a kernel_scheme \<Rightarrow> 'a kernel_scheme" where
  "append_ready mx iob s =
     (let tl = x_ready_tail (objects s mx);
          s1 = upd_obj iob (\<lambda>r. r\<lparr>io_next := None, io_prev := tl\<rparr>) s;
          s2 = (case tl of None \<Rightarrow> s1 | Some t \<Rightarrow> upd_obj t (\<lambda>r. r\<lparr>io_next := Some iob\<rparr>) s1);
          s3 = upd_obj mx (\<lambda>r. r\<lparr>x_ready_tail := Some iob,
                 x_ready_head := (if x_ready_head r = None then Some iob else x_ready_head r)\<rparr>) s2
      in upd_obj mx (\<lambda>r. r\<lparr>o_signaled := True\<rparr>) s3)"

definition append_waiting :: "addr \<Rightarrow> addr \<Rightarrow> 'a kernel_scheme \<Rightarrow> 'a kernel_scheme" where
  "append_waiting mx iob s =
     (let tl = x_waiting_tail (objects s mx);
          s1 = upd_obj iob (\<lambda>r. r\<lparr>io_next := None, io_prev := tl\<rparr>) s;
          s2 = (case tl of None \<Rightarrow> s1 | Some t \<Rightarrow> upd_obj t (\<lambda>r. r\<lparr>io_next := Some iob\<rparr>) s1)
      in upd_obj mx (\<lambda>r. r\<lparr>x_waiting_tail := Some iob,
           x_waiting_head := (if x_waiting_head r = None then Some iob else x_waiting_head r)\<rparr>) s2)"

definition attach_ioobject :: "addr \<Rightarrow> addr \<Rightarrow> u32 \<Rightarrow> int \<Rightarrow> 'a kernel_scheme \<Rightarrow> 'a kernel_scheme" where
  "attach_ioobject mx iob events context s =
     (let s1 = upd_obj iob (\<lambda>r. r\<lparr>io_iomux := Some mx, io_events_monitored := ucast events, io_context := context\<rparr>) s
      in if io_events_monitored (objects s1 iob) AND io_events_signaled (objects s1 iob) \<noteq> 0 then append_ready mx iob s1
         else append_waiting mx iob s1)"

definition queue_ioobject :: "addr \<Rightarrow> addr \<Rightarrow> u32 \<Rightarrow> int \<Rightarrow> 'a kernel_scheme \<Rightarrow> (int \<times> 'a kernel_scheme) option" where
  "queue_ioobject mx iob events context s =
     (if o_type (objects s iob) \<noteq> ObjSocket \<and> o_type (objects s iob) \<noteq> ObjFile then Some (- EBADF, s)
      else if events = 0 then Some (- EINVAL, s)
      else if io_iomux (objects s iob) \<noteq> None \<and> io_iomux (objects s iob) \<noteq> Some mx then Some (- EPERM, s)
      else
        let (ev, s1) = (if io_iomux (objects s iob) \<noteq> None
                        then (events OR ucast (io_events_monitored (objects s iob)), detach_ioobject iob s) else (events, s));
            s2 = attach_ioobject mx iob ev context s1
        in do {
          s3 \<leftarrow> (if o_signaled (objects s2 iob) then release_waiting_threads mx s2 else Some s2);
          Some (0, s3)
        })"

definition init_ioobject :: "addr \<Rightarrow> otype \<Rightarrow> 'a kernel_scheme \<Rightarrow> 'a kernel_scheme" where
  "init_ioobject iob ty s =
     upd_obj iob (\<lambda>r. r\<lparr>io_iomux := None, io_context := 0, io_next := None, io_prev := None, io_events_signaled := 0,
       io_events_monitored := 0\<rparr>) (init_object iob ty s)"

text \<open>The move of an object from the waiting to the ready queue, inside \<^verbatim>\<open>set_io_event\<close>.\<close>

definition unlink_io :: "addr \<Rightarrow> 'a kernel_scheme \<Rightarrow> 'a kernel_scheme" where
  "unlink_io iob s =
     (let n = io_next (objects s iob); p = io_prev (objects s iob);
          s1 = (case n of None \<Rightarrow> s | Some x \<Rightarrow> upd_obj x (\<lambda>r. r\<lparr>io_prev := p\<rparr>) s)
      in case p of None \<Rightarrow> s1 | Some x \<Rightarrow> upd_obj x (\<lambda>r. r\<lparr>io_next := n\<rparr>) s1)"

definition leave_wait_queue :: "addr \<Rightarrow> addr \<Rightarrow> 'a kernel_scheme \<Rightarrow> 'a kernel_scheme" where
  "leave_wait_queue mx iob s =
     (let n = io_next (objects s iob); p = io_prev (objects s iob)
      in upd_obj mx (\<lambda>r. r\<lparr>x_waiting_head := (if x_waiting_head r = Some iob then n else x_waiting_head r),
           x_waiting_tail := (if x_waiting_tail r = Some iob then p else x_waiting_tail r)\<rparr>) (unlink_io iob s))"

definition make_ready :: "addr \<Rightarrow> addr \<Rightarrow> 'a kernel_scheme \<Rightarrow> 'a kernel_scheme" where
  "make_ready mx iob s = append_ready mx iob (leave_wait_queue mx iob s)"

definition set_io_event :: "addr \<Rightarrow> u32 \<Rightarrow> 'a kernel_scheme \<Rightarrow> 'a kernel_scheme option" where
  "set_io_event iob events s =
     (let s1 = upd_obj iob (\<lambda>r. r\<lparr>io_events_signaled := io_events_signaled r OR ucast events\<rparr>) s in
      case io_iomux (objects s iob) of
        Some mx \<Rightarrow>
          if io_events_monitored (objects s iob) AND io_events_signaled (objects s iob) = 0 \<and>
             ucast (io_events_monitored (objects s iob)) AND events \<noteq> 0
          then release_waiting_threads mx (make_ready mx iob s1)
          else Some s1
      | None \<Rightarrow>
          if ucast (io_events_signaled (objects s1 iob)) AND IOEVT_READ \<noteq> 0
          then release_waiters iob 0 (upd_obj iob (\<lambda>r. r\<lparr>o_signaled := True\<rparr>) s1)
          else Some s1)"

definition clear_io_event :: "addr \<Rightarrow> u32 \<Rightarrow> 'a kernel_scheme \<Rightarrow> 'a kernel_scheme" where
  "clear_io_event iob events s =
     (let s1 = upd_obj iob (\<lambda>r. r\<lparr>io_events_signaled := io_events_signaled r AND ucast (NOT events)\<rparr>) s in
      if ucast (io_events_signaled (objects s1 iob)) AND IOEVT_READ = 0
      then upd_obj iob (\<lambda>r. r\<lparr>o_signaled := False\<rparr>) s1 else s1)"

text \<open>The two queues of a multiplexer, and what each object's place on them says about its events.\<close>

definition mux_rep :: "(addr \<Rightarrow> kobject) \<Rightarrow> addr \<Rightarrow> addr list \<Rightarrow> addr list \<Rightarrow> bool" where
  "mux_rep ob mx R V \<longleftrightarrow>
     dlist (\<lambda>x. io_next (ob x)) (\<lambda>x. io_prev (ob x)) (x_ready_head (ob mx)) (x_ready_tail (ob mx)) R \<and>
     dlist (\<lambda>x. io_next (ob x)) (\<lambda>x. io_prev (ob x)) (x_waiting_head (ob mx)) (x_waiting_tail (ob mx)) V \<and>
     set R \<inter> set V = {} \<and> mx \<notin> set R \<union> set V \<and>
     (\<forall>x. io_iomux (ob x) = Some mx \<longleftrightarrow> x \<in> set R \<union> set V) \<and>
     (\<forall>x \<in> set R. io_events_monitored (ob x) AND io_events_signaled (ob x) \<noteq> 0) \<and>
     (\<forall>x \<in> set V. io_events_monitored (ob x) AND io_events_signaled (ob x) = 0) \<and>
     (o_signaled (ob mx) \<longleftrightarrow> R \<noteq> [])"

lemma append_ready_obj:
  assumes "x \<noteq> mx" and "x_ready_tail (objects s mx) \<noteq> Some x" and "x_ready_tail (objects s mx) \<noteq> Some mx"
  shows "objects (append_ready mx x s) y =
     (if y = x then (objects s x)\<lparr>io_next := None, io_prev := x_ready_tail (objects s mx)\<rparr>
      else if y = mx then (objects s mx)\<lparr>x_ready_tail := Some x, o_signaled := True,
             x_ready_head := (if x_ready_head (objects s mx) = None then Some x else x_ready_head (objects s mx))\<rparr>
      else if x_ready_tail (objects s mx) = Some y then (objects s y)\<lparr>io_next := Some x\<rparr> else objects s y)"
  using assms by (cases "x_ready_tail (objects s mx)"; simp add: append_ready_def Let_def)

lemma append_waiting_obj:
  assumes "x \<noteq> mx" and "x_waiting_tail (objects s mx) \<noteq> Some x" and "x_waiting_tail (objects s mx) \<noteq> Some mx"
  shows "objects (append_waiting mx x s) y =
     (if y = x then (objects s x)\<lparr>io_next := None, io_prev := x_waiting_tail (objects s mx)\<rparr>
      else if y = mx then (objects s mx)\<lparr>x_waiting_tail := Some x,
             x_waiting_head := (if x_waiting_head (objects s mx) = None then Some x else x_waiting_head (objects s mx))\<rparr>
      else if x_waiting_tail (objects s mx) = Some y then (objects s y)\<lparr>io_next := Some x\<rparr> else objects s y)"
  using assms by (cases "x_waiting_tail (objects s mx)"; simp add: append_waiting_def Let_def)

definition relink :: "(addr \<Rightarrow> kobject) \<Rightarrow> addr \<Rightarrow> addr \<Rightarrow> kobject" where
  "relink ob x y =
     (let r = (if io_prev (ob x) = Some y then (ob y)\<lparr>io_next := io_next (ob x)\<rparr> else ob y)
      in if io_next (ob x) = Some y then r\<lparr>io_prev := io_prev (ob x)\<rparr> else r)"

definition leave_ready :: "(addr \<Rightarrow> kobject) \<Rightarrow> addr \<Rightarrow> kobject \<Rightarrow> kobject" where
  "leave_ready ob x r =
     (let r1 = r\<lparr>x_ready_head := (if x_ready_head r = Some x then io_next (ob x) else x_ready_head r),
                 x_ready_tail := (if x_ready_tail r = Some x then io_prev (ob x) else x_ready_tail r)\<rparr>
      in if x_ready_head r1 = None then r1\<lparr>o_signaled := False\<rparr> else r1)"

definition leave_waiting :: "(addr \<Rightarrow> kobject) \<Rightarrow> addr \<Rightarrow> kobject \<Rightarrow> kobject" where
  "leave_waiting ob x r =
     r\<lparr>x_waiting_head := (if x_waiting_head r = Some x then io_next (ob x) else x_waiting_head r),
       x_waiting_tail := (if x_waiting_tail r = Some x then io_prev (ob x) else x_waiting_tail r)\<rparr>"

lemma leave_ready_upd:
  "(if x_ready_head (objects (upd_obj mx (\<lambda>r. r\<lparr>x_ready_head := (if x_ready_head r = Some x then n else x_ready_head r),
                      x_ready_tail := (if x_ready_tail r = Some x then p else x_ready_tail r)\<rparr>) s) mx) = None
    then upd_obj mx (\<lambda>r. r\<lparr>o_signaled := False\<rparr>) (upd_obj mx (\<lambda>r. r\<lparr>x_ready_head := (if x_ready_head r = Some x then n else x_ready_head r),
                      x_ready_tail := (if x_ready_tail r = Some x then p else x_ready_tail r)\<rparr>) s)
    else upd_obj mx (\<lambda>r. r\<lparr>x_ready_head := (if x_ready_head r = Some x then n else x_ready_head r),
                      x_ready_tail := (if x_ready_tail r = Some x then p else x_ready_tail r)\<rparr>) s) =
   upd_obj mx (leave_ready ob x) s" if "n = io_next (ob x)" and "p = io_prev (ob x)" for ob
  unfolding upd_obj_twice that leave_ready_def Let_def
  by (cases "x_ready_head (objects s mx) = Some x"; cases "io_next (ob x)"; cases "x_ready_head (objects s mx)"; simp add: upd_obj_def)

lemma unlink_io_obj:
  assumes "io_next (objects s x) \<noteq> Some x" and "io_prev (objects s x) \<noteq> Some x"
  shows "objects (unlink_io x s) y = (if y = x then objects s x else relink (objects s) x y)"
proof (cases "io_prev (objects s x)")
  case None
  then show ?thesis using assms by (cases "io_next (objects s x)") (simp_all add: unlink_io_def relink_def Let_def)
next
  case (Some p)
  then show ?thesis using assms by (cases "io_next (objects s x)") (simp_all add: unlink_io_def relink_def Let_def)
qed

lemma detach_eq:
  assumes "io_iomux (objects s x) = Some mx"
  defines "s2 \<equiv> unlink_io x s"
  shows "detach_ioobject x s = upd_obj x (\<lambda>r. r\<lparr>io_iomux := None, io_next := None, io_prev := None\<rparr>)
     (if io_events_monitored (objects s2 x) AND io_events_signaled (objects s2 x) \<noteq> 0
      then upd_obj mx (leave_ready (objects s) x) s2 else upd_obj mx (leave_waiting (objects s) x) s2)"
  unfolding detach_ioobject_def assms(1) option.case Let_def s2_def unlink_io_def leave_waiting_def
  by (subst leave_ready_upd [of _ "objects s" x]) (rule refl)+

lemma relink_mux: "io_next (ob x) \<noteq> Some mx \<Longrightarrow> io_prev (ob x) \<noteq> Some mx \<Longrightarrow> relink ob x mx = ob mx"
  by (simp add: relink_def)

lemma detach_obj:
  assumes "io_iomux (objects s x) = Some mx" and "x \<noteq> mx"
    and "io_next (objects s x) \<noteq> Some x" and "io_next (objects s x) \<noteq> Some mx"
    and "io_prev (objects s x) \<noteq> Some x" and "io_prev (objects s x) \<noteq> Some mx"
  shows "objects (detach_ioobject x s) y =
     (if y = x then (objects s x)\<lparr>io_iomux := None, io_next := None, io_prev := None\<rparr>
      else if y = mx then
        (if io_events_monitored (objects s x) AND io_events_signaled (objects s x) \<noteq> 0 then leave_ready (objects s) x (objects s mx)
         else leave_waiting (objects s) x (objects s mx))
      else relink (objects s) x y)"
  using assms(2) by (simp add: detach_eq [OF assms(1)] unlink_io_obj [OF assms(3,5)] relink_mux [of "objects s", OF assms(4,6)])

lemma relink_fields [simp]:
  "io_next (relink ob x y) = (if io_prev (ob x) = Some y then io_next (ob x) else io_next (ob y))"
  "io_prev (relink ob x y) = (if io_next (ob x) = Some y then io_prev (ob x) else io_prev (ob y))"
  "io_iomux (relink ob x y) = io_iomux (ob y)" "io_context (relink ob x y) = io_context (ob y)"
  "io_events_monitored (relink ob x y) = io_events_monitored (ob y)"
  "io_events_signaled (relink ob x y) = io_events_signaled (ob y)"
  "o_type (relink ob x y) = o_type (ob y)" "o_waitlist_head (relink ob x y) = o_waitlist_head (ob y)"
  by (simp_all add: relink_def Let_def)

lemma leave_fields [simp]:
  "x_ready_head (leave_ready ob x r) = (if x_ready_head r = Some x then io_next (ob x) else x_ready_head r)"
  "x_ready_tail (leave_ready ob x r) = (if x_ready_tail r = Some x then io_prev (ob x) else x_ready_tail r)"
  "x_waiting_head (leave_ready ob x r) = x_waiting_head r" "x_waiting_tail (leave_ready ob x r) = x_waiting_tail r"
  "o_signaled (leave_ready ob x r) \<longleftrightarrow> o_signaled r \<and> (if x_ready_head r = Some x then io_next (ob x) else x_ready_head r) \<noteq> None"
  "io_iomux (leave_ready ob x r) = io_iomux r" "io_context (leave_ready ob x r) = io_context r"
  "io_events_monitored (leave_ready ob x r) = io_events_monitored r" "io_events_signaled (leave_ready ob x r) = io_events_signaled r"
  "o_type (leave_ready ob x r) = o_type r" "o_waitlist_head (leave_ready ob x r) = o_waitlist_head r"
  "x_waiting_head (leave_waiting ob x r) = (if x_waiting_head r = Some x then io_next (ob x) else x_waiting_head r)"
  "x_waiting_tail (leave_waiting ob x r) = (if x_waiting_tail r = Some x then io_prev (ob x) else x_waiting_tail r)"
  "x_ready_head (leave_waiting ob x r) = x_ready_head r" "x_ready_tail (leave_waiting ob x r) = x_ready_tail r"
  "o_signaled (leave_waiting ob x r) \<longleftrightarrow> o_signaled r"
  "io_iomux (leave_waiting ob x r) = io_iomux r" "io_context (leave_waiting ob x r) = io_context r"
  "io_events_monitored (leave_waiting ob x r) = io_events_monitored r" "io_events_signaled (leave_waiting ob x r) = io_events_signaled r"
  "o_type (leave_waiting ob x r) = o_type r" "o_waitlist_head (leave_waiting ob x r) = o_waitlist_head r"
  by (simp_all add: leave_ready_def leave_waiting_def Let_def)

text \<open>The fields the queue operations leave alone on every object, besides the link to the multiplexer.\<close>

definition mux_frame :: "(addr \<Rightarrow> kobject) \<Rightarrow> (addr \<Rightarrow> kobject) \<Rightarrow> bool" where
  "mux_frame ob ob' \<longleftrightarrow> (\<forall>y. o_type (ob' y) = o_type (ob y) \<and> o_waitlist_head (ob' y) = o_waitlist_head (ob y) \<and>
     io_context (ob' y) = io_context (ob y) \<and> io_events_monitored (ob' y) = io_events_monitored (ob y) \<and>
     io_events_signaled (ob' y) = io_events_signaled (ob y))"

lemma removeAll_mid: "distinct (xs @ x # ys) \<Longrightarrow> removeAll x (xs @ x # ys) = xs @ ys"
  by simp

lemma mux_links:
  assumes "mux_rep ob mx R V" and "x \<in> set R \<union> set V"
  shows "io_iomux (ob x) = Some mx" and "x \<noteq> mx" and "io_next (ob x) \<noteq> Some x" and "io_next (ob x) \<noteq> Some mx"
    and "io_prev (ob x) \<noteq> Some x" and "io_prev (ob x) \<noteq> Some mx"
    and "\<And>y. io_next (ob x) = Some y \<or> io_prev (ob x) = Some y \<Longrightarrow> (y \<in> set R \<longleftrightarrow> x \<in> set R) \<and> (y \<in> set V \<longleftrightarrow> x \<in> set V)"
proof -
  note rep = assms(1) [unfolded mux_rep_def]
  from rep assms(2) show "io_iomux (ob x) = Some mx" and "x \<noteq> mx" by auto
  have *: "y \<noteq> x \<and> y \<noteq> mx \<and> (y \<in> set R \<longleftrightarrow> x \<in> set R) \<and> (y \<in> set V \<longleftrightarrow> x \<in> set V)"
    if y: "io_next (ob x) = Some y \<or> io_prev (ob x) = Some y" for y
  proof -
    obtain Q h t where Q: "dlist (\<lambda>x. io_next (ob x)) (\<lambda>x. io_prev (ob x)) h t Q" "x \<in> set Q" "Q = R \<or> Q = V"
      using rep assms(2) by blast
    obtain xs ys where sp: "Q = xs @ x # ys" using split_list [OF Q(2)] by blast
    have "first ys = Some y \<or> final xs = Some y" using y dlist_next [OF Q(1) [unfolded sp]] by simp
    then have "y \<in> set xs \<union> set ys" by (auto dest: final_in_set)
    moreover have "distinct Q" using dlist_fields(3) [OF Q(1)] .
    ultimately have "y \<in> set Q" "y \<noteq> x" using sp by auto
    then show ?thesis using Q rep by blast
  qed
  from * show "io_next (ob x) \<noteq> Some x" and "io_next (ob x) \<noteq> Some mx"
    and "io_prev (ob x) \<noteq> Some x" and "io_prev (ob x) \<noteq> Some mx"
    and "\<And>y. io_next (ob x) = Some y \<or> io_prev (ob x) = Some y \<Longrightarrow> (y \<in> set R \<longleftrightarrow> x \<in> set R) \<and> (y \<in> set V \<longleftrightarrow> x \<in> set V)"
    by blast+
qed

lemma detach_rep_obj:
  assumes "mux_rep (objects s) mx R V" and "x \<in> set R \<union> set V"
  shows "objects (detach_ioobject x s) y =
     (if y = x then (objects s x)\<lparr>io_iomux := None, io_next := None, io_prev := None\<rparr>
      else if y = mx then (if x \<in> set R then leave_ready (objects s) x (objects s mx) else leave_waiting (objects s) x (objects s mx))
      else relink (objects s) x y)"
proof -
  have "io_events_monitored (objects s x) AND io_events_signaled (objects s x) \<noteq> 0 \<longleftrightarrow> x \<in> set R"
    using assms unfolding mux_rep_def by blast
  then show ?thesis by (simp add: detach_obj [OF mux_links(1-6) [OF assms]])
qed

lemma detach_frame:
  assumes "mux_rep (objects s) mx R V" and "x \<in> set R \<union> set V"
  shows "mux_frame (objects s) (objects (detach_ioobject x s))"
  by (simp add: mux_frame_def detach_rep_obj [OF assms])

lemma relinked:
  assumes "dlist (\<lambda>x. io_next (ob x)) (\<lambda>x. io_prev (ob x)) h t Q" and "x \<in> set Q"
    and "\<And>y. y \<in> set Q \<Longrightarrow> y \<noteq> x \<Longrightarrow> io_next (ob' y) = io_next (relink ob x y) \<and> io_prev (ob' y) = io_prev (relink ob x y)"
  shows "dlist (\<lambda>x. io_next (ob' x)) (\<lambda>x. io_prev (ob' x)) (if h = Some x then io_next (ob x) else h)
     (if t = Some x then io_prev (ob x) else t) (removeAll x Q)"
proof -
  obtain xs ys where sp: "Q = xs @ x # ys" using split_list [OF assms(2)] by blast
  have d: "distinct (xs @ x # ys)" using dlist_fields(3) [OF assms(1)] sp by simp
  have lk: "io_next (ob' y) = io_next (relink ob x y)" "io_prev (ob' y) = io_prev (relink ob x y)" if "y \<in> set (xs @ ys)" for y
  proof -
    have "y \<in> set Q" "y \<noteq> x" using that d sp by auto
    then show "io_next (ob' y) = io_next (relink ob x y)" "io_prev (ob' y) = io_prev (relink ob x y)" using assms(3) [of y] by auto
  qed
  show ?thesis unfolding sp removeAll_mid [OF d]
    by (rule dlist_remove [OF assms(1) [unfolded sp]]) (simp_all add: lk)
qed

lemma unlinked:
  assumes Q: "dlist (\<lambda>x. io_next (ob x)) (\<lambda>x. io_prev (ob x)) h t Q"
    and lk: "\<And>y. y \<in> set Q \<Longrightarrow> y \<noteq> x \<Longrightarrow> io_next (ob' y) = io_next (relink ob x y) \<and> io_prev (ob' y) = io_prev (relink ob x y)"
    and out: "\<And>y. x \<notin> set Q \<Longrightarrow> y \<in> set Q \<Longrightarrow> io_next (ob x) \<noteq> Some y \<and> io_prev (ob x) \<noteq> Some y"
  shows "dlist (\<lambda>x. io_next (ob' x)) (\<lambda>x. io_prev (ob' x)) (if h = Some x then io_next (ob x) else h)
     (if t = Some x then io_prev (ob x) else t) (removeAll x Q)"
proof (cases "x \<in> set Q")
  case True
  show ?thesis by (rule relinked [OF Q True lk])
next
  case False
  then have "h \<noteq> Some x" "t \<noteq> Some x" using dlist_fields(1,2) [OF Q] by (auto dest: final_in_set)
  moreover have "io_next (ob' y) = io_next (ob y) \<and> io_prev (ob' y) = io_prev (ob y)" if "y \<in> set Q" for y
    using lk [OF that] out [OF False that] that False by auto
  then have "dlist (\<lambda>x. io_next (ob' x)) (\<lambda>x. io_prev (ob' x)) h t Q" by (intro dlist_cong [OF Q]) blast
  ultimately show ?thesis using False by simp
qed

lemma detach_rep:
  assumes rep: "mux_rep (objects s) mx R V" and x: "x \<in> set R \<union> set V"
  shows "mux_rep (objects (detach_ioobject x s)) mx (removeAll x R) (removeAll x V)"
    and "io_iomux (objects (detach_ioobject x s) y) = (if y = x then None else io_iomux (objects s y))"
proof -
  let ?ob = "objects s" and ?ob' = "objects (detach_ioobject x s)"
  note ob = detach_rep_obj [OF assms] and lk = mux_links [OF assms] and r = rep [unfolded mux_rep_def]
  have fr: "io_events_monitored (?ob' y) = io_events_monitored (?ob y)" "io_events_signaled (?ob' y) = io_events_signaled (?ob y)" for y
    using detach_frame [OF assms] by (simp_all add: mux_frame_def)
  show mux: "io_iomux (?ob' y) = (if y = x then None else io_iomux (?ob y))" for y by (simp add: ob)
  have new: "io_next (?ob' y) = io_next (relink ?ob x y) \<and> io_prev (?ob' y) = io_prev (relink ?ob x y)"
    if "y \<in> set R \<union> set V" "y \<noteq> x" for y
  proof -
    have "y \<noteq> mx" using that(1) r by blast
    then show ?thesis using that(2) by (simp add: ob)
  qed
  have Rd: "dlist (\<lambda>y. io_next (?ob y)) (\<lambda>y. io_prev (?ob y)) (x_ready_head (?ob mx)) (x_ready_tail (?ob mx)) R"
    and Vd: "dlist (\<lambda>y. io_next (?ob y)) (\<lambda>y. io_prev (?ob y)) (x_waiting_head (?ob mx)) (x_waiting_tail (?ob mx)) V"
    using r by blast+
  have nR: "x \<notin> set R \<Longrightarrow> x_ready_head (?ob mx) \<noteq> Some x \<and> x_ready_tail (?ob mx) \<noteq> Some x"
    using dlist_fields(1,2) [OF Rd] by (auto dest: final_in_set)
  have nV: "x \<in> set R \<Longrightarrow> x_waiting_head (?ob mx) \<noteq> Some x \<and> x_waiting_tail (?ob mx) \<noteq> Some x"
    using dlist_fields(1,2) [OF Vd] r by (auto dest: final_in_set)
  have ends: "x_ready_head (?ob' mx) = (if x_ready_head (?ob mx) = Some x then io_next (?ob x) else x_ready_head (?ob mx))"
    "x_ready_tail (?ob' mx) = (if x_ready_tail (?ob mx) = Some x then io_prev (?ob x) else x_ready_tail (?ob mx))"
    "x_waiting_head (?ob' mx) = (if x_waiting_head (?ob mx) = Some x then io_next (?ob x) else x_waiting_head (?ob mx))"
    "x_waiting_tail (?ob' mx) = (if x_waiting_tail (?ob mx) = Some x then io_prev (?ob x) else x_waiting_tail (?ob mx))"
    "o_signaled (?ob' mx) \<longleftrightarrow> o_signaled (?ob mx) \<and> (x \<in> set R \<longrightarrow> x_ready_head (?ob' mx) \<noteq> None)"
    using lk(2) nR nV by (simp_all add: ob)
  have R: "dlist (\<lambda>y. io_next (?ob' y)) (\<lambda>y. io_prev (?ob' y)) (x_ready_head (?ob' mx)) (x_ready_tail (?ob' mx)) (removeAll x R)"
    unfolding ends using new lk(7) by (intro unlinked [OF Rd]) blast+
  have V: "dlist (\<lambda>y. io_next (?ob' y)) (\<lambda>y. io_prev (?ob' y)) (x_waiting_head (?ob' mx)) (x_waiting_tail (?ob' mx)) (removeAll x V)"
    unfolding ends using new lk(7) by (intro unlinked [OF Vd]) blast+
  have "o_signaled (?ob' mx) \<longleftrightarrow> removeAll x R \<noteq> []" using ends(5) dlist_fields(1) [OF R] r by (cases "x \<in> set R") auto
  then show "mux_rep ?ob' mx (removeAll x R) (removeAll x V)"
    unfolding mux_rep_def using R V r by (auto simp: fr mux)
qed

lemma append_frame:
  assumes "mux_rep ob mx R V" and "x \<notin> set R \<union> set V" and "x \<noteq> mx" and "objects s = ob(x := r)"
  shows "mux_frame (objects s) (objects (append_ready mx x s))" and "mux_frame (objects s) (objects (append_waiting mx x s))"
    and "io_iomux (objects (append_ready mx x s) y) = io_iomux (objects s y)"
    and "io_iomux (objects (append_waiting mx x s) y) = io_iomux (objects s y)"
    and "x_ready_tail (objects s mx) \<noteq> Some x \<and> x_ready_tail (objects s mx) \<noteq> Some mx"
    and "x_waiting_tail (objects s mx) \<noteq> Some x \<and> x_waiting_tail (objects s mx) \<noteq> Some mx"
proof -
  have t: "x_ready_tail (objects s mx) = final R" "x_waiting_tail (objects s mx) = final V" "mx \<notin> set R \<union> set V"
    using assms(1,3,4) by (auto simp: mux_rep_def dest: dlist_fields(2))
  show r: "x_ready_tail (objects s mx) \<noteq> Some x \<and> x_ready_tail (objects s mx) \<noteq> Some mx"
    and w: "x_waiting_tail (objects s mx) \<noteq> Some x \<and> x_waiting_tail (objects s mx) \<noteq> Some mx"
    using t assms(2) by (auto dest: final_in_set)
  note A = append_ready_obj [OF assms(3) conjunct1 [OF r] conjunct2 [OF r]]
    and B = append_waiting_obj [OF assms(3) conjunct1 [OF w] conjunct2 [OF w]]
  show "mux_frame (objects s) (objects (append_ready mx x s))" "mux_frame (objects s) (objects (append_waiting mx x s))"
    unfolding mux_frame_def A B by simp_all
  show "io_iomux (objects (append_ready mx x s) y) = io_iomux (objects s y)"
    and "io_iomux (objects (append_waiting mx x s) y) = io_iomux (objects s y)"
    unfolding A B by simp_all
qed

lemma mux_rep_append:
  assumes rep: "mux_rep ob mx R V" and x: "x \<notin> set R \<union> set V" "x \<noteq> mx"
    and fr: "\<And>y. y \<noteq> x \<Longrightarrow> io_events_monitored (ob' y) = io_events_monitored (ob y) \<and> io_events_signaled (ob' y) = io_events_signaled (ob y)"
    and mux: "io_iomux (ob' x) = Some mx" "\<And>y. y \<noteq> x \<Longrightarrow> io_iomux (ob' y) = io_iomux (ob y)"
    and nx: "io_next (ob' x) = None" "io_prev (ob' x) = final (if rdy then R else V)"
    and lk: "\<And>y. y \<noteq> x \<Longrightarrow> y \<noteq> mx \<Longrightarrow> io_prev (ob' y) = io_prev (ob y) \<and>
          io_next (ob' y) = (if final (if rdy then R else V) = Some y then Some x else io_next (ob y))"
    and hd: "x_ready_head (ob' mx) = first (if rdy then R @ [x] else R)" "x_ready_tail (ob' mx) = final (if rdy then R @ [x] else R)"
      "x_waiting_head (ob' mx) = first (if rdy then V else V @ [x])" "x_waiting_tail (ob' mx) = final (if rdy then V else V @ [x])"
    and sg: "o_signaled (ob' mx) \<longleftrightarrow> rdy \<or> o_signaled (ob mx)"
    and rdy: "rdy \<longleftrightarrow> io_events_monitored (ob' x) AND io_events_signaled (ob' x) \<noteq> 0"
  shows "mux_rep ob' mx (if rdy then R @ [x] else R) (if rdy then V else V @ [x])"
proof -
  note r = rep [unfolded mux_rep_def]
  have nm: "y \<noteq> x \<and> y \<noteq> mx" if "y \<in> set R \<union> set V" for y using that r x by blast
  have app: "dlist (\<lambda>y. io_next (ob' y)) (\<lambda>y. io_prev (ob' y)) (first (Q @ [x])) (final (Q @ [x])) (Q @ [x])"
    if Q: "dlist (\<lambda>y. io_next (ob y)) (\<lambda>y. io_prev (ob y)) h t Q" "Q = (if rdy then R else V)" for Q h t
  proof -
    have "dlist (\<lambda>y. io_next (ob' y)) (\<lambda>y. io_prev (ob' y)) (if Q = [] then Some x else h) (Some x) (Q @ [x])"
      using dlist_fields(2) [OF Q(1)] Q(2) x nx lk nm by (intro dlist_append [OF Q(1)]) (auto split: if_splits)
    then show ?thesis using dlist_fields(1,2) by metis
  qed
  have same: "dlist (\<lambda>y. io_next (ob' y)) (\<lambda>y. io_prev (ob' y)) (first Q) (final Q) Q"
    if Q: "dlist (\<lambda>y. io_next (ob y)) (\<lambda>y. io_prev (ob y)) h t Q" "Q = (if rdy then V else R)" for Q h t
  proof -
    have "final (if rdy then R else V) \<noteq> Some y \<and> y \<in> set R \<union> set V" if "y \<in> set Q" for y
      using that Q(2) r final_in_set [of "if rdy then R else V" y] by (auto split: if_splits)
    then have "dlist (\<lambda>y. io_next (ob' y)) (\<lambda>y. io_prev (ob' y)) h t Q"
      using lk nm by (intro dlist_cong [OF Q(1)]) metis
    then show ?thesis using dlist_fields(1,2) by metis
  qed
  have ev: "io_events_monitored (ob' y) AND io_events_signaled (ob' y) = io_events_monitored (ob y) AND io_events_signaled (ob y)"
    if "y \<in> set R \<union> set V" for y using fr nm [OF that] by simp
  have mu: "io_iomux (ob' y) = Some mx \<longleftrightarrow> y = x \<or> y \<in> set R \<union> set V" for y using mux r by (cases "y = x") auto
  show ?thesis
  proof (cases rdy)
    case True
    then show ?thesis unfolding mux_rep_def using r x hd sg rdy app [of _ _ R] same [of _ _ V] ev mu by (simp add: mux_rep_def) blast
  next
    case False
    then show ?thesis unfolding mux_rep_def using r x hd sg rdy app [of _ _ V] same [of _ _ R] ev mu by (simp add: mux_rep_def) blast
  qed
qed

lemma append_rep:
  assumes rep: "mux_rep ob mx R V" and x: "x \<notin> set R \<union> set V" "x \<noteq> mx" and s: "objects s = ob(x := r)"
    and r: "io_iomux r = Some mx" and rdy: "rdy \<longleftrightarrow> io_events_monitored r AND io_events_signaled r \<noteq> 0"
  defines "s' \<equiv> if rdy then append_ready mx x s else append_waiting mx x s"
  shows "mux_rep (objects s') mx (if rdy then R @ [x] else R) (if rdy then V else V @ [x])"
proof (rule mux_rep_append [OF rep x])
  have t: "x_ready_tail (objects s mx) = final R" "x_waiting_tail (objects s mx) = final V"
    "x_ready_head (objects s mx) = first R" "x_waiting_head (objects s mx) = first V"
    using rep x s by (auto simp: mux_rep_def dest: dlist_fields(1,2))
  note fr = append_frame [OF rep x s]
  have A: "objects (append_ready mx x s) y =
     (if y = x then r\<lparr>io_next := None, io_prev := final R\<rparr>
      else if y = mx then (ob mx)\<lparr>x_ready_tail := Some x, o_signaled := True, x_ready_head := (if R = [] then Some x else first R)\<rparr>
      else if final R = Some y then (ob y)\<lparr>io_next := Some x\<rparr> else ob y)" for y
    using fr(5) x t s by (subst append_ready_obj) auto
  have B: "objects (append_waiting mx x s) y =
     (if y = x then r\<lparr>io_next := None, io_prev := final V\<rparr>
      else if y = mx then (ob mx)\<lparr>x_waiting_tail := Some x, x_waiting_head := (if V = [] then Some x else first V)\<rparr>
      else if final V = Some y then (ob y)\<lparr>io_next := Some x\<rparr> else ob y)" for y
    using fr(6) x t s by (subst append_waiting_obj) auto
  have o: "objects s' = (if rdy then objects (append_ready mx x s) else objects (append_waiting mx x s))" by (simp add: s'_def)
  have f: "first (Q @ [x]) = (if Q = [] then Some x else first Q)" for Q by (cases Q) simp_all
  have obmx: "x_ready_head (ob mx) = first R" "x_ready_tail (ob mx) = final R" "x_waiting_head (ob mx) = first V" "x_waiting_tail (ob mx) = final V"
    using t s x by auto
  show "rdy \<longleftrightarrow> io_events_monitored (objects s' x) AND io_events_signaled (objects s' x) \<noteq> 0" using rdy by (simp add: o A B)
  show "io_iomux (objects s' x) = Some mx" using r by (simp add: o A B)
  show "io_next (objects s' x) = None" "io_prev (objects s' x) = final (if rdy then R else V)" by (simp_all add: o A B)
  show "o_signaled (objects s' mx) \<longleftrightarrow> rdy \<or> o_signaled (ob mx)" using x by (simp add: o A B)
  show "x_ready_head (objects s' mx) = first (if rdy then R @ [x] else R)" "x_ready_tail (objects s' mx) = final (if rdy then R @ [x] else R)"
      "x_waiting_head (objects s' mx) = first (if rdy then V else V @ [x])" "x_waiting_tail (objects s' mx) = final (if rdy then V else V @ [x])"
    using x obmx by (simp_all add: o A B f)
  fix y assume y: "y \<noteq> x"
  show "io_events_monitored (objects s' y) = io_events_monitored (ob y) \<and> io_events_signaled (objects s' y) = io_events_signaled (ob y)"
    "io_iomux (objects s' y) = io_iomux (ob y)"
    using y by (simp_all add: o A B)
  assume "y \<noteq> mx"
  then show "io_prev (objects s' y) = io_prev (ob y) \<and>
          io_next (objects s' y) = (if final (if rdy then R else V) = Some y then Some x else io_next (ob y))"
    using y by (simp add: o A B)
qed

lemma attach_rep:
  fixes ev :: u32 and c :: int
  assumes rep: "mux_rep (objects s) mx R V" and x: "x \<notin> set R \<union> set V" "x \<noteq> mx"
  defines "rdy \<equiv> ucast ev AND io_events_signaled (objects s x) \<noteq> 0" and "s' \<equiv> attach_ioobject mx x ev c s"
  shows "mux_rep (objects s') mx (if rdy then R @ [x] else R) (if rdy then V else V @ [x])"
    and "mux_frame ((objects s)(x := (objects s x)\<lparr>io_iomux := Some mx, io_events_monitored := ucast ev, io_context := c\<rparr>)) (objects s')"
    and "io_iomux (objects s' y) = (if y = x then Some mx else io_iomux (objects s y))"
    and "o_signaled (objects s' x) = o_signaled (objects s x)"
proof -
  define r where "r = (objects s x)\<lparr>io_iomux := Some mx, io_events_monitored := ucast ev, io_context := c\<rparr>"
  define s1 where "s1 = upd_obj x (\<lambda>r. r\<lparr>io_iomux := Some mx, io_events_monitored := ucast ev, io_context := c\<rparr>) s"
  have ob1: "objects s1 = (objects s)(x := r)" by (simp add: s1_def r_def)
  have rdy: "rdy \<longleftrightarrow> io_events_monitored r AND io_events_signaled r \<noteq> 0" by (simp add: rdy_def r_def)
  have s': "s' = (if rdy then append_ready mx x s1 else append_waiting mx x s1)"
    by (simp add: s'_def attach_ioobject_def s1_def rdy_def Let_def)
  note fr = append_frame [OF rep x ob1]
  show "mux_rep (objects s') mx (if rdy then R @ [x] else R) (if rdy then V else V @ [x])"
    unfolding s' by (rule append_rep [OF rep x ob1 _ rdy]) (simp add: r_def)
  show "mux_frame ((objects s)(x := (objects s x)\<lparr>io_iomux := Some mx, io_events_monitored := ucast ev, io_context := c\<rparr>)) (objects s')"
    unfolding s' using fr(1,2) ob1 r_def by simp
  show "io_iomux (objects s' y) = (if y = x then Some mx else io_iomux (objects s y))"
    unfolding s' using fr(3,4) ob1 by (simp add: r_def)
  show "o_signaled (objects s' x) = o_signaled (objects s x)"
    unfolding s' using append_ready_obj [of x mx s1 x] append_waiting_obj [of x mx s1 x] fr(5,6) x ob1 by (simp add: r_def)
qed

lemma leave_wait_obj:
  assumes "io_next ob \<noteq> Some x" "io_next ob \<noteq> Some mx" "io_prev ob \<noteq> Some x" "io_prev ob \<noteq> Some mx" "ob = objects s x" "x \<noteq> mx"
  shows "objects (leave_wait_queue mx x s) y =
    (if y = x then objects s x else if y = mx then leave_waiting (objects s) x (objects s mx) else relink (objects s) x y)"
  using assms(6) by (simp add: leave_wait_queue_def Let_def unlink_io_obj [OF assms(1,3) [unfolded assms(5)]]
    relink_mux [of "objects s", OF assms(2,4) [unfolded assms(5)]] leave_waiting_def)

lemma make_ready_rep:
  assumes rep: "mux_rep (objects s) mx R V" and x: "x \<in> set V"
    and s1: "objects s1 = (objects s)(x := (objects s x)\<lparr>io_events_signaled := e\<rparr>)" and e: "io_events_monitored (objects s x) AND e \<noteq> 0"
  shows "mux_rep (objects (make_ready mx x s1)) mx (R @ [x]) (removeAll x V)"
    and "mux_frame (objects s1) (objects (make_ready mx x s1))"
    and "io_iomux (objects (make_ready mx x s1) y) = io_iomux (objects s y)"
proof -
  have x': "x \<in> set R \<union> set V" using x by simp
  note lk = mux_links [OF rep x']
  have xR: "x \<notin> set R" using rep x by (auto simp: mux_rep_def)
  have rl: "relink (objects s1) x y = relink (objects s) x y" if "y \<noteq> x" for y
    using that by (simp add: s1 relink_def Let_def)
  have "objects (leave_wait_queue mx x s1) y =
      ((objects (detach_ioobject x s))(x := (objects s x)\<lparr>io_events_signaled := e\<rparr>)) y" for y
    using lk(2-6) s1 xR rl by (subst leave_wait_obj [OF _ _ _ _ refl]) (auto simp: detach_rep_obj [OF rep x'] leave_waiting_def)
  then have ob: "objects (leave_wait_queue mx x s1) = (objects (detach_ioobject x s))(x := (objects s x)\<lparr>io_events_signaled := e\<rparr>)"
    by (rule ext)
  have d: "mux_rep (objects (detach_ioobject x s)) mx R (removeAll x V)" "x \<notin> set R \<union> set (removeAll x V)"
    using detach_rep(1) [OF rep x'] xR by simp_all
  show "mux_rep (objects (make_ready mx x s1)) mx (R @ [x]) (removeAll x V)"
    using append_rep [OF d lk(2) ob, of True] lk(1) e by (simp add: make_ready_def)
  have f1: "mux_frame (objects s1) (objects (leave_wait_queue mx x s1))"
    unfolding ob s1 using detach_frame [OF rep x'] by (simp add: mux_frame_def)
  show "mux_frame (objects s1) (objects (make_ready mx x s1))"
    using f1 append_frame(1) [OF d lk(2) ob] by (simp add: make_ready_def mux_frame_def)
  show "io_iomux (objects (make_ready mx x s1) y) = io_iomux (objects s y)"
    using append_frame(3) [OF d lk(2) ob] ob detach_rep(2) [OF rep x'] by (simp add: make_ready_def)
qed

text \<open>
  What a multiplexer promises: a first-in first-out queue of the objects with a monitored event, without links. The operations of the code refine
  it while no thread waits on the multiplexer or the objects, so that no object is handed to a thread on the way.
\<close>

record amux =
  a_ready :: "addr list"
  a_waiting :: "addr list"
  a_mon :: "addr \<Rightarrow> u16"
  a_sig :: "addr \<Rightarrow> u16"
  a_ctx :: "addr \<Rightarrow> int"

datatype mux_op = Queue addr u32 int | Signal addr u32 | Dequeue

fun amux_step :: "mux_op \<Rightarrow> amux \<Rightarrow> int \<times> amux" where
  "amux_step (Queue x ev c) a =
     (if ev = 0 then (- EINVAL, a)
      else
        let R = removeAll x (a_ready a); V = removeAll x (a_waiting a);
            m = (if x \<in> set (a_ready a @ a_waiting a) then ucast ev OR a_mon a x else ucast ev);
            rdy = (m AND a_sig a x \<noteq> 0)
        in (0, a\<lparr>a_ready := (if rdy then R @ [x] else R), a_waiting := (if rdy then V else V @ [x]),
                 a_mon := (a_mon a)(x := m), a_ctx := (a_ctx a)(x := c)\<rparr>))"
| "amux_step (Signal x ev) a =
     (let rdy = (x \<in> set (a_waiting a) \<and> a_mon a x AND ucast ev \<noteq> 0)
      in (0, a\<lparr>a_ready := (if rdy then a_ready a @ [x] else a_ready a),
               a_waiting := (if rdy then removeAll x (a_waiting a) else a_waiting a),
               a_sig := (a_sig a)(x := a_sig a x OR ucast ev)\<rparr>))"
| "amux_step Dequeue a =
     (case a_ready a of [] \<Rightarrow> (- ENOENT, a) | x # R \<Rightarrow> (a_ctx a x, a\<lparr>a_ready := R\<rparr>))"

fun mux_step :: "addr \<Rightarrow> mux_op \<Rightarrow> 'a kernel_scheme \<Rightarrow> (int \<times> 'a kernel_scheme) option" where
  "mux_step mx (Queue x ev c) s = queue_ioobject mx x ev c s"
| "mux_step mx (Signal x ev) s = map_option (Pair 0) (set_io_event x ev s)"
| "mux_step mx Dequeue s = Some (dequeue_event_from_iomux mx s)"

fun mux_run :: "addr \<Rightarrow> mux_op list \<Rightarrow> 'a kernel_scheme \<Rightarrow> (int list \<times> 'a kernel_scheme) option" where
  "mux_run mx [] s = Some ([], s)"
| "mux_run mx (op # ops) s =
     (case mux_step mx op s of
        None \<Rightarrow> None
      | Some (r, s1) \<Rightarrow> map_option (\<lambda>(rs, s2). (r # rs, s2)) (mux_run mx ops s1))"

fun amux_run :: "mux_op list \<Rightarrow> amux \<Rightarrow> int list \<times> amux" where
  "amux_run [] a = ([], a)"
| "amux_run (op # ops) a = (let (r, a1) = amux_step op a; (rs, a2) = amux_run ops a1 in (r # rs, a2))"

fun op_objects :: "mux_op \<Rightarrow> addr set" where
  "op_objects (Queue x ev c) = {x}"
| "op_objects (Signal x ev) = {x}"
| "op_objects Dequeue = {}"

definition mux_abs :: "(addr \<Rightarrow> kobject) \<Rightarrow> addr list \<Rightarrow> addr list \<Rightarrow> amux" where
  "mux_abs ob R V = \<lparr>a_ready = R, a_waiting = V, a_mon = (\<lambda>x. io_events_monitored (ob x)),
     a_sig = (\<lambda>x. io_events_signaled (ob x)), a_ctx = (\<lambda>x. io_context (ob x))\<rparr>"

definition mux_env :: "(addr \<Rightarrow> kobject) \<Rightarrow> addr \<Rightarrow> addr set \<Rightarrow> bool" where
  "mux_env ob mx X \<longleftrightarrow> o_waitlist_head (ob mx) = None \<and> mx \<notin> X \<and>
     (\<forall>x \<in> X. (o_type (ob x) = ObjSocket \<or> o_type (ob x) = ObjFile) \<and> o_waitlist_head (ob x) = None \<and>
        (io_iomux (ob x) = None \<or> io_iomux (ob x) = Some mx))"

definition mux_ok :: "(addr \<Rightarrow> kobject) \<Rightarrow> addr \<Rightarrow> addr set \<Rightarrow> addr list \<Rightarrow> addr list \<Rightarrow> bool" where
  "mux_ok ob mx X R V \<longleftrightarrow> mux_rep ob mx R V \<and> mux_env ob mx X"

lemma event_ucast: "ucast (m :: u16) AND (e :: u32) \<noteq> 0 \<longleftrightarrow> m AND ucast e \<noteq> 0"
proof -
  have "ucast (ucast m AND e) = m AND (ucast e :: u16)" by (rule bit_word_eqI) (auto simp: bit_simps)
  moreover have "ucast m AND e = (ucast (ucast (ucast m AND e :: u32) :: u16) :: u32)"
    by (rule bit_word_eqI) (auto simp: bit_simps dest: bit_imp_le_length)
  ultimately show ?thesis by (metis unsigned_0)
qed

lemma event_or: "ucast ((e :: u32) OR ucast (m :: u16)) = (ucast e OR m :: u16)"
  by (rule bit_word_eqI) (auto simp: bit_simps)

lemma mux_attached: "mux_rep ob mx R V \<Longrightarrow> io_iomux (ob x) = Some mx \<longleftrightarrow> x \<in> set R \<union> set V"
  by (simp add: mux_rep_def)

lemma no_waiters: "o_waitlist_head (objects s mx) = None \<Longrightarrow> release_waiting_threads mx s = Some s"
  by (simp add: release_waiting_threads_def release_waiting_loop.simps [of mx _ None] split: option.splits)

lemma no_object_waiters: "o_waitlist_head (objects s x) = None \<Longrightarrow> release_waiters x k s = Some s"
  by (simp add: release_waiters_def release_waiters_loop.simps)

lemma mux_env_frame:
  assumes "mux_env ob mx X" and "mux_frame ob1 ob'" and "\<And>y. o_type (ob1 y) = o_type (ob y) \<and> o_waitlist_head (ob1 y) = o_waitlist_head (ob y)"
    and "\<And>y. io_iomux (ob' y) \<in> {None, Some mx, io_iomux (ob y)}"
  shows "mux_env ob' mx X"
proof -
  have "o_type (ob' y) = o_type (ob y) \<and> o_waitlist_head (ob' y) = o_waitlist_head (ob y)" for y
    using assms(2,3) by (simp add: mux_frame_def)
  then show ?thesis using assms(1,4) unfolding mux_env_def by (metis empty_iff insert_iff)
qed

lemma dequeue_step:
  assumes "mux_ok (objects s) mx X R V"
  shows "case R of [] \<Rightarrow> dequeue_event_from_iomux mx s = (- ENOENT, s)
     | x # R' \<Rightarrow> \<exists>s'. dequeue_event_from_iomux mx s = (io_context (objects s x), s') \<and> mux_ok (objects s') mx X R' V \<and>
         mux_frame (objects s) (objects s')"
proof (cases R)
  case Nil
  then have "x_ready_head (objects s mx) = None" using assms by (auto simp: mux_ok_def mux_rep_def dest: dlist_fields(1))
  then show ?thesis using Nil by (simp add: dequeue_event_from_iomux_def)
next
  case (Cons x R')
  have rep: "mux_rep (objects s) mx R V" and env: "mux_env (objects s) mx X" using assms by (simp_all add: mux_ok_def)
  have x: "x \<in> set R \<union> set V" using Cons by simp
  have "distinct R" "x \<notin> set V" "x_ready_head (objects s mx) = Some x"
    using rep Cons by (auto simp: mux_rep_def dest: dlist_fields(1,3))
  then have rm: "removeAll x R = R'" "removeAll x V = V" and hd: "x_ready_head (objects s mx) = Some x" using Cons by auto
  note fr = detach_frame [OF rep x]
  have "mux_env (objects (detach_ioobject x s)) mx X"
    by (rule mux_env_frame [OF env fr]) (simp_all add: detach_rep(2) [OF rep x])
  then have "mux_ok (objects (detach_ioobject x s)) mx X R' V"
    using detach_rep(1) [OF rep x] rm by (simp add: mux_ok_def)
  moreover have "io_context (objects (detach_ioobject x s) x) = io_context (objects s x)" using fr by (simp add: mux_frame_def)
  ultimately show ?thesis using Cons hd fr by (simp add: dequeue_event_from_iomux_def)
qed

lemma detached:
  assumes ok: "mux_ok (objects s) mx X R V" and x: "x \<in> X"
  defines "s1 \<equiv> if io_iomux (objects s x) \<noteq> None then detach_ioobject x s else s"
  shows "mux_ok (objects s1) mx X (removeAll x R) (removeAll x V)" and "mux_frame (objects s) (objects s1)"
proof -
  have rep: "mux_rep (objects s) mx R V" and env: "mux_env (objects s) mx X" using ok by (simp_all add: mux_ok_def)
  have "mux_ok (objects s1) mx X (removeAll x R) (removeAll x V) \<and> mux_frame (objects s) (objects s1)"
  proof (cases "io_iomux (objects s x) = None")
    case True
    then have "x \<notin> set R \<union> set V" using mux_attached [OF rep, of x] by simp
    then show ?thesis using ok True by (simp add: s1_def mux_frame_def)
  next
    case False
    then have "io_iomux (objects s x) = Some mx" using env x by (auto simp: mux_env_def)
    then have at: "x \<in> set R \<union> set V" using mux_attached [OF rep, of x] by simp
    have "mux_env (objects (detach_ioobject x s)) mx X"
      by (rule mux_env_frame [OF env detach_frame [OF rep at]]) (simp_all add: detach_rep(2) [OF rep at])
    then show ?thesis using False detach_rep(1) [OF rep at] detach_frame [OF rep at] by (simp add: s1_def mux_ok_def)
  qed
  then show "mux_ok (objects s1) mx X (removeAll x R) (removeAll x V)" and "mux_frame (objects s) (objects s1)" by blast+
qed

lemma queue_step:
  assumes ok: "mux_ok (objects s) mx X R V" and x: "x \<in> X"
  shows "\<exists>r s' R' V'. queue_ioobject mx x ev c s = Some (r, s') \<and>
    amux_step (Queue x ev c) (mux_abs (objects s) R V) = (r, mux_abs (objects s') R' V') \<and> mux_ok (objects s') mx X R' V'"
proof (cases "ev = 0")
  case True
  have "queue_ioobject mx x ev c s = Some (- EINVAL, s)" using True ok x by (auto simp: queue_ioobject_def mux_ok_def mux_env_def)
  then show ?thesis using True ok by auto
next
  case False
  let ?at = "io_iomux (objects s x) \<noteq> None"
  define s1 where "s1 = (if ?at then detach_ioobject x s else s)"
  define e where "e = (if ?at then ev OR ucast (io_events_monitored (objects s x)) else ev)"
  define s2 where "s2 = attach_ioobject mx x e c s1"
  define rdy where "rdy \<longleftrightarrow> ucast e AND io_events_signaled (objects s1 x) \<noteq> 0"
  have rep: "mux_rep (objects s) mx R V" and env: "mux_env (objects s) mx X" using ok by (simp_all add: mux_ok_def)
  have at: "?at \<longleftrightarrow> x \<in> set R \<union> set V" using mux_attached [OF rep, of x] env x by (auto simp: mux_env_def)
  note d = detached [OF ok x, folded s1_def]
  have rep1: "mux_rep (objects s1) mx (removeAll x R) (removeAll x V)" and env1: "mux_env (objects s1) mx X"
    using d(1) by (simp_all add: mux_ok_def)
  have fresh: "x \<notin> set (removeAll x R) \<union> set (removeAll x V)" "x \<noteq> mx" using env x by (auto simp: mux_env_def)
  note a = attach_rep [OF rep1 fresh, where ev = e and c = c, folded s2_def, folded rdy_def]
  have env2: "mux_env (objects s2) mx X" by (rule mux_env_frame [OF env1 a(2)]) (simp_all add: a(3))
  then have "o_waitlist_head (objects s2 mx) = None" by (simp add: mux_env_def)
  then have "(if o_signaled (objects s2 x) then release_waiting_threads mx s2 else Some s2) = Some s2" by (simp add: no_waiters)
  then have q: "queue_ioobject mx x ev c s = Some (0, s2)" using False env x
    by (auto simp: queue_ioobject_def s2_def s1_def e_def mux_env_def Let_def)
  have m: "ucast e = (if x \<in> set (R @ V) then ucast ev OR io_events_monitored (objects s x) else ucast ev)"
    using at by (simp add: e_def event_or)
  have fr: "io_events_monitored (objects s2 y) = (if y = x then ucast e else io_events_monitored (objects s y))"
    "io_events_signaled (objects s2 y) = io_events_signaled (objects s y)"
    "io_context (objects s2 y) = (if y = x then c else io_context (objects s y))" "io_events_signaled (objects s1 y) = io_events_signaled (objects s y)" for y
    using a(2) d(2) by (simp_all add: mux_frame_def)
  let ?R = "if rdy then removeAll x R @ [x] else removeAll x R" and ?V = "if rdy then removeAll x V else removeAll x V @ [x]"
  have "amux_step (Queue x ev c) (mux_abs (objects s) R V) = (0, mux_abs (objects s2) ?R ?V)"
    using False by (auto simp: mux_abs_def fr m rdy_def Let_def fun_eq_iff)
  moreover have "mux_ok (objects s2) mx X ?R ?V" using a(1) env2 by (simp add: mux_ok_def)
  ultimately show ?thesis using q by blast
qed

lemma mux_rep_upd:
  assumes rep: "mux_rep ob mx R V" and x: "x \<noteq> mx"
    and r: "io_next r = io_next (ob x)" "io_prev r = io_prev (ob x)" "io_iomux r = io_iomux (ob x)"
    and e: "x \<in> set R \<union> set V \<Longrightarrow> io_events_monitored r AND io_events_signaled r = 0 \<longleftrightarrow> x \<in> set V"
  shows "mux_rep (ob(x := r)) mx R V"
proof -
  note q = rep [unfolded mux_rep_def]
  have same: "(\<lambda>y. io_next ((ob(x := r)) y)) = (\<lambda>y. io_next (ob y))" "(\<lambda>y. io_prev ((ob(x := r)) y)) = (\<lambda>y. io_prev (ob y))"
    "\<And>y. io_iomux ((ob(x := r)) y) = io_iomux (ob y)" "(ob(x := r)) mx = ob mx"
    using r x by (auto simp: fun_eq_iff)
  have "\<forall>y \<in> set R. io_events_monitored ((ob(x := r)) y) AND io_events_signaled ((ob(x := r)) y) \<noteq> 0"
    "\<forall>y \<in> set V. io_events_monitored ((ob(x := r)) y) AND io_events_signaled ((ob(x := r)) y) = 0"
    using q e by auto
  then show ?thesis unfolding mux_rep_def same using q by blast
qed

lemma signal_step:
  assumes ok: "mux_ok (objects s) mx X R V" and x: "x \<in> X"
  shows "\<exists>s' R' V'. set_io_event x ev s = Some s' \<and>
    amux_step (Signal x ev) (mux_abs (objects s) R V) = (0, mux_abs (objects s') R' V') \<and> mux_ok (objects s') mx X R' V'"
proof -
  have rep: "mux_rep (objects s) mx R V" and env: "mux_env (objects s) mx X" using ok by (simp_all add: mux_ok_def)
  let ?r = "objects s x"
  define e where "e = io_events_signaled ?r OR ucast ev"
  define s1 where "s1 = upd_obj x (\<lambda>r. r\<lparr>io_events_signaled := io_events_signaled r OR ucast ev\<rparr>) s"
  have s1: "objects s1 = (objects s)(x := ?r\<lparr>io_events_signaled := e\<rparr>)" by (simp add: s1_def e_def)
  define rdy where "rdy \<longleftrightarrow> x \<in> set V \<and> io_events_monitored ?r AND ucast ev \<noteq> 0"
  show ?thesis
  proof (cases rdy)
    case True
    then have xV: "x \<in> set V" and ev: "io_events_monitored ?r AND ucast ev \<noteq> 0" by (simp_all add: rdy_def)
    have z: "io_events_monitored ?r AND io_events_signaled ?r = 0" using rep xV by (simp add: mux_rep_def)
    then have "io_events_monitored ?r AND e \<noteq> 0" using ev by (simp add: e_def bit.conj_disj_distrib)
    note r = make_ready_rep [OF rep xV s1 this]
    have env2: "mux_env (objects (make_ready mx x s1)) mx X" by (rule mux_env_frame [OF env r(2)]) (simp_all add: s1 r(3))
    then have "release_waiting_threads mx (make_ready mx x s1) = Some (make_ready mx x s1)" by (simp add: no_waiters mux_env_def)
    moreover have "io_iomux ?r = Some mx" using mux_attached [OF rep, of x] xV by simp
    ultimately have "set_io_event x ev s = Some (make_ready mx x s1)" using z ev
      by (simp add: set_io_event_def s1_def [symmetric] event_ucast)
    moreover have "amux_step (Signal x ev) (mux_abs (objects s) R V) = (0, mux_abs (objects (make_ready mx x s1)) (R @ [x]) (removeAll x V))"
      using r(2) s1 xV ev by (auto simp: mux_abs_def mux_frame_def e_def fun_eq_iff)
    ultimately show ?thesis using r(1) env2 by (auto simp: mux_ok_def)
  next
    case False
    define s2 where "s2 = (if io_iomux ?r = None \<and> ucast e AND IOEVT_READ \<noteq> 0 then upd_obj x (\<lambda>r. r\<lparr>o_signaled := True\<rparr>) s1 else s1)"
    have xm: "x \<noteq> mx" "io_iomux ?r = None \<or> io_iomux ?r = Some mx" "o_waitlist_head ?r = None" using env x by (auto simp: mux_env_def)
    have s2: "objects s2 = (objects s)(x := ?r\<lparr>io_events_signaled := e, o_signaled := o_signaled (objects s2 x)\<rparr>)"
      by (auto simp: s2_def s1 fun_eq_iff)
    have ev: "io_events_monitored ?r AND e = 0 \<longleftrightarrow> x \<in> set V" if "x \<in> set R \<union> set V"
      using that False rep by (auto simp: e_def bit.conj_disj_distrib or_eq_0_iff rdy_def mux_rep_def)
    have "mux_rep (objects s2) mx R V" by (subst s2, rule mux_rep_upd [OF rep xm(1)]) (simp_all add: ev)
    moreover have "mux_env (objects s2) mx X" using env xm(1) by (subst s2) (auto simp: mux_env_def)
    moreover have "set_io_event x ev s = Some s2"
    proof (cases "io_iomux ?r")
      case None
      then show ?thesis using xm(3) by (simp add: set_io_event_def s1_def [symmetric] s2_def no_object_waiters s1)
    next
      case (Some m)
      then have "m = mx" "x \<in> set R \<union> set V" using xm(2) mux_attached [OF rep, of x] by auto
      then have "io_events_monitored ?r AND io_events_signaled ?r \<noteq> 0 \<or> io_events_monitored ?r AND ucast ev = 0"
        using False rep by (auto simp: rdy_def mux_rep_def)
      then show ?thesis using Some by (auto simp: set_io_event_def s1_def [symmetric] s2_def event_ucast)
    qed
    moreover have "amux_step (Signal x ev) (mux_abs (objects s) R V) = (0, mux_abs (objects s2) R V)"
      using False by (subst s2) (auto simp: mux_abs_def e_def rdy_def fun_eq_iff)
    ultimately show ?thesis by (auto simp: mux_ok_def)
  qed
qed

lemma mux_step_refines:
  assumes "mux_ok (objects s) mx X R V" and "op_objects op \<subseteq> X"
  shows "\<exists>r s' R' V'. mux_step mx op s = Some (r, s') \<and> amux_step op (mux_abs (objects s) R V) = (r, mux_abs (objects s') R' V') \<and>
    mux_ok (objects s') mx X R' V'"
proof (cases op)
  case (Queue x ev c)
  then show ?thesis using queue_step [OF assms(1), of x ev c] assms(2) by simp
next
  case (Signal x ev)
  then show ?thesis using signal_step [OF assms(1), of x ev] assms(2) by force
next
  case Dequeue
  show ?thesis
  proof (cases R)
    case Nil
    then show ?thesis using dequeue_step [OF assms(1)] assms(1) Dequeue by (auto simp: mux_abs_def)
  next
    case (Cons x R')
    then obtain s' where s': "dequeue_event_from_iomux mx s = (io_context (objects s x), s')" "mux_ok (objects s') mx X R' V"
      "mux_frame (objects s) (objects s')" using dequeue_step [OF assms(1)] by auto
    moreover have "amux_step op (mux_abs (objects s) R V) = (io_context (objects s x), mux_abs (objects s') R' V)"
      using s'(3) Cons Dequeue by (simp add: mux_abs_def mux_frame_def)
    ultimately show ?thesis using Dequeue by auto
  qed
qed

definition demo_mux :: kernel where
  "demo_mux = upd_obj 40 (\<lambda>r. r\<lparr>o_type := ObjSocket\<rparr>) (upd_obj 41 (\<lambda>r. r\<lparr>o_type := ObjSocket\<rparr>) (init_iomux 50 0 demo_kernel))"

lemma demo_mux_ok: "mux_ok (objects demo_mux) 50 {40, 41} [] []"
  by (simp add: mux_ok_def mux_rep_def mux_env_def dlist_def demo_mux_def init_iomux_def init_object_def demo_kernel_def demo_object_def
      upd_thread_def upd_obj_def sched.defs)

definition demo_ready :: kernel where
  "demo_ready = upd_obj 50 (\<lambda>r. r\<lparr>x_ready_head := Some 40, x_ready_tail := Some 40, o_signaled := True\<rparr>)
     (upd_obj 40 (\<lambda>r. r\<lparr>io_iomux := Some 50, io_events_monitored := 1, io_events_signaled := 1, io_context := 7\<rparr>) demo_mux)"

lemma demo_ready_rep: "mux_rep (objects demo_ready) 50 [40] []"
  by (simp add: demo_ready_def mux_rep_def dlist_def demo_mux_def init_iomux_def init_object_def demo_kernel_def demo_object_def
      upd_thread_def upd_obj_def sched.defs)

text \<open>C6: while no thread waits, any sequence of attaching objects to a multiplexer, signalling events on them and taking events from it returns the
  same results as the abstract queue: contexts come out in the order in which their objects became ready, each once, an empty queue and an empty
  mask give the error codes, and the links of both queues stay those of a doubly linked list.\<close>

theorem iomux_refines:
  assumes "mux_ok (objects s) mx X R V" and "\<And>op. op \<in> set ops \<Longrightarrow> op_objects op \<subseteq> X"
  shows "\<exists>s' R' V'. mux_run mx ops s = Some (fst (amux_run ops (mux_abs (objects s) R V)), s') \<and>
    snd (amux_run ops (mux_abs (objects s) R V)) = mux_abs (objects s') R' V' \<and> mux_ok (objects s') mx X R' V'"
  using assms
proof (induction ops arbitrary: s R V)
  case (Cons op ops)
  from Cons.prems(2) have "op_objects op \<subseteq> X" by simp
  from mux_step_refines [OF Cons.prems(1) this] obtain r s1 R1 V1 where
    1: "mux_step mx op s = Some (r, s1)" "amux_step op (mux_abs (objects s) R V) = (r, mux_abs (objects s1) R1 V1)"
      "mux_ok (objects s1) mx X R1 V1" by blast
  from Cons.IH [OF 1(3) Cons.prems(2)] 1(1,2) show ?case by (auto simp: case_prod_unfold Let_def)
qed auto

theorem iomux_refines_witness:
  "\<exists>s' R' V'. mux_run 50 [Queue 40 1 7, Queue 41 1 8, Signal 41 1, Dequeue, Dequeue] demo_mux = Some ([0, 0, 0, 8, - ENOENT], s') \<and>
     snd (amux_run [Queue 40 1 7, Queue 41 1 8, Signal 41 1, Dequeue, Dequeue] (mux_abs (objects demo_mux) [] [])) = mux_abs (objects s') R' V' \<and>
     mux_ok (objects s') 50 {40, 41} R' V'"
proof -
  have out: "fst (amux_run [Queue 40 1 7, Queue 41 1 8, Signal 41 1, Dequeue, Dequeue] (mux_abs (objects demo_mux) [] [])) = [0, 0, 0, 8, - ENOENT]"
    by (simp add: mux_abs_def demo_mux_def init_iomux_def init_object_def demo_kernel_def demo_object_def
      upd_thread_def upd_obj_def sched.defs Let_def)
  have sub: "op_objects op \<subseteq> {40, 41}" if "op \<in> set [Queue 40 1 7, Queue 41 1 8, Signal 41 1, Dequeue, Dequeue]" for op
    using that by auto
  show ?thesis using iomux_refines [OF demo_mux_ok, OF sub, of "[Queue 40 1 7, Queue 41 1 8, Signal 41 1, Dequeue, Dequeue]"] unfolding out by blast
qed

text \<open>
  Clearing events does not keep the queues: an object stays on the ready queue with no monitored event left, and from then on counts as a waiting
  one.
\<close>

text \<open>When the only ready object of a multiplexer has its events cleared before they are taken, taking the event leaves the detached object at
  the head of the ready queue and the multiplexer signalled, so that the same context is delivered again by every later call.\<close>

theorem clear_io_event_repeats:
  assumes "mux_rep (objects s) mx [x] V"
  defines "s1 \<equiv> clear_io_event x 0xFFFFFFFF s"
  defines "s2 \<equiv> snd (dequeue_event_from_iomux mx s1)"
  shows "io_iomux (objects s2 x) = None \<and> o_signaled (objects s2 mx) \<and>
    dequeue_event_from_iomux mx s1 = (io_context (objects s x), s2) \<and>
    dequeue_event_from_iomux mx s2 = (io_context (objects s x), s2)"
proof -
  note r = assms(1) [unfolded mux_rep_def]
  have lk: "io_next (objects s x) = None" "io_prev (objects s x) = None" "io_iomux (objects s x) = Some mx" "x \<noteq> mx"
    "x_ready_head (objects s mx) = Some x" "o_signaled (objects s mx)" using r by (auto simp: dlist_def)
  have s1: "objects s1 = (objects s)(x := (objects s x)\<lparr>io_events_signaled := 0, o_signaled := False\<rparr>)"
    by (simp add: s1_def clear_io_event_def)
  then have lk1: "io_iomux (objects s1 x) = Some mx" "io_next (objects s1 x) \<noteq> Some x" "io_next (objects s1 x) \<noteq> Some mx"
    "io_prev (objects s1 x) \<noteq> Some x" "io_prev (objects s1 x) \<noteq> Some mx" using lk by simp_all
  note d = detach_obj [OF lk1(1) lk(4) lk1(2-5)]
  have h1: "x_ready_head (objects s1 mx) = Some x" using s1 lk by simp
  then have s2: "s2 = detach_ioobject x s1" "dequeue_event_from_iomux mx s1 = (io_context (objects s x), s2)"
    using s1 by (simp_all add: s2_def dequeue_event_from_iomux_def d)
  have "io_iomux (objects s2 x) = None" "o_signaled (objects s2 mx)" "x_ready_head (objects s2 mx) = Some x"
    "io_context (objects s2 x) = io_context (objects s x)"
    using lk s1 by (simp_all add: s2(1) d)
  then show ?thesis using s2(2) by (simp add: dequeue_event_from_iomux_def detach_ioobject_def)
qed

theorem clear_io_event_repeats_witness:
  "mux_rep (objects demo_ready) 50 [40] [] \<and>
   dequeue_event_from_iomux 50 (snd (dequeue_event_from_iomux 50 (clear_io_event 40 0xFFFFFFFF demo_ready))) =
     (7, snd (dequeue_event_from_iomux 50 (clear_io_event 40 0xFFFFFFFF demo_ready)))"
proof -
  have "io_context (objects demo_ready 40) = 7" by (simp add: demo_ready_def)
  then show ?thesis using clear_io_event_repeats [OF demo_ready_rep] demo_ready_rep by simp
qed

end
