(* ===== verification/Hndl.thy ===== *)
theory Hndl
  imports Objects
begin

text \<open>
  The handle table of \<^verbatim>\<open>src/src/sys/krnl/hndl.c\<close>. An entry is a 32-bit word: the address of a kernel object, with bit 0
  as protection flag, or the next free handle. Kernel addresses have bit 31 set, which tells used entries from free ones. Handles are
  signed numbers, as in the code. The frame allocation and mapping of a new page of the table, whose results \<^verbatim>\<open>expand_htab\<close> ignores, are left out.
  Closing goes on in the object component; what destroying an object does belongs to the thread, file and heap components and is the parameter
  \<open>destroy\<close>.
\<close>

unbundle bit_operations_syntax

section \<open>The table\<close>

definition HTABSIZE :: nat where "HTABSIZE = 0x01000000"
definition HANDLES_PER_PAGE :: nat where "HANDLES_PER_PAGE = 1024"
definition HEND :: u32 where "HEND = 0x7FFFFFFF"
definition HPROTECT :: u32 where "HPROTECT = 1"
definition HANDLES_MAX :: nat where "HANDLES_MAX = HTABSIZE div 4"

definition HOBJ :: "u32 \<Rightarrow> addr" where "HOBJ x = unat (x AND NOT HPROTECT)"
definition HPROT :: "u32 \<Rightarrow> bool" where "HPROT x \<longleftrightarrow> x AND HPROTECT \<noteq> 0"
definition HUSED :: "u32 \<Rightarrow> bool" where "HUSED x \<longleftrightarrow> x AND 0x80000000 \<noteq> 0"

record hndl = kernel +
  htab :: "nat \<Rightarrow> u32"
  hfreelist :: u32
  htabsize :: nat

definition add_free :: "nat \<Rightarrow> 'a hndl_scheme \<Rightarrow> 'a hndl_scheme" where
  "add_free h s = s\<lparr>htab := (htab s)(h := hfreelist s), hfreelist := of_nat h\<rparr>"

definition expand_htab :: "'a hndl_scheme \<Rightarrow> int \<times> 'a hndl_scheme" where
  "expand_htab s =
     (if htabsize s = HANDLES_MAX then (- ENFILE, s)
      else
        let s1 = foldr add_free [htabsize s ..< htabsize s + HANDLES_PER_PAGE] s
        in (0, s1\<lparr>htabsize := htabsize s1 + HANDLES_PER_PAGE\<rparr>))"

text \<open>The search loop of \<^verbatim>\<open>remove_from_freelist\<close>. Its position never changes.\<close>

partial_function (option) free_loop :: "nat \<Rightarrow> u32 \<Rightarrow> 'a hndl_scheme \<Rightarrow> (int \<times> 'a hndl_scheme) option" where
  "free_loop h fl s =
     (if fl = HEND then Some (- EBADF, s)
      else if htab s (unat fl) = of_nat h then Some (0, s\<lparr>htab := (htab s)(unat fl := htab s h)\<rparr>)
      else free_loop h fl s)"

definition remove_from_freelist :: "nat \<Rightarrow> 'a hndl_scheme \<Rightarrow> (int \<times> 'a hndl_scheme) option" where
  "remove_from_freelist h s =
     (if hfreelist s = of_nat h then Some (0, s\<lparr>hfreelist := htab s h\<rparr>) else free_loop h (hfreelist s) s)"

definition hlookup :: "int \<Rightarrow> 'a hndl_scheme \<Rightarrow> addr option" where
  "hlookup h s =
     (if h < 0 \<or> h \<ge> int (htabsize s) then None
      else if \<not> HUSED (htab s (nat h)) then None
      else Some (HOBJ (htab s (nat h))))"

definition halloc :: "u32 \<Rightarrow> 'a hndl_scheme \<Rightarrow> int \<times> 'a hndl_scheme" where
  "halloc o' s =
     (let (rc, s1) = (if hfreelist s = HEND then expand_htab s else (0, s)) in
      if rc < 0 then (rc, s1)
      else
        let h = unat (hfreelist s1);
            s2 = s1\<lparr>hfreelist := htab s1 h\<rparr>;
            s3 = s2\<lparr>htab := (htab s2)(h := o')\<rparr>
        in (int h, upd_obj (unat o') (\<lambda>r. r\<lparr>o_handle_count := o_handle_count r + 1\<rparr>) s3))"

text \<open>The loop of \<^verbatim>\<open>hassign\<close> that makes the table large enough.\<close>

function expand_to :: "nat \<Rightarrow> 'a hndl_scheme \<Rightarrow> int \<times> 'a hndl_scheme" where
  "expand_to h s =
     (if htabsize s \<le> h then
        case expand_htab s of (rc, s1) \<Rightarrow> if rc < 0 then (rc, s1) else expand_to h s1
      else (0, s))"
  by pat_completeness auto

lemma foldr_htabsize: "htabsize (foldr add_free hs s) = htabsize s"
  by (induction hs) (simp_all add: add_free_def)

termination expand_to
  by (relation "measure (\<lambda>(h, s). Suc h - htabsize s)")
    (auto simp: expand_htab_def Let_def foldr_htabsize HANDLES_PER_PAGE_def errno_defs split: if_splits)

declare expand_to.simps [simp del]

text \<open>Dropping the last handle: close the object, and destroy it unless it is locked.\<close>

definition drop_object ::
    "(addr \<Rightarrow> 'a hndl_scheme \<Rightarrow> (int \<times> 'a hndl_scheme) option) \<Rightarrow> (addr \<Rightarrow> 'a hndl_scheme \<Rightarrow> 'a hndl_scheme) \<Rightarrow>
     addr \<Rightarrow> 'a hndl_scheme \<Rightarrow> (int \<times> 'a hndl_scheme) option" where
  "drop_object close_io destroy x s = do {
     (rc, s1) \<leftarrow> close_object close_io x s;
     Some (rc, if o_lock_count (objects s1 x) = 0 then destroy x s1 else s1)
   }"

definition hassign ::
    "(addr \<Rightarrow> 'a hndl_scheme \<Rightarrow> (int \<times> 'a hndl_scheme) option) \<Rightarrow> (addr \<Rightarrow> 'a hndl_scheme \<Rightarrow> 'a hndl_scheme) \<Rightarrow>
     u32 \<Rightarrow> int \<Rightarrow> 'a hndl_scheme \<Rightarrow> (int \<times> 'a hndl_scheme) option" where
  "hassign close_io destroy o' h s =
     (if h < 0 \<or> h > int HANDLES_MAX then Some (- EBADF, s)
      else
        let (rc, s1) = expand_to (nat h) s; e = htab s1 (nat h) in
        if rc < 0 then Some (rc, s1)
        else do {
          (rc2, s2) \<leftarrow>
            (if \<not> HUSED e then remove_from_freelist (nat h) s1
             else if HPROT e then Some (- EACCES, s1)
             else
               let x = HOBJ e; sx = upd_obj x (\<lambda>r. r\<lparr>o_handle_count := o_handle_count r - 1\<rparr>) s1 in
               if o_handle_count (objects sx x) = 0 then drop_object close_io destroy x sx else Some (0, sx));
          Some (if rc2 < 0 then (rc2, s2)
                else (0, upd_obj (unat o') (\<lambda>r. r\<lparr>o_handle_count := o_handle_count r + 1\<rparr>)
                           (s2\<lparr>htab := (htab s2)(nat h := o')\<rparr>)))
        })"

definition hfree ::
    "(addr \<Rightarrow> 'a hndl_scheme \<Rightarrow> (int \<times> 'a hndl_scheme) option) \<Rightarrow> (addr \<Rightarrow> 'a hndl_scheme \<Rightarrow> 'a hndl_scheme) \<Rightarrow>
     int \<Rightarrow> 'a hndl_scheme \<Rightarrow> (int \<times> 'a hndl_scheme) option" where
  "hfree close_io destroy h s =
     (case hlookup h s of
        None \<Rightarrow> Some (- EBADF, s)
      | Some x \<Rightarrow>
          if HPROT (htab s (nat h)) then Some (- EACCES, s)
          else
            let s1 = s\<lparr>htab := (htab s)(nat h := hfreelist s), hfreelist := word_of_int h\<rparr>;
                s2 = upd_obj x (\<lambda>r. r\<lparr>o_handle_count := o_handle_count r - 1\<rparr>) s1
            in if o_handle_count (objects s2 x) > 0 then Some (0, s2) else drop_object close_io destroy x s2)"

definition hprotect :: "int \<Rightarrow> 'a hndl_scheme \<Rightarrow> int \<times> 'a hndl_scheme" where
  "hprotect h s =
     (if hlookup h s = None then (- EBADF, s) else (0, s\<lparr>htab := (htab s)(nat h := htab s (nat h) OR HPROTECT)\<rparr>))"

definition hunprotect :: "int \<Rightarrow> 'a hndl_scheme \<Rightarrow> int \<times> 'a hndl_scheme" where
  "hunprotect h s =
     (if hlookup h s = None then (- EBADF, s) else (0, s\<lparr>htab := (htab s)(nat h := htab s (nat h) AND NOT HPROTECT)\<rparr>))"

text \<open>\<open>ty = None\<close> is \<^verbatim>\<open>OBJECT_ANY\<close>.\<close>

definition olock :: "int \<Rightarrow> otype option \<Rightarrow> 'a hndl_scheme \<Rightarrow> addr option \<times> 'a hndl_scheme" where
  "olock h ty s =
     (case hlookup h s of
        None \<Rightarrow> (None, s)
      | Some x \<Rightarrow>
          if ty \<noteq> None \<and> ty \<noteq> Some (o_type (objects s x)) then (None, s)
          else if o_handle_count (objects s x) = 0 then (None, s)
          else (Some x, upd_obj x (\<lambda>r. r\<lparr>o_lock_count := o_lock_count r + 1\<rparr>) s))"

definition orel :: "(addr \<Rightarrow> 'a hndl_scheme \<Rightarrow> int \<times> 'a hndl_scheme) \<Rightarrow> addr \<Rightarrow> 'a hndl_scheme \<Rightarrow> int \<times> 'a hndl_scheme" where
  "orel destroy_object x s =
     (let s1 = upd_obj x (\<lambda>r. r\<lparr>o_lock_count := o_lock_count r - 1\<rparr>) s in
      if o_lock_count (objects s1 x) = 0 \<and> o_handle_count (objects s1 x) = 0 then destroy_object x s1 else (0, s1))"


section \<open>The table and its list of free handles\<close>

fun free_chain :: "(nat \<Rightarrow> u32) \<Rightarrow> u32 \<Rightarrow> nat list \<Rightarrow> bool" where
  "free_chain t w [] \<longleftrightarrow> w = HEND"
| "free_chain t w (h # hs) \<longleftrightarrow> w = of_nat h \<and> free_chain t (t h) hs"

definition htab_ok :: "'a hndl_scheme \<Rightarrow> nat list \<Rightarrow> bool" where
  "htab_ok s F \<longleftrightarrow> htabsize s \<le> HANDLES_MAX \<and> HANDLES_PER_PAGE dvd htabsize s \<and> free_chain (htab s) (hfreelist s) F \<and> distinct F \<and>
     set F = {h. h < htabsize s \<and> \<not> HUSED (htab s h)}"

lemma htab_okD:
  assumes "htab_ok s F"
  shows "htabsize s \<le> HANDLES_MAX" "HANDLES_PER_PAGE dvd htabsize s" "free_chain (htab s) (hfreelist s) F" "distinct F"
    "h \<in> set F \<longleftrightarrow> h < htabsize s \<and> \<not> HUSED (htab s h)"
  using assms by (auto simp: htab_ok_def)

lemma free_bound: "htab_ok s F \<Longrightarrow> h \<in> set F \<Longrightarrow> h < htabsize s \<and> h < HANDLES_MAX \<and> \<not> HUSED (htab s h)"
  using htab_okD(1) [of s F] htab_okD(5) [of s F h] by simp

lemma HUSED_bit: "HUSED x \<longleftrightarrow> bit x 31"
  using and_exp_eq_0_iff_not_bit [of x 31] by (simp add: HUSED_def)

lemma HPROT_bit: "HPROT x \<longleftrightarrow> bit x 0"
  using and_exp_eq_0_iff_not_bit [of x 0] by (simp add: HPROT_def HPROTECT_def)

lemma not_used_small: "h < 2 ^ 31 \<Longrightarrow> \<not> HUSED (of_nat h)"
  by (simp add: HUSED_bit bit_of_nat_iff bit_iff_odd [of h])

lemma not_used_HEND: "\<not> HUSED HEND"
  using not_used_small [of "0x7FFFFFFF"] by (simp add: HEND_def)

lemma handle_word: "h < HANDLES_MAX \<Longrightarrow> unat (of_nat h :: u32) = h" "h < HANDLES_MAX \<Longrightarrow> (of_nat h :: u32) \<noteq> HEND"
proof -
  assume h: "h < HANDLES_MAX"
  then show u: "unat (of_nat h :: u32) = h"
    by (simp add: HANDLES_MAX_def HTABSIZE_def unsigned_of_nat take_bit_nat_eq_self)
  show "(of_nat h :: u32) \<noteq> HEND"
  proof
    assume "(of_nat h :: u32) = HEND"
    then have "h = unat HEND" using u by simp
    then show False using h by (simp add: HEND_def HANDLES_MAX_def HTABSIZE_def)
  qed
qed

lemma free_chain_cong: "(\<And>h. h \<in> set F \<Longrightarrow> t' h = t h) \<Longrightarrow> free_chain t' w F = free_chain t w F"
  by (induction F arbitrary: w) simp_all

lemma add_free_simps [simp]:
  "htab (add_free h s) = (htab s)(h := hfreelist s)" "hfreelist (add_free h s) = of_nat h" "htabsize (add_free h s) = htabsize s"
  "objects (add_free h s) = objects s"
  by (simp_all add: add_free_def)

lemma add_free_fields:
  "htabsize (foldr add_free hs s) = htabsize s"
  "objects (foldr add_free hs s) = objects s" "h \<notin> set hs \<Longrightarrow> htab (foldr add_free hs s) h = htab s h"
  by (induction hs) simp_all

lemma add_free_chain:
  "distinct hs \<Longrightarrow> set hs \<inter> set F = {} \<Longrightarrow> free_chain (htab s) (hfreelist s) F \<Longrightarrow>
    free_chain (htab (foldr add_free hs s)) (hfreelist (foldr add_free hs s)) (hs @ F)"
proof (induction hs)
  case (Cons h hs)
  let ?s = "foldr add_free hs s"
  have "free_chain (htab ?s) (hfreelist ?s) (hs @ F)" by (rule Cons.IH) (use Cons.prems in auto)
  moreover have "free_chain ((htab ?s)(h := hfreelist ?s)) (hfreelist ?s) (hs @ F) = free_chain (htab ?s) (hfreelist ?s) (hs @ F)"
    by (rule free_chain_cong) (use Cons.prems in auto)
  ultimately show ?case by (simp add: fun_upd_def)
qed simp

lemma add_free_unused:
  assumes "\<not> HUSED (hfreelist s)" "\<forall>h \<in> set hs. h < 2 ^ 31"
  shows "\<not> HUSED (hfreelist (foldr add_free hs s)) \<and> (\<forall>h \<in> set hs. \<not> HUSED (htab (foldr add_free hs s) h))"
  using assms(2)
proof (induction hs)
  case (Cons h hs)
  then show ?case using not_used_small [of h] by auto
qed (use assms(1) in simp)

lemma free_chain_unused:
  assumes "htab_ok s F"
  shows "\<not> HUSED (hfreelist s)"
proof (cases F)
  case Nil
  then show ?thesis using htab_okD(3) [OF assms] not_used_HEND by simp
next
  case (Cons h hs)
  then have "hfreelist s = of_nat h" "h < htabsize s" using htab_okD(3,5) [OF assms] by auto
  then show ?thesis using not_used_small [of h] htab_okD(1) [OF assms] by (simp add: HANDLES_MAX_def HTABSIZE_def)
qed

lemma expand_htab_ok:
  assumes "htab_ok s F" "htabsize s \<noteq> HANDLES_MAX"
  obtains s' where "expand_htab s = (0, s')" "htab_ok s' ([htabsize s ..< htabsize s + HANDLES_PER_PAGE] @ F)"
    "htabsize s' = htabsize s + HANDLES_PER_PAGE" "objects s' = objects s" "\<And>h. h < htabsize s \<Longrightarrow> htab s' h = htab s h"
proof -
  let ?hs = "[htabsize s ..< htabsize s + HANDLES_PER_PAGE]"
  define s1 where "s1 = foldr add_free ?hs s"
  let ?s' = "s1\<lparr>htabsize := htabsize s1 + HANDLES_PER_PAGE\<rparr>"
  note k = htab_okD [OF assms(1)]
  have run: "expand_htab s = (0, ?s')" using assms(2) by (simp add: expand_htab_def s1_def Let_def)
  have f: "htabsize s1 = htabsize s" "objects s1 = objects s" "\<And>h. h < htabsize s \<Longrightarrow> htab s1 h = htab s h"
    by (simp_all add: s1_def add_free_fields)
  obtain c where c: "htabsize s = 1024 * c" using k(2) unfolding HANDLES_PER_PAGE_def by (elim dvdE)
  have mx: "HANDLES_MAX = 1024 * 4096" by (simp add: HANDLES_MAX_def HTABSIZE_def)
  have "c \<noteq> 4096" using assms(2) c mx by metis
  moreover have "c \<le> 4096" using k(1) unfolding c mx by linarith
  ultimately have "1024 * (c + 1) \<le> 1024 * (4096 :: nat)" by (intro mult_le_mono2) linarith
  then have room: "htabsize s + HANDLES_PER_PAGE \<le> HANDLES_MAX" unfolding c mx HANDLES_PER_PAGE_def by (simp only: distrib_left mult_1_right)
  have "h \<notin> set F" if "h \<in> set ?hs" for h using k(5) [of h] that by simp
  then have dis: "set ?hs \<inter> set F = {}" by blast
  have "free_chain (htab s1) (hfreelist s1) (?hs @ F)" unfolding s1_def by (rule add_free_chain [OF _ dis k(3)]) simp
  moreover have new: "\<not> HUSED (htab s1 h)" if "h \<in> set ?hs" for h
    using add_free_unused [OF free_chain_unused [OF assms(1)], of ?hs] room that
    by (auto simp: s1_def HANDLES_MAX_def HTABSIZE_def)
  have "h \<in> set (?hs @ F) \<longleftrightarrow> h < htabsize s + HANDLES_PER_PAGE \<and> \<not> HUSED (htab s1 h)" for h
    using new [of h] f(3) [of h] k(5) [of h] by (cases "h < htabsize s") auto
  then have "set (?hs @ F) = {h. h < htabsize s + HANDLES_PER_PAGE \<and> \<not> HUSED (htab s1 h)}" by blast
  ultimately have "htab_ok ?s' (?hs @ F)" using room k(2,4) dis by (simp add: htab_ok_def f(1))
  then show thesis using that [OF run] f by simp
qed

text \<open>Valid object addresses: in the kernel's half of the address space and aligned.\<close>

definition kernel_object :: "u32 \<Rightarrow> bool" where
  "kernel_object x \<longleftrightarrow> bit x 31 \<and> \<not> bit x 0"

lemma HOBJ_object: "kernel_object x \<Longrightarrow> HOBJ x = unat x"
proof -
  assume "kernel_object x"
  then have "x AND NOT HPROTECT = x" by (intro bit_eqI) (auto simp: bit_simps HPROTECT_def kernel_object_def bit_1_iff intro!: gr0I)
  then show ?thesis by (simp add: HOBJ_def)
qed

text \<open>Taking the first free handle.\<close>

lemma take_handle:
  assumes "htab_ok s (h # F)" "kernel_object x"
  defines "s' \<equiv> s\<lparr>hfreelist := htab s h, htab := (htab s)(h := x)\<rparr>"
  shows "hfreelist s = of_nat h" "htab_ok s' F" "hlookup (int h) s = None" "hlookup (int h) s' = Some (unat x)"
    "k \<noteq> int h \<Longrightarrow> hlookup k s' = hlookup k s"
proof -
  note k = htab_okD [OF assms(1)]
  have u: "HUSED x" using assms(2) by (simp add: kernel_object_def HUSED_bit)
  have h: "h < htabsize s" "\<not> HUSED (htab s h)" using k(5) [of h] by auto
  show "hfreelist s = of_nat h" using k(3) by simp
  have "free_chain ((htab s)(h := x)) (htab s h) F = free_chain (htab s) (htab s h) F"
    by (rule free_chain_cong) (use k(4) in auto)
  moreover have "g \<in> set F \<longleftrightarrow> g < htabsize s \<and> \<not> HUSED (((htab s)(h := x)) g)" for g
    using k(4) k(5) [of g] u by auto
  then have "set F = {g. g < htabsize s \<and> \<not> HUSED (((htab s)(h := x)) g)}" by blast
  ultimately show "htab_ok s' F" using k by (simp add: htab_ok_def s'_def)
  show "hlookup (int h) s = None" "hlookup (int h) s' = Some (unat x)" using h u
    by (simp_all add: hlookup_def s'_def HOBJ_object [OF assms(2)])
  show "hlookup k s' = hlookup k s" if "k \<noteq> int h"
  proof (cases "0 \<le> k")
    case True
    then have "nat k \<noteq> h" using that by auto
    then show ?thesis by (simp add: hlookup_def s'_def)
  qed (simp add: hlookup_def)
qed


lemma htab_ok_objects [simp]: "htab_ok (upd_obj x f s) F = htab_ok s F" "hlookup h (upd_obj x f s) = hlookup h s"
  "htab (upd_obj x f s) = htab s" "hfreelist (upd_obj x f s) = hfreelist s" "htabsize (upd_obj x f s) = htabsize s"
  by (simp_all add: htab_ok_def hlookup_def upd_obj_def)

lemma hlookup_upd:
  "hlookup k (s\<lparr>htab := (htab s)(h := e), hfreelist := f\<rparr>) =
    (if k = int h then if h < htabsize s \<and> HUSED e then Some (HOBJ e) else None else hlookup k s)"
proof (cases "0 \<le> k")
  case True
  then have "nat k = h \<longleftrightarrow> k = int h" by auto
  then show ?thesis using True by (simp add: hlookup_def)
qed (auto simp: hlookup_def)

lemma halloc_take:
  assumes "htab_ok s1 (h # F)" "kernel_object x" "(if hfreelist s = HEND then expand_htab s else (0, s)) = (0, s1)"
  shows "halloc x s = (int h, upd_obj (unat x) (\<lambda>r. r\<lparr>o_handle_count := o_handle_count r + 1\<rparr>) (s1\<lparr>hfreelist := htab s1 h, htab := (htab s1)(h := x)\<rparr>))"
proof -
  have "h < HANDLES_MAX" using free_bound [OF assms(1), of h] by simp
  then have u: "unat (hfreelist s1) = h" using take_handle(1) [OF assms(1,2)] handle_word(1) by simp
  show ?thesis unfolding halloc_def assms(3) by (simp add: Let_def flip: u)
qed

lemma halloc_ok:
  assumes "htab_ok s F" "kernel_object x" "F \<noteq> [] \<or> htabsize s \<noteq> HANDLES_MAX"
  obtains h F' s' where "halloc x s = (int h, s')" "h < HANDLES_MAX" "htab_ok s' F'" "hlookup (int h) s = None"
    "hlookup (int h) s' = Some (unat x)" "\<And>k. k \<noteq> int h \<Longrightarrow> hlookup k s' = hlookup k s"
    "objects s' = (objects s)(unat x := (objects s (unat x))\<lparr>o_handle_count := o_handle_count (objects s (unat x)) + 1\<rparr>)"
    "htab s' h = x"
proof -
  obtain h F1 s1 where s1: "(if hfreelist s = HEND then expand_htab s else (0, s)) = (0, s1)" "htab_ok s1 (h # F1)" "objects s1 = objects s"
    "\<And>k. hlookup k s1 = hlookup k s"
  proof (cases F)
    case Nil
    then have "hfreelist s = HEND" "htabsize s \<noteq> HANDLES_MAX" using htab_okD(3) [OF assms(1)] assms(3) by auto
    moreover obtain s1 where e: "expand_htab s = (0, s1)" "htab_ok s1 ([htabsize s ..< htabsize s + HANDLES_PER_PAGE] @ F)"
      "htabsize s1 = htabsize s + HANDLES_PER_PAGE" "objects s1 = objects s" "\<And>h. h < htabsize s \<Longrightarrow> htab s1 h = htab s h"
      using expand_htab_ok [OF assms(1)] calculation(2) by blast
    moreover have "[htabsize s ..< htabsize s + HANDLES_PER_PAGE] = htabsize s # [Suc (htabsize s) ..< htabsize s + HANDLES_PER_PAGE]"
      by (rule upt_conv_Cons) (simp add: HANDLES_PER_PAGE_def)
    moreover have "hlookup k s1 = hlookup k s" for k
    proof (cases "0 \<le> k \<and> k < int (htabsize s)")
      case True
      then have "nat k < htabsize s" by linarith
      then show ?thesis using e(3) e(5) [of "nat k"] True by (simp add: hlookup_def)
    next
      case False
      have "\<not> HUSED (htab s1 j)" if "htabsize s \<le> j" "j < htabsize s + HANDLES_PER_PAGE" for j
        using htab_okD(5) [OF e(2), of j] that by auto
      then show ?thesis using False e(3) by (auto simp: hlookup_def)
    qed
    ultimately show thesis using that by auto
  next
    case (Cons h F1)
    then have "hfreelist s = of_nat h" "h < HANDLES_MAX" using htab_okD(3) [OF assms(1)] free_bound [OF assms(1), of h] by simp_all
    then have "hfreelist s \<noteq> HEND" using handle_word(2) by simp
    then show thesis using that [of s h F1] assms(1) Cons by simp
  qed
  note t = take_handle [OF s1(2) assms(2)]
  have "h < HANDLES_MAX" using free_bound [OF s1(2), of h] by simp
  then show thesis using that [OF halloc_take [OF s1(2) assms(2) s1(1)], of F1] t s1(3,4) by simp
qed

section \<open>Correctness of the handle table\<close>

text \<open>
  C12: \<^verbatim>\<open>halloc\<close> fails with \<^verbatim>\<open>ENFILE\<close> and without effect exactly when all handles the table
  can ever hold are in use. Otherwise it returns a handle that was not in use, enters the object under it, counts the handle in the object, leaves
  every other handle alone and keeps the list of free handles exact.
\<close>

theorem halloc_correct:
  assumes "htab_ok s F" "kernel_object x"
  shows "if F = [] \<and> htabsize s = HANDLES_MAX then halloc x s = (- ENFILE, s)
    else \<exists>h s' F'. halloc x s = (int h, s') \<and> h < HANDLES_MAX \<and> htab_ok s' F' \<and> hlookup (int h) s = None \<and>
      hlookup (int h) s' = Some (unat x) \<and> (\<forall>k. k \<noteq> int h \<longrightarrow> hlookup k s' = hlookup k s) \<and>
      o_handle_count (objects s' (unat x)) = o_handle_count (objects s (unat x)) + 1"
proof (cases "F = [] \<and> htabsize s = HANDLES_MAX")
  case True
  then show ?thesis using htab_okD(3) [OF assms(1)] by (simp add: halloc_def expand_htab_def errno_defs)
next
  case False
  then obtain h F' s' where "halloc x s = (int h, s')" "h < HANDLES_MAX" "htab_ok s' F'" "hlookup (int h) s = None"
    "hlookup (int h) s' = Some (unat x)" "\<And>k. k \<noteq> int h \<Longrightarrow> hlookup k s' = hlookup k s"
    "objects s' = (objects s)(unat x := (objects s (unat x))\<lparr>o_handle_count := o_handle_count (objects s (unat x)) + 1\<rparr>)"
    using halloc_ok [OF assms] by blast
  then show ?thesis using False by auto
qed

definition demo_hndl :: hndl where
  "demo_hndl = kernel.extend demo_kernel \<lparr>htab = (\<lambda>_. HEND), hfreelist = HEND, htabsize = 0\<rparr>"

lemma demo_hndl_ok: "htab_ok demo_hndl []"
  by (simp add: demo_hndl_def kernel.defs htab_ok_def)

theorem halloc_correct_witness:
  "\<exists>h s'. halloc 0x80001000 demo_hndl = (int h, s') \<and> hlookup (int h) s' = Some 0x80001000"
proof -
  have "kernel_object 0x80001000" by (simp add: kernel_object_def)
  moreover have "htabsize demo_hndl \<noteq> HANDLES_MAX" by (simp add: demo_hndl_def kernel.defs HANDLES_MAX_def HTABSIZE_def)
  ultimately show ?thesis using halloc_correct [OF demo_hndl_ok, of "0x80001000"] by auto
qed

text \<open>
  C38: an object that keeps another reference can be given a handle and have it freed again: the object's reference count and
  every lookup are as before. While the handle is protected, freeing it fails with \<^verbatim>\<open>EACCES\<close> and changes nothing.
\<close>

theorem handle_roundtrip:
  assumes "htab_ok s F" "kernel_object x" "F \<noteq> [] \<or> htabsize s \<noteq> HANDLES_MAX"
    "0 < o_handle_count (objects s (unat x))" "o_handle_count (objects s (unat x)) < 0xFFFF"
  shows "\<exists>h s1 s2 s3. halloc x s = (h, s1) \<and> hprotect h s1 = (0, s2) \<and> hfree close_io destroy h s2 = Some (- EACCES, s2) \<and>
    hunprotect h s2 = (0, s1) \<and> hfree close_io destroy h s1 = Some (0, s3) \<and> (\<forall>k. hlookup k s3 = hlookup k s) \<and> objects s3 = objects s"
proof -
  obtain h F' s1 where a: "halloc x s = (int h, s1)" "h < HANDLES_MAX" "htab_ok s1 F'" "hlookup (int h) s = None"
    "hlookup (int h) s1 = Some (unat x)" "\<And>k. k \<noteq> int h \<Longrightarrow> hlookup k s1 = hlookup k s"
    "objects s1 = (objects s)(unat x := (objects s (unat x))\<lparr>o_handle_count := o_handle_count (objects s (unat x)) + 1\<rparr>)" and
    e: "htab s1 h = x" using halloc_ok [OF assms(1-3)] by blast
  have hs: "h < htabsize s1" using a(5) by (simp add: hlookup_def split: if_splits)
  have b: "bit x 31" "\<not> bit x 0" using assms(2) by (simp_all add: kernel_object_def)
  let ?s2 = "s1\<lparr>htab := (htab s1)(h := x OR HPROTECT)\<rparr>"
  have p: "HUSED (x OR HPROTECT)" "HPROT (x OR HPROTECT)" "\<not> HPROT x"
    using b by (simp_all add: HUSED_bit HPROT_bit bit_or_iff HPROTECT_def)
  have x': "(x OR HPROTECT) AND NOT HPROTECT = x"
    by (intro bit_eqI) (use b(2) in \<open>auto simp: bit_simps HPROTECT_def bit_1_iff intro!: gr0I\<close>)
  have l2: "hlookup (int h) ?s2 \<noteq> None" using hs p(1) by (simp add: hlookup_def)
  have "hprotect (int h) s1 = (0, ?s2)" using a(5) e by (simp add: hprotect_def)
  moreover have "hfree close_io destroy (int h) ?s2 = Some (- EACCES, ?s2)"
    using l2 p(2) by (auto simp: hfree_def split: option.splits)
  moreover have "hunprotect (int h) ?s2 = (0, s1)"
    unfolding hunprotect_def if_not_P [OF l2] using e by (simp add: x' fun_upd_idem)
  moreover define s3 where "s3 = upd_obj (unat x) (\<lambda>r. r\<lparr>o_handle_count := o_handle_count r - 1\<rparr>)
    (s1\<lparr>htab := (htab s1)(h := hfreelist s1), hfreelist := of_nat h\<rparr>)"
  have o3: "objects s3 = objects s" by (simp add: s3_def a(7))
  have "hfree close_io destroy (int h) s1 = Some (0, s3)"
    using a(5) p(3) e assms(4) by (simp add: hfree_def Let_def s3_def a(7))
  moreover have "hlookup k s3 = hlookup k s" for k
    using a(4) a(6) [of k] free_chain_unused [OF a(3)] by (simp add: s3_def hlookup_upd)
  ultimately show ?thesis using a(1) o3 by blast
qed

theorem handle_roundtrip_witness:
  "\<exists>h s1 s3. halloc 0x80001000 (upd_obj 0x80001000 (\<lambda>r. r\<lparr>o_handle_count := 1\<rparr>) demo_hndl) = (h, s1) \<and>
     hfree (\<lambda>_ _. None) (\<lambda>_ s. s) h s1 = Some (0, s3) \<and> hlookup h s3 = None"
proof -
  let ?s = "upd_obj 0x80001000 (\<lambda>r. r\<lparr>o_handle_count := 1\<rparr>) demo_hndl"
  have "htab_ok ?s []" using demo_hndl_ok by simp
  moreover have "kernel_object 0x80001000" by (simp add: kernel_object_def)
  moreover have "htabsize ?s \<noteq> HANDLES_MAX" by (simp add: upd_obj_def demo_hndl_def kernel.defs HANDLES_MAX_def HTABSIZE_def)
  moreover have "0 < o_handle_count (objects ?s (unat (0x80001000 :: u32)))" "o_handle_count (objects ?s (unat (0x80001000 :: u32))) < 0xFFFF"
    by simp_all
  ultimately have "\<exists>h s1 s2 s3. halloc 0x80001000 ?s = (h, s1) \<and> hprotect h s1 = (0, s2) \<and>
    hfree (\<lambda>_ _. None) (\<lambda>_ s. s) h s2 = Some (- EACCES, s2) \<and> hunprotect h s2 = (0, s1) \<and>
    hfree (\<lambda>_ _. None) (\<lambda>_ s. s) h s1 = Some (0, s3) \<and> (\<forall>k. hlookup k s3 = hlookup k ?s) \<and> objects s3 = objects ?s"
    by (intro handle_roundtrip) auto
  moreover have "hlookup k ?s = None" for k using not_used_HEND by (simp add: hlookup_def demo_hndl_def kernel.defs upd_obj_def)
  ultimately show ?thesis by metis
qed

lemma free_loop_stuck:
  "free_loop h fl s = Some y \<Longrightarrow> htab s (unat fl) = of_nat h \<or> fl = HEND"
  by (erule free_loop.raw_induct [where P = "\<lambda>h fl s y. htab s (unat fl) = of_nat h \<or> fl = HEND", rotated])
    (metis surj_pair)

text \<open>
  C16: assigning a chosen handle that is free but neither the first nor the second on the list of free handles does not come back:
  the search in \<^verbatim>\<open>remove_from_freelist\<close> never moves along the list.
\<close>

theorem remove_from_freelist_stuck:
  assumes "htab_ok s (a # b # F)" "c \<in> set F"
  shows "remove_from_freelist c s = None"
proof -
  note k = htab_okD [OF assms(1)]
  have lt: "a < HANDLES_MAX" "b < HANDLES_MAX" "c < HANDLES_MAX" using free_bound [OF assms(1)] assms(2) by simp_all
  have w: "hfreelist s = of_nat a" "htab s a = of_nat b" using k(3) by auto
  have "(of_nat c :: u32) \<noteq> of_nat a" "(of_nat c :: u32) \<noteq> of_nat b"
    using handle_word(1) [OF lt(1)] handle_word(1) [OF lt(2)] handle_word(1) [OF lt(3)] k(4) assms(2) by (metis distinct.simps(2) list.set_intros(2))+
  moreover have "free_loop c (of_nat a) s \<noteq> Some y" for y
    using free_loop_stuck [of c "of_nat a" s y] calculation w handle_word [OF lt(1)] by auto
  then have "free_loop c (of_nat a) s = None" by blast
  ultimately show ?thesis using w by (simp add: remove_from_freelist_def)
qed

theorem remove_from_freelist_stuck_witness: "remove_from_freelist 2 (snd (expand_htab demo_hndl)) = None"
proof -
  have z: "htabsize demo_hndl = 0" by (simp add: demo_hndl_def kernel.defs)
  then have "htabsize demo_hndl \<noteq> HANDLES_MAX" by (simp add: HANDLES_MAX_def HTABSIZE_def)
  then obtain s' where s': "expand_htab demo_hndl = (0, s')" "htab_ok s' ([0 ..< HANDLES_PER_PAGE] @ [])"
    using expand_htab_ok [OF demo_hndl_ok] z by (metis add_0)
  have n: "2 < HANDLES_PER_PAGE" by (simp add: HANDLES_PER_PAGE_def)
  then have "[0 ..< HANDLES_PER_PAGE] = 0 # 1 # [2 ..< HANDLES_PER_PAGE]"
    by (simp add: upt_conv_Cons numeral_2_eq_2)
  then show ?thesis using remove_from_freelist_stuck [of s' 0 1 "[2 ..< HANDLES_PER_PAGE]" 2] s' n by simp
qed

end
