(* ===== verification/Select.thy ===== *)
theory Select
  imports Iomux Hndl
begin

text \<open>
  Waiting for several files or sockets: \<^verbatim>\<open>select\<close> and \<^verbatim>\<open>poll\<close> of \<^verbatim>\<open>src/src/sys/krnl/iomux.c\<close>, on the handle
  table and the multiplexers. An \<^verbatim>\<open>fd_set\<close> is its count and its array of handles; a set the caller leaves out is \<open>None\<close>. The
  three sets of a call are different objects. The parameter \<open>destroy\<close> is \<^verbatim>\<open>destroy_object\<close>, \<open>mx\<close>, \<open>wb\<close>, \<open>wbtmo\<close>
  and \<open>tm\<close> are the addresses of the local variables of the call. A call that blocks continues with \<open>select_end\<close> or \<open>poll_end\<close>
  once its wait has a result.
\<close>

unbundle bit_operations_syntax

definition IOEVT_WRITE :: u32 where "IOEVT_WRITE = 2"
definition IOEVT_ERROR :: u32 where "IOEVT_ERROR = 4"
definition IOEVT_ACCEPT :: u32 where "IOEVT_ACCEPT = 8"
definition IOEVT_CONNECT :: u32 where "IOEVT_CONNECT = 0x10"
definition IOEVT_CLOSE :: u32 where "IOEVT_CLOSE = 0x20"
definition POLLIN :: u16 where "POLLIN = 1"
definition POLLOUT :: u16 where "POLLOUT = 4"
definition POLLERR :: u16 where "POLLERR = 8"
definition POLLHUP :: u16 where "POLLHUP = 0x10"
definition POLLNVAL :: u16 where "POLLNVAL = 0x20"
definition FD_SETSIZE :: nat where "FD_SETSIZE = 64"

record fd_set =
  fs_count :: u32
  fs_fd :: "nat \<Rightarrow> int"

record pollfd =
  p_fd :: int
  p_events :: u16
  p_revents :: u16

type_synonym fd_sets = "fd_set option \<times> fd_set option \<times> fd_set option"
type_synonym 'a destroy = "addr \<Rightarrow> 'a hndl_scheme \<Rightarrow> int \<times> 'a hndl_scheme"

definition ISIOOBJECT :: "kobject \<Rightarrow> bool" where
  "ISIOOBJECT r \<longleftrightarrow> o_type r = ObjSocket \<or> o_type r = ObjFile"

text \<open>The loop of \<^verbatim>\<open>check_fds\<close>; \<open>k\<close> is the number of handles left.\<close>

fun check_fds_loop :: "'a destroy \<Rightarrow> u32 \<Rightarrow> nat \<Rightarrow> nat \<Rightarrow> nat \<Rightarrow> fd_set \<Rightarrow> 'a hndl_scheme \<Rightarrow> int \<times> fd_set \<times> 'a hndl_scheme" where
  "check_fds_loop destroy eventmask 0 n matches fds s = (int matches, fds, s)"
| "check_fds_loop destroy eventmask (Suc k) n matches fds s =
     (case olock (fs_fd fds n) None s of
        (None, s1) \<Rightarrow> (- EBADF, fds, s1)
      | (Some iob, s1) \<Rightarrow>
          if \<not> ISIOOBJECT (objects s1 iob) then (- EBADF, fds, snd (orel destroy iob s1))
          else
            let hit = ucast (io_events_signaled (objects s1 iob)) AND eventmask \<noteq> 0;
                fds1 = (if hit then fds\<lparr>fs_fd := (fs_fd fds)(matches := fs_fd fds n)\<rparr> else fds)
            in check_fds_loop destroy eventmask k (n + 1) (if hit then matches + 1 else matches) fds1 (snd (orel destroy iob s1)))"

definition check_fds :: "'a destroy \<Rightarrow> fd_set option \<Rightarrow> u32 \<Rightarrow> 'a hndl_scheme \<Rightarrow> int \<times> fd_set option \<times> 'a hndl_scheme" where
  "check_fds destroy fds eventmask s =
     (case fds of
        None \<Rightarrow> (0, None, s)
      | Some f \<Rightarrow> (case check_fds_loop destroy eventmask (unat (fs_count f)) 0 0 f s of (rc, f1, s1) \<Rightarrow> (rc, Some f1, s1)))"

fun add_fds_loop :: "'a destroy \<Rightarrow> addr \<Rightarrow> fd_set \<Rightarrow> u32 \<Rightarrow> nat \<Rightarrow> nat \<Rightarrow> 'a hndl_scheme \<Rightarrow> (int \<times> 'a hndl_scheme) option" where
  "add_fds_loop destroy mx fds eventmask 0 n s = Some (0, s)"
| "add_fds_loop destroy mx fds eventmask (Suc k) n s =
     (case olock (fs_fd fds n) None s of
        (None, s1) \<Rightarrow> Some (- EBADF, s1)
      | (Some iob, s1) \<Rightarrow>
          if \<not> ISIOOBJECT (objects s1 iob) then Some (- EBADF, snd (orel destroy iob s1))
          else
            (case queue_ioobject mx iob eventmask 0 s1 of
               None \<Rightarrow> None
             | Some (rc, s2) \<Rightarrow>
                 if rc < 0 then Some (rc, s2) else add_fds_loop destroy mx fds eventmask k (n + 1) (snd (orel destroy iob s2))))"

definition add_fds_to_iomux :: "'a destroy \<Rightarrow> addr \<Rightarrow> fd_set option \<Rightarrow> u32 \<Rightarrow> 'a hndl_scheme \<Rightarrow> (int \<times> 'a hndl_scheme) option" where
  "add_fds_to_iomux destroy mx fds eventmask s =
     (case fds of None \<Rightarrow> Some (0, s) | Some f \<Rightarrow> add_fds_loop destroy mx f eventmask (unat (fs_count f)) 0 s)"

definition set_count :: "int \<Rightarrow> fd_set option \<Rightarrow> fd_set option" where
  "set_count c fds = map_option (\<lambda>f. f\<lparr>fs_count := word_of_int c\<rparr>) fds"

definition check_select :: "'a destroy \<Rightarrow> fd_sets \<Rightarrow> 'a hndl_scheme \<Rightarrow> int \<times> fd_sets \<times> 'a hndl_scheme" where
  "check_select destroy sets s =
     (let (r, w, e) = sets;
          (numread, r1, s1) = check_fds destroy r (IOEVT_READ OR IOEVT_ACCEPT OR IOEVT_CLOSE) s
      in if numread < 0 then (numread, (r1, w, e), s1)
         else
           let (numwrite, w1, s2) = check_fds destroy w (IOEVT_WRITE OR IOEVT_CONNECT) s1
           in if numwrite < 0 then (numwrite, (r1, w1, e), s2)
              else
                let (numexcept, e1, s3) = check_fds destroy e IOEVT_ERROR s2
                in if numexcept < 0 then (numexcept, (r1, w1, e1), s3)
                   else if numread \<noteq> 0 \<or> numwrite \<noteq> 0 \<or> numexcept \<noteq> 0
                   then (numread + numwrite + numexcept, (set_count numread r1, set_count numwrite w1, set_count numexcept e1), s3)
                   else (0, (r1, w1, e1), s3))"

definition select_end :: "'a destroy \<Rightarrow> addr \<Rightarrow> int \<Rightarrow> fd_sets \<Rightarrow> 'a hndl_scheme \<Rightarrow> (int \<times> fd_sets \<times> 'a hndl_scheme) option" where
  "select_end destroy mx rc sets s =
     (if rc < 0 then do { (_, s1) \<leftarrow> close_iomux mx s; Some (if rc = - ETIMEOUT then 0 else rc, sets, s1) }
      else
        let (rc1, (r, w, e), s1) = check_select destroy sets s;
            sets1 = (if rc1 = 0 then (set_count 0 r, set_count 0 w, set_count 0 e) else (r, w, e))
        in do { (_, s2) \<leftarrow> close_iomux mx s1; Some (rc1, sets1, s2) })"

text \<open>The time out in milliseconds of a \<^verbatim>\<open>timeval\<close> of seconds and microseconds; the division rounds towards zero.\<close>

definition select_tmo :: "(int \<times> int) option \<Rightarrow> u32" where
  "select_tmo timeout =
     (case timeout of
        None \<Rightarrow> INFINITE
      | Some (sec, usec) \<Rightarrow> word_of_int (sec * 1000 + (if usec \<ge> 0 then usec div 1000 else - (- usec div 1000))))"

definition sleep_call :: "'a hndl_ext kexec \<Rightarrow> nat \<Rightarrow> addr \<Rightarrow> u32 \<Rightarrow> 'a hndl_scheme \<Rightarrow> (int call \<times> 'a hndl_scheme) option" where
  "sleep_call exec fuel tm millisecs s = do {
     (c, s1) \<leftarrow> msleep exec fuel tm TMR_SLEEP millisecs s;
     Some (case c of Blocked \<Rightarrow> Blocked | Return rc \<Rightarrow> Return (if rc > 0 then - EINTR else 0), s1)
   }"

text \<open>The three calls of \<^verbatim>\<open>add_fds_to_iomux\<close> in \<^verbatim>\<open>select\<close>, each with its error exit.\<close>

definition select_add :: "'a destroy \<Rightarrow> addr \<Rightarrow> fd_sets \<Rightarrow> 'a hndl_scheme \<Rightarrow> (int \<times> 'a hndl_scheme) option" where
  "select_add destroy mx sets s =
     (let (r, w, e) = sets in do {
        (rc, s1) \<leftarrow> add_fds_to_iomux destroy mx r (IOEVT_READ OR IOEVT_ACCEPT OR IOEVT_CLOSE) s;
        if rc < 0 then do { (_, s2) \<leftarrow> close_iomux mx s1; Some (rc, s2) }
        else do {
          (rc1, s2) \<leftarrow> add_fds_to_iomux destroy mx w (IOEVT_WRITE OR IOEVT_CONNECT) s1;
          if rc1 < 0 then do { (_, s3) \<leftarrow> close_iomux mx s2; Some (rc1, s3) }
          else do {
            (rc2, s3) \<leftarrow> add_fds_to_iomux destroy mx e IOEVT_ERROR s2;
            if rc2 < 0 then do { (_, s4) \<leftarrow> close_iomux mx s3; Some (rc2, s4) } else Some (0, s3)
          }
        }
      })"

definition select ::
    "'a destroy \<Rightarrow> 'a hndl_ext kexec \<Rightarrow> nat \<Rightarrow> addr \<Rightarrow> addr \<Rightarrow> addr \<Rightarrow> addr \<Rightarrow> fd_sets \<Rightarrow> (int \<times> int) option \<Rightarrow>
     'a hndl_scheme \<Rightarrow> (int call \<times> fd_sets \<times> 'a hndl_scheme) option" where
  "select destroy exec fuel mx wb wbtmo tm sets timeout s =
     (let (rc, sets1, s1) = check_select destroy sets s; tmo = select_tmo timeout in
      if rc \<noteq> 0 then Some (Return rc, sets1, s1)
      else if tmo = 0 then Some (Return 0, sets1, s1)
      else if timeout \<noteq> None \<and> sets1 = (None, None, None)
      then do { (c, s2) \<leftarrow> sleep_call exec fuel tm tmo s1; Some (c, sets1, s2) }
      else do {
        (rc1, s3) \<leftarrow> select_add destroy mx sets1 (init_iomux mx 0 s1);
        if rc1 < 0 then Some (Return rc1, sets1, s3)
        else do {
          (c, s4) \<leftarrow> wait_for_object exec fuel wb wbtmo tm mx tmo s3;
          (case c of
             Blocked \<Rightarrow> Some (Blocked, sets1, s4)
           | Return rc2 \<Rightarrow> do { (rc3, sets2, s5) \<leftarrow> select_end destroy mx rc2 sets1 s4; Some (Return rc3, sets2, s5) })
        }
      })"

definition poll_mask :: "u16 \<Rightarrow> u32" where
  "poll_mask events =
     (let m = IOEVT_ERROR OR IOEVT_CLOSE;
          m1 = (if events AND POLLIN \<noteq> 0 then m OR IOEVT_READ OR IOEVT_ACCEPT else m)
      in if events AND POLLOUT \<noteq> 0 then m1 OR IOEVT_WRITE OR IOEVT_CONNECT else m1)"

definition poll_revents :: "u32 \<Rightarrow> u16" where
  "poll_revents m =
     (if m AND (IOEVT_READ OR IOEVT_ACCEPT) \<noteq> 0 then POLLIN else 0) OR
     (if m AND (IOEVT_WRITE OR IOEVT_CONNECT) \<noteq> 0 then POLLOUT else 0) OR
     (if m AND IOEVT_ERROR \<noteq> 0 then POLLERR else 0) OR
     (if m AND IOEVT_CLOSE \<noteq> 0 then POLLHUP else 0)"

text \<open>
  One round of the loop of \<^verbatim>\<open>check_poll\<close>. The \<^verbatim>\<open>orel\<close> at the end of the round runs on every path, also after the one in the
  branch for bad handles; for a handle without object it reads through a null pointer, which is \<open>None\<close>.
\<close>

definition check_pollfd :: "'a destroy \<Rightarrow> pollfd \<Rightarrow> 'a hndl_scheme \<Rightarrow> (pollfd \<times> 'a hndl_scheme) option" where
  "check_pollfd destroy p s =
     (if p_fd p \<ge> 0 then
        (case olock (p_fd p) None s of
           (None, s1) \<Rightarrow> None
         | (Some iob, s1) \<Rightarrow>
             if \<not> ISIOOBJECT (objects s1 iob)
             then Some (p\<lparr>p_revents := POLLNVAL\<rparr>, snd (orel destroy iob (snd (orel destroy iob s1))))
             else
               let m = poll_mask (p_events p) AND ucast (io_events_signaled (objects s1 iob))
               in Some (p\<lparr>p_revents := (if m \<noteq> 0 then poll_revents m else 0)\<rparr>, snd (orel destroy iob s1)))
      else Some (p\<lparr>p_revents := 0\<rparr>, s))"

fun check_poll :: "'a destroy \<Rightarrow> pollfd list \<Rightarrow> 'a hndl_scheme \<Rightarrow> (int \<times> pollfd list \<times> 'a hndl_scheme) option" where
  "check_poll destroy [] s = Some (0, [], s)"
| "check_poll destroy (p # ps) s =
     (case check_pollfd destroy p s of
        None \<Rightarrow> None
      | Some (p1, s1) \<Rightarrow>
          (case check_poll destroy ps s1 of
             None \<Rightarrow> None
           | Some (ready, ps1, s2) \<Rightarrow> Some (if p_revents p1 \<noteq> 0 then ready + 1 else ready, p1 # ps1, s2)))"

definition add_fd_to_iomux :: "'a destroy \<Rightarrow> addr \<Rightarrow> int \<Rightarrow> u16 \<Rightarrow> 'a hndl_scheme \<Rightarrow> (int \<times> 'a hndl_scheme) option" where
  "add_fd_to_iomux destroy mx fd events s =
     (if fd < 0 then Some (0, s)
      else
        (case olock fd None s of
           (None, s1) \<Rightarrow> Some (- EBADF, s1)
         | (Some iob, s1) \<Rightarrow>
             if \<not> ISIOOBJECT (objects s1 iob) then Some (- EBADF, snd (orel destroy iob s1))
             else
               (case queue_ioobject mx iob (poll_mask events) 0 s1 of
                  None \<Rightarrow> None
                | Some (rc, s2) \<Rightarrow> if rc < 0 then Some (rc, s2) else Some (0, snd (orel destroy iob s2)))))"

fun poll_add :: "'a destroy \<Rightarrow> addr \<Rightarrow> pollfd list \<Rightarrow> 'a hndl_scheme \<Rightarrow> (int \<times> 'a hndl_scheme) option" where
  "poll_add destroy mx [] s = Some (0, s)"
| "poll_add destroy mx (p # ps) s =
     (case add_fd_to_iomux destroy mx (p_fd p) (p_events p) s of
        None \<Rightarrow> None
      | Some (rc, s1) \<Rightarrow>
          if rc < 0 then do { (_, s2) \<leftarrow> close_iomux mx s1; Some (rc, s2) } else poll_add destroy mx ps s1)"

definition poll_end :: "'a destroy \<Rightarrow> addr \<Rightarrow> int \<Rightarrow> pollfd list \<Rightarrow> 'a hndl_scheme \<Rightarrow> (int \<times> pollfd list \<times> 'a hndl_scheme) option" where
  "poll_end destroy mx rc fds s =
     (if rc < 0 then do { (_, s1) \<leftarrow> close_iomux mx s; Some (if rc = - ETIMEOUT then 0 else rc, fds, s1) }
      else do {
        (rc1, fds1, s1) \<leftarrow> check_poll destroy fds s;
        (_, s2) \<leftarrow> close_iomux mx s1;
        Some (rc1, fds1, s2)
      })"

text \<open>\<^verbatim>\<open>fds\<close> points to an array of \<^verbatim>\<open>nfds\<close> elements; \<open>None\<close> is the null pointer.\<close>

definition poll ::
    "'a destroy \<Rightarrow> 'a hndl_ext kexec \<Rightarrow> nat \<Rightarrow> addr \<Rightarrow> addr \<Rightarrow> addr \<Rightarrow> addr \<Rightarrow> pollfd list option \<Rightarrow> nat \<Rightarrow> int \<Rightarrow>
     'a hndl_scheme \<Rightarrow> (int call \<times> pollfd list option \<times> 'a hndl_scheme) option" where
  "poll destroy exec fuel mx wb wbtmo tm fds nfds timeout s =
     (if nfds = 0 then do { (c, s1) \<leftarrow> sleep_call exec fuel tm (word_of_int timeout) s; Some (c, fds, s1) }
      else
        (case fds of
           None \<Rightarrow> Some (Return (- EINVAL), None, s)
         | Some ps \<Rightarrow> do {
             (rc, ps1, s1) \<leftarrow> check_poll destroy ps s;
             if rc > 0 then Some (Return rc, Some ps1, s1)
             else if timeout = 0 then Some (Return 0, Some ps1, s1)
             else do {
               (rc1, s2) \<leftarrow> poll_add destroy mx ps1 (init_iomux mx 0 s1);
               if rc1 < 0 then Some (Return rc1, Some ps1, s2)
               else do {
                 (c, s3) \<leftarrow> wait_for_object exec fuel wb wbtmo tm mx (word_of_int timeout) s2;
                 (case c of
                    Blocked \<Rightarrow> Some (Blocked, Some ps1, s3)
                  | Return rc2 \<Rightarrow> do { (rc3, ps2, s4) \<leftarrow> poll_end destroy mx rc2 ps1 s3; Some (Return rc3, Some ps2, s4) })
               }
             }
           }))"

section \<open>Which handles are ready\<close>

text \<open>The file or socket behind a handle, and whether it has one of the events.\<close>

definition io_object :: "'a hndl_scheme \<Rightarrow> int \<Rightarrow> addr option" where
  "io_object s h =
     (case hlookup h s of
        None \<Rightarrow> None
      | Some x \<Rightarrow> if o_handle_count (objects s x) \<noteq> 0 \<and> ISIOOBJECT (objects s x) then Some x else None)"

definition io_ready :: "u32 \<Rightarrow> 'a hndl_scheme \<Rightarrow> int \<Rightarrow> bool" where
  "io_ready m s h = (case io_object s h of None \<Rightarrow> False | Some x \<Rightarrow> ucast (io_events_signaled (objects s x)) AND m \<noteq> 0)"

definition fds_list :: "fd_set option \<Rightarrow> int list" where
  "fds_list fds = (case fds of None \<Rightarrow> [] | Some f \<Rightarrow> map (fs_fd f) [0..<unat (fs_count f)])"

lemma lock_release:
  assumes "olock h None s = (Some x, s1)"
  shows "snd (orel destroy x s1) = s" and "io_events_signaled (objects s1 x) = io_events_signaled (objects s x)"
    and "ISIOOBJECT (objects s1 x) = ISIOOBJECT (objects s x)" and "io_object s h = (if ISIOOBJECT (objects s x) then Some x else None)"
proof -
  have x: "hlookup h s = Some x" "o_handle_count (objects s x) \<noteq> 0" "s1 = upd_obj x (\<lambda>r. r\<lparr>o_lock_count := o_lock_count r + 1\<rparr>) s"
    using assms by (auto simp: olock_def split: option.splits if_splits)
  have "upd_obj x (\<lambda>r. r\<lparr>o_lock_count := o_lock_count r + 1 - 1\<rparr>) s = s" by (simp add: upd_obj_def)
  then have "upd_obj x (\<lambda>r. r\<lparr>o_lock_count := o_lock_count r - 1\<rparr>) s1 = s" by (simp add: x(3) upd_obj_twice)
  then show "snd (orel destroy x s1) = s" using x(2) by (simp add: orel_def)
  show "io_events_signaled (objects s1 x) = io_events_signaled (objects s x)" "ISIOOBJECT (objects s1 x) = ISIOOBJECT (objects s x)"
    by (simp_all add: x(3) ISIOOBJECT_def)
  show "io_object s h = (if ISIOOBJECT (objects s x) then Some x else None)" using x by (simp add: io_object_def)
qed

lemma lock_fails: "olock h None s = (None, s1) \<Longrightarrow> s1 = s \<and> io_object s h = None"
  by (auto simp: olock_def io_object_def split: option.splits if_splits)

lemma check_fds_loop_spec:
  fixes s :: "'a hndl_scheme" and fds :: fd_set and k :: nat and mk :: u32
  assumes "m \<le> n"
  defines "hs \<equiv> map (fs_fd fds) [n..<n + k]" and "F \<equiv> filter (io_ready mk s) (map (fs_fd fds) [n..<n + k])"
  shows "\<exists>fds'. check_fds_loop destroy mk k n m fds s =
      (if \<exists>h \<in> set hs. io_object s h = None then - EBADF else int (m + length F), fds', s) \<and> fs_count fds' = fs_count fds \<and>
      ((\<forall>h \<in> set hs. io_object s h \<noteq> None) \<longrightarrow>
         map (fs_fd fds') [0..<m + length F] = map (fs_fd fds) [0..<m] @ F \<and> (F = [] \<longrightarrow> fds' = fds))"
  using assms(1) unfolding assms(2,3)
proof (induction k arbitrary: n m fds)
  case (Suc k)
  have up: "[n..<n + Suc k] = n # [Suc n..<Suc n + k]" by (simp add: upt_conv_Cons)
  obtain xo s1 where l: "olock (fs_fd fds n) None s = (xo, s1)" by fastforce
  show ?case
  proof (cases xo)
    case None
    then show ?thesis using lock_fails [of "fs_fd fds n" s s1] l unfolding up by simp
  next
    case (Some x)
    note r = lock_release [OF l [unfolded Some]]
    show ?thesis
    proof (cases "ISIOOBJECT (objects s x)")
      case False
      then show ?thesis using r l Some unfolding up by simp
    next
      case True
      define hit where "hit \<longleftrightarrow> ucast (io_events_signaled (objects s x)) AND mk \<noteq> 0"
      define m' where "m' = (if hit then m + 1 else m)"
      define f1 where "f1 = (if hit then fds\<lparr>fs_fd := (fs_fd fds)(m := fs_fd fds n)\<rparr> else fds)"
      have io: "io_object s (fs_fd fds n) = Some x" "io_ready mk s (fs_fd fds n) = hit"
        using r(4) True by (simp_all add: io_ready_def hit_def)
      have step: "check_fds_loop destroy mk (Suc k) n m fds s = check_fds_loop destroy mk k (Suc n) m' f1 s"
        using l Some True r(1-3) by (simp add: hit_def m'_def f1_def Let_def)
      have le: "m' \<le> Suc n" using Suc.prems by (simp add: m'_def)
      have eq: "map (fs_fd f1) [Suc n..<Suc n + k] = map (fs_fd fds) [Suc n..<Suc n + k]" "fs_count f1 = fs_count fds"
        "map (fs_fd f1) [0..<m'] = map (fs_fd fds) [0..<m] @ (if hit then [fs_fd fds n] else [])"
        using Suc.prems by (auto simp: f1_def m'_def)
      let ?hs = "map (fs_fd fds) [Suc n..<Suc n + k]"
      have F: "filter (io_ready mk s) (map (fs_fd fds) [n..<n + Suc k]) = (if hit then [fs_fd fds n] else []) @ filter (io_ready mk s) ?hs"
        using io(2) unfolding up by simp
      have sets: "set (map (fs_fd fds) [n..<n + Suc k]) = insert (fs_fd fds n) (set ?hs)" unfolding up by simp
      have len: "m + length ((if hit then [fs_fd fds n] else []) @ filter (io_ready mk s) ?hs) = m' + length (filter (io_ready mk s) ?hs)"
        by (simp add: m'_def)
      define G where "G = filter (io_ready mk s) ?hs"
      obtain fds' where IH: "check_fds_loop destroy mk k (Suc n) m' f1 s =
            (if \<exists>h \<in> set ?hs. io_object s h = None then - EBADF else int (m' + length G), fds', s)"
          "fs_count fds' = fs_count fds"
          "(\<forall>h \<in> set ?hs. io_object s h \<noteq> None) \<Longrightarrow>
             map (fs_fd fds') [0..<m' + length G] = map (fs_fd fds) [0..<m] @ (if hit then [fs_fd fds n] else []) @ G \<and> (G = [] \<longrightarrow> fds' = f1)"
        using Suc.IH [OF le, of f1] unfolding eq G_def by (simp del: upt_Suc map_map) blast
      have bad: "(\<exists>h \<in> insert (fs_fd fds n) (set ?hs). io_object s h = None) \<longleftrightarrow> (\<exists>h \<in> set ?hs. io_object s h = None)"
        "(\<forall>h \<in> insert (fs_fd fds n) (set ?hs). io_object s h \<noteq> None) \<longleftrightarrow> (\<forall>h \<in> set ?hs. io_object s h \<noteq> None)"
        using io(1) by auto
      have "(if hit then [fs_fd fds n] else []) @ G = [] \<Longrightarrow> f1 = fds" by (simp add: f1_def split: if_splits)
      then show ?thesis using IH unfolding step F sets len [folded G_def] bad G_def [symmetric]
        by (intro exI [of _ fds']) (simp del: upt_Suc)
    qed
  qed
qed simp

definition fds_small :: "fd_set option \<Rightarrow> bool" where
  "fds_small fds = (case fds of None \<Rightarrow> True | Some f \<Rightarrow> unat (fs_count f) \<le> FD_SETSIZE)"

definition fds_bad :: "'a hndl_scheme \<Rightarrow> fd_set option \<Rightarrow> bool" where
  "fds_bad s fds \<longleftrightarrow> list_ex (\<lambda>h. io_object s h = None) (fds_list fds)"

lemma unat_small: "n \<le> FD_SETSIZE \<Longrightarrow> unat (word_of_int (int n) :: u32) = n"
  by (simp add: FD_SETSIZE_def unsigned_of_nat take_bit_nat_eq_self)

lemma check_fds_spec:
  fixes s :: "'a hndl_scheme" and fds :: "fd_set option" and mk :: u32
  assumes "fds_small fds"
  defines "F \<equiv> filter (io_ready mk s) (fds_list fds)" and "bad \<equiv> fds_bad s fds"
  shows "\<exists>f'. check_fds destroy fds mk s = (if bad then - EBADF else int (length F), f', s) \<and>
    (\<not> bad \<longrightarrow> fds_list (set_count (int (length F)) f') = F \<and> (F = [] \<longrightarrow> f' = fds))"
proof (cases fds)
  case None
  then show ?thesis by (simp add: check_fds_def F_def bad_def fds_bad_def fds_list_def set_count_def)
next
  case (Some f)
  have hs: "fds_list fds = map (fs_fd f) [0..<unat (fs_count f)]" by (simp add: fds_list_def Some)
  then have "length F \<le> unat (fs_count f)" unfolding F_def by (metis diff_zero length_filter_le length_map length_upt)
  then have len: "unat (word_of_int (int (length F)) :: u32) = length F"
    using assms(1) Some by (intro unat_small) (simp add: fds_small_def)
  have badD: "bad \<longleftrightarrow> (\<exists>h \<in> set (fds_list fds). io_object s h = None)" by (simp add: bad_def fds_bad_def list_ex_iff)
  then have good: "(\<forall>h \<in> set (fds_list fds). io_object s h \<noteq> None) \<longleftrightarrow> \<not> bad" by metis
  have "\<exists>f'. check_fds_loop destroy mk (unat (fs_count f)) 0 0 f s = (if bad then - EBADF else int (length F), f', s) \<and>
      fs_count f' = fs_count f \<and> (\<not> bad \<longrightarrow> map (fs_fd f') [0..<length F] = F \<and> (F = [] \<longrightarrow> f' = f))"
    using check_fds_loop_spec [where m = 0 and n = 0 and fds = f and k = "unat (fs_count f)" and s = s and mk = mk and destroy = destroy]
    by (simp only: add_0 upt.simps(1) list.map(1) append_Nil le_refl simp_thms hs [symmetric] F_def [symmetric] badD [symmetric] good)
  then obtain f' where f': "check_fds_loop destroy mk (unat (fs_count f)) 0 0 f s = (if bad then - EBADF else int (length F), f', s)"
      "\<not> bad \<longrightarrow> map (fs_fd f') [0..<length F] = F \<and> (F = [] \<longrightarrow> f' = f)" by blast
  then show ?thesis unfolding check_fds_def Some set_count_def
    by (intro exI [of _ "Some f'"]) (simp add: fds_list_def len [simplified])
qed

abbreviation "read_mask \<equiv> IOEVT_READ OR IOEVT_ACCEPT OR IOEVT_CLOSE"
abbreviation "write_mask \<equiv> IOEVT_WRITE OR IOEVT_CONNECT"

lemma check_select_spec:
  fixes s :: "'a hndl_scheme"
  assumes "fds_small r" "fds_small w" "fds_small e"
  defines "R \<equiv> filter (io_ready read_mask s) (fds_list r)" and "W \<equiv> filter (io_ready write_mask s) (fds_list w)"
    and "E \<equiv> filter (io_ready IOEVT_ERROR s) (fds_list e)"
    and "bad \<equiv> fds_bad s r \<or> fds_bad s w \<or> fds_bad s e"
  shows "\<exists>r' w' e'. check_select destroy (r, w, e) s =
      (if bad then - EBADF else int (length R + length W + length E), (r', w', e'), s) \<and>
    (\<not> bad \<longrightarrow> (if R = [] \<and> W = [] \<and> E = [] then r' = r \<and> w' = w \<and> e' = e
       else fds_list r' = R \<and> fds_list w' = W \<and> fds_list e' = E))"
proof -
  obtain r' where r': "check_fds destroy r read_mask s = (if fds_bad s r then - EBADF else int (length R), r', s)"
      "\<not> fds_bad s r \<longrightarrow> fds_list (set_count (int (length R)) r') = R \<and> (R = [] \<longrightarrow> r' = r)"
    using check_fds_spec [OF assms(1), where s = s and mk = read_mask and destroy = destroy] unfolding R_def by blast
  obtain w' where w': "check_fds destroy w write_mask s = (if fds_bad s w then - EBADF else int (length W), w', s)"
      "\<not> fds_bad s w \<longrightarrow> fds_list (set_count (int (length W)) w') = W \<and> (W = [] \<longrightarrow> w' = w)"
    using check_fds_spec [OF assms(2), where s = s and mk = write_mask and destroy = destroy] unfolding W_def by blast
  obtain e' where e': "check_fds destroy e IOEVT_ERROR s = (if fds_bad s e then - EBADF else int (length E), e', s)"
      "\<not> fds_bad s e \<longrightarrow> fds_list (set_count (int (length E)) e') = E \<and> (E = [] \<longrightarrow> e' = e)"
    using check_fds_spec [OF assms(3), where s = s and mk = IOEVT_ERROR and destroy = destroy] unfolding E_def by blast
  have neg: "EBADF > 0" by (simp add: errno_defs)
  note sel = check_select_def r'(1) w'(1) e'(1) Let_def prod.case
  show ?thesis
  proof (cases bad)
    case True
    then show ?thesis using neg unfolding sel bad_def by auto
  next
    case False
    then show ?thesis using r'(2) w'(2) e'(2) unfolding sel bad_def by (cases "R = [] \<and> W = [] \<and> E = []") auto
  qed
qed

lemma set_count_none: "fds_list (set_count 0 f) = []"
  by (cases f) (simp_all add: set_count_def fds_list_def)

text \<open>
  C23: a \<^verbatim>\<open>select\<close> need not wait when a handle is bad, a handle is ready, or the time out is zero. It then fails with \<^verbatim>\<open>EBADF\<close>
  exactly when some handle is not an open file or socket, and otherwise returns the number of ready handles and gives every lock back; if there is a ready handle each set is reduced, in order, to its
  ready handles, and if there is none the sets stay as they are. After a wait that an event ended it answers in the same way, but reduces the sets also when nothing is
  ready, and after a wait that failed or timed out it leaves the sets alone and returns the error, or 0 for a time out; in both cases it closes the multiplexer.
\<close>

theorem select_correct:
  fixes s :: "'a hndl_scheme"
  assumes "fds_small r" "fds_small w" "fds_small e"
  defines "R \<equiv> filter (io_ready read_mask s) (fds_list r)" and "W \<equiv> filter (io_ready write_mask s) (fds_list w)"
    and "E \<equiv> filter (io_ready IOEVT_ERROR s) (fds_list e)"
    and "bad \<equiv> fds_bad s r \<or> fds_bad s w \<or> fds_bad s e"
  shows "\<exists>r' w' e' r2 w2 e2. let n = (if bad then - EBADF else int (length R + length W + length E)) in
    (bad \<or> R \<noteq> [] \<or> W \<noteq> [] \<or> E \<noteq> [] \<or> select_tmo timeout = 0 \<longrightarrow>
       select destroy exec fuel mx wb wbtmo tm (r, w, e) timeout s = Some (Return n, (r', w', e'), s)) \<and>
    (\<not> bad \<longrightarrow> (if R = [] \<and> W = [] \<and> E = [] then r' = r \<and> w' = w \<and> e' = e else fds_list r' = R \<and> fds_list w' = W \<and> fds_list e' = E)) \<and>
    (0 \<le> rc \<longrightarrow> select_end destroy mx rc (r, w, e) s = map_option (\<lambda>(_, s'). (n, (r2, w2, e2), s')) (close_iomux mx s)) \<and>
    (\<not> bad \<longrightarrow> fds_list r2 = R \<and> fds_list w2 = W \<and> fds_list e2 = E) \<and>
    (rc < 0 \<longrightarrow> select_end destroy mx rc (r, w, e) s = map_option (\<lambda>(_, s'). (if rc = - ETIMEOUT then 0 else rc, (r, w, e), s')) (close_iomux mx s))"
proof -
  obtain r' w' e' where c: "check_select destroy (r, w, e) s = (if bad then - EBADF else int (length R + length W + length E), (r', w', e'), s)"
    "\<not> bad \<longrightarrow> (if R = [] \<and> W = [] \<and> E = [] then r' = r \<and> w' = w \<and> e' = e else fds_list r' = R \<and> fds_list w' = W \<and> fds_list e' = E)"
    using check_select_spec [OF assms(1-3), where s = s and destroy = destroy] unfolding R_def W_def E_def bad_def by blast
  define n where "n = (if bad then - EBADF else int (length R + length W + length E))"
  have "EBADF > 0" by (simp add: errno_defs)
  then have n: "n = 0 \<longleftrightarrow> \<not> bad \<and> R = [] \<and> W = [] \<and> E = []" by (auto simp: n_def simp flip: of_nat_add)
  define sets2 where "sets2 = (if n = 0 then (set_count 0 r', set_count 0 w', set_count 0 e') else (r', w', e'))"
  have sel: "select destroy exec fuel mx wb wbtmo tm (r, w, e) timeout s = Some (Return n, (r', w', e'), s)"
    if "bad \<or> R \<noteq> [] \<or> W \<noteq> [] \<or> E \<noteq> [] \<or> select_tmo timeout = 0"
    using that n unfolding select_def c(1) Let_def n_def [symmetric] prod.case by (cases "n = 0") simp_all
  have woken: "select_end destroy mx rc (r, w, e) s = map_option (\<lambda>(_, s'). (n, sets2, s')) (close_iomux mx s)" if "0 \<le> rc"
    using that unfolding select_end_def c(1) n_def [symmetric] sets2_def by (cases "close_iomux mx s") auto
  have ended: "select_end destroy mx rc (r, w, e) s = map_option (\<lambda>(_, s'). (if rc = - ETIMEOUT then 0 else rc, (r, w, e), s')) (close_iomux mx s)" if "rc < 0"
    using that unfolding select_end_def by (cases "close_iomux mx s") auto
  have "\<not> bad \<longrightarrow> fds_list (fst sets2) = R \<and> fds_list (fst (snd sets2)) = W \<and> fds_list (snd (snd sets2)) = E"
    using c(2) n by (auto simp: sets2_def set_count_none)
  then show ?thesis unfolding n_def [symmetric] Let_def using sel woken ended c(2)
    by (intro exI [of _ r'] exI [of _ w'] exI [of _ e'] exI [of _ "fst sets2"] exI [of _ "fst (snd sets2)"] exI [of _ "snd (snd sets2)"]) simp
qed

definition demo_select :: hndl where
  "demo_select = kernel.extend
     (upd_obj 0x80001000 (\<lambda>r. r\<lparr>o_type := ObjSocket, o_handle_count := 1, io_events_signaled := 1\<rparr>)
       (upd_obj 0x80002000 (\<lambda>r. r\<lparr>o_handle_count := 1\<rparr>) demo_kernel))
     \<lparr>htab = (\<lambda>_. HEND)(0 := 0x80001000, 1 := 0x80002000), hfreelist = HEND, htabsize = 1024\<rparr>"

lemma demo_select_objects:
  "hlookup 0 demo_select = Some 0x80001000" "hlookup 1 demo_select = Some 0x80002000" "hlookup 2 demo_select = None"
  "objects demo_select 0x80001000 = demo_object\<lparr>o_type := ObjSocket, o_handle_count := 1, io_events_signaled := 1\<rparr>"
  "objects demo_select 0x80002000 = demo_object\<lparr>o_handle_count := 1\<rparr>"
  by (simp_all add: demo_select_def kernel.defs hlookup_def HUSED_def HOBJ_def HPROTECT_def HEND_def demo_kernel_def upd_obj_def upd_thread_def
      sched.defs)

theorem select_correct_witness:
  "\<exists>r' w' e'. select (\<lambda>_ s. (0, s)) (\<lambda>_ _ s. Some s) 0 50 60 61 62 (Some \<lparr>fs_count = 1, fs_fd = (\<lambda>_. 0)\<rparr>, None, None) None demo_select =
     Some (Return 1, (r', w', e'), demo_select) \<and> fds_list r' = [0]"
proof -
  let ?r = "Some \<lparr>fs_count = 1, fs_fd = (\<lambda>_. 0)\<rparr>"
  have o: "io_object demo_select 0 = Some 0x80001000" by (simp add: io_object_def demo_select_objects ISIOOBJECT_def)
  have r: "filter (io_ready read_mask demo_select) (fds_list ?r) = [0]"
    by (simp add: fds_list_def io_ready_def o demo_select_objects IOEVT_READ_def IOEVT_ACCEPT_def IOEVT_CLOSE_def)
  have n: "fds_list None = []" by (simp add: fds_list_def)
  have b: "\<not> (fds_bad demo_select ?r \<or> fds_bad demo_select None \<or> fds_bad demo_select None)"
    by (simp add: fds_bad_def fds_list_def o)
  have "fds_small ?r" "fds_small None" by (simp_all add: fds_small_def FD_SETSIZE_def)
  then show ?thesis
    using select_correct [of ?r None None demo_select None "\<lambda>_ s. (0, s)" "\<lambda>_ _ s. Some s" 0 50 60 61 62 0] b by (simp add: r n Let_def) blast
qed

text \<open>
  Polling a handle that names no object makes \<^verbatim>\<open>check_poll\<close> release through a null pointer, and polling one that names
  an object other than a file or socket releases the lock on that object once too often: its count, zero before the call, wraps around.
\<close>

theorem check_poll_double_release:
  assumes "p_fd p \<ge> 0"
  shows "(hlookup (p_fd p) s = None \<longrightarrow> poll destroy exec fuel mx wb wbtmo tm (Some [p]) 1 timeout s = None) \<and>
    (hlookup (p_fd p) s = Some x \<and> o_handle_count (objects s x) \<noteq> 0 \<and> \<not> ISIOOBJECT (objects s x) \<longrightarrow>
      (\<exists>s'. poll destroy exec fuel mx wb wbtmo tm (Some [p]) 1 timeout s = Some (Return 1, Some [p\<lparr>p_revents := POLLNVAL\<rparr>], s') \<and>
        o_lock_count (objects s' x) = o_lock_count (objects s x) - 1))"
proof (intro conjI impI)
  show "poll destroy exec fuel mx wb wbtmo tm (Some [p]) 1 timeout s = None" if "hlookup (p_fd p) s = None"
    using that assms by (simp add: poll_def check_pollfd_def olock_def)
  assume x: "hlookup (p_fd p) s = Some x \<and> o_handle_count (objects s x) \<noteq> 0 \<and> \<not> ISIOOBJECT (objects s x)"
  obtain s1 where l: "olock (p_fd p) None s = (Some x, s1)" using x by (auto simp: olock_def)
  note r = lock_release [OF l]
  show "\<exists>s'. poll destroy exec fuel mx wb wbtmo tm (Some [p]) 1 timeout s = Some (Return 1, Some [p\<lparr>p_revents := POLLNVAL\<rparr>], s') \<and>
        o_lock_count (objects s' x) = o_lock_count (objects s x) - 1"
    using assms x l r by (simp add: poll_def check_pollfd_def orel_def POLLNVAL_def)
qed

theorem check_poll_double_release_witness:
  "poll (\<lambda>_ s. (0, s)) (\<lambda>_ _ s. Some s) 0 50 60 61 62 (Some [\<lparr>p_fd = 2, p_events = 1, p_revents = 0\<rparr>]) 1 0 demo_select = None \<and>
   (\<exists>s'. poll (\<lambda>_ s. (0, s)) (\<lambda>_ _ s. Some s) 0 50 60 61 62 (Some [\<lparr>p_fd = 1, p_events = 1, p_revents = 0\<rparr>]) 1 0 demo_select =
      Some (Return 1, Some [\<lparr>p_fd = 1, p_events = 1, p_revents = POLLNVAL\<rparr>], s') \<and> o_lock_count (objects s' 0x80002000) = - 1)"
  using check_poll_double_release [of "\<lparr>p_fd = 2, p_events = 1, p_revents = 0\<rparr>" demo_select "\<lambda>_ s. (0, s)" "\<lambda>_ _ s. Some s" 0 50 60 61 62 0]
    check_poll_double_release [of "\<lparr>p_fd = 1, p_events = 1, p_revents = 0\<rparr>" demo_select "\<lambda>_ s. (0, s)" "\<lambda>_ _ s. Some s" 0 50 60 61 62 0 "0x80002000"]
  by (simp add: demo_select_objects ISIOOBJECT_def demo_object_def)

end
