(* ===== verification/Ctype.thy ===== *)
theory Ctype
  imports Prelude
begin

text \<open>
  Character classification: \<^verbatim>\<open>src/src/lib/ctype.c\<close> and the macros of
  \<^verbatim>\<open>src/src/include/ctype.h\<close>. The table has one entry per value from -1 to 255;
  the functions index it without a check, so they are \<open>None\<close> outside that range, while the macros
  cut their argument to an unsigned character first.
\<close>

unbundle bit_operations_syntax

definition CT_UPPER :: u16 where "CT_UPPER = 0x1"
definition CT_LOWER :: u16 where "CT_LOWER = 0x2"
definition CT_DIGIT :: u16 where "CT_DIGIT = 0x4"
definition CT_SPACE :: u16 where "CT_SPACE = 0x8"
definition CT_PUNCT :: u16 where "CT_PUNCT = 0x10"
definition CT_CONTROL :: u16 where "CT_CONTROL = 0x20"
definition CT_BLANK :: u16 where "CT_BLANK = 0x40"
definition CT_HEX :: u16 where "CT_HEX = 0x80"
definition CT_LEADBYTE :: u16 where "CT_LEADBYTE = 0x8000"

text \<open>\<^verbatim>\<open>_ctype\<close>: the entry for end-of-file, the entries for the characters.\<close>

definition ctype_table :: "u16 list" where
  "ctype_table = [0] @
     replicate 9 CT_CONTROL @ replicate 5 (CT_SPACE + CT_CONTROL) @ replicate 18 CT_CONTROL @
     [CT_SPACE + CT_BLANK] @ replicate 15 CT_PUNCT @ replicate 10 (CT_DIGIT + CT_HEX) @ replicate 7 CT_PUNCT @
     replicate 6 (CT_UPPER + CT_HEX) @ replicate 20 CT_UPPER @ replicate 6 CT_PUNCT @
     replicate 6 (CT_LOWER + CT_HEX) @ replicate 20 CT_LOWER @ replicate 4 CT_PUNCT @ [CT_CONTROL] @ replicate 128 0"

text \<open>\<^verbatim>\<open>_pctype[c]\<close>.\<close>

definition pctype :: "int \<Rightarrow> u16 option" where
  "pctype c = (if - 1 \<le> c \<and> c < 256 then Some (ctype_table ! nat (c + 1)) else None)"

definition isctype :: "int \<Rightarrow> u16 \<Rightarrow> u16 option" where
  "isctype c bits = (if (word_of_int (c + 1) :: u32) \<le> 256 then map_option (\<lambda>v. v AND bits) (pctype c) else Some 0)"

definition isalpha :: "int \<Rightarrow> u16 option" where "isalpha c = map_option (\<lambda>v. v AND (CT_UPPER OR CT_LOWER)) (pctype c)"
definition isupper :: "int \<Rightarrow> u16 option" where "isupper c = map_option (\<lambda>v. v AND CT_UPPER) (pctype c)"
definition islower :: "int \<Rightarrow> u16 option" where "islower c = map_option (\<lambda>v. v AND CT_LOWER) (pctype c)"
definition isdigit :: "int \<Rightarrow> u16 option" where "isdigit c = map_option (\<lambda>v. v AND CT_DIGIT) (pctype c)"
definition isxdigit :: "int \<Rightarrow> u16 option" where "isxdigit c = map_option (\<lambda>v. v AND CT_HEX) (pctype c)"
definition isspace :: "int \<Rightarrow> u16 option" where "isspace c = map_option (\<lambda>v. v AND CT_SPACE) (pctype c)"
definition ispunct :: "int \<Rightarrow> u16 option" where "ispunct c = map_option (\<lambda>v. v AND CT_PUNCT) (pctype c)"

definition isalnum :: "int \<Rightarrow> u16 option" where
  "isalnum c = map_option (\<lambda>v. v AND (CT_UPPER OR CT_LOWER OR CT_DIGIT)) (pctype c)"

definition isprint :: "int \<Rightarrow> u16 option" where
  "isprint c = map_option (\<lambda>v. v AND (CT_BLANK OR CT_PUNCT OR CT_UPPER OR CT_LOWER OR CT_DIGIT)) (pctype c)"

definition isgraph :: "int \<Rightarrow> u16 option" where
  "isgraph c = map_option (\<lambda>v. v AND (CT_PUNCT OR CT_UPPER OR CT_LOWER OR CT_DIGIT)) (pctype c)"

definition iscntrl :: "int \<Rightarrow> u16 option" where "iscntrl c = map_option (\<lambda>v. v AND CT_CONTROL) (pctype c)"
definition isleadbyte :: "int \<Rightarrow> u16 option" where "isleadbyte c = map_option (\<lambda>v. v AND CT_LEADBYTE) (pctype c)"

definition toupper :: "int \<Rightarrow> int option" where
  "toupper c = map_option (\<lambda>v. if v AND CT_LOWER \<noteq> 0 then c - (97 - 65) else c) (pctype c)"

definition tolower :: "int \<Rightarrow> int option" where
  "tolower c = map_option (\<lambda>v. if v AND CT_UPPER \<noteq> 0 then c + (97 - 65) else c) (pctype c)"

text \<open>The macros, for a character of a string.\<close>

definition ctype_bits :: "u8 \<Rightarrow> u16 \<Rightarrow> bool" where
  "ctype_bits c bits \<longleftrightarrow> ctype_table ! (unat c + 1) AND bits \<noteq> 0"

definition is_upper :: "u8 \<Rightarrow> bool" where "is_upper c = ctype_bits c CT_UPPER"
definition is_lower :: "u8 \<Rightarrow> bool" where "is_lower c = ctype_bits c CT_LOWER"
definition is_digit :: "u8 \<Rightarrow> bool" where "is_digit c = ctype_bits c CT_DIGIT"
definition is_alpha :: "u8 \<Rightarrow> bool" where "is_alpha c = ctype_bits c (CT_UPPER OR CT_LOWER)"
definition is_space :: "u8 \<Rightarrow> bool" where "is_space c = ctype_bits c CT_SPACE"
definition to_lower :: "u8 \<Rightarrow> u8" where "to_lower c = (if is_upper c then c - 65 + 97 else c)"
definition to_upper :: "u8 \<Rightarrow> u8" where "to_upper c = (if is_lower c then c - 97 + 65 else c)"

section \<open>The classes as ranges\<close>

definition class_ranges :: "nat \<Rightarrow> bool" where
  "class_ranges n \<longleftrightarrow> (let v = ctype_table ! (n + 1) in
     (v AND CT_UPPER \<noteq> 0) = (65 \<le> n \<and> n \<le> 90) \<and> (v AND CT_LOWER \<noteq> 0) = (97 \<le> n \<and> n \<le> 122) \<and>
     (v AND CT_DIGIT \<noteq> 0) = (48 \<le> n \<and> n \<le> 57) \<and> (v AND (CT_UPPER OR CT_LOWER) \<noteq> 0) = (65 \<le> n \<and> n \<le> 90 \<or> 97 \<le> n \<and> n \<le> 122) \<and>
     (v AND CT_SPACE \<noteq> 0) = (9 \<le> n \<and> n \<le> 13 \<or> n = 32))"

lemma class_ranges_all: "list_all class_ranges [0..<256]"
  by code_simp

lemma class_ranges_char: "class_ranges (unat (c :: u8))"
  using class_ranges_all unsigned_less [of c, where 'a = nat] by (simp add: list_all_iff)

lemma char_classes [simp]:
  "is_upper c \<longleftrightarrow> 65 \<le> unat c \<and> unat c \<le> 90" "is_lower c \<longleftrightarrow> 97 \<le> unat c \<and> unat c \<le> 122"
  "is_digit c \<longleftrightarrow> 48 \<le> unat c \<and> unat c \<le> 57"
  "is_alpha c \<longleftrightarrow> 65 \<le> unat c \<and> unat c \<le> 90 \<or> 97 \<le> unat c \<and> unat c \<le> 122"
  "is_space c \<longleftrightarrow> 9 \<le> unat c \<and> unat c \<le> 13 \<or> unat c = 32"
  using class_ranges_char [of c]
  by (simp_all add: class_ranges_def Let_def is_upper_def is_lower_def is_digit_def is_alpha_def is_space_def ctype_bits_def)

end
