(* ===== verification/Cstring.thy ===== *)
theory Cstring
  imports Ctype "HOL-Library.Monad_Syntax"
begin

text \<open>
  The string and block functions of \<^verbatim>\<open>src/src/lib/string.c\<close>, over a store of bytes. A pointer is an
  address, \<open>0\<close> is \<^verbatim>\<open>NULL\<close>; plain \<^verbatim>\<open>char\<close> is signed. A loop without a counter runs until it
  finds what it looks for and is a partial function, so a string without a terminator is a call that does not come back
  (\<open>None\<close>). A size is a natural number, except in \<^verbatim>\<open>strnicmp\<close>, which decrements it before it tests it.
\<close>

unbundle bit_operations_syntax

type_synonym mem = "addr \<Rightarrow> u8"

section \<open>Copying and comparing with a limit\<close>

text \<open>\<^verbatim>\<open>while (n && (*dest++ = *source++)) n--;\<close>\<close>

fun strncpy_copy :: "mem \<Rightarrow> addr \<Rightarrow> addr \<Rightarrow> nat \<Rightarrow> mem \<times> addr \<times> nat" where
  "strncpy_copy m dest source 0 = (m, dest, 0)"
| "strncpy_copy m dest source (Suc n) =
     (let m1 = m(dest := m source) in
      if m source \<noteq> 0 then strncpy_copy m1 (dest + 1) (source + 1) n else (m1, dest + 1, Suc n))"

text \<open>\<^verbatim>\<open>while (--n) *dest++ = '\0';\<close>, for a positive \<^verbatim>\<open>n\<close>\<close>

fun fill_zero :: "mem \<Rightarrow> addr \<Rightarrow> nat \<Rightarrow> mem" where
  "fill_zero m dest 0 = m"
| "fill_zero m dest (Suc 0) = m"
| "fill_zero m dest (Suc (Suc n)) = fill_zero (m(dest := 0)) (dest + 1) (Suc n)"

definition strncpy :: "mem \<Rightarrow> addr \<Rightarrow> addr \<Rightarrow> nat \<Rightarrow> addr \<times> mem" where
  "strncpy m dest source n =
     (case strncpy_copy m dest source n of (m1, d, k) \<Rightarrow> (dest, if k \<noteq> 0 then fill_zero m1 d k else m1))"

fun strncmp_loop :: "mem \<Rightarrow> addr \<Rightarrow> addr \<Rightarrow> nat \<Rightarrow> addr \<times> addr" where
  "strncmp_loop m s1 s2 0 = (s1, s2)"
| "strncmp_loop m s1 s2 (Suc n) =
     (if n \<noteq> 0 \<and> m s1 \<noteq> 0 \<and> m s1 = m s2 then strncmp_loop m (s1 + 1) (s2 + 1) n else (s1, s2))"

definition strncmp :: "mem \<Rightarrow> addr \<Rightarrow> addr \<Rightarrow> nat \<Rightarrow> int" where
  "strncmp m s1 s2 n =
     (if n = 0 then 0 else case strncmp_loop m s1 s2 n of (p, q) \<Rightarrow> uint (m p) - uint (m q))"

text \<open>The lower-case form the two comparisons without case compute inline.\<close>

definition fold_case :: "u8 \<Rightarrow> u8" where
  "fold_case c = (if sint c \<le> 90 \<and> sint c \<ge> 65 then c + 97 - 65 else c)"

partial_function (option) stricmp :: "mem \<Rightarrow> addr \<Rightarrow> addr \<Rightarrow> int option" where
  "stricmp m s1 s2 =
     (let f = fold_case (m s1); l = fold_case (m s2) in
      if f \<noteq> 0 \<and> f = l then stricmp m (s1 + 1) (s2 + 1) else Some (sint f - sint l))"

text \<open>\<^verbatim>\<open>--n\<close> comes before the test, so a size of zero counts down from 2\^32.\<close>

function strnicmp :: "mem \<Rightarrow> addr \<Rightarrow> addr \<Rightarrow> u32 \<Rightarrow> int" where
  "strnicmp m s1 s2 n =
     (let f = uint (m s1) + (if uint (m s1) \<ge> 65 \<and> uint (m s1) \<le> 90 then 32 else 0);
          l = uint (m s2) + (if uint (m s2) \<ge> 65 \<and> uint (m s2) \<le> 90 then 32 else 0)
      in if n - 1 \<noteq> 0 \<and> f \<noteq> 0 \<and> f = l then strnicmp m (s1 + 1) (s2 + 1) (n - 1) else f - l)"
  by pat_completeness auto
termination
  by (relation "measure (\<lambda>(m, s1, s2, n). unat (n - 1))")
    (use unat_pred_less [of "n - 1" for n :: u32] in \<open>auto simp: diff_diff_eq\<close>)

declare strnicmp.simps [simp del]

definition strcasecmp :: "mem \<Rightarrow> addr \<Rightarrow> addr \<Rightarrow> int option" where
  "strcasecmp m s1 s2 = stricmp m s1 s2"

definition strncasecmp :: "mem \<Rightarrow> addr \<Rightarrow> addr \<Rightarrow> u32 \<Rightarrow> int" where
  "strncasecmp m s1 s2 n = strnicmp m s1 s2 n"

section \<open>Searching\<close>

text \<open>
  The inner loop of \<^verbatim>\<open>strstr\<close> and \<^verbatim>\<open>strcasestr\<close>, with the comparison of two characters
  as \<open>eq\<close>: whether it ends at the end of the second string.
\<close>

partial_function (option) match_here :: "(u8 \<Rightarrow> u8 \<Rightarrow> bool) \<Rightarrow> mem \<Rightarrow> addr \<Rightarrow> addr \<Rightarrow> bool option" where
  "match_here eq m s1 s2 =
     (if m s1 \<noteq> 0 \<and> m s2 \<noteq> 0 \<and> eq (m s1) (m s2) then match_here eq m (s1 + 1) (s2 + 1) else Some (m s2 = 0))"

partial_function (option) search_from :: "(u8 \<Rightarrow> u8 \<Rightarrow> bool) \<Rightarrow> mem \<Rightarrow> addr \<Rightarrow> addr \<Rightarrow> addr option" where
  "search_from eq m cp str2 =
     (if m cp = 0 then Some 0
      else case match_here eq m cp str2 of
        None \<Rightarrow> None
      | Some found \<Rightarrow> if found then Some cp else search_from eq m (cp + 1) str2)"

definition strstr :: "mem \<Rightarrow> addr \<Rightarrow> addr \<Rightarrow> addr option" where
  "strstr m str1 str2 = (if m str2 = 0 then Some str1 else search_from (\<lambda>a b. a = b) m str1 str2)"

definition strcasestr :: "mem \<Rightarrow> addr \<Rightarrow> addr \<Rightarrow> addr option" where
  "strcasestr m str1 str2 = (if m str2 = 0 then Some str1 else search_from (\<lambda>a b. to_lower a = to_lower b) m str1 str2)"

partial_function (option) strchr_loop :: "mem \<Rightarrow> addr \<Rightarrow> u8 \<Rightarrow> addr option" where
  "strchr_loop m s ch = (if m s \<noteq> 0 \<and> m s \<noteq> ch then strchr_loop m (s + 1) ch else Some s)"

definition strchr :: "mem \<Rightarrow> addr \<Rightarrow> u8 \<Rightarrow> addr option" where
  "strchr m s ch = map_option (\<lambda>p. if m p = ch then p else 0) (strchr_loop m s ch)"

text \<open>\<^verbatim>\<open>while (*s++);\<close> stops one past the terminator; the address here is that of the terminator.\<close>

partial_function (option) find_end :: "mem \<Rightarrow> addr \<Rightarrow> addr option" where
  "find_end m s = (if m s = 0 then Some s else find_end m (s + 1))"

fun strrchr_loop :: "mem \<Rightarrow> addr \<Rightarrow> nat \<Rightarrow> u8 \<Rightarrow> addr" where
  "strrchr_loop m start 0 ch = start"
| "strrchr_loop m start (Suc k) ch = (if m (start + Suc k) \<noteq> ch then strrchr_loop m start k ch else start + Suc k)"

definition strrchr :: "mem \<Rightarrow> addr \<Rightarrow> u8 \<Rightarrow> addr option" where
  "strrchr m s ch = map_option (\<lambda>e. let p = strrchr_loop m s (e - s) ch in if m p = ch then p else 0) (find_end m s)"

section \<open>Character sets\<close>

text \<open>The set of characters as a bit map of 32 bytes.\<close>

definition map_set :: "u8 list \<Rightarrow> u8 \<Rightarrow> u8 list" where
  "map_set bm c = bm[unat (drop_bit 3 c) := bm ! unat (drop_bit 3 c) OR push_bit (unat (c AND 7)) 1]"

definition map_test :: "u8 list \<Rightarrow> u8 \<Rightarrow> bool" where
  "map_test bm c \<longleftrightarrow> bm ! unat (drop_bit 3 c) AND push_bit (unat (c AND 7)) 1 \<noteq> 0"

partial_function (option) fill_map :: "mem \<Rightarrow> addr \<Rightarrow> u8 list \<Rightarrow> u8 list option" where
  "fill_map m ctrl bm = (if m ctrl \<noteq> 0 then fill_map m (ctrl + 1) (map_set bm (m ctrl)) else Some bm)"

partial_function (option) span_loop :: "(u8 \<Rightarrow> bool) \<Rightarrow> mem \<Rightarrow> addr \<Rightarrow> nat \<Rightarrow> nat option" where
  "span_loop go m str n = (if go (m str) then span_loop go m (str + 1) (n + 1) else Some n)"

definition strspn :: "mem \<Rightarrow> addr \<Rightarrow> addr \<Rightarrow> nat option" where
  "strspn m string control = do {
     bm \<leftarrow> fill_map m control (replicate 32 0);
     if m string \<noteq> 0 then span_loop (map_test bm) m string 0 else Some 0
   }"

definition strcspn :: "mem \<Rightarrow> addr \<Rightarrow> addr \<Rightarrow> nat option" where
  "strcspn m string control = do {
     bm \<leftarrow> fill_map m control (replicate 32 0);
     span_loop (\<lambda>c. \<not> map_test (bm[0 := bm ! 0 OR 1]) c) m string 0
   }"

partial_function (option) strpbrk_loop :: "u8 list \<Rightarrow> mem \<Rightarrow> addr \<Rightarrow> addr option" where
  "strpbrk_loop bm m str =
     (if m str = 0 then Some 0 else if map_test bm (m str) then Some str else strpbrk_loop bm m (str + 1))"

definition strpbrk :: "mem \<Rightarrow> addr \<Rightarrow> addr \<Rightarrow> addr option" where
  "strpbrk m string control = do { bm \<leftarrow> fill_map m control (replicate 32 0); strpbrk_loop bm m string }"

section \<open>Blocks of memory\<close>

fun copy_up :: "mem \<Rightarrow> addr \<Rightarrow> addr \<Rightarrow> nat \<Rightarrow> mem" where
  "copy_up m dst src 0 = m"
| "copy_up m dst src (Suc n) = copy_up (m(dst := m src)) (dst + 1) (src + 1) n"

text \<open>From the last byte down; the two pointers start at the last bytes.\<close>

fun copy_down :: "mem \<Rightarrow> addr \<Rightarrow> addr \<Rightarrow> nat \<Rightarrow> mem" where
  "copy_down m dst src 0 = m"
| "copy_down m dst src (Suc n) = copy_down (m(dst := m src)) (dst - 1) (src - 1) n"

definition memmove_bytes :: "mem \<Rightarrow> addr \<Rightarrow> addr \<Rightarrow> nat \<Rightarrow> addr \<times> mem" where
  "memmove_bytes m dst src n =
     (dst, if dst \<le> src \<or> dst \<ge> src + n then copy_up m dst src n
           else copy_down m (dst + n - 1) (src + n - 1) n)"

fun memchr_loop :: "mem \<Rightarrow> addr \<Rightarrow> u8 \<Rightarrow> nat \<Rightarrow> addr \<times> nat" where
  "memchr_loop m buf ch 0 = (buf, 0)"
| "memchr_loop m buf ch (Suc n) = (if m buf \<noteq> ch then memchr_loop m (buf + 1) ch n else (buf, Suc n))"

definition memchr :: "mem \<Rightarrow> addr \<Rightarrow> u8 \<Rightarrow> nat \<Rightarrow> addr" where
  "memchr m buf ch n = (case memchr_loop m buf ch n of (p, k) \<Rightarrow> if k \<noteq> 0 then p else 0)"

fun memset_loop :: "mem \<Rightarrow> addr \<Rightarrow> u8 \<Rightarrow> nat \<Rightarrow> mem" where
  "memset_loop m pb c 0 = m"
| "memset_loop m pb c (Suc n) = memset_loop (m(pb := c)) (pb + 1) c n"

definition memset :: "mem \<Rightarrow> addr \<Rightarrow> u8 \<Rightarrow> nat \<Rightarrow> addr \<times> mem" where
  "memset m p c n = (p, memset_loop m p c n)"

fun memcmp_loop :: "mem \<Rightarrow> addr \<Rightarrow> addr \<Rightarrow> nat \<Rightarrow> addr \<times> addr" where
  "memcmp_loop m dst src 0 = (dst, src)"
| "memcmp_loop m dst src (Suc n) = (if n \<noteq> 0 \<and> m dst = m src then memcmp_loop m (dst + 1) (src + 1) n else (dst, src))"

definition memcmp :: "mem \<Rightarrow> addr \<Rightarrow> addr \<Rightarrow> nat \<Rightarrow> int" where
  "memcmp m dst src n = (if n = 0 then 0 else case memcmp_loop m dst src n of (p, q) \<Rightarrow> uint (m p) - uint (m q))"

text \<open>
  The portable \<^verbatim>\<open>memcpy\<close>. The second branch copies words; it is taken only when both pointers and the
  size are zero, since the condition is a logical and where a bit mask was meant, so it copies nothing.
\<close>

definition memcpy :: "mem \<Rightarrow> addr \<Rightarrow> addr \<Rightarrow> nat \<Rightarrow> addr \<times> mem" where
  "memcpy m dst src n = (dst, if src \<noteq> 0 \<or> dst \<noteq> 0 \<or> n \<noteq> 0 then copy_up m dst src n else m)"

fun memccpy :: "mem \<Rightarrow> addr \<Rightarrow> addr \<Rightarrow> u8 \<Rightarrow> nat \<Rightarrow> addr \<times> mem" where
  "memccpy m dst src c 0 = (0, m)"
| "memccpy m dst src c (Suc n) =
     (let m1 = m(dst := m src) in if m src \<noteq> c then memccpy m1 (dst + 1) (src + 1) c n else (dst + 1, m1))"

text \<open>
  \<^verbatim>\<open>memicmp\<close> calls the macro \<^verbatim>\<open>tolower\<close> on \<^verbatim>\<open>*dst++\<close>. The macro
  evaluates its argument twice, once to test for an upper-case letter and once for the value, so every round reads two bytes of each
  block and moves two bytes on.
\<close>

definition tolower_twice :: "mem \<Rightarrow> addr \<Rightarrow> int" where
  "tolower_twice m p = (if is_upper (m p) then uint (m (p + 1)) - 65 + 97 else uint (m (p + 1)))"

fun memicmp_loop :: "mem \<Rightarrow> addr \<Rightarrow> addr \<Rightarrow> nat \<Rightarrow> int \<Rightarrow> int \<Rightarrow> int" where
  "memicmp_loop m dst src 0 f l = f - l"
| "memicmp_loop m dst src (Suc n) f l =
     (if f = l then memicmp_loop m (dst + 2) (src + 2) n (tolower_twice m dst) (tolower_twice m src) else f - l)"

definition memicmp :: "mem \<Rightarrow> addr \<Rightarrow> addr \<Rightarrow> nat \<Rightarrow> int" where
  "memicmp m buf1 buf2 n = memicmp_loop m buf1 buf2 n 0 0"

section \<open>Whole strings\<close>

definition strlen :: "mem \<Rightarrow> addr \<Rightarrow> u32 option" where
  "strlen m s = map_option (\<lambda>e. of_nat (e - s)) (find_end m s)"

text \<open>
  \<^verbatim>\<open>strdup\<close>, with the allocator as a parameter. A null pointer from the allocator is not tested for, so
  the copy goes through it.
\<close>

definition strdup :: "(nat \<Rightarrow> mem \<Rightarrow> addr \<times> mem) \<Rightarrow> mem \<Rightarrow> addr \<Rightarrow> (addr \<times> mem) option" where
  "strdup malloc m s =
     (if s = 0 then Some (0, m)
      else do {
        len \<leftarrow> strlen m s;
        let (t, m1) = malloc (unat len + 1) m;
        if t = 0 then None else Some (memcpy m1 t s (unat len + 1))
      })"

definition lstrdup :: "(nat \<Rightarrow> mem \<Rightarrow> addr \<times> mem) \<Rightarrow> mem \<Rightarrow> addr \<Rightarrow> (addr \<times> mem) option" where
  "lstrdup lmalloc m s =
     (if s = 0 then Some (0, m)
      else do {
        len \<leftarrow> strlen m s;
        let (t, m1) = lmalloc (unat len + 1) m;
        if t = 0 then None else Some (memcpy m1 t s (unat len + 1))
      })"

text \<open>\<^verbatim>\<open>while (*cp++ = *src++);\<close>, with the address of the terminator it wrote.\<close>

partial_function (option) copy_string :: "mem \<Rightarrow> addr \<Rightarrow> addr \<Rightarrow> (addr \<times> mem) option" where
  "copy_string m cp src =
     (let m1 = m(cp := m src) in if m src \<noteq> 0 then copy_string m1 (cp + 1) (src + 1) else Some (cp, m1))"

definition strcpy :: "mem \<Rightarrow> addr \<Rightarrow> addr \<Rightarrow> (addr \<times> mem) option" where
  "strcpy m dst src = map_option (\<lambda>(_, m1). (dst, m1)) (copy_string m dst src)"

definition stpcpy :: "mem \<Rightarrow> addr \<Rightarrow> addr \<Rightarrow> (addr \<times> mem) option" where
  "stpcpy m dst src = copy_string m dst src"

definition strcat :: "mem \<Rightarrow> addr \<Rightarrow> addr \<Rightarrow> (addr \<times> mem) option" where
  "strcat m dst src = do { cp \<leftarrow> find_end m dst; map_option (\<lambda>(_, m1). (dst, m1)) (copy_string m cp src) }"

fun strncat_loop :: "mem \<Rightarrow> addr \<Rightarrow> addr \<Rightarrow> nat \<Rightarrow> mem" where
  "strncat_loop m s1 s2 0 = m(s1 := 0)"
| "strncat_loop m s1 s2 (Suc n) =
     (let m1 = m(s1 := m s2) in if m s2 = 0 then m1 else strncat_loop m1 (s1 + 1) (s2 + 1) n)"

definition strncat :: "mem \<Rightarrow> addr \<Rightarrow> addr \<Rightarrow> nat \<Rightarrow> (addr \<times> mem) option" where
  "strncat m s1 s2 n = map_option (\<lambda>e. (s1, strncat_loop m e s2 n)) (find_end m s1)"

text \<open>\<^verbatim>\<open>strcmp\<close> cuts the difference down to its sign.\<close>

partial_function (option) strcmp :: "mem \<Rightarrow> addr \<Rightarrow> addr \<Rightarrow> int option" where
  "strcmp m s1 s2 =
     (let ret = uint (m s1) - uint (m s2) in
      if ret = 0 \<and> m s2 \<noteq> 0 then strcmp m (s1 + 1) (s2 + 1)
      else Some (if ret < 0 then - 1 else if ret > 0 then 1 else ret))"

text \<open>\<^verbatim>\<open>while (*p) { *p = f(*p); p++; }\<close>\<close>

partial_function (option) each_char :: "(u8 \<Rightarrow> u8) \<Rightarrow> mem \<Rightarrow> addr \<Rightarrow> mem option" where
  "each_char f m p = (if m p \<noteq> 0 then each_char f (m(p := f (m p))) (p + 1) else Some m)"

definition strlwr :: "mem \<Rightarrow> addr \<Rightarrow> (addr \<times> mem) option" where
  "strlwr m s = map_option (Pair s) (each_char to_lower m s)"

definition strupr :: "mem \<Rightarrow> addr \<Rightarrow> (addr \<times> mem) option" where
  "strupr m s = map_option (Pair s) (each_char to_upper m s)"

definition strset :: "mem \<Rightarrow> addr \<Rightarrow> u8 \<Rightarrow> (addr \<times> mem) option" where
  "strset m s c = map_option (Pair s) (each_char (\<lambda>_. c) m s)"

text \<open>\<^verbatim>\<open>strnset\<close> returns the advanced pointer.\<close>

fun strnset :: "mem \<Rightarrow> addr \<Rightarrow> u8 \<Rightarrow> nat \<Rightarrow> addr \<times> mem" where
  "strnset m s c 0 = (s, m)"
| "strnset m s c (Suc n) = (if m s \<noteq> 0 then strnset (m(s := c)) (s + 1) c n else (s, m))"

text \<open>The swaps of \<^verbatim>\<open>strrev\<close>; \<open>right\<close> is one past the pointer of the code.\<close>

function strrev_loop :: "mem \<Rightarrow> addr \<Rightarrow> addr \<Rightarrow> mem" where
  "strrev_loop m left right =
     (if left + 1 < right then strrev_loop (m(left := m (right - 1), right - 1 := m left)) (left + 1) (right - 1) else m)"
  by pat_completeness auto
termination
  by (relation "measure (\<lambda>(m, l, r). r - l)") auto

declare strrev_loop.simps [simp del]

definition strrev :: "mem \<Rightarrow> addr \<Rightarrow> (addr \<times> mem) option" where
  "strrev m s = map_option (\<lambda>e. (s, strrev_loop m s e)) (find_end m s)"

section \<open>Tokens\<close>

partial_function (option) skip_delims :: "u8 list \<Rightarrow> mem \<Rightarrow> addr \<Rightarrow> addr option" where
  "skip_delims bm m str = (if map_test bm (m str) \<and> m str \<noteq> 0 then skip_delims bm m (str + 1) else Some str)"

partial_function (option) end_token :: "u8 list \<Rightarrow> mem \<Rightarrow> addr \<Rightarrow> (addr \<times> mem) option" where
  "end_token bm m str =
     (if m str = 0 then Some (str, m)
      else if map_test bm (m str) then Some (str + 1, m(str := 0))
      else end_token bm m (str + 1))"

text \<open>
  The delimiter set of \<^verbatim>\<open>strtok_r\<close> includes the terminator. The saved pointer is passed and returned;
  \<open>string = 0\<close> continues from it.
\<close>

definition strtok_r :: "mem \<Rightarrow> addr \<Rightarrow> addr \<Rightarrow> addr \<Rightarrow> (addr \<times> addr \<times> mem) option" where
  "strtok_r m string control lasts = do {
     bm \<leftarrow> fill_map m control (replicate 32 0);
     let bm1 = map_set bm 0;
     start \<leftarrow> skip_delims bm1 m (if string \<noteq> 0 then string else lasts);
     (str, m1) \<leftarrow> end_token bm1 m start;
     Some (if start = str then 0 else start, str, m1)
   }"

text \<open>\<^verbatim>\<open>strtok\<close> keeps the pointer in the thread information block, passed and returned here as well.\<close>

definition strtok :: "mem \<Rightarrow> addr \<Rightarrow> addr \<Rightarrow> addr \<Rightarrow> (addr \<times> addr \<times> mem) option" where
  "strtok m string control nexttoken = strtok_r m string control nexttoken"

partial_function (option) in_delims :: "mem \<Rightarrow> u8 \<Rightarrow> addr \<Rightarrow> bool option" where
  "in_delims m c d = (if m d = 0 then Some False else if c = m d then Some True else in_delims m c (d + 1))"

partial_function (option) strsep_loop :: "mem \<Rightarrow> addr \<Rightarrow> addr \<Rightarrow> (addr \<times> mem) option" where
  "strsep_loop m delim s =
     (if m s = 0 then Some (0, m)
      else case in_delims m (m s) delim of
        None \<Rightarrow> None
      | Some found \<Rightarrow> if found then Some (s + 1, m(s := 0)) else strsep_loop m delim (s + 1))"

text \<open>\<^verbatim>\<open>strsep\<close> takes and returns the string pointer it updates.\<close>

definition strsep :: "mem \<Rightarrow> addr \<Rightarrow> addr \<Rightarrow> (addr \<times> addr \<times> mem) option" where
  "strsep m stringp delim =
     (if stringp = 0 then Some (0, 0, m)
      else map_option (\<lambda>(next, m1). (stringp, next, m1)) (strsep_loop m delim stringp))"

section \<open>Strings in memory\<close>

text \<open>\<open>cstr m p xs\<close>: at \<open>p\<close> there is the string \<open>xs\<close> with its terminator. \<open>store m p xs\<close>: the memory after writing the bytes \<open>xs\<close> from \<open>p\<close> on.\<close>

fun cstr :: "mem \<Rightarrow> addr \<Rightarrow> u8 list \<Rightarrow> bool" where
  "cstr m p [] \<longleftrightarrow> m p = 0"
| "cstr m p (c # cs) \<longleftrightarrow> c \<noteq> 0 \<and> m p = c \<and> cstr m (p + 1) cs"

definition store :: "mem \<Rightarrow> addr \<Rightarrow> u8 list \<Rightarrow> mem" where
  "store m p xs = (\<lambda>a. if p \<le> a \<and> a < p + length xs then xs ! (a - p) else m a)"

lemma store_nil [simp]: "store m p [] = m"
  by (rule ext) (auto simp: store_def)

lemma store_cons [simp]: "store m p (x # xs) = store (m(p := x)) (p + 1) xs"
  by (auto simp: store_def nth_Cons' intro!: ext)

lemma store_snoc: "store m p (xs @ [x]) = (store m p xs)(p + length xs := x)"
  by (auto simp: store_def nth_append intro!: ext)

lemma store_outside [simp]: "a < p \<or> p + length xs \<le> a \<Longrightarrow> store m p xs a = m a"
  by (auto simp: store_def)

lemma store_upd: "a < p \<Longrightarrow> store (m(a := x)) p xs = (store m p xs)(a := x)"
  by (auto simp: store_def intro!: ext)

lemma cstr_iff: "cstr m p xs \<longleftrightarrow> (\<forall>i < length xs. m (p + i) = xs ! i) \<and> 0 \<notin> set xs \<and> m (p + length xs) = 0"
proof (induction xs arbitrary: p)
  case (Cons c cs)
  show ?case unfolding cstr.simps Cons.IH by (auto simp: nth_Cons' less_Suc_eq_0_disj)
qed simp

lemma cstr_cong: "\<forall>a. p \<le> a \<and> a \<le> p + length xs \<longrightarrow> m' a = m a \<Longrightarrow> cstr m' p xs = cstr m p xs"
  unfolding cstr_iff by simp

lemma cstr_drop: "cstr m p xs \<Longrightarrow> n \<le> length xs \<Longrightarrow> cstr m (p + n) (drop n xs)"
  unfolding cstr_iff by (auto simp: add.assoc dest: in_set_dropD)

lemma cstr_unique: "cstr m p xs \<Longrightarrow> cstr m p ys \<Longrightarrow> xs = ys"
proof (induction xs arbitrary: p ys)
  case (Cons c cs)
  then show ?case by (cases ys) auto
qed (case_tac ys; simp)

lemma cstr_store: "0 \<notin> set xs \<Longrightarrow> cstr (store m p (xs @ [0])) p xs"
  unfolding cstr_iff by (auto simp: store_def nth_append)

lemma find_end_cstr: "cstr m p xs \<Longrightarrow> find_end m p = Some (p + length xs)"
  by (induction xs arbitrary: p) (subst find_end.simps, simp)+

lemma copy_string_store:
  assumes "cstr m src xs" and "dst \<le> src \<or> src + length xs < dst"
  shows "copy_string m dst src = Some (dst + length xs, store m dst (xs @ [0]))"
  using assms
proof (induction xs arbitrary: m src dst)
  case Nil
  then show ?case by (subst copy_string.simps) simp
next
  case (Cons c cs)
  let ?m = "m(dst := c)"
  have "cstr ?m (src + 1) cs"
    using Cons.prems by (subst cstr_cong [where m = m]) auto
  then have "copy_string ?m (dst + 1) (src + 1) = Some (dst + 1 + length cs, store ?m (dst + 1) (cs @ [0]))"
    by (rule Cons.IH) (use Cons.prems(2) in auto)
  then show ?case using Cons.prems by (subst copy_string.simps) simp
qed

lemma copy_up_store:
  "dst \<le> src \<or> src + n \<le> dst \<Longrightarrow> copy_up m dst src n = store m dst (map m [src..<src + n])"
proof (induction n arbitrary: m dst src)
  case (Suc n)
  let ?m = "m(dst := m src)"
  have c: "map ?m [src + 1..<src + 1 + n] = map m [src + 1..<src + 1 + n]" using Suc.prems by auto
  have u: "[src..<src + Suc n] = src # [src + 1..<src + 1 + n]" by (simp add: upt_rec)
  have "copy_up m dst src (Suc n) = copy_up ?m (dst + 1) (src + 1) n" by simp
  also have "\<dots> = store ?m (dst + 1) (map ?m [src + 1..<src + 1 + n])" by (rule Suc.IH) (use Suc.prems in auto)
  also have "\<dots> = store m dst (map m [src..<src + Suc n])" unfolding c u by simp
  finally show ?case .
qed simp

lemma copy_down_store:
  "src \<le> dst \<Longrightarrow> copy_down m (dst + n - 1) (src + n - 1) n = store m dst (map m [src..<src + n])"
proof (induction n arbitrary: m)
  case (Suc n)
  let ?m = "m(dst + n := m (src + n))"
  have c: "map ?m [src..<src + n] = map m [src..<src + n]" using Suc.prems by auto
  have "copy_down m (dst + Suc n - 1) (src + Suc n - 1) (Suc n) = copy_down ?m (dst + n - 1) (src + n - 1) n" by simp
  also have "\<dots> = store ?m dst (map ?m [src..<src + n])" by (rule Suc.IH) (use Suc.prems in auto)
  also have "\<dots> = store m dst (map m [src..<src + Suc n])"
    unfolding c by (rule ext) (auto simp: store_def nth_append)
  finally show ?case .
qed simp


subsection \<open>The bit map of a character set\<close>

lemma and_bit: "j < 8 \<Longrightarrow> (x :: u8) AND push_bit j 1 \<noteq> 0 \<longleftrightarrow> bit x j"
  by (simp add: and_exp_eq_0_iff_not_bit)

lemma char_split: "drop_bit 3 (c :: u8) = drop_bit 3 d \<and> c AND 7 = d AND 7 \<longleftrightarrow> c = d"
proof
  assume a: "drop_bit 3 c = drop_bit 3 d \<and> c AND 7 = d AND 7"
  have "c AND 7 = take_bit 3 c" for c :: u8 using take_bit_eq_mask [of 3 c] by (simp add: mask_eq_exp_minus_1)
  then have "take_bit 3 c = take_bit 3 d" using a by metis
  with a have "push_bit 3 (drop_bit 3 c) + take_bit 3 c = push_bit 3 (drop_bit 3 d) + take_bit 3 d" by (simp only:)
  then show "c = d" by (simp only: bits_ident)
qed simp

lemma low_bits: "unat ((c :: u8) AND 7) < 8"
proof -
  have "c AND 7 = c mod 8" using take_bit_eq_mask [of 3 c] by (simp add: mask_eq_exp_minus_1 take_bit_eq_mod)
  moreover have "unat (c mod 8) = unat c mod 8" by (simp add: unat_mod_distrib)
  ultimately show ?thesis by simp
qed

lemma high_bits: "unat (drop_bit 3 (c :: u8)) < 32"
proof -
  have "unat (drop_bit 3 c) = unat c div 8" by (simp add: drop_bit_eq_div unat_div_distrib)
  then show ?thesis using unsigned_less [of c, where 'a = nat] by simp
qed

lemma length_map_set [simp]: "length (map_set bm c) = length bm"
  by (simp add: map_set_def)

lemma map_test_set:
  assumes "length bm = 32"
  shows "map_test (map_set bm d) c \<longleftrightarrow> c = d \<or> map_test bm c"
proof -
  let ?i = "unat (drop_bit 3 c)" and ?j = "unat (c AND 7)" and ?k = "unat (d AND 7)"
  have b: "bit (push_bit ?k (1 :: u8)) ?j \<longleftrightarrow> ?j = ?k" using low_bits [of c] by (auto simp: bit_simps)
  show ?thesis
  proof (cases "?i = unat (drop_bit 3 d)")
    case True
    then have e: "drop_bit 3 c = drop_bit 3 d" by (rule unsigned_word_eqI)
    have "map_test (map_set bm d) c \<longleftrightarrow> bit (bm ! ?i OR push_bit ?k 1) ?j"
      unfolding map_test_def and_bit [OF low_bits] using True high_bits [of c] assms by (simp add: map_set_def)
    also have "\<dots> \<longleftrightarrow> ?j = ?k \<or> bit (bm ! ?i) ?j" unfolding bit_or_iff b by blast
    also have "?j = ?k \<longleftrightarrow> c = d" using char_split [of c d] e word_unat_eq_iff by blast
    finally show ?thesis unfolding map_test_def and_bit [OF low_bits] .
  next
    case False
    then show ?thesis by (auto simp: map_test_def map_set_def)
  qed
qed

lemma map_test_empty: "\<not> map_test (replicate 32 0) c"
  using high_bits [of c] by (simp add: map_test_def)

lemma fill_map_set:
  assumes "cstr m p ds" "length bm = 32"
  shows "\<exists>bm'. fill_map m p bm = Some bm' \<and> length bm' = 32 \<and> (\<forall>c. map_test bm' c \<longleftrightarrow> c \<in> set ds \<or> map_test bm c)"
  using assms
proof (induction ds arbitrary: p bm)
  case Nil
  then show ?case by (subst fill_map.simps) simp
next
  case (Cons d ds)
  have "cstr m (p + 1) ds" "length (map_set bm d) = 32" using Cons.prems by simp_all
  from Cons.IH [OF this] obtain bm' where "fill_map m (p + 1) (map_set bm d) = Some bm'" "length bm' = 32"
    "\<forall>c. map_test bm' c \<longleftrightarrow> c \<in> set ds \<or> map_test (map_set bm d) c" by blast
  then show ?case using Cons.prems by (subst fill_map.simps) (auto simp: map_test_set)
qed

lemma fill_map_new:
  assumes "cstr m p ds"
  obtains bm where "fill_map m p (replicate 32 0) = Some bm" "length bm = 32" "\<And>c. map_test bm c \<longleftrightarrow> c \<in> set ds"
  using fill_map_set [OF assms, of "replicate 32 0"] map_test_empty by auto

lemma span_loop_cstr:
  assumes "cstr m p xs" "\<not> go 0"
  shows "span_loop go m p n = Some (n + length (takeWhile go xs))"
  using assms
proof (induction xs arbitrary: p n)
  case Nil
  then show ?case by (subst span_loop.simps) simp
next
  case (Cons c cs)
  then show ?case by (subst span_loop.simps) simp
qed

lemma strpbrk_loop_cstr:
  assumes "cstr m p xs"
  shows "strpbrk_loop bm m p = Some (if \<exists>c \<in> set xs. map_test bm c then p + length (takeWhile (\<lambda>c. \<not> map_test bm c) xs) else 0)"
  using assms
proof (induction xs arbitrary: p)
  case Nil
  then show ?case by (subst strpbrk_loop.simps) simp
next
  case (Cons c cs)
  then show ?case by (subst strpbrk_loop.simps) auto
qed

subsection \<open>Searching for a string\<close>

lemma match_here_cstr:
  assumes "cstr m p xs" "cstr m q ys"
  shows "match_here eq m p q = Some (length ys \<le> length xs \<and> list_all2 eq (take (length ys) xs) ys)"
  using assms(1,2)
proof (induction ys arbitrary: p q xs)
  case Nil
  then show ?case by (subst match_here.simps) simp
next
  case (Cons b bs)
  show ?case
  proof (cases xs)
    case Nil
    then show ?thesis using Cons.prems by (subst match_here.simps) simp
  next
    case (Cons a as)
    then show ?thesis using Cons.prems Cons.IH [of "p + 1" as "q + 1"] by (subst match_here.simps) auto
  qed
qed

text \<open>The position of the first match.\<close>

fun find_sub :: "(u8 \<Rightarrow> u8 \<Rightarrow> bool) \<Rightarrow> u8 list \<Rightarrow> u8 list \<Rightarrow> nat option" where
  "find_sub eq ys [] = None"
| "find_sub eq ys (x # xs) =
     (if length ys \<le> length (x # xs) \<and> list_all2 eq (take (length ys) (x # xs)) ys then Some 0
      else map_option Suc (find_sub eq ys xs))"

lemma find_sub_None:
  "find_sub eq ys xs = None \<longleftrightarrow> (\<forall>i < length xs. \<not> (length ys \<le> length (drop i xs) \<and> list_all2 eq (take (length ys) (drop i xs)) ys))"
proof (induction xs)
  case (Cons x xs)
  have "(\<forall>i < length (x # xs). P i) \<longleftrightarrow> P 0 \<and> (\<forall>i < length xs. P (Suc i))" for P
    by (auto simp: less_Suc_eq_0_disj)
  then show ?case using Cons by simp
qed simp

lemma find_sub_Some:
  assumes "find_sub eq ys xs = Some k"
  shows "k < length xs" "length ys \<le> length (drop k xs)" "list_all2 eq (take (length ys) (drop k xs)) ys"
    "i < k \<Longrightarrow> \<not> (length ys \<le> length (drop i xs) \<and> list_all2 eq (take (length ys) (drop i xs)) ys)"
proof -
  have "k < length xs \<and> length ys \<le> length (drop k xs) \<and> list_all2 eq (take (length ys) (drop k xs)) ys \<and>
    (\<forall>i < k. \<not> (length ys \<le> length (drop i xs) \<and> list_all2 eq (take (length ys) (drop i xs)) ys))"
    using assms
  proof (induction xs arbitrary: k)
    case (Cons x xs)
    show ?case
    proof (cases "length ys \<le> length (x # xs) \<and> list_all2 eq (take (length ys) (x # xs)) ys")
      case False
      then obtain k' where k': "find_sub eq ys xs = Some k'" "k = Suc k'" using Cons.prems by auto
      have "(\<forall>i < Suc k'. P i) \<longleftrightarrow> P 0 \<and> (\<forall>i < k'. P (Suc i))" for P by (auto simp: less_Suc_eq_0_disj)
      then show ?thesis using Cons.IH [OF k'(1)] False by (simp add: k'(2))
    qed (use Cons.prems in auto)
  qed simp
  then show "k < length xs" "length ys \<le> length (drop k xs)" "list_all2 eq (take (length ys) (drop k xs)) ys"
    "i < k \<Longrightarrow> \<not> (length ys \<le> length (drop i xs) \<and> list_all2 eq (take (length ys) (drop i xs)) ys)" by auto
qed

lemma search_from_cstr:
  assumes "cstr m p xs" "cstr m q ys"
  shows "search_from eq m p q = Some (case find_sub eq ys xs of None \<Rightarrow> 0 | Some i \<Rightarrow> p + i)"
  using assms(1)
proof (induction xs arbitrary: p)
  case Nil
  then show ?case by (subst search_from.simps) simp
next
  case (Cons x xs)
  note h = match_here_cstr [OF Cons.prems assms(2)]
  show ?case using Cons by (subst search_from.simps) (auto simp: h split: option.splits)
qed


subsection \<open>Copying with a limit\<close>

lemma fill_zero_store: "fill_zero m d (Suc k) = store m d (replicate k 0)"
  by (induction k arbitrary: m d) simp_all

lemma strncpy_copy_store:
  assumes "cstr m src xs" "dest \<le> src \<or> src + length xs < dest"
  shows "strncpy_copy m dest src n =
    (if n \<le> length xs then (store m dest (take n xs), dest + n, 0)
     else (store m dest (xs @ [0]), dest + length xs + 1, n - length xs))"
  using assms
proof (induction n arbitrary: m dest src xs)
  case (Suc n)
  show ?case
  proof (cases xs)
    case Nil
    then show ?thesis using Suc.prems by simp
  next
    case (Cons c cs)
    let ?m = "m(dest := c)"
    have "cstr ?m (src + 1) cs" using Suc.prems Cons by (subst cstr_cong [where m = m]) auto
    then have "strncpy_copy ?m (dest + 1) (src + 1) n = (if n \<le> length cs then (store ?m (dest + 1) (take n cs), dest + 1 + n, 0)
        else (store ?m (dest + 1) (cs @ [0]), dest + 1 + length cs + 1, n - length cs))"
      by (rule Suc.IH) (use Suc.prems Cons in auto)
    then show ?thesis using Suc.prems Cons by simp
  qed
qed simp

lemma strncpy_store:
  assumes "cstr m src xs" "dest \<le> src \<or> src + length xs < dest"
  shows "strncpy m dest src n = (dest, store m dest (take n (xs @ replicate n 0)))"
proof (cases "n \<le> length xs")
  case True
  then show ?thesis using strncpy_copy_store [OF assms, of n] by (simp add: strncpy_def)
next
  case False
  then obtain k where k: "n = length xs + Suc k" using less_iff_Suc_add [of "length xs" n] by auto
  have "store (store m dest (xs @ [0])) (dest + length xs + 1) (replicate k 0) = store m dest (take n (xs @ replicate n 0))"
    by (rule ext) (auto simp: store_def k nth_append not_le less_Suc_eq)
  then show ?thesis using strncpy_copy_store [OF assms, of n] False k
    by (simp add: strncpy_def fill_zero_store)
qed

subsection \<open>Tokens\<close>

lemma skip_delims_cstr:
  assumes "cstr m p xs"
  shows "skip_delims bm m p = Some (p + length (takeWhile (map_test bm) xs))"
  using assms
proof (induction xs arbitrary: p)
  case Nil
  then show ?case by (subst skip_delims.simps) simp
next
  case (Cons c cs)
  then show ?case by (subst skip_delims.simps) simp
qed

lemma end_token_cstr:
  assumes "cstr m p xs"
  shows "end_token bm m p = Some (let k = length (takeWhile (\<lambda>c. \<not> map_test bm c) xs) in
     if k = length xs then (p + k, m) else (p + k + 1, m(p + k := 0)))"
  using assms
proof (induction xs arbitrary: p)
  case Nil
  then show ?case by (subst end_token.simps) simp
next
  case (Cons c cs)
  then show ?case by (subst end_token.simps) (simp add: Let_def)
qed

lemma takeWhile_split: "takeWhile P xs @ drop (length (takeWhile P xs)) xs = xs"
  by (metis append_take_drop_id takeWhile_eq_take)

lemma cstr_cut:
  assumes "cstr m p xs" "k < length xs"
  shows "cstr (m(p + k := 0)) p (take k xs)" "cstr (m(p + k := 0)) (p + k + 1) (drop (Suc k) xs)"
proof -
  show "cstr (m(p + k := 0)) p (take k xs)"
    using assms unfolding cstr_iff by (auto dest: in_set_takeD)
  have "cstr (m(p + k := 0)) (p + Suc k) (drop (Suc k) xs) = cstr m (p + Suc k) (drop (Suc k) xs)" by (rule cstr_cong) auto
  then show "cstr (m(p + k := 0)) (p + k + 1) (drop (Suc k) xs)" using cstr_drop [OF assms(1), of "Suc k"] assms(2) by simp
qed

section \<open>Correctness of the string functions\<close>

text \<open>
  C24: \<^verbatim>\<open>memmove\<close> copies the source block as it was before the call, whatever the overlap of the two blocks,
  changes no byte outside the destination, and returns the destination.
\<close>

theorem memmove_correct: "memmove_bytes m dst src n = (dst, store m dst (map m [src..<src + n]))"
proof (cases "dst \<le> src \<or> src + n \<le> dst")
  case True
  then show ?thesis using copy_up_store [of dst src n m] by (simp add: memmove_bytes_def)
next
  case False
  then show ?thesis using copy_down_store [of src dst m n] by (simp add: memmove_bytes_def)
qed

text \<open>
  C26: \<^verbatim>\<open>strstr\<close> on two terminated strings returns the address of the first position at which the second string
  occurs in the first one, the first string itself for an empty second string, and \<^verbatim>\<open>NULL\<close> exactly if there is no
  occurrence.
\<close>

theorem strstr_correct:
  assumes "cstr m p xs" "cstr m q ys"
  shows "\<exists>r. strstr m p q = Some r \<and>
    (if \<exists>i \<le> length xs. take (length ys) (drop i xs) = ys
     then \<exists>i \<le> length xs. r = p + i \<and> take (length ys) (drop i xs) = ys \<and> (\<forall>j < i. take (length ys) (drop j xs) \<noteq> ys)
     else r = 0)"
proof (cases "ys = []")
  case True
  then show ?thesis using assms(2) by (auto simp: strstr_def)
next
  case False
  have occ: "length ys \<le> length (drop i xs) \<and> list_all2 (\<lambda>a b. a = b) (take (length ys) (drop i xs)) ys \<longleftrightarrow>
      take (length ys) (drop i xs) = ys" for i
  proof -
    have "length ys \<le> length (drop i xs)" if "take (length ys) (drop i xs) = ys" using arg_cong [OF that, of length] by simp
    then show ?thesis by (auto simp: list.rel_eq)
  qed
  have inside: "take (length ys) (drop i xs) = ys \<Longrightarrow> i < length xs" for i using False by (cases "i < length xs") auto
  have nz: "m q \<noteq> 0" using False assms(2) by (cases ys) auto
  have s: "strstr m p q = Some (case find_sub (\<lambda>a b. a = b) ys xs of None \<Rightarrow> 0 | Some i \<Rightarrow> p + i)"
    using search_from_cstr [OF assms] nz by (simp add: strstr_def)
  show ?thesis
  proof (cases "find_sub (\<lambda>a b. a = b) ys xs")
    case None
    then have "\<not> (\<exists>i \<le> length xs. take (length ys) (drop i xs) = ys)"
      using find_sub_None [of "\<lambda>a b. a = b" ys xs] inside unfolding occ by blast
    then show ?thesis using s None by auto
  next
    case (Some i)
    then have "i < length xs" "take (length ys) (drop i xs) = ys" "\<forall>j < i. take (length ys) (drop j xs) \<noteq> ys"
      using find_sub_Some [OF Some] unfolding occ by (auto simp: list.rel_eq)
    then show ?thesis using s Some by (auto intro!: exI [of _ i])
  qed
qed

theorem strstr_correct_witness:
  "strstr ((\<lambda>_. 0)(10 := 97, 11 := 98, 12 := 99, 20 := 98, 21 := 99)) 10 20 = Some 11"
proof -
  let ?m = "(\<lambda>_. 0)(10 := 97, 11 := 98, 12 := 99, 20 := 98, 21 := 99) :: mem"
  have c: "cstr ?m 10 [97, 98, 99]" "cstr ?m 20 [98, 99]" by simp_all
  have h: "\<exists>i \<le> length [97, 98, 99 :: u8]. take (length [98, 99 :: u8]) (drop i [97, 98, 99]) = [98, 99 :: u8]"
    by (rule exI [of _ 1]) simp
  from strstr_correct [OF c, unfolded if_P [OF h]] obtain i where i: "strstr ?m 10 20 = Some (10 + i)"
    "take (length [98, 99 :: u8]) (drop i [97, 98, 99 :: u8]) = [98, 99]" "i \<le> length [97, 98, 99 :: u8]" by blast
  have "i = 0 \<or> i = 1 \<or> i = 2 \<or> i = 3" using i(3) by (auto simp: le_Suc_eq)
  then have "i = 1" using i(2) by auto
  then show ?thesis using i(1) by simp
qed

text \<open>
  The bit maps of \<^verbatim>\<open>strspn\<close>, \<^verbatim>\<open>strcspn\<close> and \<^verbatim>\<open>strpbrk\<close> decide membership in the
  control string for every character code: the first two return the length of the longest prefix made of control characters, or free of
  them, and the third the address of the first control character or \<^verbatim>\<open>NULL\<close>.
\<close>

theorem strspn_correct:
  assumes "cstr m p xs" "cstr m q ds"
  shows "strspn m p q = Some (length (takeWhile (\<lambda>c. c \<in> set ds) xs)) \<and>
    strcspn m p q = Some (length (takeWhile (\<lambda>c. c \<notin> set ds) xs)) \<and>
    strpbrk m p q = Some (if set xs \<inter> set ds = {} then 0 else p + length (takeWhile (\<lambda>c. c \<notin> set ds) xs))"
proof -
  obtain bm where bm: "fill_map m q (replicate 32 0) = Some bm" "length bm = 32" "\<And>c. map_test bm c \<longleftrightarrow> c \<in> set ds"
    using fill_map_new [OF assms(2)] by blast
  have nz: "0 \<notin> set ds" "0 \<notin> set xs" using assms by (simp_all add: cstr_iff)
  have t: "map_test bm = (\<lambda>c. c \<in> set ds)" using bm(3) by auto
  have "bm[0 := bm ! 0 OR 1] = map_set bm 0" by (simp add: map_set_def)
  then have t0: "map_test (bm[0 := bm ! 0 OR 1]) c \<longleftrightarrow> c = 0 \<or> c \<in> set ds" for c
    using map_test_set [OF bm(2), of 0 c] bm(3) by simp
  have "strspn m p q = Some (length (takeWhile (\<lambda>c. c \<in> set ds) xs))"
  proof (cases "m p = 0")
    case True
    then have "xs = []" using assms(1) by (cases xs) auto
    then show ?thesis using bm(1) True by (simp add: strspn_def)
  next
    case False
    then show ?thesis using bm(1) span_loop_cstr [OF assms(1), of "map_test bm" 0] nz by (simp add: strspn_def t)
  qed
  moreover have "strcspn m p q = Some (length (takeWhile (\<lambda>c. c \<notin> set ds) xs))"
  proof -
    have "takeWhile (\<lambda>c. \<not> map_test (bm[0 := bm ! 0 OR 1]) c) xs = takeWhile (\<lambda>c. c \<notin> set ds) xs"
      by (rule takeWhile_cong) (use nz(2) t0 in auto)
    then show ?thesis using bm(1) span_loop_cstr [OF assms(1), of "\<lambda>c. \<not> map_test (bm[0 := bm ! 0 OR 1]) c" 0] t0
      by (simp add: strcspn_def)
  qed
  moreover have "strpbrk m p q = Some (if set xs \<inter> set ds = {} then 0 else p + length (takeWhile (\<lambda>c. c \<notin> set ds) xs))"
    using bm(1) strpbrk_loop_cstr [OF assms(1), of bm] by (auto simp: strpbrk_def t)
  ultimately show ?thesis by blast
qed

theorem strspn_correct_witness:
  "strcspn ((\<lambda>_. 0)(10 := 97, 11 := 98, 12 := 255, 20 := 99, 21 := 255)) 10 20 = Some 2"
proof -
  let ?m = "(\<lambda>_. 0)(10 := 97, 11 := 98, 12 := 255, 20 := 99, 21 := 255) :: mem"
  have "cstr ?m 10 [97, 98, 255]" "cstr ?m 20 [99, 255]" by simp_all
  from strspn_correct [OF this] show ?thesis by simp
qed

text \<open>
  \<^verbatim>\<open>strncpy\<close> writes exactly \<^verbatim>\<open>n\<close> bytes, the string cut or padded with zeros to that length,
  and nothing before or after them.
\<close>

theorem strncpy_correct:
  assumes "cstr m src xs" "dest \<le> src \<or> src + length xs < dest"
  shows "strncpy m dest src n = (dest, store m dest (take n (xs @ replicate n 0))) \<and>
    length (take n (xs @ replicate n 0)) = n"
  using strncpy_store [OF assms] by simp

theorem strncpy_correct_witness:
  "snd (strncpy ((\<lambda>_. 7)(10 := 97, 11 := 98, 12 := 0)) 30 10 5) 31 = 98 \<and>
   snd (strncpy ((\<lambda>_. 7)(10 := 97, 11 := 98, 12 := 0)) 30 10 5) 34 = 0 \<and>
   snd (strncpy ((\<lambda>_. 7)(10 := 97, 11 := 98, 12 := 0)) 30 10 5) 35 = 7"
proof -
  have "cstr ((\<lambda>_. 7)(10 := 97, 11 := 98, 12 := 0)) 10 [97, 98]" by simp
  from strncpy_correct [OF this, of 30 5] show ?thesis by (simp add: store_def eval_nat_numeral)
qed

text \<open>
  C25: \<^verbatim>\<open>strtok_r\<close> skips the leading delimiters and cuts the longest run of other characters out of the string
  in place: the result is a terminated string holding that run, the saved pointer is the rest of the input behind the delimiter, and only the byte
  of the delimiter is overwritten. It returns \<^verbatim>\<open>NULL\<close> and changes nothing when only delimiters are left.
\<close>

theorem strtok_r_correct:
  assumes "p = (if string \<noteq> 0 then string else lasts)" "cstr m p xs" "cstr m control ds" "p > 0"
    and "ys = dropWhile (\<lambda>c. c \<in> set ds) xs" "tok = takeWhile (\<lambda>c. c \<notin> set ds) ys" "start = p + (length xs - length ys)"
  shows "\<exists>r next m'. strtok_r m string control lasts = Some (r, next, m') \<and>
    (if ys = [] then r = 0 \<and> next = p + length xs \<and> m' = m
     else r = start \<and> tok \<noteq> [] \<and> cstr m' start tok \<and> cstr m' next (drop (Suc (length tok)) ys) \<and>
       (\<forall>a. a \<noteq> start + length tok \<longrightarrow> m' a = m a))"
proof -
  obtain bm where bm: "fill_map m control (replicate 32 0) = Some bm" "length bm = 32" "\<And>c. map_test bm c \<longleftrightarrow> c \<in> set ds"
    using fill_map_new [OF assms(3)] by blast
  let ?b = "map_set bm 0" and ?D = "\<lambda>c. c \<in> set ds"
  have t: "map_test ?b c \<longleftrightarrow> c = 0 \<or> c \<in> set ds" for c using map_test_set [OF bm(2)] bm(3) by simp
  have nz: "0 \<notin> set xs" using assms(2) by (simp add: cstr_iff)
  have ys: "ys = drop (length (takeWhile ?D xs)) xs" by (simp add: assms(5) dropWhile_eq_drop)
  have len: "length xs - length ys = length (takeWhile ?D xs)" using length_takeWhile_le [of ?D xs] by (simp add: ys)
  have st: "start = p + length (takeWhile ?D xs)" by (simp only: assms(7) len)
  have cy: "cstr m start ys" unfolding st ys by (rule cstr_drop [OF assms(2) length_takeWhile_le])
  have nzy: "0 \<notin> set ys" using cy by (simp add: cstr_iff)
  have "takeWhile (map_test ?b) xs = takeWhile ?D xs" by (rule takeWhile_cong) (use nz t in auto)
  then have skip: "skip_delims ?b m p = Some start" using skip_delims_cstr [OF assms(2), of ?b] by (simp add: st)
  have "takeWhile (\<lambda>c. \<not> map_test ?b c) ys = tok" unfolding assms(6) by (rule takeWhile_cong) (use nzy t in auto)
  then have tk: "end_token ?b m start = Some (if length tok = length ys then (start + length tok, m)
      else (start + length tok + 1, m(start + length tok := 0)))"
    using end_token_cstr [OF cy, of ?b] by (simp add: Let_def)
  have tle: "length tok \<le> length ys" by (simp add: assms(6) length_takeWhile_le)
  have tne: "tok \<noteq> []" if "ys \<noteq> []" using that hd_dropWhile [of ?D xs] by (cases ys) (auto simp: assms(5,6))
  have tt: "tok = take (length tok) ys" by (simp add: assms(6) takeWhile_eq_take [symmetric])
  have run: "strtok_r m string control lasts = Some (let (str, m1) = (if length tok = length ys then (start + length tok, m)
      else (start + length tok + 1, m(start + length tok := 0))) in (if start = str then 0 else start, str, m1))"
    unfolding strtok_r_def Let_def assms(1) [symmetric] by (simp add: bm(1) skip tk)
  show ?thesis
  proof (cases "length tok = length ys")
    case True
    then have "tok = ys" using tt by simp
    then show ?thesis using run True tne cy st length_takeWhile_le [of ?D xs] by (auto simp: cstr_iff ys)
  next
    case False
    then have k: "length tok < length ys" using tle by simp
    then have "ys \<noteq> []" by auto
    then show ?thesis using run False cstr_cut [OF cy k] tt tne by auto
  qed
qed

theorem strtok_r_correct_witness:
  "\<exists>next m'. strtok_r ((\<lambda>_. 0)(10 := 32, 11 := 97, 12 := 98, 13 := 32, 14 := 99, 20 := 32)) 10 20 0 = Some (11, next, m') \<and>
     cstr m' 11 [97, 98] \<and> cstr m' next [99]"
proof -
  let ?m = "(\<lambda>_. 0)(10 := 32, 11 := 97, 12 := 98, 13 := 32, 14 := 99, 20 := 32) :: mem"
  have c: "cstr ?m 10 [32, 97, 98, 32, 99]" "cstr ?m 20 [32]" by simp_all
  have "\<exists>r next m'. strtok_r ?m 10 20 0 = Some (r, next, m') \<and>
    (if [97, 98, 32, 99 :: u8] = [] then r = 0 \<and> next = 10 + length [32, 97, 98, 32, 99 :: u8] \<and> m' = ?m
     else r = 11 \<and> [97, 98 :: u8] \<noteq> [] \<and> cstr m' 11 [97, 98] \<and> cstr m' next (drop (Suc (length [97, 98 :: u8])) [97, 98, 32, 99]) \<and>
       (\<forall>a. a \<noteq> 11 + length [97, 98 :: u8] \<longrightarrow> m' a = ?m a))"
    by (rule strtok_r_correct [OF _ c]) simp_all
  then show ?thesis by auto
qed

end
