(* ===== verification/Strtol.thy ===== *)
theory Strtol
  imports Cstring
begin

text \<open>
  Numbers and their text: \<^verbatim>\<open>src/src/lib/strtol.c\<close> and \<^verbatim>\<open>src/src/lib/xtoa.c\<close>. In the sources
  \<^verbatim>\<open>p\<close> always points one past the character in \<^verbatim>\<open>c\<close>; here \<open>q\<close> is the address of that character. A conversion
  returns the number, the end pointer (stored only if the caller asks for it) and whether it sets \<^verbatim>\<open>errno\<close> to
  \<^verbatim>\<open>ERANGE\<close>. \<^verbatim>\<open>long\<close> is 32 bits wide. The two conversions share the text of their parsing steps and of the loop over the digits, which are
  defined once for every word width.
\<close>

unbundle bit_operations_syntax

type_synonym u64 = "64 word"

definition FL_UNSIGNED :: u32 where "FL_UNSIGNED = 1"
definition FL_NEG :: u32 where "FL_NEG = 2"
definition FL_OVERFLOW :: u32 where "FL_OVERFLOW = 4"
definition FL_READDIGIT :: u32 where "FL_READDIGIT = 8"

partial_function (option) skip_space :: "mem \<Rightarrow> addr \<Rightarrow> addr option" where
  "skip_space m q = (if is_space (m q) then skip_space m (q + 1) else Some q)"

definition parse_sign :: "mem \<Rightarrow> addr \<Rightarrow> u32 \<Rightarrow> addr \<times> u32" where
  "parse_sign m q flags =
     (if m q = 45 then (q + 1, flags OR FL_NEG) else if m q = 43 then (q + 1, flags) else (q, flags))"

definition pick_base :: "mem \<Rightarrow> addr \<Rightarrow> int \<Rightarrow> int" where
  "pick_base m q ibase =
     (if ibase = 0 then if m q \<noteq> 48 then 10 else if m (q + 1) = 120 \<or> m (q + 1) = 88 then 16 else 8 else ibase)"

definition skip_prefix :: "mem \<Rightarrow> addr \<Rightarrow> int \<Rightarrow> addr" where
  "skip_prefix m q ibase = (if ibase = 16 \<and> m q = 48 \<and> (m (q + 1) = 120 \<or> m (q + 1) = 88) then q + 2 else q)"

definition digit_value :: "u8 \<Rightarrow> nat option" where
  "digit_value c =
     (if is_digit c then Some (unat c - 48) else if is_alpha c then Some (unat (to_upper c) - 65 + 10) else None)"

text \<open>
  The loop over the digits. \<open>base\<close> is the base as an unsigned number, \<open>maxval\<close> and \<open>maxrem\<close> are quotient and remainder of the
  largest number by the base.
\<close>

partial_function (option) digits_loop ::
    "mem \<Rightarrow> addr \<Rightarrow> 'w::len word \<Rightarrow> 'w word \<Rightarrow> 'w word \<Rightarrow> 'w word \<Rightarrow> u32 \<Rightarrow> (addr \<times> 'w word \<times> u32) option" where
  "digits_loop m q base maxval maxrem number flags =
     (case digit_value (m q) of
        None \<Rightarrow> Some (q, number, flags)
      | Some d \<Rightarrow>
          if of_nat d \<ge> base then Some (q, number, flags)
          else if number < maxval \<or> number = maxval \<and> of_nat d \<le> maxrem
          then digits_loop m (q + 1) base maxval maxrem (number * base + of_nat d) (flags OR FL_READDIGIT)
          else digits_loop m (q + 1) base maxval maxrem number ((flags OR FL_READDIGIT) OR FL_OVERFLOW))"

definition strtoxl :: "mem \<Rightarrow> addr \<Rightarrow> bool \<Rightarrow> int \<Rightarrow> u32 \<Rightarrow> (u32 \<times> addr \<times> bool) option" where
  "strtoxl m nptr endptr ibase flags = do {
     q0 \<leftarrow> skip_space m nptr;
     let (q1, flags1) = parse_sign m q0 flags;
     if ibase < 0 \<or> ibase = 1 \<or> ibase > 36 then Some (0, nptr, False)
     else do {
       let b = pick_base m q1 ibase;
       let q2 = skip_prefix m q1 b;
       (p, number, flags2) \<leftarrow> digits_loop m q2 (word_of_int b) (0xFFFFFFFF div word_of_int b) (0xFFFFFFFF mod word_of_int b) 0 flags1;
       let range = (flags2 AND FL_OVERFLOW \<noteq> 0 \<or>
             (flags2 AND FL_UNSIGNED = 0 \<and>
               ((flags2 AND FL_NEG \<noteq> 0 \<and> number < 0x80000000) \<or> (flags2 AND FL_NEG = 0 \<and> number > 0x7FFFFFFF))));
       let (p1, number1, erange) =
         (if flags2 AND FL_READDIGIT = 0 then (if endptr then nptr else p, 0, False)
          else if range
          then (p, if flags2 AND FL_UNSIGNED \<noteq> 0 then 0xFFFFFFFF else if flags2 AND FL_NEG \<noteq> 0 then 0x80000000 else 0x7FFFFFFF, True)
          else (p, number, False));
       Some (if flags2 AND FL_NEG \<noteq> 0 then - number1 else number1, p1, erange)
     }
   }"

definition strtol :: "mem \<Rightarrow> addr \<Rightarrow> bool \<Rightarrow> int \<Rightarrow> (int \<times> addr \<times> bool) option" where
  "strtol m nptr endptr ibase = map_option (\<lambda>(n, e). (sint n, e)) (strtoxl m nptr endptr ibase 0)"

definition strtoul :: "mem \<Rightarrow> addr \<Rightarrow> bool \<Rightarrow> int \<Rightarrow> (u32 \<times> addr \<times> bool) option" where
  "strtoul m nptr endptr ibase = strtoxl m nptr endptr ibase FL_UNSIGNED"

text \<open>\<^verbatim>\<open>atol\<close>, its sum wrapping around at 32 bits.\<close>

partial_function (option) atol_loop :: "mem \<Rightarrow> addr \<Rightarrow> u32 \<Rightarrow> u32 option" where
  "atol_loop m q tot = (if is_digit (m q) then atol_loop m (q + 1) (10 * tot + (ucast (m q) - 48)) else Some tot)"

definition atol :: "mem \<Rightarrow> addr \<Rightarrow> int option" where
  "atol m nptr = do {
     q \<leftarrow> skip_space m nptr;
     tot \<leftarrow> atol_loop m (if m q = 45 \<or> m q = 43 then q + 1 else q) 0;
     Some (sint (if m q = 45 then - tot else tot))
   }"

definition atoi :: "mem \<Rightarrow> addr \<Rightarrow> int option" where
  "atoi m nptr = atol m nptr"

text \<open>The 64-bit conversion takes its limit from the largest signed number, also for unsigned results.\<close>

definition strtoxll :: "mem \<Rightarrow> addr \<Rightarrow> bool \<Rightarrow> int \<Rightarrow> u32 \<Rightarrow> (u64 \<times> addr \<times> bool) option" where
  "strtoxll m nptr endptr ibase flags = do {
     q0 \<leftarrow> skip_space m nptr;
     let (q1, flags1) = parse_sign m q0 flags;
     if ibase < 0 \<or> ibase = 1 \<or> ibase > 36 then Some (0, nptr, False)
     else do {
       let b = pick_base m q1 ibase;
       let q2 = skip_prefix m q1 b;
       (p, number, flags2) \<leftarrow> digits_loop m q2 (word_of_int b) (0x7FFFFFFFFFFFFFFF div word_of_int b)
         (0x7FFFFFFFFFFFFFFF mod word_of_int b) 0 flags1;
       let range = (flags2 AND FL_OVERFLOW \<noteq> 0 \<or>
             (flags2 AND FL_UNSIGNED = 0 \<and>
               ((flags2 AND FL_NEG \<noteq> 0 \<and> number < 0x8000000000000000) \<or> (flags2 AND FL_NEG = 0 \<and> number > 0x7FFFFFFFFFFFFFFF))));
       let (p1, number1, erange) =
         (if flags2 AND FL_READDIGIT = 0 then (if endptr then nptr else p, 0, False)
          else if range
          then (p, if flags2 AND FL_UNSIGNED \<noteq> 0 then 0xFFFFFFFFFFFFFFFF
                   else if flags2 AND FL_NEG \<noteq> 0 then 0x8000000000000000 else 0x7FFFFFFFFFFFFFFF, True)
          else (p, number, False));
       Some (if flags2 AND FL_NEG \<noteq> 0 then - number1 else number1, p1, erange)
     }
   }"

definition strtoll :: "mem \<Rightarrow> addr \<Rightarrow> bool \<Rightarrow> int \<Rightarrow> (int \<times> addr \<times> bool) option" where
  "strtoll m nptr endptr ibase = map_option (\<lambda>(n, e). (sint n, e)) (strtoxll m nptr endptr ibase 0)"

definition strtoull :: "mem \<Rightarrow> addr \<Rightarrow> bool \<Rightarrow> int \<Rightarrow> (u64 \<times> addr \<times> bool) option" where
  "strtoull m nptr endptr ibase = strtoxll m nptr endptr ibase FL_UNSIGNED"

definition strtoimax :: "mem \<Rightarrow> addr \<Rightarrow> bool \<Rightarrow> int \<Rightarrow> (int \<times> addr \<times> bool) option" where
  "strtoimax m nptr endptr ibase = map_option (\<lambda>(n, e). (sint n, e)) (strtoxll m nptr endptr ibase 0)"

definition strtoumax :: "mem \<Rightarrow> addr \<Rightarrow> bool \<Rightarrow> int \<Rightarrow> (u64 \<times> addr \<times> bool) option" where
  "strtoumax m nptr endptr ibase = strtoxll m nptr endptr ibase FL_UNSIGNED"

section \<open>Numbers to text\<close>

definition digit_char :: "u32 \<Rightarrow> u8" where
  "digit_char digval = (if digval > 9 then ucast (digval - 10 + 97) else ucast (digval + 48))"

text \<open>The digits in reverse order; a radix of zero traps.\<close>

partial_function (option) xtoa_digits :: "mem \<Rightarrow> addr \<Rightarrow> u32 \<Rightarrow> u32 \<Rightarrow> (addr \<times> mem) option" where
  "xtoa_digits m p val radix =
     (if radix = 0 then None
      else let m1 = m(p := digit_char (val mod radix)); v = val div radix in
        if v > 0 then xtoa_digits m1 (p + 1) v radix else Some (p + 1, m1))"

function xtoa_reverse :: "mem \<Rightarrow> addr \<Rightarrow> addr \<Rightarrow> mem" where
  "xtoa_reverse m firstdig p =
     (let m1 = m(p := m firstdig, firstdig := m p) in
      if firstdig + 1 < p - 1 then xtoa_reverse m1 (firstdig + 1) (p - 1) else m1)"
  by pat_completeness auto
termination
  by (relation "measure (\<lambda>(m, f, p). p - f)") auto

declare xtoa_reverse.simps [simp del]

definition xtoa :: "mem \<Rightarrow> u32 \<Rightarrow> addr \<Rightarrow> u32 \<Rightarrow> bool \<Rightarrow> mem option" where
  "xtoa m val buf radix negative = do {
     let m1 = (if negative then m(buf := 45) else m);
     let v = (if negative then - val else val);
     let firstdig = (if negative then buf + 1 else buf);
     (p, m2) \<leftarrow> xtoa_digits m1 firstdig v radix;
     Some (xtoa_reverse (m2(p := 0)) firstdig (p - 1))
   }"

definition itoa :: "mem \<Rightarrow> u32 \<Rightarrow> addr \<Rightarrow> u32 \<Rightarrow> (addr \<times> mem) option" where
  "itoa m val buf radix =
     map_option (Pair buf) (if radix = 10 \<and> sint val < 0 then xtoa m val buf radix True else xtoa m val buf radix False)"

definition ltoa :: "mem \<Rightarrow> u32 \<Rightarrow> addr \<Rightarrow> u32 \<Rightarrow> (addr \<times> mem) option" where
  "ltoa m val buf radix = map_option (Pair buf) (xtoa m val buf radix (radix = 10 \<and> sint val < 0))"

definition ultoa :: "mem \<Rightarrow> u32 \<Rightarrow> addr \<Rightarrow> u32 \<Rightarrow> (addr \<times> mem) option" where
  "ultoa m val buf radix = map_option (Pair buf) (xtoa m val buf radix False)"

section \<open>Digits and values\<close>

fun value_of :: "nat \<Rightarrow> nat \<Rightarrow> nat list \<Rightarrow> nat" where
  "value_of b a [] = a"
| "value_of b a (d # ds) = value_of b (a * b + d) ds"

lemma value_of_append: "value_of b a (xs @ ys) = value_of b (value_of b a xs) ys"
  by (induction xs arbitrary: a) simp_all

lemma value_of_ge: "0 < b \<Longrightarrow> a \<le> value_of b a ds"
proof (induction ds arbitrary: a)
  case (Cons d ds)
  have "a \<le> a * b + d" using Cons.prems by (simp add: trans_le_add1)
  then show ?case using Cons by (metis order.trans value_of.simps(2))
qed simp

lemma fl_and [simp]:
  "flags AND FL_UNSIGNED = 0 \<longleftrightarrow> \<not> bit flags 0" "flags AND FL_NEG = 0 \<longleftrightarrow> \<not> bit flags 1"
  "flags AND FL_OVERFLOW = 0 \<longleftrightarrow> \<not> bit flags 2" "flags AND FL_READDIGIT = 0 \<longleftrightarrow> \<not> bit flags 3"
  using and_exp_eq_0_iff_not_bit [of flags 0] and_exp_eq_0_iff_not_bit [of flags 1] and_exp_eq_0_iff_not_bit [of flags 2]
    and_exp_eq_0_iff_not_bit [of flags 3]
  by (simp_all add: FL_UNSIGNED_def FL_NEG_def FL_OVERFLOW_def FL_READDIGIT_def)

lemma fl_bits [simp]:
  "bit FL_UNSIGNED n \<longleftrightarrow> n = 0" "bit FL_NEG n \<longleftrightarrow> n = 1" "bit FL_OVERFLOW n \<longleftrightarrow> n = 2" "bit FL_READDIGIT n \<longleftrightarrow> n = 3"
  using bit_exp_iff [of 0 n, where 'a = u32] bit_exp_iff [of 1 n, where 'a = u32] bit_exp_iff [of 2 n, where 'a = u32]
    bit_exp_iff [of 3 n, where 'a = u32]
  by (auto simp: FL_UNSIGNED_def FL_NEG_def FL_OVERFLOW_def FL_READDIGIT_def possible_bit_word)

text \<open>The test of the loop for room, and the step it takes.\<close>

lemma digit_room:
  fixes number maxval maxrem base :: "'w::len word"
  assumes "unat base = b" "d < b" "unat maxrem < b" "unat (of_nat d :: 'w word) = d" "unat maxval * b + unat maxrem < 2 ^ LENGTH('w)"
  shows "number < maxval \<or> number = maxval \<and> of_nat d \<le> maxrem \<longleftrightarrow> unat number * b + d \<le> unat maxval * b + unat maxrem"
    and "unat number * b + d \<le> unat maxval * b + unat maxrem \<Longrightarrow> unat (number * base + of_nat d) = unat number * b + d"
proof -
  have lt: "unat number < unat maxval \<Longrightarrow> unat number * b + d \<le> unat maxval * b + unat maxrem"
  proof -
    assume "unat number < unat maxval"
    then have "(unat number + 1) * b \<le> unat maxval * b" by (intro mult_right_mono) simp_all
    then show ?thesis using assms(2) by simp
  qed
  have gt: "unat number > unat maxval \<Longrightarrow> \<not> unat number * b + d \<le> unat maxval * b + unat maxrem"
  proof -
    assume "unat number > unat maxval"
    then have "(unat maxval + 1) * b \<le> unat number * b" by (intro mult_right_mono) simp_all
    then show ?thesis using assms(3) by simp
  qed
  show "number < maxval \<or> number = maxval \<and> of_nat d \<le> maxrem \<longleftrightarrow> unat number * b + d \<le> unat maxval * b + unat maxrem"
    using lt gt by (cases "unat number" "unat maxval" rule: linorder_cases)
      (auto simp: word_less_nat_alt word_le_nat_alt word_unat_eq_iff assms(4))
  assume le: "unat number * b + d \<le> unat maxval * b + unat maxrem"
  have "unat (number * base) = unat number * b" using le assms(1,5) by (simp add: unat_word_ariths)
  then show "unat (number * base + of_nat d) = unat number * b + d" using le assms(4,5) by (simp add: unat_word_ariths)
qed

definition digits_at :: "mem \<Rightarrow> addr \<Rightarrow> nat \<Rightarrow> nat list \<Rightarrow> bool" where
  "digits_at m q b ds \<longleftrightarrow> (\<forall>i < length ds. digit_value (m (q + i)) = Some (ds ! i) \<and> ds ! i < b) \<and> digit_value (m (q + length ds)) = None"

lemma digits_at_Cons: "digits_at m q b (d # ds) \<longleftrightarrow> digit_value (m q) = Some d \<and> d < b \<and> digits_at m (q + 1) b ds"
  by (auto simp: digits_at_def less_Suc_eq_0_disj)

lemma digits_loop_correct:
  fixes base maxval maxrem number :: "'w::len word"
  assumes "digits_at m q b ds" "unat base = b" "unat maxrem < b" "unat maxval * b + unat maxrem < 2 ^ LENGTH('w)"
  shows "\<exists>number' flags'. digits_loop m q base maxval maxrem number flags = Some (q + length ds, number', flags') \<and>
    (bit flags' 3 \<longleftrightarrow> bit flags 3 \<or> ds \<noteq> []) \<and> (\<forall>k. k \<noteq> 2 \<longrightarrow> k \<noteq> 3 \<longrightarrow> bit flags' k = bit flags k) \<and>
    (\<not> bit flags 2 \<longrightarrow> unat number \<le> unat maxval * b + unat maxrem \<longrightarrow>
      (bit flags' 2 \<longleftrightarrow> value_of b (unat number) ds > unat maxval * b + unat maxrem) \<and>
      (\<not> bit flags' 2 \<longrightarrow> unat number' = value_of b (unat number) ds)) \<and> (bit flags 2 \<longrightarrow> bit flags' 2)"
  using assms(1)
proof (induction ds arbitrary: q number flags)
  case Nil
  then show ?case by (subst digits_loop.simps) (simp add: digits_at_def)
next
  case (Cons d ds)
  then have d: "digit_value (m q) = Some d" "d < b" "digits_at m (q + 1) b ds" by (simp_all add: digits_at_Cons)
  have "d < 2 ^ LENGTH('w)" using d(2) assms(2) unsigned_less [of base, where 'a = nat] by simp
  then have u: "unat (of_nat d :: 'w word) = d" by (simp add: unsigned_of_nat take_bit_nat_eq_self)
  have nb: "\<not> of_nat d \<ge> base" using d(2) assms(2) u by (simp add: word_le_nat_alt)
  note room = digit_room [OF assms(2) d(2) assms(3) u assms(4), of number]
  show ?case
  proof (cases "unat number * b + d \<le> unat maxval * b + unat maxrem")
    case True
    then have s: "digits_loop m q base maxval maxrem number flags =
        digits_loop m (q + 1) base maxval maxrem (number * base + of_nat d) (flags OR FL_READDIGIT)"
      using d(1) nb room(1) by (subst digits_loop.simps) simp
    show ?thesis using Cons.IH [OF d(3), of "number * base + of_nat d" "flags OR FL_READDIGIT"] room(2) True
      unfolding s by (auto simp: bit_or_iff)
  next
    case False
    then have s: "digits_loop m q base maxval maxrem number flags =
        digits_loop m (q + 1) base maxval maxrem number ((flags OR FL_READDIGIT) OR FL_OVERFLOW)"
      using d(1) nb room(1) by (subst digits_loop.simps) auto
    have "value_of b (unat number) (d # ds) > unat maxval * b + unat maxrem"
      using False value_of_ge [of b "unat number * b + d" ds] d(2) by simp
    then show ?thesis using Cons.IH [OF d(3), of number "(flags OR FL_READDIGIT) OR FL_OVERFLOW"]
      unfolding s by (auto simp: bit_or_iff)
  qed
qed


lemma skip_space_none: "\<not> is_space (m q) \<Longrightarrow> skip_space m q = Some q"
  by (subst skip_space.simps) (simp del: char_classes)

lemma digit_value_char:
  assumes "digit_value c = Some d"
  shows "\<not> is_space c" "c \<noteq> 45" "c \<noteq> 43" "c \<noteq> 0" "c \<noteq> 48 \<or> d = 0"
  using assms by (auto simp: digit_value_def split: if_splits)

lemma limits:
  assumes "2 \<le> b" "b \<le> 36"
  shows "unat (word_of_int (int b) :: u32) = b"
    "unat (0xFFFFFFFF div word_of_int (int b) :: u32) * b + unat (0xFFFFFFFF mod word_of_int (int b) :: u32) = 2 ^ 32 - 1"
    "unat (0xFFFFFFFF mod word_of_int (int b) :: u32) < b"
proof -
  have "unat (word_of_nat b :: u32) = b" using assms by (simp add: unsigned_of_nat take_bit_nat_eq_self)
  then show b: "unat (word_of_int (int b) :: u32) = b" by simp
  show "unat (0xFFFFFFFF div word_of_int (int b) :: u32) * b + unat (0xFFFFFFFF mod word_of_int (int b) :: u32) = 2 ^ 32 - 1"
    unfolding unat_div_distrib unat_mod_distrib b by simp
  show "unat (0xFFFFFFFF mod word_of_int (int b) :: u32) < b"
    unfolding unat_div_distrib unat_mod_distrib b using assms(1) by simp
qed

lemma no_prefix:
  assumes "digits_at m q b ds" "ds \<noteq> []"
  shows "skip_prefix m q (int b) = q"
proof (rule ccontr)
  assume "skip_prefix m q (int b) \<noteq> q"
  then have h: "b = 16" "m q = 48" "m (q + 1) = 120 \<or> m (q + 1) = 88" by (auto simp: skip_prefix_def split: if_splits)
  then have x: "digit_value (m (q + 1)) = Some 33" by (auto simp: digit_value_def to_upper_def)
  from assms(2) obtain d es where ds: "ds = d # es" by (cases ds) auto
  show False
  proof (cases es)
    case Nil
    then show False using assms(1) x by (simp add: ds digits_at_def)
  next
    case (Cons e fs)
    then show False using assms(1) x h(1) by (simp add: ds digits_at_Cons)
  qed
qed

text \<open>A conversion of a plain sequence of digits, and of one behind a minus sign.\<close>

lemma strtoxl_digits:
  assumes "digits_at m q b ds" "ds \<noteq> []" "2 \<le> b" "b \<le> 36" "m p = 45 \<and> q = p + 1 \<or> m p \<noteq> 45 \<and> q = p"
  defines "V \<equiv> value_of b 0 ds" and "neg \<equiv> m p = 45"
  shows "strtoxl m p endptr (int b) (if u then FL_UNSIGNED else 0) = Some (
     let range = (V \<ge> 2 ^ 32 \<or> \<not> u \<and> (if neg then V < 2 ^ 31 else V \<ge> 2 ^ 31));
         n = (if range then if u then 0xFFFFFFFF else if neg then 0x80000000 else 0x7FFFFFFF else of_nat V :: u32)
     in (if neg then - n else n, q + length ds, range))"
proof -
  let ?b = "word_of_int (int b) :: u32" and ?f = "if u then FL_UNSIGNED else 0"
  let ?g = "if neg then ?f OR FL_NEG else ?f"
  note lim = limits [OF assms(3,4)]
  obtain d es where ds: "ds = d # es" using assms(2) by (cases ds) auto
  have dq: "digit_value (m q) = Some d" using assms(1) by (simp add: ds digits_at_Cons)
  have sp: "\<not> is_space (m p)" using digit_value_char(1) [OF dq] assms(5) by auto
  have sign: "parse_sign m p ?f = (q, ?g)"
    using assms(5) digit_value_char(2,3) [OF dq] by (auto simp: parse_sign_def neg_def)
  have pb: "pick_base m q (int b) = int b" using assms(3) by (simp add: pick_base_def)
  have "unat (0xFFFFFFFF div ?b) * b + unat (0xFFFFFFFF mod ?b) < 2 ^ LENGTH(32)" unfolding lim(2) by simp
  from digits_loop_correct [OF assms(1) lim(1,3) this, of 0 ?g] obtain number f where
    l: "digits_loop m q ?b (0xFFFFFFFF div ?b) (0xFFFFFFFF mod ?b) 0 ?g = Some (q + length ds, number, f)" and
    f: "bit f 3" "bit f 0 = u" "bit f 1 = neg" and V: "bit f 2 \<longleftrightarrow> V \<ge> 2 ^ 32" "\<not> bit f 2 \<Longrightarrow> unat number = V"
    using assms(2) unfolding lim(2) V_def by (auto simp: bit_or_iff split: if_splits)
  have run: "strtoxl m p endptr (int b) ?f = Some (let range = bit f 2 \<or> \<not> u \<and> (neg \<and> number < 0x80000000 \<or> \<not> neg \<and> number > 0x7FFFFFFF);
      n = (if range then if u then 0xFFFFFFFF else if neg then 0x80000000 else 0x7FFFFFFF else number)
     in (if neg then - n else n, q + length ds, range))"
    unfolding strtoxl_def skip_space_none [of m p, OF sp] bind.bind_lunit sign Let_def prod.case pb no_prefix [OF assms(1,2)] l
    using assms(3,4) f by simp
  have nv: "V < 2 ^ 32 \<Longrightarrow> number = of_nat V" using V by (metis not_less of_nat_unat ucast_id)
  show ?thesis
  proof (cases "V < 2 ^ 32")
    case True
    then have "unat number = V" "number = of_nat V" using V nv by auto
    moreover have "number < 0x80000000 \<longleftrightarrow> V < 2 ^ 31" "number > 0x7FFFFFFF \<longleftrightarrow> V \<ge> 2 ^ 31"
      using \<open>unat number = V\<close> by (auto simp: word_less_nat_alt)
    ultimately show ?thesis using run V(1) True by (simp add: Let_def)
  next
    case False
    then show ?thesis using run V(1) by (simp add: Let_def)
  qed
qed


section \<open>Printing\<close>

function rev_digits :: "nat \<Rightarrow> nat \<Rightarrow> nat list" where
  "rev_digits b v = (if b < 2 \<or> v < b then [v] else v mod b # rev_digits b (v div b))"
  by pat_completeness auto
termination
  by (relation "measure snd") auto

declare rev_digits.simps [simp del]

lemma rev_digits_value: "2 \<le> b \<Longrightarrow> value_of b 0 (rev (rev_digits b v)) = v"
proof (induction b v rule: rev_digits.induct)
  case (1 b v)
  show ?case
  proof (cases "v < b")
    case True
    then show ?thesis by (simp add: rev_digits.simps [of b v])
  next
    case False
    then show ?thesis using 1 by (simp add: rev_digits.simps [of b v] value_of_append)
  qed
qed

lemma rev_digits_bound: "2 \<le> b \<Longrightarrow> d \<in> set (rev_digits b v) \<Longrightarrow> d < b"
proof (induction b v rule: rev_digits.induct)
  case (1 b v)
  show ?case
  proof (cases "v < b")
    case True
    then show ?thesis using 1 by (simp add: rev_digits.simps [of b v])
  next
    case False
    then show ?thesis using 1 by (auto simp: rev_digits.simps [of b v])
  qed
qed

lemma rev_digits_length: "2 \<le> b \<Longrightarrow> v < 2 ^ n \<Longrightarrow> length (rev_digits b v) \<le> max 1 n"
proof (induction b v arbitrary: n rule: rev_digits.induct)
  case (1 b v)
  show ?case
  proof (cases "v < b")
    case True
    then show ?thesis by (simp add: rev_digits.simps [of b v])
  next
    case False
    then have "2 \<le> v" using 1(2) by simp
    then obtain k where n: "n = Suc k" using 1(3) by (cases n) auto
    have "v div b \<le> v div 2" using 1(2) by (rule div_le_mono2 [rotated]) simp
    also have "v div 2 < 2 ^ k" using 1(3) by (simp add: n)
    finally have lt: "v div b < 2 ^ k" .
    have "v div b \<ge> 1" using False 1(2) by (simp add: div_greater_zero_iff Suc_le_eq)
    then have "k \<noteq> 0" using lt by (cases k) auto
    have "length (rev_digits b (v div b)) \<le> max 1 k" by (rule 1(1)) (use False 1(2) lt in auto)
    then show ?thesis using False 1(2) \<open>k \<noteq> 0\<close> by (simp add: rev_digits.simps [of b v] n)
  qed
qed

lemma rev_digits_nonempty [simp]: "rev_digits b v \<noteq> []"
  by (simp add: rev_digits.simps [of b v])

abbreviation dc :: "nat \<Rightarrow> u8" where "dc d \<equiv> digit_char (of_nat d)"

lemma dc_all: "list_all (\<lambda>d. unat (dc d) = (if d > 9 then d + 87 else d + 48) \<and> digit_value (dc d) = Some d) [0..<36]"
  by code_simp

lemma dc_value:
  assumes "d < 36"
  shows "unat (dc d) = (if d > 9 then d + 87 else d + 48)" "digit_value (dc d) = Some d"
  using dc_all assms by (auto simp: list_all_iff)

lemma xtoa_digits_store:
  assumes "2 \<le> b" "b < 2 ^ 32"
  shows "xtoa_digits m p val (of_nat b) =
    Some (p + length (rev_digits b (unat val)), store m p (map dc (rev_digits b (unat val))))"
proof (induction "unat val" arbitrary: m p val rule: less_induct)
  case less
  have ub: "unat (of_nat b :: u32) = b" using assms(2) by (simp add: unsigned_of_nat take_bit_nat_eq_self)
  have md: "val mod of_nat b = of_nat (unat val mod b)"
    by (metis of_nat_unat ub ucast_id unat_mod_distrib)
  have dv: "unat (val div of_nat b) = unat val div b" by (simp add: unat_div_distrib ub)
  have z: "(of_nat b :: u32) \<noteq> 0" using ub assms(1) by auto
  show ?case
  proof (cases "unat val < b")
    case True
    then have "\<not> val div of_nat b > 0" using dv by (simp add: word_less_nat_alt)
    then show ?thesis using z True by (subst xtoa_digits.simps) (simp add: md rev_digits.simps [of b "unat val"])
  next
    case False
    then have "unat val div b < unat val" "0 < unat val div b" using assms(1) by (auto simp: div_greater_zero_iff)
    then have "val div of_nat b > 0" using dv by (simp add: word_less_nat_alt)
    moreover have "\<not> (b < 2 \<or> unat val < b)" using False assms(1) by simp
    then have "rev_digits b (unat val) = unat val mod b # rev_digits b (unat val div b)" by (simp add: rev_digits.simps [of b "unat val"])
    moreover note less.hyps [of "val div of_nat b" "m(p := dc (unat val mod b))" "p + 1"]
    ultimately show ?thesis using z \<open>unat val div b < unat val\<close> by (subst xtoa_digits.simps) (simp add: md dv)
  qed
qed

lemma xtoa_reverse_eq: "f \<le> p \<Longrightarrow> xtoa_reverse m f p = (\<lambda>a. if f \<le> a \<and> a \<le> p then m (f + p - a) else m a)"
proof (induction m f p rule: xtoa_reverse.induct)
  case (1 m f p)
  let ?m = "m(p := m f, f := m p)"
  show ?case
  proof (cases "f + 1 < p - 1")
    case True
    then have "xtoa_reverse m f p = xtoa_reverse ?m (f + 1) (p - 1)" by (subst xtoa_reverse.simps) simp
    also have "\<dots> = (\<lambda>a. if f + 1 \<le> a \<and> a \<le> p - 1 then ?m (f + 1 + (p - 1) - a) else ?m a)"
      by (rule 1(1)) (use True in auto)
    also have "\<dots> = (\<lambda>a. if f \<le> a \<and> a \<le> p then m (f + p - a) else m a)"
      using True by (intro ext) auto
    finally show ?thesis .
  next
    case False
    then have "xtoa_reverse m f p = ?m" by (subst xtoa_reverse.simps) simp
    also have "\<dots> = (\<lambda>a. if f \<le> a \<and> a \<le> p then m (f + p - a) else m a)"
    proof
      fix a
      show "?m a = (if f \<le> a \<and> a \<le> p then m (f + p - a) else m a)"
      proof (cases "a = f \<or> a = p")
        case True
        then show ?thesis using 1(2) by auto
      next
        case n: False
        show ?thesis
        proof (cases "f \<le> a \<and> a \<le> p")
          case True
          then have "p = f + 2" "a = f + 1" using n False by auto
          then show ?thesis by simp
        qed (use n in auto)
      qed
    qed
    finally show ?thesis .
  qed
qed

lemma store_at: "i < length xs \<Longrightarrow> store m p xs (p + i) = xs ! i"
  by (simp add: store_def)

lemma xtoa_reverse_store:
  assumes "xs \<noteq> []"
  shows "xtoa_reverse ((store m f xs)(f + length xs := 0)) f (f + length xs - 1) = store m f (rev xs @ [0])"
proof
  fix a
  let ?m = "(store m f xs)(f + length xs := 0)"
  obtain n where n: "length xs = Suc n" using assms by (cases xs) auto
  then have le: "f \<le> f + length xs - 1" by simp
  consider "a < f \<or> f + length xs < a" | "a = f + length xs" | i where "a = f + i" "i < length xs"
    by (metis add_diff_inverse_nat linorder_cases nat_add_left_cancel_less not_less_iff_gr_or_eq)
  then show "xtoa_reverse ?m f (f + length xs - 1) a = store m f (rev xs @ [0]) a"
  proof cases
    case (3 i)
    then have "f + (f + length xs - 1) - a = f + (length xs - 1 - i)" "length xs - 1 - i < length xs" by linarith+
    moreover have "store m f xs (f + (length xs - 1 - i)) = xs ! (length xs - 1 - i)" by (rule store_at) (use 3 in linarith)
    moreover have "store m f (rev xs @ [0]) a = xs ! (length xs - 1 - i)" using 3 by (simp add: store_def nth_append rev_nth)
    ultimately show ?thesis unfolding xtoa_reverse_eq [OF le] using 3 n by auto
  next
    case 2
    then show ?thesis unfolding xtoa_reverse_eq [OF le] using n by (simp add: store_def nth_append)
  next
    case 1
    then show ?thesis unfolding xtoa_reverse_eq [OF le] using n by (auto simp: store_def)
  qed
qed

lemma xtoa_store:
  fixes val :: u32 and neg :: bool
  assumes "2 \<le> b" "b < 2 ^ 32"
  defines "v \<equiv> unat (if neg then - val else val)"
  shows "xtoa m val buf (of_nat b) neg =
    Some (store m buf ((if neg then [45] else []) @ map dc (rev (rev_digits b v)) @ [0]))"
proof -
  let ?ds = "map dc (rev_digits b v)" and ?m = "if neg then m(buf := 45) else m" and ?f = "if neg then buf + 1 else buf"
  have x: "xtoa_digits ?m ?f (if neg then - val else val) (of_nat b) = Some (?f + length ?ds, store ?m ?f ?ds)"
    using xtoa_digits_store [OF assms(1,2)] by (simp add: v_def)
  let ?m2 = "(store ?m ?f ?ds)(?f + length ?ds := 0)"
  have "xtoa_reverse ?m2 ?f (?f + length ?ds - 1) = store ?m ?f (rev ?ds @ [0])" by (rule xtoa_reverse_store) simp
  moreover have "store ?m ?f (rev ?ds @ [0]) = store m buf ((if neg then [45] else []) @ rev ?ds @ [0])"
    by (cases neg) simp_all
  ultimately show ?thesis unfolding xtoa_def Let_def x by (simp add: rev_map)
qed


lemma digits_at_store:
  assumes "\<And>d. d \<in> set ds \<Longrightarrow> d < b" "b \<le> 36"
  shows "digits_at (store m p (map dc ds @ [0])) p b ds"
proof -
  have "store m p (map dc ds @ [0]) (p + i) = dc (ds ! i)" if "i < length ds" for i
    using that by (simp add: store_def nth_append)
  moreover have "store m p (map dc ds @ [0]) (p + length ds) = 0" by (simp add: store_def nth_append)
  moreover have "digit_value (dc (ds ! i)) = Some (ds ! i) \<and> ds ! i < b" if "i < length ds" for i
    using dc_value(2) [of "ds ! i"] assms(1) [of "ds ! i"] assms(2) that by simp
  moreover have "digit_value 0 = None" by (simp add: digit_value_def)
  ultimately show ?thesis by (simp add: digits_at_def)
qed

lemma atol_loop_digits:
  assumes "digits_at m q 10 ds"
  shows "atol_loop m q t = Some (of_nat (value_of 10 (unat t) ds))"
  using assms
proof (induction ds arbitrary: q t)
  case Nil
  then have "\<not> is_digit (m q)" by (auto simp: digits_at_def digit_value_def split: if_splits)
  then show ?case by (subst atol_loop.simps) (simp del: char_classes)
next
  case (Cons d ds)
  then have d: "digit_value (m q) = Some d" "d < 10" "digits_at m (q + 1) 10 ds" by (simp_all add: digits_at_Cons)
  have dig: "is_digit (m q)" "unat (m q) = d + 48"
    using d(1,2) by (auto simp: digit_value_def to_upper_def unat_sub word_le_nat_alt unat_word_ariths split: if_splits)
  have hom: "(of_nat (value_of 10 x ds) :: u32) = of_nat (value_of 10 y ds)" if "(of_nat x :: u32) = of_nat y" for x y
    using that
  proof (induction ds arbitrary: x y)
    case (Cons e es)
    have "(of_nat (x * 10 + e) :: u32) = of_nat (y * 10 + e)" using Cons.prems by simp
    then show ?case using Cons.IH by simp
  qed simp
  have "(ucast (m q) :: u32) = of_nat (d + 48)" by (metis dig(2) of_nat_unat)
  then have "10 * t + (ucast (m q) - 48) = of_nat (unat t * 10 + d)" by simp
  then have "(of_nat (value_of 10 (unat (10 * t + (ucast (m q) - 48))) ds) :: u32) = of_nat (value_of 10 (unat t * 10 + d) ds)"
    by (intro hom) (metis of_nat_unat ucast_id)
  then show ?case using Cons.IH [OF d(3), of "10 * t + (ucast (m q) - 48)"] dig(1)
    by (subst atol_loop.simps) (simp del: char_classes)
qed

section \<open>Correctness of the conversions\<close>

text \<open>
  C28: in every radix from 2 to 36, \<^verbatim>\<open>ultoa\<close> writes a terminated string of at most 33 bytes and touches no
  other byte, and \<^verbatim>\<open>strtoul\<close> reads the same number back from it, without a range error and with the end pointer at the terminator.
\<close>

theorem ultoa_strtoul_roundtrip:
  assumes "2 \<le> b" "b \<le> 36"
  shows "\<exists>m' n. ultoa m v buf (of_nat b) = Some (buf, m') \<and> n \<le> 32 \<and> m' (buf + n) = 0 \<and>
    (\<forall>a. a < buf \<or> buf + n < a \<longrightarrow> m' a = m a) \<and> strtoul m' buf endptr (int b) = Some (v, buf + n, False)"
proof -
  let ?ds = "rev (rev_digits b (unat v))"
  let ?m = "store m buf (map dc ?ds @ [0])"
  have "b < 2 ^ 32" using assms(2) by simp
  then have x: "ultoa m v buf (of_nat b) = Some (buf, ?m)" using xtoa_store [OF assms(1), where neg = False and val = v and m = m and buf = buf] by (simp add: ultoa_def)
  have lt: "unat v < 2 ^ 32" using unsigned_less [of v, where 'a = nat] by simp
  have d: "digits_at ?m buf b ?ds" by (rule digits_at_store) (use rev_digits_bound [OF assms(1)] assms(2) in auto)
  have c: "?m buf \<noteq> 45" using d digit_value_char(2) by (cases ?ds) (auto simp: digits_at_Cons)
  have "strtoul ?m buf endptr (int b) = Some (v, buf + length ?ds, False)"
    using strtoxl_digits [OF d _ assms, where p = buf and u = True and endptr = endptr] c rev_digits_value [OF assms(1), of "unat v"] lt
    by (simp add: strtoul_def)
  moreover have "length ?ds \<le> 32" using rev_digits_length [OF assms(1) lt] by simp
  moreover have "?m (buf + length ?ds) = 0" by (simp add: store_def nth_append)
  moreover have "?m a = m a" if "a < buf \<or> buf + length ?ds < a" for a using that by (auto simp: store_def)
  ultimately show ?thesis using x by blast
qed

theorem ultoa_strtoul_roundtrip_witness:
  "\<exists>m' n. ultoa (\<lambda>_. 7) 48879 10 16 = Some (10, m') \<and> strtoul m' 10 True 16 = Some (48879, 10 + n, False)"
  using ultoa_strtoul_roundtrip [of 16 "\<lambda>_. 7" 48879 10 True] by auto

text \<open>
  \<^verbatim>\<open>itoa\<close> in radix 10 and \<^verbatim>\<open>atoi\<close> are inverse for every 32-bit integer, the smallest one included.
\<close>

theorem itoa_atoi_roundtrip: "\<exists>m'. itoa m val buf 10 = Some (buf, m') \<and> atoi m' buf = Some (sint val)"
proof -
  define neg where "neg \<longleftrightarrow> sint val < 0"
  let ?v = "if neg then - val else val"
  let ?ds = "rev (rev_digits 10 (unat ?v))" and ?q = "if neg then buf + 1 else buf"
  let ?m = "store m buf ((if neg then [45] else []) @ map dc ?ds @ [0])"
  have x: "itoa m val buf 10 = Some (buf, ?m)"
    using xtoa_store [where b = 10 and neg = neg and val = val and m = m and buf = buf] by (cases "sint val < 0") (simp_all add: itoa_def neg_def)
  have m: "?m = store (if neg then m(buf := 45) else m) ?q (map dc ?ds @ [0])" by simp
  have d: "digits_at ?m ?q 10 ?ds"
    unfolding m by (rule digits_at_store) (use rev_digits_bound [of 10] in auto)
  then have dq: "digit_value (?m ?q) \<noteq> None" by (cases ?ds) (auto simp: digits_at_Cons)
  have sign: "?m buf = 45 \<longleftrightarrow> neg" "?m buf \<noteq> 43"
  proof -
    have "neg \<Longrightarrow> ?m buf = 45" by (simp add: store_def)
    moreover have "\<not> neg \<Longrightarrow> ?m buf \<noteq> 45 \<and> ?m buf \<noteq> 43" using dq digit_value_char(2,3) by auto
    ultimately show "?m buf = 45 \<longleftrightarrow> neg" "?m buf \<noteq> 43" by auto
  qed
  have sp: "\<not> is_space (?m buf)"
  proof (cases neg)
    case True
    then show ?thesis using sign(1) by simp
  next
    case False
    then show ?thesis using dq digit_value_char(1) by auto
  qed
  have "atol_loop ?m ?q 0 = Some (of_nat (value_of 10 0 ?ds))" using atol_loop_digits [OF d, of 0] by simp
  then have l: "atol_loop ?m ?q 0 = Some ?v" by (simp add: rev_digits_value)
  have "atoi ?m buf = Some (sint (if neg then - ?v else ?v))"
    using l by (simp add: atoi_def atol_def skip_space_none [of ?m buf, OF sp] sign)
  then show ?thesis using x by auto
qed

text \<open>
  C21: \<^verbatim>\<open>strtol\<close> on a minus sign followed by the digits of any number below 2\^31 returns the smallest 32-bit
  number and a range error instead of the negated number, because the test for underflow has the wrong direction.
\<close>

theorem strtol_negative_wrong:
  assumes "m p = 45" "digits_at m (p + 1) b ds" "ds \<noteq> []" "2 \<le> b" "b \<le> 36" "value_of b 0 ds < 2 ^ 31"
  shows "strtol m p endptr (int b) = Some (- (2 ^ 31), p + 1 + length ds, True)"
  using strtoxl_digits [OF assms(2-5), where p = p and u = False and endptr = endptr] assms(1,6)
  by (simp add: strtol_def)

theorem strtol_negative_wrong_witness:
  "strtol ((\<lambda>_. 0)(10 := 45, 11 := 53)) 10 True 10 = Some (- 2147483648, 12, True)"
proof -
  let ?m = "(\<lambda>_. 0)(10 := 45, 11 := 53) :: mem"
  have "digits_at ?m (10 + 1) 10 [5]" by (simp add: digits_at_def digit_value_def)
  from strtol_negative_wrong [of ?m 10, OF _ this] show ?thesis by simp
qed

end
