(* ===== verification/Qsort.thy ===== *)
theory Qsort
  imports Prelude "HOL-Library.Multiset" "HOL-Library.Monad_Syntax"
begin

text \<open>
  Sorting and searching arrays: \<^verbatim>\<open>src/src/lib/qsort.c\<close> and \<^verbatim>\<open>src/src/lib/bsearch.c\<close>. The array of
  \<^verbatim>\<open>num\<close> elements of \<^verbatim>\<open>width\<close> bytes is a list of elements, a pointer to an element its index; the comparison function is a
  parameter. The explicit stack of \<^verbatim>\<open>qsort\<close> has room for 30 segments; pushing one more writes past its end, which is \<open>None\<close>.
\<close>

section \<open>qsort\<close>

definition CUTOFF :: nat where "CUTOFF = 8"
definition STACK_SIZE :: nat where "STACK_SIZE = 30"

definition swap :: "'a list \<Rightarrow> nat \<Rightarrow> nat \<Rightarrow> 'a list" where
  "swap xs a b = (if a \<noteq> b then xs[a := xs ! b, b := xs ! a] else xs)"

function find_max :: "('a \<Rightarrow> 'a \<Rightarrow> int) \<Rightarrow> 'a list \<Rightarrow> nat \<Rightarrow> nat \<Rightarrow> nat \<Rightarrow> nat" where
  "find_max cmp xs hi p mx = (if p \<le> hi then find_max cmp xs hi (p + 1) (if cmp (xs ! p) (xs ! mx) > 0 then p else mx) else mx)"
  by pat_completeness auto
termination
  by (relation "measure (\<lambda>(c, xs, hi, p, mx). hi + 1 - p)") auto

function shortsort :: "('a \<Rightarrow> 'a \<Rightarrow> int) \<Rightarrow> 'a list \<Rightarrow> nat \<Rightarrow> nat \<Rightarrow> 'a list" where
  "shortsort cmp xs lo hi =
     (if hi > lo then shortsort cmp (swap xs (find_max cmp xs hi (lo + 1) lo) hi) lo (hi - 1) else xs)"
  by pat_completeness auto
termination
  by (relation "measure (\<lambda>(c, xs, lo, hi). hi - lo)") auto

text \<open>The two scans of the partition, each moving before it tests.\<close>

function scan_up :: "('a \<Rightarrow> 'a \<Rightarrow> int) \<Rightarrow> 'a list \<Rightarrow> nat \<Rightarrow> nat \<Rightarrow> nat \<Rightarrow> nat" where
  "scan_up cmp xs lo hi l = (if l + 1 \<le> hi \<and> cmp (xs ! (l + 1)) (xs ! lo) \<le> 0 then scan_up cmp xs lo hi (l + 1) else l + 1)"
  by pat_completeness auto
termination
  by (relation "measure (\<lambda>(c, xs, lo, hi, l). hi - l)") auto

function scan_down :: "('a \<Rightarrow> 'a \<Rightarrow> int) \<Rightarrow> 'a list \<Rightarrow> nat \<Rightarrow> nat \<Rightarrow> nat" where
  "scan_down cmp xs lo h = (if h - 1 > lo \<and> cmp (xs ! (h - 1)) (xs ! lo) \<ge> 0 then scan_down cmp xs lo (h - 1) else h - 1)"
  by pat_completeness auto
termination
  by (relation "measure (\<lambda>(c, xs, lo, h). h)") auto

declare find_max.simps [simp del] shortsort.simps [simp del] scan_up.simps [simp del] scan_down.simps [simp del]

lemma scan_up_gt: "l < scan_up cmp xs lo hi l"
  by (induction cmp xs lo hi l rule: scan_up.induct) (subst scan_up.simps, auto)

lemma scan_down_lt: "scan_down cmp xs lo h \<le> h - 1"
  by (induction cmp xs lo h rule: scan_down.induct) (subst scan_down.simps, auto)

function partition_loop :: "('a \<Rightarrow> 'a \<Rightarrow> int) \<Rightarrow> nat \<Rightarrow> nat \<Rightarrow> 'a list \<Rightarrow> nat \<Rightarrow> nat \<Rightarrow> 'a list \<times> nat \<times> nat" where
  "partition_loop cmp lo hi xs l h =
     (let l' = scan_up cmp xs lo hi l; h' = scan_down cmp xs lo h in
      if h' < l' then (xs, l', h') else partition_loop cmp lo hi (swap xs l' h') l' h')"
  by pat_completeness auto
termination
proof (relation "measure (\<lambda>(c, lo, hi, xs, l, h). h - l)", goal_cases)
  case (2 cmp lo hi xs l h l' h')
  then show ?case using scan_up_gt [of l cmp xs lo hi] scan_down_lt [of cmp xs lo h] by simp
qed simp

declare partition_loop.simps [simp del]

text \<open>\<^verbatim>\<open>recurse:\<close> with the current segment and the stack; \<open>w\<close> is the width of an element in bytes.\<close>

partial_function (option) qsort_loop ::
    "('a \<Rightarrow> 'a \<Rightarrow> int) \<Rightarrow> nat \<Rightarrow> 'a list \<Rightarrow> nat \<Rightarrow> nat \<Rightarrow> (nat \<times> nat) list \<Rightarrow> 'a list option" where
  "qsort_loop cmp w xs lo hi stk =
     (let size = hi - lo + 1 in
      if size \<le> CUTOFF then
        (case stk of [] \<Rightarrow> Some (shortsort cmp xs lo hi)
         | (a, b) # rest \<Rightarrow> qsort_loop cmp w (shortsort cmp xs lo hi) a b rest)
      else
        (case partition_loop cmp lo hi (swap xs (lo + size div 2) lo) lo (hi + 1) of (ys, l, h) \<Rightarrow>
          let zs = swap ys lo h in
          if int w * (int h - int lo) - 1 \<ge> int w * (int hi - int l) then
            (let stk1 = (if lo + 1 < h then (lo, h - 1) # stk else stk) in
             if length stk1 > STACK_SIZE then None
             else if l < hi then qsort_loop cmp w zs l hi stk1
             else case stk1 of [] \<Rightarrow> Some zs | (a, b) # rest \<Rightarrow> qsort_loop cmp w zs a b rest)
          else
            (let stk1 = (if l < hi then (l, hi) # stk else stk) in
             if length stk1 > STACK_SIZE then None
             else if lo + 1 < h then qsort_loop cmp w zs lo (h - 1) stk1
             else case stk1 of [] \<Rightarrow> Some zs | (a, b) # rest \<Rightarrow> qsort_loop cmp w zs a b rest)))"

definition qsort :: "('a \<Rightarrow> 'a \<Rightarrow> int) \<Rightarrow> nat \<Rightarrow> 'a list \<Rightarrow> 'a list option" where
  "qsort cmp width xs =
     (if length xs < 2 \<or> width = 0 then Some xs else qsort_loop cmp width xs 0 (length xs - 1) [])"

section \<open>bsearch\<close>

text \<open>\<open>c\<close> compares the key with an element.\<close>

function bsearch_loop :: "('a \<Rightarrow> int) \<Rightarrow> 'a list \<Rightarrow> int \<Rightarrow> int \<Rightarrow> nat \<Rightarrow> int option" where
  "bsearch_loop c xs lo hi num =
     (if lo \<le> hi then
        let half = num div 2 in
        if half \<noteq> 0 then
          let mid = lo + int (if odd num then half else half - 1); result = c (xs ! nat mid) in
          if result = 0 then Some mid
          else if result < 0 then bsearch_loop c xs lo (mid - 1) (if odd num then half else half - 1)
          else bsearch_loop c xs (mid + 1) hi half
        else if num \<noteq> 0 then (if c (xs ! nat lo) \<noteq> 0 then None else Some lo)
        else None
      else None)"
  by pat_completeness auto
termination
  by (relation "measure (\<lambda>(c, xs, lo, hi, num). num)") (auto split: if_splits)

declare bsearch_loop.simps [simp del]

definition bsearch :: "('a \<Rightarrow> int) \<Rightarrow> 'a list \<Rightarrow> int option" where
  "bsearch c xs = bsearch_loop c xs 0 (int (length xs) - 1) (length xs)"

section \<open>The comparison function\<close>

text \<open>What \<^verbatim>\<open>qsort\<close> relies on: on the elements it is given, the comparison is a total preorder.\<close>

locale comparator =
  fixes cmp :: "'a \<Rightarrow> 'a \<Rightarrow> int" and A :: "'a set"
  assumes flip: "x \<in> A \<Longrightarrow> y \<in> A \<Longrightarrow> cmp x y < 0 \<longleftrightarrow> cmp y x > 0"
    and trans: "x \<in> A \<Longrightarrow> y \<in> A \<Longrightarrow> z \<in> A \<Longrightarrow> cmp x y \<le> 0 \<Longrightarrow> cmp y z \<le> 0 \<Longrightarrow> cmp x z \<le> 0"
begin

lemma refl_le: "x \<in> A \<Longrightarrow> cmp x x \<le> 0"
  using flip [of x x] by linarith

lemma swap_le: "x \<in> A \<Longrightarrow> y \<in> A \<Longrightarrow> 0 \<le> cmp x y \<Longrightarrow> cmp y x \<le> 0"
  using flip [of x y] flip [of y x] by linarith

end

section \<open>Rearranging a segment\<close>

definition seg_perm :: "nat \<Rightarrow> nat \<Rightarrow> 'a list \<Rightarrow> 'a list \<Rightarrow> bool" where
  "seg_perm lo hi xs ys \<longleftrightarrow> length ys = length xs \<and> mset ys = mset xs \<and> (\<forall>i. i < lo \<or> hi < i \<longrightarrow> ys ! i = xs ! i) \<and>
     (\<forall>i. lo \<le> i \<longrightarrow> i \<le> hi \<longrightarrow> (\<exists>j. lo \<le> j \<and> j \<le> hi \<and> ys ! i = xs ! j))"

lemma seg_permD:
  assumes "seg_perm lo hi xs ys"
  shows "length ys = length xs" "mset ys = mset xs" "set ys = set xs" "i < lo \<or> hi < i \<Longrightarrow> ys ! i = xs ! i"
    "lo \<le> i \<Longrightarrow> i \<le> hi \<Longrightarrow> \<exists>j. lo \<le> j \<and> j \<le> hi \<and> ys ! i = xs ! j"
  using assms mset_eq_setD [of ys xs] unfolding seg_perm_def by blast+

lemma seg_perm_refl [simp]: "seg_perm lo hi xs xs"
  by (auto simp: seg_perm_def)

lemma seg_perm_trans:
  assumes "seg_perm lo hi xs ys" "seg_perm lo hi ys zs"
  shows "seg_perm lo hi xs zs"
proof -
  note a = seg_permD [OF assms(1)] and b = seg_permD [OF assms(2)]
  have "\<exists>j. lo \<le> j \<and> j \<le> hi \<and> zs ! i = xs ! j" if "lo \<le> i" "i \<le> hi" for i
  proof -
    obtain k where "lo \<le> k" "k \<le> hi" "zs ! i = ys ! k" using b(5) \<open>lo \<le> i\<close> \<open>i \<le> hi\<close> by blast
    then show ?thesis using a(5) [of k] by auto
  qed
  then show ?thesis unfolding seg_perm_def using a(1,2,4) b(1,2,4) by auto
qed

lemma seg_perm_mono:
  assumes "seg_perm lo hi xs ys" "lo' \<le> lo" "hi \<le> hi'"
  shows "seg_perm lo' hi' xs ys"
proof -
  note a = seg_permD [OF assms(1)]
  have "\<exists>j. lo' \<le> j \<and> j \<le> hi' \<and> ys ! i = xs ! j" if "lo' \<le> i" "i \<le> hi'" for i
  proof (cases "i < lo \<or> hi < i")
    case True
    then show ?thesis using a(4) that by blast
  next
    case False
    then obtain j where "lo \<le> j" "j \<le> hi" "ys ! i = xs ! j" using a(5) [of i] by auto
    then show ?thesis using assms(2,3) by (intro exI [of _ j]) simp
  qed
  then show ?thesis unfolding seg_perm_def using a(1,2,4) assms(2,3) by auto
qed

lemma length_swap [simp]: "length (swap xs a b) = length xs"
  by (simp add: swap_def)

lemma nth_swap:
  "a < length xs \<Longrightarrow> b < length xs \<Longrightarrow> swap xs a b ! i = (if i = a then xs ! b else if i = b then xs ! a else xs ! i)"
  by (auto simp: swap_def nth_list_update)

lemma seg_perm_swap:
  assumes "lo \<le> a" "a \<le> hi" "lo \<le> b" "b \<le> hi" "hi < length xs"
  shows "seg_perm lo hi xs (swap xs a b)"
proof -
  have l: "a < length xs" "b < length xs" using assms by simp_all
  have "mset (swap xs a b) = mset xs" using mset_swap [OF l(2,1)] by (simp add: swap_def)
  moreover have "\<exists>j. lo \<le> j \<and> j \<le> hi \<and> swap xs a b ! i = xs ! j" if "lo \<le> i" "i \<le> hi" for i
    using that assms by (auto simp: nth_swap [OF l])
  ultimately show ?thesis unfolding seg_perm_def using assms by (auto simp: nth_swap [OF l])
qed

context comparator
begin

lemma find_max_correct:
  assumes "set xs \<subseteq> A" "hi < length xs" "lo \<le> mx" "mx < p" "p \<le> hi + 1" "\<And>i. lo \<le> i \<Longrightarrow> i < p \<Longrightarrow> cmp (xs ! i) (xs ! mx) \<le> 0"
  shows "lo \<le> find_max cmp xs hi p mx \<and> find_max cmp xs hi p mx \<le> hi \<and>
    (\<forall>i. lo \<le> i \<longrightarrow> i \<le> hi \<longrightarrow> cmp (xs ! i) (xs ! find_max cmp xs hi p mx) \<le> 0)"
  using assms(3-)
proof (induction "hi + 1 - p" arbitrary: p mx)
  case 0
  then show ?case by (subst (1 2 3) find_max.simps) auto
next
  case (Suc n)
  let ?mx = "if cmp (xs ! p) (xs ! mx) > 0 then p else mx"
  have p: "p \<le> hi" using Suc.hyps(2) by simp
  have in_A: "i \<le> hi \<Longrightarrow> xs ! i \<in> A" for i using assms(1,2) nth_mem [of i xs] by auto
  have step: "find_max cmp xs hi p mx = find_max cmp xs hi (p + 1) ?mx" using p by (subst find_max.simps) simp
  have le: "cmp (xs ! i) (xs ! ?mx) \<le> 0" if "lo \<le> i" "i < p + 1" for i
  proof (cases "cmp (xs ! p) (xs ! mx) > 0")
    case True
    have "cmp (xs ! mx) (xs ! p) \<le> 0" using True swap_le [of "xs ! p" "xs ! mx"] in_A p Suc.prems by simp
    moreover have "cmp (xs ! i) (xs ! mx) \<le> 0" if "i < p" using Suc.prems(4) \<open>lo \<le> i\<close> that by simp
    ultimately show ?thesis using True trans [of "xs ! i" "xs ! mx" "xs ! p"] refl_le [of "xs ! p"] in_A p Suc.prems that
      by (cases "i = p") auto
  next
    case False
    then show ?thesis using Suc.prems(4) that by (cases "i = p") auto
  qed
  show ?case unfolding step
    by (rule Suc.hyps(1)) (use Suc.hyps(2) Suc.prems p le in auto)
qed

lemma shortsort_correct:
  assumes "set xs \<subseteq> A" "lo \<le> hi" "hi < length xs"
  shows "seg_perm lo hi xs (shortsort cmp xs lo hi) \<and>
    (\<forall>i j. lo \<le> i \<longrightarrow> i < j \<longrightarrow> j \<le> hi \<longrightarrow> cmp (shortsort cmp xs lo hi ! i) (shortsort cmp xs lo hi ! j) \<le> 0)"
  using assms
proof (induction "hi - lo" arbitrary: xs hi)
  case 0
  then show ?case by (subst (1 2 3) shortsort.simps) auto
next
  case (Suc n)
  have lt: "lo < hi" using Suc.hyps(2) by simp
  let ?m = "find_max cmp xs hi (lo + 1) lo"
  let ?ys = "swap xs ?m hi" and ?zs = "shortsort cmp xs lo hi"
  have in_A: "i \<le> hi \<Longrightarrow> xs ! i \<in> A" for i using Suc.prems(1,3) nth_mem [of i xs] by auto
  have m: "lo \<le> ?m" "?m \<le> hi" "\<And>i. lo \<le> i \<Longrightarrow> i \<le> hi \<Longrightarrow> cmp (xs ! i) (xs ! ?m) \<le> 0"
    using find_max_correct [OF Suc.prems(1,3), of lo lo "lo + 1"] lt refl_le [OF in_A [of lo]] by (auto simp: less_Suc_eq_le)
  have sp: "seg_perm lo hi xs ?ys" by (rule seg_perm_swap) (use m lt Suc.prems in auto)
  have zs: "?zs = shortsort cmp ?ys lo (hi - 1)" using lt by (subst shortsort.simps) simp
  have ih: "seg_perm lo (hi - 1) ?ys ?zs"
    "\<And>i j. lo \<le> i \<Longrightarrow> i < j \<Longrightarrow> j \<le> hi - 1 \<Longrightarrow> cmp (?zs ! i) (?zs ! j) \<le> 0"
    using Suc.hyps(1) [of "hi - 1" ?ys] Suc.hyps(2) Suc.prems lt seg_permD(3) [OF sp] unfolding zs by auto
  have last: "cmp (?zs ! i) (?zs ! hi) \<le> 0" if i: "lo \<le> i" "i < hi" for i
  proof -
    have "i \<le> hi - 1" using i by simp
    then obtain j where j: "lo \<le> j" "j \<le> hi - 1" "?zs ! i = ?ys ! j" using seg_permD(5) [OF ih(1) i(1)] by blast
    have "j \<le> hi" using j(2) by simp
    then obtain k where "lo \<le> k" "k \<le> hi" "?zs ! i = xs ! k" using seg_permD(5) [OF sp j(1)] j(3) by auto
    moreover have "?zs ! hi = xs ! ?m"
      using seg_permD(4) [OF ih(1), of hi] lt m Suc.prems(3) by (simp add: nth_swap)
    ultimately show ?thesis using m(3) by simp
  qed
  have "cmp (?zs ! i) (?zs ! j) \<le> 0" if "lo \<le> i" "i < j" "j \<le> hi" for i j
    using that ih(2) [of i j] last [of i] by (cases "j = hi") auto
  then have "\<forall>i j. lo \<le> i \<longrightarrow> i < j \<longrightarrow> j \<le> hi \<longrightarrow> cmp (?zs ! i) (?zs ! j) \<le> 0" by blast
  moreover have "seg_perm lo hi xs ?zs"
    using seg_perm_trans [OF sp seg_perm_mono [OF ih(1)]] by simp
  ultimately show ?case by blast
qed

end


section \<open>The partition\<close>

context comparator
begin

lemma scan_up_correct:
  "l < scan_up cmp xs lo hi l \<and> (\<forall>i. l < i \<longrightarrow> i < scan_up cmp xs lo hi l \<longrightarrow> cmp (xs ! i) (xs ! lo) \<le> 0 \<and> i \<le> hi) \<and>
    (scan_up cmp xs lo hi l \<le> hi \<longrightarrow> cmp (xs ! scan_up cmp xs lo hi l) (xs ! lo) > 0)"
proof (induction "hi - l" arbitrary: l)
  case 0
  then show ?case by (subst (1 2 3 4) scan_up.simps) auto
next
  case (Suc n)
  have lh: "l + 1 \<le> hi" "n = hi - (l + 1)" using Suc.hyps(2) by linarith+
  show ?case
  proof (cases "cmp (xs ! (l + 1)) (xs ! lo) \<le> 0")
    case True
    then have s: "scan_up cmp xs lo hi l = scan_up cmp xs lo hi (l + 1)" using lh(1) by (subst scan_up.simps) simp
    have ih: "l + 1 < scan_up cmp xs lo hi (l + 1)"
      "\<forall>i. l + 1 < i \<longrightarrow> i < scan_up cmp xs lo hi (l + 1) \<longrightarrow> cmp (xs ! i) (xs ! lo) \<le> 0 \<and> i \<le> hi"
      "scan_up cmp xs lo hi (l + 1) \<le> hi \<longrightarrow> cmp (xs ! scan_up cmp xs lo hi (l + 1)) (xs ! lo) > 0"
      using Suc.hyps(1) [OF lh(2)] by blast+
    have "cmp (xs ! i) (xs ! lo) \<le> 0 \<and> i \<le> hi" if "l < i" "i < scan_up cmp xs lo hi (l + 1)" for i
      using ih(2) that True lh(1) by (cases "i = l + 1") auto
    then show ?thesis unfolding s using ih by auto
  next
    case False
    then have "scan_up cmp xs lo hi l = l + 1" by (subst scan_up.simps) simp
    then show ?thesis using False by auto
  qed
qed

lemma scan_down_correct:
  assumes "lo < h"
  shows "lo \<le> scan_down cmp xs lo h \<and> scan_down cmp xs lo h < h \<and>
    (\<forall>i. scan_down cmp xs lo h < i \<longrightarrow> i < h \<longrightarrow> cmp (xs ! i) (xs ! lo) \<ge> 0) \<and>
    (scan_down cmp xs lo h > lo \<longrightarrow> cmp (xs ! scan_down cmp xs lo h) (xs ! lo) < 0)"
  using assms
proof (induction h rule: less_induct)
  case (less h)
  show ?case
  proof (cases "h - 1 > lo \<and> cmp (xs ! (h - 1)) (xs ! lo) \<ge> 0")
    case True
    then have s: "scan_down cmp xs lo h = scan_down cmp xs lo (h - 1)" by (subst scan_down.simps) simp
    have ih: "lo \<le> scan_down cmp xs lo (h - 1)" "scan_down cmp xs lo (h - 1) < h - 1"
      "\<forall>i. scan_down cmp xs lo (h - 1) < i \<longrightarrow> i < h - 1 \<longrightarrow> cmp (xs ! i) (xs ! lo) \<ge> 0"
      "scan_down cmp xs lo (h - 1) > lo \<longrightarrow> cmp (xs ! scan_down cmp xs lo (h - 1)) (xs ! lo) < 0"
      using less.IH [of "h - 1"] True less.prems by auto
    have "cmp (xs ! i) (xs ! lo) \<ge> 0" if "scan_down cmp xs lo (h - 1) < i" "i < h" for i
      using ih(3) that True by (cases "i = h - 1") auto
    then show ?thesis unfolding s using ih by auto
  next
    case False
    then have "scan_down cmp xs lo h = h - 1" by (subst scan_down.simps) auto
    then show ?thesis using False less.prems by auto
  qed
qed

lemma partition_loop_correct:
  assumes "set xs \<subseteq> A" "lo \<le> l" "l < h" "h \<le> hi + 1" "hi < length xs"
    "\<And>i. lo < i \<Longrightarrow> i \<le> l \<Longrightarrow> cmp (xs ! i) (xs ! lo) \<le> 0" "\<And>i. h \<le> i \<Longrightarrow> i \<le> hi \<Longrightarrow> cmp (xs ! lo) (xs ! i) \<le> 0"
  shows "\<exists>ys l' h'. partition_loop cmp lo hi xs l h = (ys, l', h') \<and> seg_perm lo hi xs ys \<and> ys ! lo = xs ! lo \<and>
    lo \<le> h' \<and> h' < l' \<and> h' \<le> hi \<and> lo < l' \<and> l' \<le> hi + 1 \<and> (\<forall>i. lo < i \<longrightarrow> i < l' \<longrightarrow> cmp (ys ! i) (ys ! lo) \<le> 0) \<and>
    (\<forall>i. h' < i \<longrightarrow> i \<le> hi \<longrightarrow> cmp (ys ! lo) (ys ! i) \<le> 0)"
  using assms
proof (induction "h - l" arbitrary: xs l h rule: less_induct)
  case less
  define l' where "l' = scan_up cmp xs lo hi l"
  define h' where "h' = scan_down cmp xs lo h"
  have in_A: "i \<le> hi \<Longrightarrow> xs ! i \<in> A" for i using less.prems(1,5) nth_mem [of i xs] by auto
  have lo: "lo < h" "lo \<le> hi" using less.prems by simp_all
  have up: "l < l'" "\<And>i. l < i \<Longrightarrow> i < l' \<Longrightarrow> cmp (xs ! i) (xs ! lo) \<le> 0 \<and> i \<le> hi" "l' \<le> hi \<Longrightarrow> cmp (xs ! l') (xs ! lo) > 0"
    using scan_up_correct [of l xs lo hi] unfolding l'_def by auto
  have dn: "lo \<le> h'" "h' < h" "\<And>i. h' < i \<Longrightarrow> i < h \<Longrightarrow> cmp (xs ! i) (xs ! lo) \<ge> 0" "h' > lo \<Longrightarrow> cmp (xs ! h') (xs ! lo) < 0"
    using scan_down_correct [OF lo(1), of xs] unfolding h'_def by auto
  have left: "cmp (xs ! i) (xs ! lo) \<le> 0" if "lo < i" "i < l'" for i
    using that up(2) [of i] less.prems(6) [of i] by (cases "i \<le> l") auto
  have right: "cmp (xs ! lo) (xs ! i) \<le> 0" if "h' < i" "i \<le> hi" for i
    using that dn(3) [of i] less.prems(7) [of i] swap_le [of "xs ! i" "xs ! lo"] in_A lo by (cases "i < h") auto
  have lhi: "l' \<le> hi + 1" using up(2) [of "hi + 1"] less.prems(3,4) by (cases "l' \<le> hi + 1") auto
  show ?case
  proof (cases "h' < l'")
    case True
    then have "partition_loop cmp lo hi xs l h = (xs, l', h')" by (subst partition_loop.simps) (simp add: l'_def h'_def Let_def)
    then show ?thesis using True left right up(1) dn(1,2) less.prems(2,4) lhi by auto
  next
    case False
    let ?ys = "swap xs l' h'"
    have "h' \<le> hi" using dn(2) less.prems(4) by simp
    then have bnd: "l' \<le> h'" "h' \<le> hi" "l' \<le> hi" "lo < l'" "lo < h'" using False up(1) less.prems(2) by auto
    have "l' \<noteq> h'" using up(3) dn(4) bnd by auto
    then have lt: "l' < h'" using bnd(1) by simp
    have n: "?ys ! i = (if i = l' then xs ! h' else if i = h' then xs ! l' else xs ! i)" for i
      by (rule nth_swap) (use bnd less.prems(5) in auto)
    have sp: "seg_perm lo hi xs ?ys" by (rule seg_perm_swap) (use bnd less.prems in auto)
    have lo': "?ys ! lo = xs ! lo" using bnd by (simp add: n)
    have "partition_loop cmp lo hi xs l h = partition_loop cmp lo hi ?ys l' h'"
      using False by (subst partition_loop.simps) (simp add: l'_def h'_def Let_def)
    moreover have "\<exists>ys l'' h''. partition_loop cmp lo hi ?ys l' h' = (ys, l'', h'') \<and> seg_perm lo hi ?ys ys \<and> ys ! lo = ?ys ! lo \<and>
      lo \<le> h'' \<and> h'' < l'' \<and> h'' \<le> hi \<and> lo < l'' \<and> l'' \<le> hi + 1 \<and> (\<forall>i. lo < i \<longrightarrow> i < l'' \<longrightarrow> cmp (ys ! i) (ys ! lo) \<le> 0) \<and>
      (\<forall>i. h'' < i \<longrightarrow> i \<le> hi \<longrightarrow> cmp (ys ! lo) (ys ! i) \<le> 0)"
    proof (rule less.hyps)
      show "h' - l' < h - l" using up(1) dn(2) lt by simp
      show "set ?ys \<subseteq> A" using seg_permD(3) [OF sp] less.prems(1) by simp
      fix i
      show "cmp (?ys ! i) (?ys ! lo) \<le> 0" if "lo < i" "i \<le> l'" unfolding lo'
        using left [of i] dn(4) bnd that lt by (cases "i = l'") (auto simp: n)
      show "cmp (?ys ! lo) (?ys ! i) \<le> 0" if "h' \<le> i" "i \<le> hi" unfolding lo'
        using right [of i] up(3) swap_le [of "xs ! l'" "xs ! lo"] in_A bnd that lt by (cases "i = h'") (auto simp: n)
    qed (use bnd lt less.prems in auto)
    ultimately show ?thesis using seg_perm_trans [OF sp] lo' by metis
  qed
qed

text \<open>The array after the pivot has been put between the two parts.\<close>

lemma partition_correct:
  assumes "set xs \<subseteq> A" "lo < hi" "hi < length xs" "lo \<le> mid" "mid \<le> hi"
  obtains ys l h where "partition_loop cmp lo hi (swap xs mid lo) lo (hi + 1) = (ys, l, h)" "seg_perm lo hi xs (swap ys lo h)"
    "lo \<le> h" "h < l" "h \<le> hi" "l \<le> hi + 1"
    "\<And>i j. lo \<le> i \<Longrightarrow> i < j \<Longrightarrow> j \<le> hi \<Longrightarrow> j < h \<or> l \<le> i \<or> cmp (swap ys lo h ! i) (swap ys lo h ! j) \<le> 0"
proof -
  let ?xs = "swap xs mid lo"
  have s0: "seg_perm lo hi xs ?xs" by (rule seg_perm_swap) (use assms in auto)
  have A0: "set ?xs \<subseteq> A" using seg_permD(3) [OF s0] assms(1) by simp
  have "\<exists>ys l' h'. partition_loop cmp lo hi ?xs lo (hi + 1) = (ys, l', h') \<and> seg_perm lo hi ?xs ys \<and> ys ! lo = ?xs ! lo \<and>
    lo \<le> h' \<and> h' < l' \<and> h' \<le> hi \<and> lo < l' \<and> l' \<le> hi + 1 \<and> (\<forall>i. lo < i \<longrightarrow> i < l' \<longrightarrow> cmp (ys ! i) (ys ! lo) \<le> 0) \<and>
    (\<forall>i. h' < i \<longrightarrow> i \<le> hi \<longrightarrow> cmp (ys ! lo) (ys ! i) \<le> 0)"
    by (rule partition_loop_correct) (use A0 assms in auto)
  then obtain ys l h where p: "partition_loop cmp lo hi ?xs lo (hi + 1) = (ys, l, h)" "seg_perm lo hi ?xs ys"
    "lo \<le> h" "h < l" "h \<le> hi" "l \<le> hi + 1" "\<And>i. lo < i \<Longrightarrow> i < l \<Longrightarrow> cmp (ys ! i) (ys ! lo) \<le> 0"
    "\<And>i. h < i \<Longrightarrow> i \<le> hi \<Longrightarrow> cmp (ys ! lo) (ys ! i) \<le> 0" by auto
  let ?zs = "swap ys lo h" and ?v = "ys ! lo"
  have len: "length ys = length xs" using seg_permD(1) [OF p(2)] by simp
  have n: "?zs ! i = (if i = lo then ys ! h else if i = h then ?v else ys ! i)" for i
    by (rule nth_swap) (use p assms len in auto)
  have s1: "seg_perm lo hi ys ?zs" by (rule seg_perm_swap) (use p assms len in auto)
  have sp: "seg_perm lo hi xs ?zs" by (rule seg_perm_trans [OF s0 seg_perm_trans [OF p(2) s1]])
  have in_A: "?zs ! i \<in> A" if "i \<le> hi" for i
    using that assms(1,3) seg_permD(1,3) [OF sp] nth_mem [of i ?zs] by auto
  have v: "?v \<in> A" using in_A [of h] p(5) n [of h] by (cases "h = lo") auto
  have le: "cmp (?zs ! i) ?v \<le> 0" if "lo \<le> i" "i < l" for i
    using that p(3,4) p(7) [of i] p(7) [of h] refl_le [OF v] by (auto simp: n)
  have ge: "cmp ?v (?zs ! j) \<le> 0" if "h \<le> j" "j \<le> hi" for j
    using that p(3) p(8) [of j] refl_le [OF v] by (auto simp: n)
  have "j < h \<or> l \<le> i \<or> cmp (?zs ! i) (?zs ! j) \<le> 0" if "lo \<le> i" "i < j" "j \<le> hi" for i j
    using that le [of i] ge [of j] trans [OF in_A [of i] v in_A [of j]] by (cases "l \<le> i"; cases "j < h") auto
  then show thesis using that [OF p(1) sp p(3-6)] by blast
qed

end


section \<open>The segments that are still to be sorted\<close>

definition apart :: "(nat \<times> nat) list \<Rightarrow> bool" where
  "apart segs \<longleftrightarrow> sorted_wrt (\<lambda>(a, b) (c, d). b < c \<or> d < a) segs"

definition ordered_but :: "('a \<Rightarrow> 'a \<Rightarrow> int) \<Rightarrow> 'a list \<Rightarrow> (nat \<times> nat) list \<Rightarrow> bool" where
  "ordered_but cmp xs segs \<longleftrightarrow> (\<forall>i j. i < j \<longrightarrow> j < length xs \<longrightarrow>
     (\<exists>(a, b) \<in> set segs. a \<le> i \<and> j \<le> b) \<or> cmp (xs ! i) (xs ! j) \<le> 0)"

text \<open>Every segment is at most a fraction of the array that halves with every segment below it on the stack.\<close>

fun fits :: "nat \<Rightarrow> (nat \<times> nat) list \<Rightarrow> bool" where
  "fits N [] \<longleftrightarrow> True"
| "fits N ((a, b) # segs) \<longleftrightarrow> (b - a + 1) * 2 ^ length segs \<le> N \<and> fits N segs"

definition pending :: "('a \<Rightarrow> 'a \<Rightarrow> int) \<Rightarrow> 'a list \<Rightarrow> (nat \<times> nat) list \<Rightarrow> bool" where
  "pending cmp xs segs \<longleftrightarrow> (\<forall>(a, b) \<in> set segs. a \<le> b \<and> b < length xs) \<and> apart segs \<and> ordered_but cmp xs segs \<and> fits (length xs) segs"

definition work :: "(nat \<times> nat) list \<Rightarrow> nat" where
  "work segs = sum_list (map (\<lambda>(a, b). b - a + 1) segs)"

lemma ordered_but_step:
  assumes "ordered_but cmp xs ((lo, hi) # segs)" "apart ((lo, hi) # segs)" "seg_perm lo hi xs zs" "hi < length xs"
    and new: "\<And>i j. lo \<le> i \<Longrightarrow> i < j \<Longrightarrow> j \<le> hi \<Longrightarrow> (\<exists>(a, b) \<in> set new. a \<le> i \<and> j \<le> b) \<or> cmp (zs ! i) (zs ! j) \<le> 0"
    and sub: "set segs \<subseteq> set new"
  shows "ordered_but cmp zs new"
  unfolding ordered_but_def
proof (intro allI impI)
  fix i j assume ij: "i < j" "j < length zs"
  note sp = seg_permD [OF assms(3)]
  have apart: "b < lo \<or> hi < a" if "(a, b) \<in> set segs" for a b
    using assms(2) that by (auto simp: apart_def)
  have old: "(\<exists>(a, b) \<in> set segs. a \<le> i' \<and> j' \<le> b) \<or> cmp (xs ! i') (xs ! j') \<le> 0"
    if "i' < j'" "j' < length xs" "\<not> (lo \<le> i' \<and> j' \<le> hi)" for i' j'
    using assms(1) that unfolding ordered_but_def by fastforce
  consider "lo \<le> i" "j \<le> hi" | "lo \<le> i" "i \<le> hi" "hi < j" | "i < lo" "lo \<le> j" "j \<le> hi" | "i < lo \<or> hi < i" "j < lo \<or> hi < j"
    by linarith
  then show "(\<exists>(a, b) \<in> set new. a \<le> i \<and> j \<le> b) \<or> cmp (zs ! i) (zs ! j) \<le> 0"
  proof cases
    case 1
    then show ?thesis using new ij by blast
  next
    case 2
    then obtain i' where i': "lo \<le> i'" "i' \<le> hi" "zs ! i = xs ! i'" using sp(5) by blast
    then have "(\<exists>(a, b) \<in> set segs. a \<le> i' \<and> j \<le> b) \<or> cmp (xs ! i') (xs ! j) \<le> 0"
      using 2 ij sp(1) by (intro old) auto
    then show ?thesis using i' 2 sp(4) [of j] apart by fastforce
  next
    case 3
    then obtain j' where j': "lo \<le> j'" "j' \<le> hi" "zs ! j = xs ! j'" using sp(5) by blast
    then have "(\<exists>(a, b) \<in> set segs. a \<le> i \<and> j' \<le> b) \<or> cmp (xs ! i) (xs ! j') \<le> 0"
      using 3 assms(4) by (intro old) auto
    then show ?thesis using j' 3 sp(4) [of i] apart by fastforce
  next
    case 4
    then have "(\<exists>(a, b) \<in> set segs. a \<le> i \<and> j \<le> b) \<or> cmp (xs ! i) (xs ! j) \<le> 0"
      using ij sp(1) by (intro old) auto
    then show ?thesis using 4 sp(4) [of i] sp(4) [of j] sub by auto
  qed
qed


text \<open>What the loop does next: the segments that are left, the first of them the current one.\<close>

definition qsort_rest :: "('a \<Rightarrow> 'a \<Rightarrow> int) \<Rightarrow> nat \<Rightarrow> 'a list \<Rightarrow> (nat \<times> nat) list \<Rightarrow> 'a list option" where
  "qsort_rest cmp w xs segs = (case segs of [] \<Rightarrow> Some xs | (a, b) # rest \<Rightarrow> qsort_loop cmp w xs a b rest)"

definition seg :: "nat \<Rightarrow> nat \<Rightarrow> (nat \<times> nat) list" where
  "seg a b = (if a < b then [(a, b)] else [])"

lemma qsort_loop_small:
  "hi - lo + 1 \<le> CUTOFF \<Longrightarrow> qsort_loop cmp w xs lo hi stk = qsort_rest cmp w (shortsort cmp xs lo hi) stk"
  by (subst qsort_loop.simps) (simp add: qsort_rest_def Let_def split: list.splits)

lemma qsort_loop_large:
  assumes "\<not> hi - lo + 1 \<le> CUTOFF" "partition_loop cmp lo hi (swap xs (lo + (hi - lo + 1) div 2) lo) lo (hi + 1) = (ys, l, h)"
    and "length stk < STACK_SIZE" "0 < w" "lo \<le> h"
  shows "qsort_loop cmp w xs lo hi stk =
    (if int h - int lo > int hi - int l then qsort_rest cmp w (swap ys lo h) (seg l hi @ seg lo (h - 1) @ stk)
     else qsort_rest cmp w (swap ys lo h) (seg lo (h - 1) @ seg l hi @ stk))"
proof -
  have "int w * (int h - int lo) - 1 \<ge> int w * (int hi - int l) \<longleftrightarrow> int w * (int h - int lo) > int w * (int hi - int l)" by linarith
  also have "\<dots> \<longleftrightarrow> int h - int lo > int hi - int l" using assms(4) by (simp add: mult_less_cancel_left)
  finally have c: "int w * (int h - int lo) - 1 \<ge> int w * (int hi - int l) \<longleftrightarrow> int h - int lo > int hi - int l" .
  have s: "lo < h - Suc 0 \<longleftrightarrow> Suc lo < h" by linarith
  show ?thesis using assms(1,3) unfolding qsort_loop.simps [of cmp w xs lo hi stk] Let_def assms(2) prod.case c
    by (simp add: qsort_rest_def seg_def s split: list.splits)
qed

lemma work_simps [simp]: "work [] = 0" "work ((a, b) # segs) = b - a + 1 + work segs" "work (xs @ ys) = work xs + work ys"
  by (simp_all add: work_def)

lemma set_seg: "(c, d) \<in> set (seg a b) \<longleftrightarrow> c = a \<and> d = b \<and> a < b"
  by (auto simp: seg_def)

lemma pending_parts:
  assumes p: "pending cmp xs ((lo, hi) # stk)" and sp: "seg_perm lo hi xs zs"
    and in1: "a1 < b1 \<Longrightarrow> lo \<le> a1 \<and> b1 \<le> hi" and in2: "a2 < b2 \<Longrightarrow> lo \<le> a2 \<and> b2 \<le> hi" and dis: "b1 < a2 \<or> b2 < a1"
    and small: "2 * work (seg a1 b1) \<le> hi - lo + 1" and less: "work (seg a1 b1) + work (seg a2 b2) < hi - lo + 1"
    and new: "\<And>i j. lo \<le> i \<Longrightarrow> i < j \<Longrightarrow> j \<le> hi \<Longrightarrow> a1 \<le> i \<and> j \<le> b1 \<or> a2 \<le> i \<and> j \<le> b2 \<or> cmp (zs ! i) (zs ! j) \<le> 0"
  shows "pending cmp zs (seg a1 b1 @ seg a2 b2 @ stk)"
proof -
  have lh: "lo \<le> hi" "hi < length xs" "\<And>a b. (a, b) \<in> set stk \<Longrightarrow> a \<le> b \<and> b < length xs" and ap: "apart ((lo, hi) # stk)" and
    ob: "ordered_but cmp xs ((lo, hi) # stk)" and ft: "(hi - lo + 1) * 2 ^ length stk \<le> length xs" "fits (length xs) stk"
    using p by (auto simp: pending_def)
  have far: "b < lo \<or> hi < a" if "(a, b) \<in> set stk" for a b using ap that by (auto simp: apart_def)
  have len: "length zs = length xs" by (rule seg_permD(1) [OF sp])
  have "\<forall>(a, b) \<in> set (seg a1 b1 @ seg a2 b2 @ stk). a \<le> b \<and> b < length zs"
    using in1 in2 lh len by (fastforce simp: seg_def)
  moreover have "apart (seg a1 b1 @ seg a2 b2 @ stk)"
    using ap dis in1 in2 far by (auto simp: apart_def sorted_wrt_append seg_def)
  moreover have "ordered_but cmp zs (seg a1 b1 @ seg a2 b2 @ stk)"
    by (rule ordered_but_step [OF ob ap sp lh(2)]) (use new in \<open>fastforce simp: seg_def\<close>)+
  moreover have "fits (length xs) (seg a1 b1 @ seg a2 b2 @ stk)"
  proof -
    have le: "k * 2 ^ length stk \<le> length xs" if "k \<le> hi - lo + 1" for k
      using mult_right_mono [OF that, of "2 ^ length stk"] ft(1) by simp
    have "work (seg a1 b1) * 2 ^ length stk \<le> length xs" "work (seg a2 b2) * 2 ^ length stk \<le> length xs"
      "2 * work (seg a1 b1) * 2 ^ length stk \<le> length xs"
      by (rule le, use less small in linarith)+
    then show ?thesis using ft(2) by (cases "a1 < b1"; cases "a2 < b2") (simp_all add: seg_def mult.assoc mult.left_commute)
  qed
  ultimately show ?thesis by (simp add: pending_def len)
qed

context comparator
begin

lemma qsort_rest_correct:
  assumes "pending cmp xs segs" "set xs \<subseteq> A" "length xs < 2 ^ 32" "0 < w"
  shows "\<exists>ys. qsort_rest cmp w xs segs = Some ys \<and> mset ys = mset xs \<and> sorted_wrt (\<lambda>x y. cmp x y \<le> 0) ys"
  using assms(1-3)
proof (induction "work segs" arbitrary: xs segs rule: less_induct)
  case less
  show ?case
  proof (cases segs)
    case Nil
    then show ?thesis using less.prems(1)
      by (auto simp: qsort_rest_def pending_def ordered_but_def sorted_wrt_iff_nth_less)
  next
    case (Cons s stk)
    obtain lo hi where s: "s = (lo, hi)" by (cases s)
    note p = less.prems(1) [unfolded Cons s]
    have lh: "lo \<le> hi" "hi < length xs" and ap: "apart ((lo, hi) # stk)" and ob: "ordered_but cmp xs ((lo, hi) # stk)" and
      ft: "(hi - lo + 1) * 2 ^ length stk \<le> length xs" using p by (auto simp: pending_def)
    have rest: "qsort_rest cmp w xs segs = qsort_loop cmp w xs lo hi stk" by (simp add: qsort_rest_def Cons s)
    have fin: ?thesis if "qsort_rest cmp w xs segs = qsort_rest cmp w zs new" "seg_perm lo hi xs zs" "pending cmp zs new"
      "work new < work segs" for zs new
      using less.hyps [OF that(4,3)] that(1) seg_permD(1-3) [OF that(2)] less.prems(2,3) by auto
    show ?thesis
    proof (cases "hi - lo + 1 \<le> CUTOFF")
      case True
      let ?zs = "shortsort cmp xs lo hi"
      have ss: "seg_perm lo hi xs ?zs" "\<And>i j. lo \<le> i \<Longrightarrow> i < j \<Longrightarrow> j \<le> hi \<Longrightarrow> cmp (?zs ! i) (?zs ! j) \<le> 0"
        using shortsort_correct [OF less.prems(2) lh] by blast+
      have "ordered_but cmp ?zs stk" by (rule ordered_but_step [OF ob ap ss(1) lh(2)]) (use ss(2) in auto)
      then have "pending cmp ?zs stk" using p seg_permD(1) [OF ss(1)] by (auto simp: pending_def apart_def)
      then show ?thesis using fin [OF _ ss(1)] rest qsort_loop_small [OF True, of cmp w xs stk] by (simp add: Cons s)
    next
      case False
      have mid: "lo < hi" "lo \<le> lo + (hi - lo + 1) div 2" "lo + (hi - lo + 1) div 2 \<le> hi" using False by (auto simp: CUTOFF_def)
      obtain ys l h where pt: "partition_loop cmp lo hi (swap xs (lo + (hi - lo + 1) div 2) lo) lo (hi + 1) = (ys, l, h)"
        "seg_perm lo hi xs (swap ys lo h)" "lo \<le> h" "h < l" "h \<le> hi" "l \<le> hi + 1"
        "\<And>i j. lo \<le> i \<Longrightarrow> i < j \<Longrightarrow> j \<le> hi \<Longrightarrow> j < h \<or> l \<le> i \<or> cmp (swap ys lo h ! i) (swap ys lo h ! j) \<le> 0"
        using partition_correct [OF less.prems(2) mid(1) lh(2) mid(2,3)] by blast
      have "8 * 2 ^ length stk \<le> (hi - lo + 1) * 2 ^ length stk" by (rule mult_right_mono) (use False in \<open>auto simp: CUTOFF_def\<close>)
      moreover have "(2::nat) ^ (3 + length stk) = 8 * 2 ^ length stk" by (simp add: power_add)
      ultimately have "(2::nat) ^ (3 + length stk) < 2 ^ 32" using ft less.prems(3) by linarith
      then have "3 + length stk < 32" by (rule power_less_imp_less_exp [rotated]) simp
      then have "length stk < STACK_SIZE" by (simp add: STACK_SIZE_def)
      note run = qsort_loop_large [OF False pt(1) this assms(4) pt(3)]
      let ?L = "seg lo (h - 1)" and ?R = "seg l hi" and ?zs = "swap ys lo h"
      have sz: "work ?L \<le> h - lo" "work ?R \<le> hi + 1 - l" by (auto simp: seg_def)
      have wk: "work ?L + work ?R < hi - lo + 1" using sz pt(3-6) by linarith
      have new: "lo \<le> i \<and> j \<le> h - 1 \<or> l \<le> i \<and> j \<le> hi \<or> cmp (?zs ! i) (?zs ! j) \<le> 0" if "lo \<le> i" "i < j" "j \<le> hi" for i j
        using pt(7) [OF that] that by linarith
      show ?thesis
      proof (cases "int h - int lo > int hi - int l")
        case True
        have "pending cmp ?zs (?R @ ?L @ stk)"
          by (rule pending_parts [OF p pt(2)]) (use sz wk pt(3-6) True new in auto)
        then show ?thesis using fin [OF _ pt(2)] rest run True wk by (simp add: Cons s)
      next
        case False
        have "pending cmp ?zs (?L @ ?R @ stk)"
          by (rule pending_parts [OF p pt(2)]) (use sz wk pt(3-6) False new in auto)
        then show ?thesis using fin [OF _ pt(2)] rest run False wk by (simp add: Cons s)
      qed
    qed
  qed
qed

lemma qsort_sorts:
  assumes "set xs \<subseteq> A" "length xs < 2 ^ 32" "0 < w"
  shows "\<exists>ys. qsort cmp w xs = Some ys \<and> mset ys = mset xs \<and> sorted_wrt (\<lambda>x y. cmp x y \<le> 0) ys"
proof (cases "length xs < 2")
  case True
  then show ?thesis using assms(3) by (cases xs; cases "tl xs") (auto simp: qsort_def)
next
  case False
  then have "pending cmp xs [(0, length xs - 1)]" by (auto simp: pending_def apart_def ordered_but_def)
  from qsort_rest_correct [OF this assms] show ?thesis using False assms(3) by (simp add: qsort_def qsort_rest_def)
qed

end


section \<open>Searching\<close>

lemma bsearch_loop_correct:
  assumes "\<And>i j. i < j \<Longrightarrow> j < length xs \<Longrightarrow> c (xs ! i) < 0 \<Longrightarrow> c (xs ! j) < 0"
    and "\<And>i j. i < j \<Longrightarrow> j < length xs \<Longrightarrow> c (xs ! j) > 0 \<Longrightarrow> c (xs ! i) > 0"
    and "0 \<le> lo" "int num = hi - lo + 1" "hi < int (length xs)"
  shows "case bsearch_loop c xs lo hi num of
      None \<Rightarrow> \<forall>i. lo \<le> int i \<longrightarrow> int i \<le> hi \<longrightarrow> c (xs ! i) \<noteq> 0
    | Some k \<Rightarrow> lo \<le> k \<and> k \<le> hi \<and> c (xs ! nat k) = 0"
  using assms(3-)
proof (induction num arbitrary: lo hi rule: less_induct)
  case (less num)
  show ?case
  proof (cases "num div 2 = 0")
    case True
    then consider "num = 0" | "num = 1" by linarith
    then show ?thesis
    proof cases
      case 1
      then have "bsearch_loop c xs lo hi num = None" using less.prems by (subst bsearch_loop.simps) simp
      then show ?thesis using 1 less.prems by simp
    next
      case 2
      then have "hi = lo" using less.prems by simp
      then have "bsearch_loop c xs lo hi num = (if c (xs ! nat lo) \<noteq> 0 then None else Some lo)"
        using 2 by (subst bsearch_loop.simps) simp
      then show ?thesis using \<open>hi = lo\<close> by (auto split: if_splits)
    qed
  next
    case False
    define k where "k = (if odd num then num div 2 else num div 2 - 1)"
    define mid where "mid = lo + int k"
    have k: "k < num" "num div 2 < num" "num = k + 1 + num div 2" using False by (auto simp: k_def elim!: oddE evenE)
    have mid: "0 \<le> mid" "lo \<le> mid" "mid \<le> hi" "int (num div 2) = hi - mid" "nat mid < length xs"
      using k less.prems by (auto simp: mid_def)
    have s: "bsearch_loop c xs lo hi num = (if c (xs ! nat mid) = 0 then Some mid
        else if c (xs ! nat mid) < 0 then bsearch_loop c xs lo (mid - 1) k else bsearch_loop c xs (mid + 1) hi (num div 2))"
      using False mid(2,3) by (subst bsearch_loop.simps) (simp add: Let_def mid_def k_def)
    consider "c (xs ! nat mid) = 0" | "c (xs ! nat mid) < 0" | "c (xs ! nat mid) > 0" by linarith
    then show ?thesis
    proof cases
      case 1
      then show ?thesis using s mid by simp
    next
      case 2
      have "c (xs ! i) \<noteq> 0" if "mid \<le> int i" "int i \<le> hi" for i
      proof (cases "i = nat mid")
        case False
        then have "nat mid < i" using that by linarith
        then show ?thesis using assms(1) [of "nat mid" i] 2 that less.prems(3) by simp
      qed (use 2 in simp)
      moreover have "bsearch_loop c xs lo hi num = bsearch_loop c xs lo (mid - 1) k" using s 2 by simp
      ultimately show ?thesis using less.IH [OF k(1), of lo "mid - 1"] less.prems mid
        by (fastforce simp: mid_def split: option.splits)
    next
      case 3
      have "c (xs ! i) \<noteq> 0" if "lo \<le> int i" "int i \<le> mid" for i
      proof (cases "i = nat mid")
        case False
        then have "i < nat mid" using that by linarith
        then show ?thesis using assms(2) [of i "nat mid"] 3 mid(5) by simp
      qed (use 3 in simp)
      moreover have "bsearch_loop c xs lo hi num = bsearch_loop c xs (mid + 1) hi (num div 2)" using s 3 by simp
      ultimately show ?thesis using less.IH [OF k(2), of "mid + 1" hi] less.prems mid
        by (fastforce split: option.splits)
    qed
  qed
qed

section \<open>Correctness of sorting and searching\<close>

text \<open>
  C7: for every comparison function that orders the elements, \<^verbatim>\<open>qsort\<close> returns and leaves a sorted
  rearrangement of the array. Its stack of 30 segments is never exceeded for arrays of less than 2\^32 elements.
\<close>

theorem qsort_correct:
  assumes "comparator cmp A" "set xs \<subseteq> A" "length xs < 2 ^ 32" "0 < width"
  shows "\<exists>ys. qsort cmp width xs = Some ys \<and> mset ys = mset xs \<and> sorted_wrt (\<lambda>x y. cmp x y \<le> 0) ys"
  by (rule comparator.qsort_sorts [OF assms])

theorem qsort_correct_witness:
  "\<exists>ys. qsort (\<lambda>x y. x - y) 4 [9, 3, 7, 1, 8, 2, 6, 5, 4, 0 :: int] = Some ys \<and> sorted_wrt (\<lambda>x y. x - y \<le> 0) ys"
proof -
  have "comparator (\<lambda>x y. x - y) (UNIV :: int set)" by unfold_locales auto
  from qsort_correct [OF this, of "[9, 3, 7, 1, 8, 2, 6, 5, 4, 0]" 4] show ?thesis by auto
qed

text \<open>
  C37: on an array in the order of the comparison function, \<^verbatim>\<open>bsearch\<close> finds an element that compares equal
  to the key exactly if there is one, and reads no element outside the array.
\<close>

theorem bsearch_correct:
  assumes "\<And>i j. i < j \<Longrightarrow> j < length xs \<Longrightarrow> c (xs ! i) < 0 \<Longrightarrow> c (xs ! j) < 0"
    and "\<And>i j. i < j \<Longrightarrow> j < length xs \<Longrightarrow> c (xs ! j) > 0 \<Longrightarrow> c (xs ! i) > 0"
  shows "case bsearch c xs of
      None \<Rightarrow> \<forall>i < length xs. c (xs ! i) \<noteq> 0
    | Some k \<Rightarrow> 0 \<le> k \<and> k < int (length xs) \<and> c (xs ! nat k) = 0"
  using bsearch_loop_correct [where xs = xs and c = c and lo = 0 and num = "length xs" and hi = "int (length xs) - 1", OF assms]
  by (fastforce simp: bsearch_def split: option.splits)

theorem bsearch_correct_witness: "\<exists>k. bsearch (\<lambda>x. 7 - x) [1, 3, 5, 7, 9 :: int] = Some k \<and> [1, 3, 5, 7, 9 :: int] ! nat k = 7"
proof -
  let ?xs = "[1, 3, 5, 7, 9 :: int]"
  have s: "sorted ?xs" by simp
  have "case bsearch (\<lambda>x. 7 - x) ?xs of None \<Rightarrow> \<forall>i < length ?xs. 7 - ?xs ! i \<noteq> 0
    | Some k \<Rightarrow> 0 \<le> k \<and> k < int (length ?xs) \<and> 7 - ?xs ! nat k = 0"
  proof (rule bsearch_correct)
    fix i j assume ij: "i < j" "j < length ?xs"
    then have "?xs ! i \<le> ?xs ! j" using s sorted_nth_mono [of ?xs i j] by simp
    then show "7 - ?xs ! i < 0 \<Longrightarrow> 7 - ?xs ! j < 0" "7 - ?xs ! j > 0 \<Longrightarrow> 7 - ?xs ! i > 0" by linarith+
  qed
  moreover have "\<not> (\<forall>i < length ?xs. 7 - ?xs ! i \<noteq> 0)" by (auto intro!: exI [of _ 3])
  ultimately show ?thesis by (cases "bsearch (\<lambda>x. 7 - x) ?xs") auto
qed

end
