(* ===== verification/Pathsort.thy ===== *)
theory Pathsort
  imports Cstring Qsort
begin

text \<open>
  Sorting path names: the comparison function of \<^verbatim>\<open>src/src/lib/glob.c\<close> and its call of \<^verbatim>\<open>qsort\<close>
  on an array of string pointers. The string comparison provides the order that \<^verbatim>\<open>qsort\<close> relies on.
\<close>

definition compare :: "mem \<Rightarrow> addr \<Rightarrow> addr \<Rightarrow> int option" where
  "compare m p q = strcmp m p q"

definition sort_paths :: "mem \<Rightarrow> addr list \<Rightarrow> addr list option" where
  "sort_paths m paths = qsort (\<lambda>p q. the (compare m p q)) 4 paths"

section \<open>The order of strings\<close>

fun lex_cmp :: "u8 list \<Rightarrow> u8 list \<Rightarrow> int" where
  "lex_cmp [] [] = 0"
| "lex_cmp [] (y # ys) = - 1"
| "lex_cmp (x # xs) [] = 1"
| "lex_cmp (x # xs) (y # ys) = (if x = y then lex_cmp xs ys else if x < y then - 1 else 1)"

lemma strcmp_lex:
  assumes "cstr m p xs" "cstr m q ys"
  shows "strcmp m p q = Some (lex_cmp xs ys)"
  using assms
proof (induction xs ys arbitrary: p q rule: lex_cmp.induct)
  case 1
  then show ?case by (subst strcmp.simps) (simp add: Let_def)
next
  case (2 y ys)
  then have "uint (m q) > 0" by (simp add: word_neq_0_conv word_less_def)
  then show ?case using 2 by (subst strcmp.simps) (simp add: Let_def)
next
  case (3 x xs)
  then have "uint (m p) > 0" by (simp add: word_neq_0_conv word_less_def)
  then show ?case using 3 by (subst strcmp.simps) (simp add: Let_def)
next
  case (4 x xs y ys)
  then show ?case by (subst strcmp.simps) (auto simp: Let_def word_less_def word_uint_eq_iff)
qed

lemma lex_cmp_flip: "lex_cmp xs ys = - lex_cmp ys xs"
  by (induction xs ys rule: lex_cmp.induct) auto

lemma lex_cmp_trans: "lex_cmp xs ys \<le> 0 \<Longrightarrow> lex_cmp ys zs \<le> 0 \<Longrightarrow> lex_cmp xs zs \<le> 0"
proof (induction xs ys arbitrary: zs rule: lex_cmp.induct)
  case (2 y ys)
  then show ?case by (cases zs) (auto split: if_splits)
next
  case (4 x xs y ys)
  then show ?case by (cases zs) (auto split: if_splits)
qed auto

lemma lex_cmp_zero: "lex_cmp xs ys = 0 \<longleftrightarrow> xs = ys"
  by (induction xs ys rule: lex_cmp.induct) auto

lemma compare_strings:
  assumes "cstr m p xs" "cstr m q ys"
  shows "the (compare m p q) = lex_cmp xs ys"
  using strcmp_lex [OF assms] by (simp add: compare_def)

interpretation paths: comparator "\<lambda>p q. the (compare m p q)" "{p. \<exists>xs. cstr m p xs}" for m
proof
  fix x y z
  assume "x \<in> {p. \<exists>xs. cstr m p xs}" "y \<in> {p. \<exists>xs. cstr m p xs}"
  then obtain xs ys where xy: "cstr m x xs" "cstr m y ys" by auto
  show "the (compare m x y) < 0 \<longleftrightarrow> the (compare m y x) > 0"
    using lex_cmp_flip [of xs ys] by (simp add: compare_strings [OF xy] compare_strings [OF xy(2,1)])
  assume "z \<in> {p. \<exists>xs. cstr m p xs}" "the (compare m x y) \<le> 0" "the (compare m y z) \<le> 0"
  then show "the (compare m x z) \<le> 0"
    using xy lex_cmp_trans by (auto simp: compare_strings)
qed

text \<open>
  C33: sorting the path names of \<^verbatim>\<open>glob\<close> returns, keeps every path, and puts the strings behind the pointers in
  lexicographic order of their bytes.
\<close>

theorem sort_paths_correct:
  assumes "\<And>p. p \<in> set paths \<Longrightarrow> \<exists>xs. cstr m p xs" "length paths < 2 ^ 32"
  shows "\<exists>ps. sort_paths m paths = Some ps \<and> mset ps = mset paths \<and>
    sorted_wrt (\<lambda>p q. \<forall>xs ys. cstr m p xs \<and> cstr m q ys \<longrightarrow> lex_cmp xs ys \<le> 0) ps"
proof -
  have "set paths \<subseteq> {p. \<exists>xs. cstr m p xs}" using assms(1) by blast
  from paths.qsort_sorts [OF this assms(2), of 4] obtain ps where
    ps: "sort_paths m paths = Some ps" "mset ps = mset paths" "sorted_wrt (\<lambda>p q. the (compare m p q) \<le> 0) ps"
    by (auto simp: sort_paths_def)
  have "sorted_wrt (\<lambda>p q. \<forall>xs ys. cstr m p xs \<and> cstr m q ys \<longrightarrow> lex_cmp xs ys \<le> 0) ps"
    by (rule sorted_wrt_mono_rel [OF _ ps(3)]) (auto simp: compare_strings)
  then show ?thesis using ps(1,2) by blast
qed

theorem sort_paths_correct_witness:
  "\<exists>ps. sort_paths ((\<lambda>_. 0)(10 := 98, 20 := 97)) [10, 20, 30] = Some ps \<and> mset ps = {#10, 20, 30#}"
proof -
  let ?m = "(\<lambda>_. 0)(10 := 98, 20 := 97) :: mem"
  have "\<exists>xs. cstr ?m p xs" if "p \<in> set [10, 20, 30]" for p
  proof -
    have "cstr ?m 10 [98]" "cstr ?m 20 [97]" "cstr ?m 30 []" by simp_all
    then have "Ex (cstr ?m 10)" "Ex (cstr ?m 20)" "Ex (cstr ?m 30)" by blast+
    then show ?thesis using that by (auto simp del: cstr.simps)
  qed
  from sort_paths_correct [of "[10, 20, 30]" ?m, OF this] show ?thesis by auto
qed

end
