(* ===== verification/Calendar.thy ===== *)
theory Calendar
  imports Prelude "HOL-Library.Signed_Division"
begin

text \<open>
  Broken-down time: \<^verbatim>\<open>src/src/lib/time.c\<close>. \<^verbatim>\<open>int\<close> and \<^verbatim>\<open>long\<close> have 32 bits; \<open>i32\<close> is the value an
  arithmetic result has in such a variable, and \<open>sdiv\<close>, \<open>smod\<close> are the division and remainder of C, which round towards zero. A read outside
  of the table of month lengths is \<open>None\<close>. The time zone and the daylight saving bias are the variables \<^verbatim>\<open>_timezone\<close> and
  \<^verbatim>\<open>_dstbias\<close>.
\<close>

definition i32 :: "int \<Rightarrow> int" where "i32 x = signed_take_bit 31 x"

text \<open>The cast to \<^verbatim>\<open>unsigned long\<close>.\<close>

definition ulong :: "int \<Rightarrow> int" where "ulong x = x mod 2 ^ 32"

definition YEAR0 :: int where "YEAR0 = 1900"
definition EPOCH_YR :: int where "EPOCH_YR = 1970"
definition SECS_DAY :: int where "SECS_DAY = 24 * 60 * 60"
definition TIME_MAX :: int where "TIME_MAX = 2147483647"

definition LEAPYEAR :: "int \<Rightarrow> bool" where
  "LEAPYEAR year \<longleftrightarrow> year smod 4 = 0 \<and> (year smod 100 \<noteq> 0 \<or> year smod 400 = 0)"

definition YEARSIZE :: "int \<Rightarrow> int" where
  "YEARSIZE year = (if LEAPYEAR year then 366 else 365)"

definition ytab :: "bool \<Rightarrow> int list" where
  "ytab leap = [31, if leap then 29 else 28, 31, 30, 31, 30, 31, 31, 30, 31, 30, 31]"

definition month_len :: "int \<Rightarrow> int \<Rightarrow> int option" where
  "month_len year mon = (if 0 \<le> mon \<and> mon < 12 then Some (ytab (LEAPYEAR year) ! nat mon) else None)"

lemma ytab_nth: "m < 12 \<Longrightarrow> ytab l ! m \<in> {28, 29, 30, 31}"
  using nth_mem [of m "ytab l"] by (auto simp: ytab_def)

lemma month_len_bounds:
  assumes "month_len year mon = Some len"
  shows "0 \<le> mon" and "mon < 12" and "len = ytab (LEAPYEAR year) ! nat mon" and "28 \<le> len" and "len \<le> 31"
proof -
  show m: "0 \<le> mon" "mon < 12" and l: "len = ytab (LEAPYEAR year) ! nat mon" using assms by (auto simp: month_len_def split: if_splits)
  have "nat mon < 12" using m by linarith
  then show "28 \<le> len" "len \<le> 31" using ytab_nth [of "nat mon" "LEAPYEAR year"] l by auto
qed

record tm =
  tm_sec :: int
  tm_min :: int
  tm_hour :: int
  tm_mday :: int
  tm_mon :: int
  tm_year :: int
  tm_wday :: int
  tm_yday :: int
  tm_isdst :: int
  tm_gmtoff :: int
  tm_zone :: string

text \<open>The loops of \<^verbatim>\<open>gmtime_r\<close> over the years and over the months.\<close>

function year_loop :: "int \<Rightarrow> int \<Rightarrow> int \<times> int" where
  "year_loop dayno year = (if dayno \<ge> YEARSIZE year then year_loop (dayno - YEARSIZE year) (year + 1) else (dayno, year))"
  by pat_completeness auto
termination
  by (relation "measure (\<lambda>(dayno, year). nat dayno)") (auto simp: YEARSIZE_def split: if_splits)

function month_loop :: "int \<Rightarrow> int \<Rightarrow> int \<Rightarrow> (int \<times> int) option" where
  "month_loop year dayno mon =
     (if 0 \<le> mon \<and> mon < 12 then
        (let len = ytab (LEAPYEAR year) ! nat mon in
         if dayno \<ge> len then month_loop year (dayno - len) (mon + 1) else Some (dayno, mon))
      else None)"
  by pat_completeness auto
termination
  by (relation "measure (\<lambda>(year, dayno, mon). nat (12 - mon))") auto

declare year_loop.simps [simp del] month_loop.simps [simp del]

text \<open>A \<^verbatim>\<open>time_t\<close> is a signed \<^verbatim>\<open>long\<close>.\<close>

definition gmtime_r :: "int \<Rightarrow> tm option" where
  "gmtime_r timer =
     (let dayclock = ulong timer mod SECS_DAY; dayno = ulong timer div SECS_DAY;
          (d, year) = year_loop dayno EPOCH_YR
      in case month_loop year d 0 of
           None \<Rightarrow> None
         | Some (d1, mon) \<Rightarrow>
             Some \<lparr>tm_sec = dayclock mod 60, tm_min = dayclock mod 3600 div 60, tm_hour = dayclock div 3600, tm_mday = d1 + 1, tm_mon = mon,
               tm_year = year - YEAR0, tm_wday = (dayno + 4) mod 7, tm_yday = d, tm_isdst = 0, tm_gmtoff = 0, tm_zone = ''UTC''\<rparr>)"

definition localtime_r :: "int \<Rightarrow> int \<Rightarrow> tm option" where
  "localtime_r timezone timer = gmtime_r (i32 (timer - timezone))"

text \<open>The first steps of \<^verbatim>\<open>mktime\<close> carry each field that is out of range into the next one.\<close>

definition carry :: "int \<Rightarrow> int \<Rightarrow> int \<Rightarrow> int \<times> int" where
  "carry lo hi base =
     (let hi1 = i32 (hi + lo sdiv base); lo1 = lo smod base
      in if lo1 < 0 then (lo1 + base, i32 (hi1 - 1)) else (lo1, hi1))"

text \<open>The loops of \<^verbatim>\<open>mktime\<close> that bring the day into the month; the state is the day, the month and the year.\<close>

function borrow_loop :: "int \<Rightarrow> int \<Rightarrow> int \<Rightarrow> (int \<times> int \<times> int) option" where
  "borrow_loop day mon year =
     (if day < 0 then
        (let (mon1, year1) = (if mon - 1 < 0 then (11, i32 (year - 1)) else (mon - 1, year)) in
         case month_len (i32 (year1 + YEAR0)) mon1 of None \<Rightarrow> None | Some len \<Rightarrow> borrow_loop (day + len) mon1 year1)
      else Some (day, mon, year))"
  by pat_completeness auto
termination
  by (relation "measure (\<lambda>(day, mon, year). nat (- day))") (auto dest: month_len_bounds(4) split: if_splits)

function spill_loop :: "int \<Rightarrow> int \<Rightarrow> int \<Rightarrow> (int \<times> int \<times> int) option" where
  "spill_loop day mon year =
     (case month_len (i32 (year + YEAR0)) mon of
        None \<Rightarrow> None
      | Some len \<Rightarrow>
          if day \<ge> len then (if mon + 1 = 12 then spill_loop (day - len) 0 (i32 (year + 1)) else spill_loop (day - len) (mon + 1) year)
          else Some (day, mon, year))"
  by pat_completeness auto
termination
  by (relation "measure (\<lambda>(day, mon, year). nat day)") (auto dest: month_len_bounds(4))

declare borrow_loop.simps [simp del] spill_loop.simps [simp del]

text \<open>The sum over the months before \<^verbatim>\<open>tm_mon\<close>.\<close>

fun yday_loop :: "int \<Rightarrow> nat \<Rightarrow> int" where
  "yday_loop year 0 = 0"
| "yday_loop year (Suc m) = yday_loop year m + ytab (LEAPYEAR year) ! m"

text \<open>The number of days from the epoch to the beginning of a year, and whether its computation overflows.\<close>

definition epoch_day :: "int \<Rightarrow> int \<times> bool" where
  "epoch_day yr =
     (let n = i32 (yr - EPOCH_YR);
          o1 = (TIME_MAX sdiv 365 < n);
          d1 = i32 (n * 365);
          o2 = (i32 (TIME_MAX - d1) < i32 (n sdiv 4 + 1));
          d2 = i32 (d1 + (n sdiv 4 + (if yr smod 4 \<noteq> 0 \<and> yr smod 4 < EPOCH_YR smod 4 then 1 else 0)));
          d3 = i32 (d2 - (n sdiv 100 + (if yr smod 100 \<noteq> 0 \<and> yr smod 100 < EPOCH_YR smod 100 then 1 else 0)));
          d4 = i32 (d3 + (n sdiv 400 + (if yr smod 400 \<noteq> 0 \<and> yr smod 400 < EPOCH_YR smod 400 then 1 else 0)))
      in (d4, o1 \<or> o2))"

text \<open>\<^verbatim>\<open>mktime\<close> first brings the fields into their ranges, then computes the seconds since the epoch.\<close>

definition mktime_norm :: "tm \<Rightarrow> tm option" where
  "mktime_norm t =
     (let (sec, min1) = carry (tm_sec t) (tm_min t) 60;
          (min2, hour1) = carry min1 (tm_hour t) 60;
          (hour, day1) = carry hour1 0 24;
          (mon1, year1) = carry (tm_mon t) (tm_year t) 12;
          day2 = i32 (day1 + i32 (tm_mday t - 1))
      in case borrow_loop day2 mon1 year1 of
           None \<Rightarrow> None
         | Some (day3, mon2, year2) \<Rightarrow>
             (case spill_loop day3 mon2 year2 of
                None \<Rightarrow> None
              | Some (day, mon, year) \<Rightarrow>
                  Some (t\<lparr>tm_sec := sec, tm_min := min2, tm_hour := hour, tm_mon := mon, tm_year := year, tm_mday := day + 1\<rparr>)))"

definition mktime_secs :: "int \<Rightarrow> int \<Rightarrow> tm \<Rightarrow> int \<times> tm" where
  "mktime_secs timezone dstbias t =
     (if tm_year t < EPOCH_YR - YEAR0 then (- 1, t)
      else
        let y = i32 (tm_year t + YEAR0);
            (d, o1) = epoch_day y;
            yday = yday_loop y (nat (tm_mon t)) + (tm_mday t - 1);
            o2 = (i32 (d + yday) < 0);
            day = i32 (d + yday);
            s0 = (tm_hour t * 60 + tm_min t) * 60 + tm_sec t;
            o3 = ((TIME_MAX - s0) sdiv SECS_DAY < day);
            s1 = i32 (s0 + i32 (day * SECS_DAY));
            o4 = (timezone > 0 \<and> i32 (TIME_MAX - timezone) < s1 \<or> timezone < 0 \<and> s1 < i32 (- timezone));
            s2 = i32 (s1 + timezone);
            dst = (if tm_isdst t \<noteq> 0 then dstbias else 0);
            o5 = (dst > s2);
            s3 = i32 (s2 - dst)
        in (if o1 \<or> o2 \<or> o3 \<or> o4 \<or> o5 then - 1 else s3, t\<lparr>tm_yday := yday, tm_wday := i32 (day + 4) smod 7\<rparr>))"

definition mktime :: "int \<Rightarrow> int \<Rightarrow> tm \<Rightarrow> (int \<times> tm) option" where
  "mktime timezone dstbias t = map_option (mktime_secs timezone dstbias) (mktime_norm t)"

section \<open>The calendar\<close>

text \<open>
  The reference: the day number of the first day of a year in closed form, of a month within the year, and the seconds since the epoch a
  broken-down time stands for, whatever the ranges of its fields.
\<close>

definition year_days :: "int \<Rightarrow> int" where
  "year_days y = 365 * (y - 1970) + ((y - 1) div 4 - 492) - ((y - 1) div 100 - 19) + ((y - 1) div 400 - 4)"

definition month_days :: "int \<Rightarrow> int \<Rightarrow> int" where
  "month_days y m = sum_list (take (nat m) (ytab (LEAPYEAR y)))"

definition tm_days :: "tm \<Rightarrow> int" where
  "tm_days t = (let y = tm_year t + YEAR0 + tm_mon t div 12 in year_days y + month_days y (tm_mon t mod 12) + tm_mday t - 1)"

definition tm_secs :: "tm \<Rightarrow> int" where
  "tm_secs t = ((tm_days t * 24 + tm_hour t) * 60 + tm_min t) * 60 + tm_sec t"

definition tm_range :: "tm \<Rightarrow> bool" where
  "tm_range t \<longleftrightarrow> 0 \<le> tm_sec t \<and> tm_sec t < 60 \<and> 0 \<le> tm_min t \<and> tm_min t < 60 \<and> 0 \<le> tm_hour t \<and> tm_hour t < 24 \<and>
     0 \<le> tm_mon t \<and> tm_mon t < 12 \<and> 1 \<le> tm_mday t \<and> tm_mday t \<le> ytab (LEAPYEAR (tm_year t + YEAR0)) ! nat (tm_mon t)"

definition tm_ok :: "tm \<Rightarrow> bool" where
  "tm_ok t \<longleftrightarrow> tm_range t \<and> tm_yday t = month_days (tm_year t + YEAR0) (tm_mon t) + tm_mday t - 1 \<and> tm_wday t = (tm_days t + 4) mod 7"

lemma smod_0_iff: "n > 0 \<Longrightarrow> (k :: int) smod n = 0 \<longleftrightarrow> n dvd k"
  by (auto simp: signed_modulo_int_def sgn_if mod_eq_0_iff_dvd)

lemma leap_iff: "LEAPYEAR y \<longleftrightarrow> 4 dvd y \<and> (\<not> 100 dvd y \<or> 400 dvd y)"
  by (simp add: LEAPYEAR_def smod_0_iff)

lemma div_pred: "n > 0 \<Longrightarrow> (y :: int) div n - (y - 1) div n = (if n dvd y then 1 else 0)"
proof -
  assume n: "n > 0"
  show ?thesis
  proof (cases "n dvd y")
    case True
    then obtain k where "y = n * k" by blast
    moreover have "(n * k - 1) div n = k - 1" using n by (intro int_div_pos_eq [of _ _ _ "n - 1"]) (auto simp: algebra_simps)
    ultimately show ?thesis using n True by simp
  next
    case False
    then have "y mod n > 0" using n by (metis dvd_eq_mod_eq_0 order_less_le pos_mod_sign)
    then have "(y - 1) div n = y div n" using n pos_mod_bound [OF n, of y]
      by (intro int_div_pos_eq [of _ _ _ "y mod n - 1"]) (auto simp: algebra_simps)
    then show ?thesis using False by simp
  qed
qed

lemma leap_sum:
  "(B \<longrightarrow> A) \<Longrightarrow> (C \<longrightarrow> B) \<Longrightarrow>
   365 + (if A then 1 else 0) - (if B then 1 else 0) + (if C then 1 else 0) = (if A \<and> (\<not> B \<or> C) then 366 else (365 :: int))"
  by (cases A; cases B; cases C; simp)

lemma year_days_step: "year_days (y + 1) = year_days y + YEARSIZE y"
proof -
  have dv: "100 dvd y \<longrightarrow> 4 dvd y" "400 dvd y \<longrightarrow> 100 dvd y" using dvd_trans [of 4 100 y] dvd_trans [of 100 400 y] by simp_all
  have p: "y div 4 - (y - 1) div 4 = (if 4 dvd y then 1 else 0)" "y div 100 - (y - 1) div 100 = (if 100 dvd y then 1 else 0)"
    "y div 400 - (y - 1) div 400 = (if 400 dvd y then 1 else 0)" by (rule div_pred, simp)+
  have "year_days (y + 1) = year_days y + (365 + (y div 4 - (y - 1) div 4) - (y div 100 - (y - 1) div 100) + (y div 400 - (y - 1) div 400))"
    by (simp add: year_days_def)
  also have "\<dots> = year_days y + YEARSIZE y"
    unfolding YEARSIZE_def leap_iff p(1,2,3) leap_sum [of "100 dvd y" "4 dvd y" "400 dvd y", OF dv] by (rule refl)
  finally show ?thesis .
qed

lemma year_days_epoch: "year_days 1970 = 0"
  by (simp add: year_days_def)

lemma month_days_0: "month_days y 0 = 0" by (simp add: month_days_def)

lemma month_days_12: "month_days y 12 = YEARSIZE y"
  by (simp add: month_days_def YEARSIZE_def ytab_def)

lemma length_ytab [simp]: "length (ytab l) = 12"
  by (simp add: ytab_def)

lemma month_days_step: "0 \<le> m \<Longrightarrow> m < 12 \<Longrightarrow> month_days y (m + 1) = month_days y m + ytab (LEAPYEAR y) ! nat m"
  by (simp add: month_days_def nat_add_distrib take_Suc_conv_app_nth)

lemma ytab_nonneg: "x \<in> set (ytab l) \<Longrightarrow> 0 \<le> x"
  by (auto simp: ytab_def)

lemma month_days_nonneg: "0 \<le> month_days y m"
  unfolding month_days_def by (rule sum_list_nonneg) (use ytab_nonneg in \<open>blast dest: in_set_takeD\<close>)

lemma yday_loop_spec: "m \<le> 12 \<Longrightarrow> yday_loop y m = month_days y (int m)"
proof (induction m)
  case (Suc m)
  then show ?case using month_days_step [of "int m" y] by (simp add: add.commute)
qed (simp add: month_days_0)

text \<open>The loops of \<^verbatim>\<open>gmtime_r\<close>.\<close>

lemma year_loop_spec:
  "0 \<le> d \<Longrightarrow> year_loop d y = (d', y') \<Longrightarrow> 0 \<le> d' \<and> d' < YEARSIZE y' \<and> year_days y' + d' = year_days y + d \<and> y \<le> y' \<and> y' \<le> y + d"
proof (induction d y arbitrary: d' y' rule: year_loop.induct)
  case (1 d y)
  show ?case
  proof (cases "d \<ge> YEARSIZE y")
    case True
    then show ?thesis using 1 year_days_step [of y] by (simp add: year_loop.simps [of d y] YEARSIZE_def split: if_splits)
  next
    case False
    then show ?thesis using 1 by (simp add: year_loop.simps [of d y])
  qed
qed

lemma month_loop_spec:
  "0 \<le> d \<Longrightarrow> 0 \<le> m \<Longrightarrow> m \<le> 12 \<Longrightarrow> month_days y m + d < YEARSIZE y \<Longrightarrow>
   \<exists>d' m'. month_loop y d m = Some (d', m') \<and> 0 \<le> d' \<and> d' < ytab (LEAPYEAR y) ! nat m' \<and> 0 \<le> m' \<and> m' < 12 \<and>
     month_days y m' + d' = month_days y m + d"
proof (induction y d m rule: month_loop.induct)
  case (1 y d m)
  from "1.prems" have m: "m < 12" using month_days_12 [of y] by (cases "m = 12") auto
  let ?l = "ytab (LEAPYEAR y) ! nat m"
  note step = month_days_step [OF "1.prems"(2) m, of y]
  show ?case
  proof (cases "d \<ge> ?l")
    case True
    then have "\<exists>d' m'. month_loop y (d - ?l) (m + 1) = Some (d', m') \<and> 0 \<le> d' \<and> d' < ytab (LEAPYEAR y) ! nat m' \<and> 0 \<le> m' \<and> m' < 12 \<and>
     month_days y m' + d' = month_days y (m + 1) + (d - ?l)"
      using "1.IH" [of ?l] "1.prems" m step by simp
    then show ?thesis using True "1.prems"(2) m step by (simp add: month_loop.simps [of y d m] Let_def)
  next
    case False
    then show ?thesis using "1.prems" m by (simp add: month_loop.simps [of y d m] Let_def)
  qed
qed

lemma month_days_less: "0 \<le> m \<Longrightarrow> m < 12 \<Longrightarrow> d < ytab (LEAPYEAR y) ! nat m \<Longrightarrow> month_days y m + d < YEARSIZE y"
proof -
  assume m: "0 \<le> m" "m < 12" "d < ytab (LEAPYEAR y) ! nat m"
  have "sum_list (take (nat (m + 1)) (ytab (LEAPYEAR y))) + sum_list (drop (nat (m + 1)) (ytab (LEAPYEAR y))) = month_days y 12"
    by (simp add: month_days_def flip: sum_list_append)
  moreover have "0 \<le> sum_list (drop (nat (m + 1)) (ytab (LEAPYEAR y)))"
    by (rule sum_list_nonneg) (use ytab_nonneg in \<open>blast dest: in_set_dropD\<close>)
  ultimately show ?thesis using m month_days_step [OF m(1,2), of y] month_days_12 [of y] by (simp add: month_days_def)
qed

lemma day_split:
  fixes a n m :: int
  assumes "0 \<le> h" "h < 24" "0 \<le> mi" "mi < 60" "0 \<le> s" "s < 60"
  shows "((d * 24 + h) * 60 + mi) * 60 + s = d * SECS_DAY + ((h * 60 + mi) * 60 + s)" and "(h * 60 + mi) * 60 + s < SECS_DAY"
    and "0 \<le> (h * 60 + mi) * 60 + s"
  using assms by (simp_all add: SECS_DAY_def)

lemma clock_fields:
  fixes c :: int
  assumes "0 \<le> c" and "c < 24 * 60 * 60"
  shows "(c div 3600 * 60 + c mod 3600 div 60) * 60 + c mod 60 = c" and "0 \<le> c div 3600" and "c div 3600 < 24"
    and "c mod 3600 div 60 < 60" and "0 \<le> c mod 3600 div 60"
proof -
  have m: "c mod 60 = c mod 3600 mod 60" by (simp add: mod_mod_cancel)
  have "(c div 3600 * 60 + c mod 3600 div 60) * 60 + c mod 60 = c div 3600 * 3600 + (c mod 3600 div 60 * 60 + c mod 3600 mod 60)"
    unfolding m by (simp add: distrib_right mult.assoc)
  then show "(c div 3600 * 60 + c mod 3600 div 60) * 60 + c mod 60 = c" by simp
  show "0 \<le> c div 3600" "0 \<le> c mod 3600 div 60" using assms(1) by (simp_all add: pos_imp_zdiv_nonneg_iff)
  show "c div 3600 < 24" using assms(2) by (simp add: div_less_iff_less_mult)
  show "c mod 3600 div 60 < 60" by (simp add: div_less_iff_less_mult)
qed

lemma ulong_less: "ulong x < 2 ^ 32"
  by (simp add: ulong_def)

lemma ulong_time: "- (2 ^ 31) \<le> x \<Longrightarrow> x \<le> TIME_MAX \<Longrightarrow> ulong x = (if 0 \<le> x then x else x + 2 ^ 32)"
proof -
  assume x: "- (2 ^ 31) \<le> x" "x \<le> TIME_MAX"
  show ?thesis
  proof (cases "0 \<le> x")
    case False
    then have "(x + 2 ^ 32) mod 2 ^ 32 = x + 2 ^ 32" using x(1) by (intro mod_pos_pos_trivial) simp_all
    moreover have "(x + 2 ^ 32) mod 2 ^ 32 = x mod 2 ^ 32" by (rule mod_add_self2)
    ultimately show ?thesis using False by (simp add: ulong_def)
  qed (use x(2) in \<open>simp add: ulong_def TIME_MAX_def\<close>)
qed

lemma gmtime_r_spec:
  "\<exists>t. gmtime_r x = Some t \<and> tm_ok t \<and> tm_secs t = ulong x \<and> tm_year t \<ge> 70 \<and> tm_year t \<le> 50000 \<and> tm_isdst t = 0"
proof -
  define c where "c = ulong x mod SECS_DAY"
  define n where "n = ulong x div SECS_DAY"
  have x: "ulong x = n * SECS_DAY + c" "0 \<le> c" "c < SECS_DAY" "0 \<le> n"
    unfolding c_def n_def by (simp_all add: SECS_DAY_def pos_imp_zdiv_nonneg_iff ulong_def)
  obtain d y where yl: "year_loop n EPOCH_YR = (d, y)" by fastforce
  have y: "0 \<le> d" "d < YEARSIZE y" "year_days y + d = n" "1970 \<le> y" "y \<le> 1970 + n"
    using year_loop_spec [OF x(4) yl] year_days_epoch by (simp_all add: EPOCH_YR_def)
  obtain d1 m where m: "month_loop y d 0 = Some (d1, m)" "0 \<le> d1" "d1 < ytab (LEAPYEAR y) ! nat m" "0 \<le> m" "m < 12" "month_days y m + d1 = d"
    using month_loop_spec [OF y(1), of 0 y] y(2) month_days_0 [of y] by auto
  define ho where "ho = c div 3600"
  define mi where "mi = c mod 3600 div 60"
  define se where "se = c mod 60"
  note cl = clock_fields [OF x(2) x(3) [unfolded SECS_DAY_def], folded ho_def mi_def se_def]
  have se: "0 \<le> se" "se < 60" by (simp_all add: se_def)
  let ?t = "\<lparr>tm_sec = se, tm_min = mi, tm_hour = ho, tm_mday = d1 + 1, tm_mon = m,
    tm_year = y - YEAR0, tm_wday = (n + 4) mod 7, tm_yday = d, tm_isdst = 0, tm_gmtoff = 0, tm_zone = ''UTC''\<rparr>"
  have g: "gmtime_r x = Some ?t" by (simp add: gmtime_r_def c_def [symmetric] n_def [symmetric] yl m(1) ho_def mi_def se_def)
  have days: "tm_days ?t = n" using m y by (simp add: tm_days_def Let_def)
  have "tm_secs ?t = n * SECS_DAY + ((ho * 60 + mi) * 60 + se)" unfolding tm_secs_def days by (simp add: SECS_DAY_def)
  then have "tm_secs ?t = ulong x" unfolding cl(1) using x(1) by simp
  moreover have "tm_ok ?t" unfolding tm_ok_def tm_range_def days using m(2-6) cl(2-5) se by simp
  moreover have "n \<le> 49711" using x(1,2) ulong_less [of x] unfolding SECS_DAY_def by simp
  then have "tm_year ?t \<ge> 70" "tm_year ?t \<le> 50000" using y(4,5) by (simp_all add: YEAR0_def)
  ultimately show ?thesis using g by (intro exI [of _ ?t]) simp
qed

text \<open>
  C29: \<^verbatim>\<open>gmtime_r\<close> returns for every \<^verbatim>\<open>time_t\<close>, and its result is a well-formed broken-down time, with each field in its range, the
  day within its month of its year, and the right day of the year and of the week. From the epoch on it stands for exactly the given time. A time before the epoch is taken for the one 2\^32 seconds
  later, as the code casts the signed time to an unsigned number.
\<close>

theorem gmtime_r_ok:
  assumes "- (2 ^ 31) \<le> x" and "x \<le> TIME_MAX"
  shows "\<exists>t. gmtime_r x = Some t \<and> tm_ok t \<and> tm_secs t = (if 0 \<le> x then x else x + 2 ^ 32) \<and> tm_year t \<ge> 70 \<and> tm_isdst t = 0"
  using gmtime_r_spec [of x] ulong_time [OF assms] by auto

theorem gmtime_r_ok_witness:
  "(\<exists>t. gmtime_r 983494875 = Some t \<and> tm_ok t \<and> tm_secs t = 983494875) \<and> (\<exists>t. gmtime_r (- 1) = Some t \<and> tm_ok t \<and> tm_secs t = 4294967295)"
  using gmtime_r_ok [of 983494875] gmtime_r_ok [of "- 1"] by (auto simp: TIME_MAX_def)

section \<open>Normalisation\<close>

lemma i32_id: "- 2147483648 \<le> x \<Longrightarrow> x < 2147483648 \<Longrightarrow> i32 x = x"
  unfolding i32_def by (rule signed_take_bit_int_eq_self) simp_all

lemma div_bounds:
  fixes k b :: int
  assumes "b > 0" "0 \<le> k"
  shows "0 \<le> k div b" "k div b \<le> k"
proof -
  show q: "0 \<le> k div b" using assms by (simp add: pos_imp_zdiv_nonneg_iff)
  then have "1 * (k div b) \<le> b * (k div b)" using assms by (intro mult_right_mono) auto
  moreover have "b * (k div b) + k mod b = k" "0 \<le> k mod b" using assms by simp_all
  ultimately show "k div b \<le> k" by linarith
qed

lemma carry_spec:
  assumes "b > 0" "\<bar>lo\<bar> \<le> 1000000000" "\<bar>hi\<bar> \<le> 1000000000"
  shows "carry lo hi b = (lo mod b, hi + lo div b)"
proof (cases "0 \<le> lo")
  case True
  have "0 \<le> lo div b" "lo div b \<le> lo" using div_bounds [OF assms(1) True] by simp_all
  then have "i32 (hi + lo div b) = hi + lo div b" using assms True by (intro i32_id) auto
  moreover have "lo sdiv b = lo div b" "lo smod b = lo mod b" using assms(1) True by (simp_all add: signed_divide_int_def signed_modulo_int_def sgn_if)
  ultimately show ?thesis using pos_mod_sign [OF assms(1), of lo] by (simp add: carry_def Let_def not_less)
next
  case False
  define k where "k = - lo"
  have k: "0 < k" "k \<le> 1000000000" "lo = - k" using False assms(2) by (auto simp: k_def)
  have q: "0 \<le> k div b" "k div b \<le> k" using div_bounds [OF assms(1), of k] k by simp_all
  have "lo sdiv b = - (k div b)" "lo smod b = - (k mod b)" using assms(1) k by (simp_all add: signed_divide_int_def signed_modulo_int_def sgn_if)
  moreover have "i32 (hi - k div b) = hi - k div b" "i32 (hi - k div b - 1) = hi - k div b - 1"
    using q k assms(3) by (intro i32_id; linarith)+
  moreover have "0 \<le> k mod b" "(- k) div b = (if k mod b = 0 then - (k div b) else - (k div b) - 1)"
    "(- k) mod b = (if k mod b = 0 then 0 else b - k mod b)"
    using assms(1) by (simp_all add: zdiv_zminus1_eq_if zmod_zminus1_eq_if)
  ultimately show ?thesis using k(3) by (auto simp: carry_def Let_def)
qed

text \<open>The first day of a month, counting the months on from any year.\<close>

definition month_start :: "int \<Rightarrow> int \<Rightarrow> int" where
  "month_start year mon = year_days (year + YEAR0) + month_days (year + YEAR0) mon"

lemma month_start_next:
  assumes "month_len (year + YEAR0) mon = Some len"
  shows "month_start (if mon + 1 = 12 then year + 1 else year) (if mon + 1 = 12 then 0 else mon + 1) = month_start year mon + len"
proof -
  note b = month_len_bounds [OF assms]
  have "year_days (year + 1 + YEAR0) = year_days (year + YEAR0 + 1)" by (simp add: add_ac)
  then show ?thesis using b(3) month_days_step [OF b(1,2), of "year + YEAR0"] year_days_step [of "year + YEAR0"]
      month_days_12 [of "year + YEAR0"] month_days_0 [of "year + 1 + YEAR0"]
    by (auto simp: month_start_def)
qed

lemma month_len_exists: "0 \<le> mon \<Longrightarrow> mon < 12 \<Longrightarrow> \<exists>len. month_len y mon = Some len"
  by (simp add: month_len_def)

lemma borrow_loop_spec:
  "0 \<le> mon \<Longrightarrow> mon < 12 \<Longrightarrow> \<bar>year\<bar> \<le> 1000000000 \<Longrightarrow> - 1000000000 \<le> year + day \<Longrightarrow>
   \<exists>d m y. borrow_loop day mon year = Some (d, m, y) \<and> 0 \<le> d \<and> 0 \<le> m \<and> m < 12 \<and> y \<le> year \<and> - 1000000000 \<le> y \<and>
     month_start y m + d = month_start year mon + day \<and> (if day \<ge> 0 then (d, m, y) = (day, mon, year) else d < 31)"
proof (induction day mon year rule: borrow_loop.induct)
  case (1 day mon year)
  show ?case
  proof (cases "day < 0")
    case True
    define m1 where "m1 = (if mon - 1 < 0 then 11 else mon - 1)"
    define y1 where "y1 = (if mon - 1 < 0 then year - 1 else year)"
    have y: "i32 (year - 1) = year - 1" "i32 (y1 + YEAR0) = y1 + YEAR0" using "1.prems" True by (auto simp: y1_def YEAR0_def intro!: i32_id)
    have m1: "0 \<le> m1" "m1 < 12" using "1.prems" by (auto simp: m1_def)
    obtain len where len: "month_len (y1 + YEAR0) m1 = Some len" using month_len_exists [OF m1] by blast
    note b = month_len_bounds [OF len]
    have prv: "(if m1 + 1 = 12 then y1 + 1 else y1) = year" "(if m1 + 1 = 12 then 0 else m1 + 1) = mon"
      using "1.prems" by (auto simp: m1_def y1_def)
    have ms: "month_start year mon = month_start y1 m1 + len" using month_start_next [OF len] unfolding prv .
    have pr: "(if mon - 1 < 0 then (11, i32 (year - 1)) else (mon - 1, year)) = (m1, y1)" using y by (simp add: m1_def y1_def)
    have step: "borrow_loop day mon year = borrow_loop (day + len) m1 y1"
      unfolding borrow_loop.simps [of day] pr Let_def prod.case y(2) len using True by simp
    have pre: "\<bar>y1\<bar> \<le> 1000000000" "- 1000000000 \<le> y1 + (day + len)" "y1 \<le> year" using "1.prems" True b(4) by (auto simp: y1_def)
    have "\<exists>d m y. borrow_loop (day + len) m1 y1 = Some (d, m, y) \<and> 0 \<le> d \<and> 0 \<le> m \<and> m < 12 \<and> y \<le> y1 \<and> - 1000000000 \<le> y \<and>
       month_start y m + d = month_start y1 m1 + (day + len) \<and> (if day + len \<ge> 0 then (d, m, y) = (day + len, m1, y1) else d < 31)"
      using "1.IH" [OF True, of "(m1, y1)" m1 y1 len] pr y(2) len m1 pre by simp
    then show ?thesis unfolding step using ms pre(3) b(5) True by (auto split: if_splits)
  next
    case False
    then show ?thesis using "1.prems" by (simp add: borrow_loop.simps [of day])
  qed
qed

lemma spill_loop_spec:
  "0 \<le> day \<Longrightarrow> 0 \<le> mon \<Longrightarrow> mon < 12 \<Longrightarrow> \<bar>year\<bar> \<le> 1000000000 \<Longrightarrow> year + day \<le> 1000000000 \<Longrightarrow>
   \<exists>d m y. spill_loop day mon year = Some (d, m, y) \<and> 0 \<le> d \<and> d < ytab (LEAPYEAR (y + YEAR0)) ! nat m \<and> 0 \<le> m \<and> m < 12 \<and>
     year \<le> y \<and> y \<le> year + day \<and> month_start y m + d = month_start year mon + day \<and>
     (day < ytab (LEAPYEAR (year + YEAR0)) ! nat mon \<longrightarrow> (d, m, y) = (day, mon, year))"
proof (induction day mon year rule: spill_loop.induct)
  case (1 day mon year)
  obtain len where len: "month_len (year + YEAR0) mon = Some len" using month_len_exists "1.prems" by blast
  note b = month_len_bounds [OF len]
  have y: "i32 (year + YEAR0) = year + YEAR0" using "1.prems" by (auto simp: YEAR0_def intro!: i32_id)
  have len': "month_len (i32 (year + YEAR0)) mon = Some len" using len y by simp
  show ?case
  proof (cases "day \<ge> len")
    case True
    define m1 where "m1 = (if mon + 1 = 12 then 0 else mon + 1)"
    define y1 where "y1 = (if mon + 1 = 12 then year + 1 else year)"
    have ms: "month_start y1 m1 = month_start year mon + len" using month_start_next [OF len] by (simp add: m1_def y1_def)
    have yy: "i32 (year + 1) = year + 1" using "1.prems" b(4) True by (intro i32_id) auto
    have step: "spill_loop day mon year = spill_loop (day - len) m1 y1"
      using True len y yy by (simp add: spill_loop.simps [of day] m1_def y1_def)
    have pre: "0 \<le> day - len" "0 \<le> m1" "m1 < 12" "\<bar>y1\<bar> \<le> 1000000000" "y1 + (day - len) \<le> 1000000000" "year \<le> y1" "y1 + (day - len) \<le> year + day"
      using "1.prems" True b(4) by (auto simp: m1_def y1_def)
    have "\<exists>d m y. spill_loop (day - len) m1 y1 = Some (d, m, y) \<and> 0 \<le> d \<and> d < ytab (LEAPYEAR (y + YEAR0)) ! nat m \<and> 0 \<le> m \<and> m < 12 \<and>
     y1 \<le> y \<and> y \<le> y1 + (day - len) \<and> month_start y m + d = month_start y1 m1 + (day - len)"
    proof (cases "mon + 1 = 12")
      case mon: True
      then have "m1 = 0" "y1 = year + 1" by (simp_all add: m1_def y1_def)
      then show ?thesis using "1.IH"(1) [OF len' True mon] pre yy by auto
    next
      case mon: False
      then have "m1 = mon + 1" "y1 = year" by (simp_all add: m1_def y1_def)
      then show ?thesis using "1.IH"(2) [OF len' True mon] pre by auto
    qed
    then show ?thesis unfolding step using ms pre(6,7) True b(3) by auto
  next
    case False
    then show ?thesis using "1.prems" len y b(3) by (simp add: spill_loop.simps [of day])
  qed
qed

text \<open>The corrections for leap years count the multiples of 4, 100 and 400 between the epoch and the year.\<close>

lemma count_multiples:
  fixes y m b q r0 :: int
  assumes "m > 0" "b = q * m + r0" "0 < r0" "r0 < m" "b \<le> y"
  shows "(y - b) div m + (if y mod m \<noteq> 0 \<and> y mod m < r0 then 1 else 0) = (y - 1) div m - q"
proof -
  define c where "c = y div m"
  define d where "d = y mod m"
  have y: "y = m * c + d" "0 \<le> d" "d < m" using assms(1) by (simp_all add: c_def d_def)
  have "(y - b) div m = (if d \<ge> r0 then c - q else c - q - 1)"
  proof (cases "d \<ge> r0")
    case True
    then show ?thesis using y assms by (simp, intro int_div_pos_eq [of _ _ _ "d - r0"]) (auto simp: algebra_simps)
  next
    case False
    then show ?thesis using y assms by (simp, intro int_div_pos_eq [of _ _ _ "d - r0 + m"]) (auto simp: algebra_simps)
  qed
  moreover have "(y - 1) div m = (if d = 0 then c - 1 else c)"
  proof (cases "d = 0")
    case True
    then show ?thesis using y assms(1) by (simp, intro int_div_pos_eq [of _ _ _ "m - 1"]) (auto simp: algebra_simps)
  next
    case False
    then show ?thesis using y assms(1) by (simp, intro int_div_pos_eq [of _ _ _ "d - 1"]) (auto simp: algebra_simps)
  qed
  ultimately show ?thesis using assms(3) y(2) unfolding d_def [symmetric] by auto
qed

lemma sdiv_nonneg: "0 \<le> k \<Longrightarrow> 0 < n \<Longrightarrow> (k :: int) sdiv n = k div n" "0 \<le> k \<Longrightarrow> 0 < n \<Longrightarrow> (k :: int) smod n = k mod n"
  by (auto simp: signed_divide_int_def signed_modulo_int_def sgn_if)

lemma epoch_day_spec:
  assumes "1970 \<le> y" "y \<le> 3000000"
  shows "epoch_day y = (year_days y, False)" and "0 \<le> year_days y" and "year_days y \<le> 1200000000"
proof -
  define n where "n = y - 1970"
  define a where "a = n div 4"
  define b where "b = n div 100"
  define c where "c = n div 400"
  have pos: "0 \<le> n" "0 \<le> y" "n \<le> 2998030" using assms by (simp_all add: n_def)
  have ab: "0 \<le> a" "a \<le> n" "0 \<le> b" "b \<le> n" "0 \<le> c" "c \<le> n"
    using div_bounds [of 4 n] div_bounds [of 100 n] div_bounds [of 400 n] pos(1) by (simp_all add: a_def b_def c_def)
  define x where "x = (if y mod 4 \<noteq> 0 \<and> y mod 4 < 2 then 1 else (0 :: int))"
  define z where "z = (if y mod 100 \<noteq> 0 \<and> y mod 100 < 70 then 1 else (0 :: int))"
  define w where "w = (if y mod 400 \<noteq> 0 \<and> y mod 400 < 370 then 1 else (0 :: int))"
  have xs: "0 \<le> x" "x \<le> 1" "0 \<le> z" "z \<le> 1" "0 \<le> w" "w \<le> 1" by (simp_all add: x_def z_def w_def)
  have "a + x = (y - 1) div 4 - 492" using count_multiples [of 4 1970 492 2 y] assms(1) by (simp add: a_def x_def n_def)
  moreover have "b + z = (y - 1) div 100 - 19" using count_multiples [of 100 1970 19 70 y] assms(1) by (simp add: b_def z_def n_def)
  moreover have "c + w = (y - 1) div 400 - 4" using count_multiples [of 400 1970 4 370 y] assms(1) by (simp add: c_def w_def n_def)
  ultimately have cnt: "a + x = (y - 1) div 4 - 492" "b + z = (y - 1) div 100 - 19" "c + w = (y - 1) div 400 - 4" .
  have k: "(1970 :: int) smod 4 = 2" "(1970 :: int) smod 100 = 70" "(1970 :: int) smod 400 = 370" "(2147483647 :: int) sdiv 365 = 5883516"
    by (simp_all add: sdiv_nonneg)
  have i: "i32 n = n" "i32 (n * 365) = n * 365" "i32 (2147483647 - n * 365) = 2147483647 - n * 365"
    "i32 (a + 1) = a + 1" "i32 (n * 365 + (a + x)) = n * 365 + (a + x)"
    "i32 (n * 365 + (a + x) - (b + z)) = n * 365 + (a + x) - (b + z)"
    "i32 (n * 365 + (a + x) - (b + z) + (c + w)) = n * 365 + (a + x) - (b + z) + (c + w)"
    using pos ab xs by - (rule i32_id; linarith)+
  have "epoch_day y = (n * 365 + (a + x) - (b + z) + (c + w), False)"
    unfolding epoch_day_def Let_def EPOCH_YR_def TIME_MAX_def k n_def [symmetric] i(1,2,3) using pos ab
    by (simp add: sdiv_nonneg a_def [symmetric] b_def [symmetric] c_def [symmetric] x_def [symmetric] z_def [symmetric] w_def [symmetric] i)
  moreover have yd: "n * 365 + (a + x) - (b + z) + (c + w) = year_days y" unfolding cnt by (simp add: year_days_def n_def)
  ultimately show "epoch_day y = (year_days y, False)" by simp
  show "0 \<le> year_days y"
  proof (cases "y = 1970")
    case False
    then have "n \<ge> 1" using assms by (simp add: n_def)
    then show ?thesis using pos ab xs yd by linarith
  qed (simp add: year_days_epoch)
  show "year_days y \<le> 1200000000" using pos ab xs yd by linarith
qed

section \<open>The seconds since the epoch\<close>

definition tm_small :: "tm \<Rightarrow> bool" where
  "tm_small t \<longleftrightarrow> \<bar>tm_sec t\<bar> \<le> 1000000 \<and> \<bar>tm_min t\<bar> \<le> 1000000 \<and> \<bar>tm_hour t\<bar> \<le> 1000000 \<and> \<bar>tm_mday t\<bar> \<le> 1000000 \<and>
     \<bar>tm_mon t\<bar> \<le> 1000000 \<and> \<bar>tm_year t\<bar> \<le> 100000"

lemma div_abs_bound:
  fixes k n b :: int
  assumes "b > 0" "\<bar>k\<bar> \<le> n * b"
  shows "\<bar>k div b\<bar> \<le> n"
proof -
  have "k div b \<le> n * b div b" using assms by (intro zdiv_mono1) auto
  moreover have "(- n) * b div b \<le> k div b" using assms by (intro zdiv_mono1) auto
  moreover have "n * b div b = n" "(- n) * b div b = - n" using assms(1) nonzero_mult_div_cancel_right [of b n] nonzero_mult_div_cancel_right [of b "- n"] by auto
  ultimately show ?thesis by linarith
qed

lemma tm_days_month_start: "tm_days t = month_start (tm_year t + tm_mon t div 12) (tm_mon t mod 12) + tm_mday t - 1"
  by (simp add: tm_days_def month_start_def Let_def add_ac)

lemma mktime_norm_spec:
  assumes "tm_small t"
  shows "\<exists>t1. mktime_norm t = Some t1 \<and> tm_range t1 \<and> tm_secs t1 = tm_secs t \<and> tm_isdst t1 = tm_isdst t \<and> tm_year t1 \<le> 2500000 \<and>
    (tm_range t \<longrightarrow> t1 = t)"
proof -
  define mi where "mi = tm_min t + tm_sec t div 60"
  define ho where "ho = tm_hour t + mi div 60"
  define da where "da = ho div 24 + (tm_mday t - 1)"
  define yr where "yr = tm_year t + tm_mon t div 12"
  have small: "\<bar>tm_sec t\<bar> \<le> 1000000" "\<bar>tm_min t\<bar> \<le> 1000000" "\<bar>tm_hour t\<bar> \<le> 1000000" "\<bar>tm_mday t\<bar> \<le> 1000000"
     "\<bar>tm_mon t\<bar> \<le> 1000000" "\<bar>tm_year t\<bar> \<le> 100000" using assms by (simp_all add: tm_small_def)
  have se: "\<bar>tm_sec t div 60\<bar> \<le> 20000" using small(1) by (intro div_abs_bound) auto
  have mo: "\<bar>tm_mon t div 12\<bar> \<le> 100000" using small(5) by (intro div_abs_bound) auto
  have mi: "\<bar>mi\<bar> \<le> 1020000" using small(2) se unfolding mi_def by linarith
  have yr: "\<bar>yr\<bar> \<le> 200000" using small(6) mo unfolding yr_def by linarith
  have hm: "\<bar>mi div 60\<bar> \<le> 20000" using mi by (intro div_abs_bound) auto
  have ho: "\<bar>ho\<bar> \<le> 1020000" using small(3) hm unfolding ho_def by linarith
  have hd: "\<bar>ho div 24\<bar> \<le> 50000" using ho by (intro div_abs_bound) auto
  have da: "\<bar>da\<bar> \<le> 1100000" using small(4) hd unfolding da_def by linarith
  have c1: "carry (tm_sec t) (tm_min t) 60 = (tm_sec t mod 60, mi)" using small by (simp add: carry_spec mi_def)
  have c2: "carry mi (tm_hour t) 60 = (mi mod 60, ho)" using small mi by (simp add: carry_spec ho_def)
  have c3: "carry ho 0 24 = (ho mod 24, ho div 24)" using ho by (simp add: carry_spec)
  have c4: "carry (tm_mon t) (tm_year t) 12 = (tm_mon t mod 12, yr)" using small by (simp add: carry_spec yr_def)
  have d: "i32 (ho div 24 + i32 (tm_mday t - 1)) = da"
    using small(4) da i32_id [of "tm_mday t - 1"] i32_id [of da] by (simp add: abs_le_iff flip: da_def)
  have m0: "0 \<le> tm_mon t mod 12" "tm_mon t mod 12 < 12" by simp_all
  have yb: "\<bar>yr\<bar> \<le> 1000000000" "- 1000000000 \<le> yr + da" using yr da by linarith+
  obtain d3 m2 y2 where bo: "borrow_loop da (tm_mon t mod 12) yr = Some (d3, m2, y2)" "0 \<le> d3" "0 \<le> m2" "m2 < 12" "y2 \<le> yr" "- 1000000000 \<le> y2"
      "month_start y2 m2 + d3 = month_start yr (tm_mon t mod 12) + da"
      "if da \<ge> 0 then (d3, m2, y2) = (da, tm_mon t mod 12, yr) else d3 < 31"
    using borrow_loop_spec [OF m0 yb(1,2)] by blast
  have b2: "\<bar>y2\<bar> \<le> 1000000000" "y2 + d3 \<le> 2500000" using bo(5,6,8) yr da by (cases "da \<ge> 0"; simp; linarith)+
  then have b3: "y2 + d3 \<le> 1000000000" by simp
  obtain d4 m4 y4 where sp: "spill_loop d3 m2 y2 = Some (d4, m4, y4)" "0 \<le> d4" "d4 < ytab (LEAPYEAR (y4 + YEAR0)) ! nat m4" "0 \<le> m4" "m4 < 12"
      "y4 \<le> y2 + d3" "month_start y4 m4 + d4 = month_start y2 m2 + d3"
      "d3 < ytab (LEAPYEAR (y2 + YEAR0)) ! nat m2 \<longrightarrow> (d4, m4, y4) = (d3, m2, y2)"
    using spill_loop_spec [OF bo(2-4) b2(1) b3] by blast
  let ?t = "t\<lparr>tm_sec := tm_sec t mod 60, tm_min := mi mod 60, tm_hour := ho mod 24, tm_mon := m4, tm_year := y4, tm_mday := d4 + 1\<rparr>"
  have n: "mktime_norm t = Some ?t" by (simp add: mktime_norm_def c1 c2 c3 c4 d bo(1) sp(1))
  have "tm_days ?t = month_start y4 m4 + d4" using sp(4,5) by (simp add: tm_days_month_start)
  then have days: "tm_days ?t = tm_days t + ho div 24" using sp(7) bo(7) by (simp add: tm_days_month_start yr_def da_def)
  have "tm_secs ?t = tm_secs t"
    unfolding tm_secs_def days using div_mult_mod_eq [of ho 24] div_mult_mod_eq [of mi 60] div_mult_mod_eq [of "tm_sec t" 60]
    by (simp add: ho_def mi_def distrib_right)
  moreover have "?t = t" if "tm_range t"
  proof -
    note r = that [unfolded tm_range_def]
    have "mi = tm_min t" "ho = tm_hour t" "da = tm_mday t - 1" "yr = tm_year t" using r by (simp_all add: mi_def ho_def da_def yr_def)
    then show ?thesis using r bo(8) sp(8) by simp
  qed
  ultimately show ?thesis using n sp b2 by (intro exI [of _ ?t]) (simp add: tm_range_def)
qed

lemma year_days_mono: "year_days y + YEARSIZE y \<le> year_days (y + 1 + int k)"
proof (induction k)
  case (Suc k)
  then show ?case using year_days_step [of "y + 1 + int k"] by (simp add: YEARSIZE_def add_ac split: if_splits)
qed (simp add: year_days_step)

lemma tm_range_days:
  assumes "tm_range t"
  shows "tm_days t = year_days (tm_year t + YEAR0) + (month_days (tm_year t + YEAR0) (tm_mon t) + (tm_mday t - 1))"
    and "0 \<le> month_days (tm_year t + YEAR0) (tm_mon t) + (tm_mday t - 1)"
    and "month_days (tm_year t + YEAR0) (tm_mon t) + (tm_mday t - 1) < YEARSIZE (tm_year t + YEAR0)"
    and "tm_secs t = tm_days t * SECS_DAY + ((tm_hour t * 60 + tm_min t) * 60 + tm_sec t)"
    and "(tm_hour t * 60 + tm_min t) * 60 + tm_sec t < SECS_DAY" and "0 \<le> (tm_hour t * 60 + tm_min t) * 60 + tm_sec t"
proof -
  note r = assms [unfolded tm_range_def]
  show "tm_days t = year_days (tm_year t + YEAR0) + (month_days (tm_year t + YEAR0) (tm_mon t) + (tm_mday t - 1))"
    using r by (simp add: tm_days_def Let_def)
  show "0 \<le> month_days (tm_year t + YEAR0) (tm_mon t) + (tm_mday t - 1)" using r month_days_nonneg [of "tm_year t + YEAR0" "tm_mon t"] by simp
  show "month_days (tm_year t + YEAR0) (tm_mon t) + (tm_mday t - 1) < YEARSIZE (tm_year t + YEAR0)" using r by (intro month_days_less) auto
  show "tm_secs t = tm_days t * SECS_DAY + ((tm_hour t * 60 + tm_min t) * 60 + tm_sec t)" "(tm_hour t * 60 + tm_min t) * 60 + tm_sec t < SECS_DAY"
    "0 \<le> (tm_hour t * 60 + tm_min t) * 60 + tm_sec t" using r day_split unfolding tm_secs_def by blast+
qed

lemma tm_secs_sign:
  assumes "tm_range t"
  shows "0 \<le> tm_secs t \<longleftrightarrow> tm_year t \<ge> 70"
proof (cases "tm_year t \<ge> 70")
  case True
  have "0 \<le> year_days (tm_year t + YEAR0)"
  proof (cases "tm_year t = 70")
    case False
    then show ?thesis using True year_days_mono [of 1970 "nat (tm_year t - 71)"] by (simp add: year_days_epoch YEAR0_def YEARSIZE_def add_ac split: if_splits)
  qed (simp add: year_days_epoch YEAR0_def)
  then have "0 \<le> tm_days t" using tm_range_days(1,2) [OF assms] by simp
  then show ?thesis using tm_range_days(4,6) [OF assms] True by (simp add: SECS_DAY_def)
next
  case False
  then have "year_days (tm_year t + YEAR0) + YEARSIZE (tm_year t + YEAR0) \<le> 0"
    using year_days_mono [of "tm_year t + YEAR0" "nat (69 - tm_year t)"] by (simp add: year_days_epoch YEAR0_def)
  then have "tm_days t \<le> - 1" using tm_range_days(1,3) [OF assms] by simp
  then show ?thesis using tm_range_days(4,5) [OF assms] False by (simp add: SECS_DAY_def)
qed

lemma fits_iff:
  fixes d s0 :: int
  assumes "0 \<le> s0" "s0 < SECS_DAY" "0 \<le> d"
  shows "(TIME_MAX - s0) sdiv SECS_DAY < d \<longleftrightarrow> TIME_MAX < d * SECS_DAY + s0"
proof -
  have "(TIME_MAX - s0) sdiv SECS_DAY = (TIME_MAX - s0) div SECS_DAY" using assms by (intro sdiv_nonneg) (auto simp: TIME_MAX_def SECS_DAY_def)
  moreover have "(TIME_MAX - s0) div SECS_DAY < d \<longleftrightarrow> TIME_MAX - s0 < d * SECS_DAY" 
    using div_mult_mod_eq [of "TIME_MAX - s0" SECS_DAY] pos_mod_sign [of SECS_DAY "TIME_MAX - s0"] pos_mod_bound [of SECS_DAY "TIME_MAX - s0"]
    unfolding SECS_DAY_def by linarith
  ultimately show ?thesis by linarith
qed

lemma mktime_secs_spec:
  assumes r: "tm_range t" and y: "tm_year t \<le> 2500000" and tz: "\<bar>tz\<bar> \<le> 1000000" and bias: "0 \<le> bias" "bias \<le> 1000000"
  defines "S \<equiv> tm_secs t" and "dst \<equiv> (if tm_isdst t \<noteq> 0 then bias else 0)"
  shows "\<exists>t'. mktime_secs tz bias t = (if 0 \<le> S \<and> S \<le> TIME_MAX \<and> dst \<le> S + tz \<and> S + tz \<le> TIME_MAX then S + tz - dst else - 1, t') \<and>
    (0 \<le> S \<longrightarrow> tm_ok t' \<and> t' = t\<lparr>tm_yday := tm_yday t', tm_wday := tm_wday t'\<rparr>)"
proof (cases "tm_year t \<ge> 70")
  case False
  then have "\<not> 0 \<le> S" using tm_secs_sign [OF r] by (simp add: S_def)
  then show ?thesis using False by (simp add: mktime_secs_def EPOCH_YR_def YEAR0_def)
next
  case True
  define Y where "Y = tm_year t + YEAR0"
  define yd where "yd = month_days Y (tm_mon t) + (tm_mday t - 1)"
  define D where "D = tm_days t"
  define s0 where "s0 = (tm_hour t * 60 + tm_min t) * 60 + tm_sec t"
  have Y: "1970 \<le> Y" "Y \<le> 3000000" using True y by (simp_all add: Y_def YEAR0_def)
  have iY: "i32 (tm_year t + YEAR0) = Y" using Y by (simp add: Y_def [symmetric] i32_id)
  note e = epoch_day_spec [OF Y]
  note dd = tm_range_days [OF r, folded Y_def, folded yd_def D_def s0_def S_def]
  have yl: "yday_loop Y (nat (tm_mon t)) = month_days Y (tm_mon t)" 
  proof -
    have "0 \<le> tm_mon t" "tm_mon t < 12" using r by (simp_all add: tm_range_def)
    then have "nat (tm_mon t) \<le> 12" "0 \<le> tm_mon t" by linarith+
    then show ?thesis using yday_loop_spec [of "nat (tm_mon t)" Y] by simp
  qed
  have Db: "0 \<le> D" "D \<le> 1200000366" using dd(1-3) e(2,3) by (simp_all add: YEARSIZE_def split: if_splits)
  have iD: "i32 (year_days Y + yd) = D" "i32 (D + 4) = D + 4" using Db dd(1) by (simp_all add: i32_id)
  have S: "0 \<le> S" using dd(4,6) Db by (simp add: SECS_DAY_def)
  let ?t = "t\<lparr>tm_yday := yd, tm_wday := (D + 4) smod 7\<rparr>"
  have ok: "tm_ok ?t" using r Db by (simp add: tm_ok_def tm_range_def yd_def Y_def D_def tm_days_def sdiv_nonneg)
  have fits: "(TIME_MAX - s0) sdiv SECS_DAY < D \<longleftrightarrow> TIME_MAX < S" using fits_iff [OF dd(6,5) Db(1)] dd(4) by simp
  have lt: "\<not> tm_year t < EPOCH_YR - YEAR0" using True by (simp add: EPOCH_YR_def YEAR0_def)
  define s1 where "s1 = i32 (s0 + i32 (D * SECS_DAY))"
  have ms: "mktime_secs tz bias t = (if TIME_MAX < S \<or> (tz > 0 \<and> i32 (TIME_MAX - tz) < s1 \<or> tz < 0 \<and> s1 < i32 (- tz)) \<or> dst > i32 (s1 + tz)
      then - 1 else i32 (i32 (s1 + tz) - dst), ?t)"
    unfolding mktime_secs_def iY e(1) yl Let_def prod.case yd_def [symmetric] iD s0_def [symmetric] fits s1_def [symmetric] dst_def [symmetric]
    using lt Db by simp
  have dst: "0 \<le> dst" "dst \<le> 1000000" using bias by (simp_all add: dst_def)
  have "(if TIME_MAX < S \<or> (tz > 0 \<and> i32 (TIME_MAX - tz) < s1 \<or> tz < 0 \<and> s1 < i32 (- tz)) \<or> dst > i32 (s1 + tz)
      then - 1 else i32 (i32 (s1 + tz) - dst)) =
      (if 0 \<le> S \<and> S \<le> TIME_MAX \<and> dst \<le> S + tz \<and> S + tz \<le> TIME_MAX then S + tz - dst else - 1)"
  proof (cases "TIME_MAX < S")
    case False
    then have T: "0 \<le> S" "S \<le> 2147483647" using S by (simp_all add: TIME_MAX_def)
    have Ds: "0 \<le> D * SECS_DAY" "D * SECS_DAY \<le> S" using Db dd(4,6) by (simp_all add: SECS_DAY_def)
    have "i32 (D * SECS_DAY) = D * SECS_DAY" using Ds T by (intro i32_id) auto
    then have s1: "s1 = S" using dd(4) T unfolding s1_def by (simp add: i32_id add.commute)
    have i: "i32 (TIME_MAX - tz) = TIME_MAX - tz" if "tz > 0" using that tz by (intro i32_id) (auto simp: TIME_MAX_def)
    have j: "i32 (- tz) = - tz" using tz by (intro i32_id) auto
    show ?thesis
    proof (cases "0 \<le> S + tz \<and> S + tz \<le> TIME_MAX")
      case True
      then have "i32 (S + tz) = S + tz" "i32 (S + tz - dst) = S + tz - dst" using dst by (auto simp: TIME_MAX_def intro!: i32_id)
      then show ?thesis using True False S i j unfolding s1 by auto
    next
      case n: False
      then have "tz > 0 \<and> TIME_MAX - tz < S \<or> tz < 0 \<and> S < - tz" using T False by (auto simp: TIME_MAX_def)
      moreover have "\<not> (dst \<le> S + tz \<and> S + tz \<le> TIME_MAX)" using n dst by auto
      ultimately show ?thesis using i j unfolding s1 by auto
    qed
  qed simp
  then show ?thesis using ms ok by (intro exI [of _ ?t]) simp
qed

lemma mktime_spec:
  assumes "tm_small t" "\<bar>tz\<bar> \<le> 1000000" "0 \<le> bias" "bias \<le> 1000000"
  defines "S \<equiv> tm_secs t" and "dst \<equiv> (if tm_isdst t \<noteq> 0 then bias else 0)"
  shows "\<exists>t'. mktime tz bias t = Some (if 0 \<le> S \<and> S \<le> TIME_MAX \<and> dst \<le> S + tz \<and> S + tz \<le> TIME_MAX then S + tz - dst else - 1, t') \<and>
    (0 \<le> S \<longrightarrow> tm_ok t' \<and> tm_secs t' = S \<and> (tm_ok t \<longrightarrow> t' = t))"
proof -
  obtain t1 where t1: "mktime_norm t = Some t1" "tm_range t1" "tm_secs t1 = S" "tm_isdst t1 = tm_isdst t" "tm_year t1 \<le> 2500000"
    "tm_range t \<longrightarrow> t1 = t" using mktime_norm_spec [OF assms(1)] by (auto simp: S_def)
  obtain t' where t': "mktime_secs tz bias t1 = (if 0 \<le> S \<and> S \<le> TIME_MAX \<and> dst \<le> S + tz \<and> S + tz \<le> TIME_MAX then S + tz - dst else - 1, t')"
      "0 \<le> S \<longrightarrow> tm_ok t' \<and> t' = t1\<lparr>tm_yday := tm_yday t', tm_wday := tm_wday t'\<rparr>"
    using mktime_secs_spec [OF t1(2,5) assms(2-4)] unfolding t1(3,4) dst_def by blast
  have "tm_secs t' = S \<and> (tm_ok t \<longrightarrow> t' = t)" if S0: "0 \<le> S"
  proof -
    obtain a b where e: "t' = t1\<lparr>tm_yday := a, tm_wday := b\<rparr>" using t'(2) S0 by blast
    have same: "tm_secs t' = S" "tm_days t' = tm_days t1" using t1(3) by (simp_all add: e tm_secs_def tm_days_def)
    have "t' = t" if "tm_ok t"
    proof -
      have "t1 = t" "tm_yday t' = tm_yday t1" "tm_wday t' = tm_wday t1"
        using that t1(6) t'(2) \<open>0 \<le> S\<close> same by (auto simp: tm_ok_def e)
      then show ?thesis by (simp add: e)
    qed
    then show ?thesis using same by blast
  qed
  then show ?thesis using t1(1) t' by (auto simp: mktime_def)
qed

definition demo_tm :: tm where
  "demo_tm = \<lparr>tm_sec = 75, tm_min = 0, tm_hour = 25, tm_mday = 29, tm_mon = 1, tm_year = 101, tm_wday = 0, tm_yday = 0, tm_isdst = 0,
     tm_gmtoff = 0, tm_zone = ''UTC''\<rparr>"

text \<open>
  C14: for every broken-down time, also one whose fields are out of their ranges, \<^verbatim>\<open>mktime\<close> returns the seconds since the epoch that it
  stands for, corrected by the time zone and the daylight saving bias, or -1 if that time is before the epoch or does not fit into 31 bits; and unless
  it is before the epoch it leaves the same time with every field in its range. Times in range are not changed.
\<close>

theorem mktime_correct:
  assumes "tm_small t" "\<bar>tz\<bar> \<le> 1000000" "0 \<le> bias" "bias \<le> 1000000"
  defines "S \<equiv> tm_secs t" and "dst \<equiv> (if tm_isdst t \<noteq> 0 then bias else 0)"
  shows "\<exists>t'. mktime tz bias t = Some (if 0 \<le> S \<and> S \<le> TIME_MAX \<and> dst \<le> S + tz \<and> S + tz \<le> TIME_MAX then S + tz - dst else - 1, t') \<and>
    (0 \<le> S \<longrightarrow> tm_ok t' \<and> tm_secs t' = S \<and> (tm_ok t \<longrightarrow> t' = t))"
  using mktime_spec [OF assms(1-4)] unfolding S_def dst_def .

theorem mktime_correct_witness: "\<exists>t'. mktime 0 0 demo_tm = Some (983494875, t') \<and> tm_ok t'"
proof -
  have "tm_small demo_tm" by (simp add: tm_small_def demo_tm_def)
  moreover have "tm_secs demo_tm = 983494875"
    by (simp add: tm_secs_def tm_days_def demo_tm_def year_days_def month_days_def ytab_def LEAPYEAR_def YEAR0_def signed_modulo_int_def numeral_2_eq_2)
  ultimately show ?thesis using mktime_correct [of demo_tm 0 0] by (auto simp: demo_tm_def TIME_MAX_def)
qed

text \<open>
  C35: \<^verbatim>\<open>mktime\<close> inverts \<^verbatim>\<open>gmtime_r\<close> for all times from the epoch to the largest \<^verbatim>\<open>time_t\<close>, and leaves
  the broken-down time as it is.
\<close>

theorem gmtime_mktime_roundtrip:
  assumes "0 \<le> x" and "x \<le> TIME_MAX"
  shows "\<exists>t. gmtime_r x = Some t \<and> mktime 0 0 t = Some (x, t)"
proof -
  have "- (2 ^ 31) \<le> x" using assms(1) by (rule order_trans [rotated]) simp
  then have u: "ulong x = x" using ulong_time [OF _ assms(2)] assms(1) by simp
  obtain t where t: "gmtime_r x = Some t" "tm_ok t" "tm_secs t = x" "tm_year t \<ge> 70" "tm_year t \<le> 50000" "tm_isdst t = 0"
    using gmtime_r_spec [of x] unfolding u by blast
  have r: "tm_range t" using t(2) by (simp add: tm_ok_def)
  have "0 \<le> tm_mon t" "tm_mon t < 12" using r by (simp_all add: tm_range_def)
  then have "nat (tm_mon t) < 12" by linarith
  then have "tm_mday t \<le> 31" using r ytab_nth [of "nat (tm_mon t)" "LEAPYEAR (tm_year t + YEAR0)"] by (auto simp: tm_range_def)
  then have "tm_small t" using r t(4,5) by (simp add: tm_small_def tm_range_def)
  then show ?thesis using mktime_spec [of t 0 0] t assms by auto
qed

theorem gmtime_mktime_roundtrip_witness: "\<exists>t. gmtime_r 1000000000 = Some t \<and> mktime 0 0 t = Some (1000000000, t)"
  using gmtime_mktime_roundtrip [of 1000000000] by (simp add: TIME_MAX_def)

end
