(* ===== verification/Checksum.thy ===== *)
theory Checksum
  imports Prelude
begin

text \<open>
  The Internet checksum: \<^verbatim>\<open>src/src/sys/net/inet.c\<close>. A packet is the list of its bytes, a chain of packet buffers the list of the
  contents of its buffers. Reading two bytes as \<^verbatim>\<open>unsigned short\<close> takes the first as the low one, as on the machine the code is
  written for, and addresses are kept in network byte order.
\<close>

unbundle bit_operations_syntax

fun add_words :: "u8 list \<Rightarrow> u32 \<Rightarrow> u32" where
  "add_words (a # b # bs) acc = add_words bs (acc + (ucast a OR push_bit 8 (ucast b)))"
| "add_words [a] acc = acc + ucast a"
| "add_words [] acc = acc"

definition chksum :: "u8 list \<Rightarrow> u32" where
  "chksum bs =
     (let acc = add_words bs 0;
          acc1 = drop_bit 16 acc + (acc AND 0xFFFF)
      in if acc1 AND 0xFFFF0000 \<noteq> 0 then drop_bit 16 acc1 + (acc1 AND 0xFFFF) else acc1)"

text \<open>The loop \<^verbatim>\<open>while (acc >> 16)\<close> that folds the carries into the low half.\<close>

lemma unat_halves:
  fixes acc :: u32
  shows "unat (acc AND 0xFFFF) = unat acc mod 65536" and "unat (drop_bit 16 acc) = unat acc div 65536"
    and "unat ((acc AND 0xFFFF) + drop_bit 16 acc) = unat acc mod 65536 + unat acc div 65536"
proof -
  have "acc AND 0xFFFF = take_bit 16 acc" using take_bit_eq_mask [of 16 acc] by (simp add: mask_numeral)
  then show l: "unat (acc AND 0xFFFF) = unat acc mod 65536" by (simp add: take_bit_eq_mod unat_mod_distrib)
  show h: "unat (drop_bit 16 acc) = unat acc div 65536" by (simp add: drop_bit_eq_div unat_div_distrib)
  have "unat acc div 65536 < 65536" using unat_u32_lt [of acc] by (simp add: div_less_iff_less_mult)
  then show "unat ((acc AND 0xFFFF) + drop_bit 16 acc) = unat acc mod 65536 + unat acc div 65536"
    using l h unat_add_lt [of "acc AND 0xFFFF" "drop_bit 16 acc"] by simp
qed

lemma fold_less: "drop_bit 16 (acc :: u32) \<noteq> 0 \<Longrightarrow> unat ((acc AND 0xFFFF) + drop_bit 16 acc) < unat acc"
proof -
  assume "drop_bit 16 acc \<noteq> 0"
  then have "unat acc div 65536 \<noteq> 0" using unat_halves(2) [of acc] by (simp add: unat_eq_0 [symmetric])
  moreover have "unat acc = unat acc mod 65536 + 65536 * (unat acc div 65536)" by simp
  ultimately show ?thesis unfolding unat_halves(3) by linarith
qed

function fold_carry :: "u32 \<Rightarrow> u32" where
  "fold_carry acc = (if drop_bit 16 acc \<noteq> 0 then fold_carry ((acc AND 0xFFFF) + drop_bit 16 acc) else acc)"
  by pat_completeness auto
termination
  by (relation "measure unat") (simp_all add: fold_less)

declare fold_carry.simps [simp del]

definition swap_bytes :: "u32 \<Rightarrow> u32" where
  "swap_bytes acc = push_bit 8 (acc AND 0xFF) OR drop_bit 8 (acc AND 0xFF00)"

fun chain_loop :: "u8 list list \<Rightarrow> u32 \<Rightarrow> bool \<Rightarrow> u32 \<times> bool" where
  "chain_loop [] acc swapped = (acc, swapped)"
| "chain_loop (q # qs) acc swapped =
     (let acc1 = fold_carry (acc + chksum q)
      in if length q mod 2 \<noteq> 0 then chain_loop qs (swap_bytes acc1) (\<not> swapped) else chain_loop qs acc1 swapped)"

definition htons :: "u16 \<Rightarrow> u16" where
  "htons n = push_bit 8 (n AND 0xFF) OR drop_bit 8 (n AND 0xFF00)"

definition inet_chksum_pseudo :: "u8 list list \<Rightarrow> u32 \<Rightarrow> u32 \<Rightarrow> u8 \<Rightarrow> u16 \<Rightarrow> u16" where
  "inet_chksum_pseudo p src dest proto proto_len =
     (let (acc, swapped) = chain_loop p 0 False;
          acc1 = (if swapped then swap_bytes acc else acc);
          acc2 = acc1 + (src AND 0xFFFF);
          acc3 = acc2 + (drop_bit 16 src AND 0xFFFF);
          acc4 = acc3 + (dest AND 0xFFFF);
          acc5 = acc4 + (drop_bit 16 dest AND 0xFFFF);
          acc6 = acc5 + ucast (htons (ucast proto));
          acc7 = acc6 + ucast (htons proto_len)
      in ucast (NOT (fold_carry acc7 AND 0xFFFF)))"

definition inet_chksum :: "u8 list \<Rightarrow> u16" where
  "inet_chksum bs = ucast (NOT (fold_carry (chksum bs) AND 0xFFFF))"

definition inet_chksum_pbuf :: "u8 list list \<Rightarrow> u16" where
  "inet_chksum_pbuf p =
     (let (acc, swapped) = chain_loop p 0 False
      in ucast (NOT ((if swapped then swap_bytes acc else acc) AND 0xFFFF)))"

section \<open>Sums modulo 65535\<close>

text \<open>
  \<open>ones v w\<close>: \<open>v\<close> and \<open>w\<close> are the same number in ones' complement arithmetic of 16 bits, where zero stands only for itself.
\<close>

fun byte_sum :: "u8 list \<Rightarrow> nat" where
  "byte_sum (a # b # bs) = unat a + 256 * unat b + byte_sum bs"
| "byte_sum [a] = unat a"
| "byte_sum [] = 0"

definition ones :: "nat \<Rightarrow> nat \<Rightarrow> bool" where
  "ones v w \<longleftrightarrow> v mod 65535 = w mod 65535 \<and> (v = 0 \<longleftrightarrow> w = 0)"

lemma ones_refl: "ones v v" and ones_sym: "ones v w \<Longrightarrow> ones w v" and ones_trans [trans]: "ones u v \<Longrightarrow> ones v w \<Longrightarrow> ones u w"
  by (simp_all add: ones_def)

lemma ones_add: "ones v w \<Longrightarrow> ones v' w' \<Longrightarrow> ones (v + v') (w + w')"
  using mod_add_cong [of v 65535 w v' w'] by (simp add: ones_def)

lemma ones_256: "ones v w \<Longrightarrow> ones (256 * v) (256 * w)"
  using mod_mult_cong [of 256 65535 256 v w] by (simp add: ones_def)

lemma ones_fold: "ones (v mod 65536 + v div 65536) v"
proof -
  have v: "v = (v mod 65536 + v div 65536) + 65535 * (v div 65536)" using div_mult_mod_eq [of v 65536] by linarith
  have "((v mod 65536 + v div 65536) + 65535 * (v div 65536)) mod 65535 = (v mod 65536 + v div 65536) mod 65535" by (rule mod_mult_self2)
  then have "v mod 65535 = (v mod 65536 + v div 65536) mod 65535" unfolding v [symmetric] .
  moreover have "v mod 65536 + v div 65536 = 0 \<longleftrightarrow> v = 0" using v by linarith
  ultimately show ?thesis by (simp add: ones_def)
qed

lemma ones_65536: "ones (65536 * v) v"
  using ones_fold [of "65536 * v"] by (simp add: ones_sym)

lemma mod_unique: "w \<le> N \<Longrightarrow> w' \<le> N \<Longrightarrow> w mod N = w' mod N \<Longrightarrow> (w = 0 \<longleftrightarrow> w' = 0) \<Longrightarrow> w = (w' :: nat)"
  by (cases "w = N"; cases "w' = N") auto

lemma ones_unique: "ones v w \<Longrightarrow> v < 65536 \<Longrightarrow> w < 65536 \<Longrightarrow> v = w"
  unfolding ones_def by (rule mod_unique [of _ 65535]) auto

lemma fold_carry_spec: "ones (unat (fold_carry acc)) (unat acc) \<and> unat (fold_carry acc) < 65536"
proof (induction acc rule: fold_carry.induct)
  case (1 acc)
  show ?case
  proof (cases "drop_bit 16 acc = 0")
    case True
    then have "unat acc div 65536 = 0" using unat_halves(2) [of acc] by simp
    then show ?thesis using True by (simp add: fold_carry.simps [of acc] ones_refl div_eq_0_iff)
  next
    case False
    let ?b = "(acc AND 0xFFFF) + drop_bit 16 acc"
    have IH: "ones (unat (fold_carry ?b)) (unat ?b) \<and> unat (fold_carry ?b) < 65536" using 1 False by simp
    have fc: "fold_carry acc = fold_carry ?b" using False by (simp add: fold_carry.simps [of acc])
    have "ones (unat ?b) (unat acc)" unfolding unat_halves(3) by (rule ones_fold)
    then show ?thesis unfolding fc using IH ones_trans by blast
  qed
qed

lemma unat_pair: "unat (ucast (a :: u8) OR push_bit 8 (ucast (b :: u8)) :: u32) = unat a + 256 * unat b"
proof -
  have "ucast a AND push_bit 8 (ucast b) = (0 :: u32)" by (rule bit_word_eqI) (auto simp: bit_simps dest: bit_imp_le_length)
  then have "(ucast a :: u32) OR push_bit 8 (ucast b) = ucast a + push_bit 8 (ucast b)" by (simp add: disjunctive_add_eq_or)
  moreover have "unat (push_bit 8 (ucast b :: u32)) = 256 * unat b"
    using unsigned_less [of b, where 'a = nat] by (simp add: push_bit_eq_mult unat_word_ariths unsigned_ucast_eq take_bit_nat_eq_self)
  moreover have "unat (ucast a :: u32) = unat a" using unsigned_less [of a, where 'a = nat] by (simp add: unsigned_ucast_eq take_bit_nat_eq_self)
  ultimately show ?thesis using unsigned_less [of a, where 'a = nat] unsigned_less [of b, where 'a = nat] by (simp add: unat_add_lt)
qed

lemma byte_sum_bound: "2 * byte_sum bs \<le> 65535 * (length bs + 1)"
proof (induction bs rule: byte_sum.induct)
  case (1 a b bs)
  have "unat a < 256" "unat b < 256" using unsigned_less [of a, where 'a = nat] unsigned_less [of b, where 'a = nat] by simp_all
  then show ?case using 1 by simp
next
  case (2 a)
  have "unat a < 256" using unsigned_less [of a, where 'a = nat] by simp
  then show ?case by simp
qed simp

lemma add_words_spec: "unat acc + byte_sum bs < 2 ^ 32 \<Longrightarrow> unat (add_words bs acc) = unat acc + byte_sum bs"
proof (induction bs acc rule: add_words.induct)
  case (1 a b bs acc)
  have "unat (acc + (ucast a OR push_bit 8 (ucast b))) = unat acc + (unat a + 256 * unat b)"
    using "1.prems" unat_add_lt [of acc "ucast a OR push_bit 8 (ucast b)"] by (simp add: unat_pair)
  then show ?case using 1 by simp
next
  case (2 a acc)
  then show ?case using unat_add_lt [of acc "ucast a"] by (simp add: unsigned_ucast_eq take_bit_nat_eq_self)
qed simp

lemma high_half: "acc AND 0xFFFF0000 = 0 \<longleftrightarrow> drop_bit 16 (acc :: u32) = 0"
proof -
  have m: "(0xFFFF0000 :: u32) = push_bit 16 (mask 16)" by (simp add: mask_eq_exp_minus_1)
  have e: "acc AND push_bit 16 (mask 16) = push_bit 16 (drop_bit 16 acc)" by (rule bit_word_eqI) (auto simp: bit_simps)
  have "drop_bit 16 (push_bit 16 (drop_bit 16 acc)) = drop_bit 16 acc" by (rule bit_word_eqI) (auto simp: bit_simps dest: bit_imp_le_length)
  then have "push_bit 16 (drop_bit 16 acc) = 0 \<longleftrightarrow> drop_bit 16 acc = 0" by (metis drop_bit_of_0 push_bit_of_0)
  then show ?thesis unfolding m e .
qed

lemma chksum_fold: "chksum bs = fold_carry (add_words bs 0)"
proof -
  define acc where "acc = add_words bs 0"
  define b where "b = (acc AND 0xFFFF) + drop_bit 16 acc"
  define c where "c = (b AND 0xFFFF) + drop_bit 16 b"
  have "unat acc div 65536 < 65536" using unat_u32_lt [of acc] by (simp add: div_less_iff_less_mult)
  moreover have "unat acc mod 65536 < 65536" by simp
  ultimately have b: "unat b \<le> 131070" unfolding b_def unat_halves(3) by linarith
  have "unat c < 65536"
  proof (cases "unat b < 65536")
    case False
    then have "unat b div 65536 = 1" "unat b mod 65536 = unat b - 65536" using b by (simp_all add: div_nat_eqI mod_if)
    then show ?thesis using b False unfolding c_def unat_halves(3) by linarith
  qed (simp add: c_def unat_halves(3))
  then have "drop_bit 16 c = 0" using unat_halves(2) [of c] by (simp add: unat_eq_0 [symmetric])
  then have fc: "fold_carry c = c" by (simp add: fold_carry.simps [of c])
  have fb: "fold_carry b = (if drop_bit 16 b \<noteq> 0 then c else b)" using fc by (simp add: fold_carry.simps [of b] c_def)
  have fa: "fold_carry acc = fold_carry b"
  proof (cases "drop_bit 16 acc = 0")
    case True
    then have "unat b = unat acc" using unat_halves(2) [of acc] unfolding b_def unat_halves(3) by (simp add: div_eq_0_iff)
    then have "b = acc" by (simp add: word_unat_eq_iff)
    then show ?thesis by simp
  qed (simp add: fold_carry.simps [of acc] b_def)
  have "chksum bs = (if drop_bit 16 b \<noteq> 0 then c else b)"
    unfolding chksum_def Let_def acc_def [symmetric] high_half by (simp add: b_def c_def add.commute)
  then show ?thesis using fa fb by (simp add: acc_def)
qed

lemma chksum_spec:
  assumes "length bs \<le> 131000"
  shows "ones (unat (chksum bs)) (byte_sum bs)" and "unat (chksum bs) < 65536"
proof -
  have "unat (add_words bs 0) = byte_sum bs" using byte_sum_bound [of bs] assms by (subst add_words_spec) simp_all
  then show "ones (unat (chksum bs)) (byte_sum bs)" and "unat (chksum bs) < 65536"
    using fold_carry_spec [of "add_words bs 0"] by (simp_all add: chksum_fold)
qed

section \<open>Chains of buffers\<close>

lemma byte_sum_0: "byte_sum bs = 0 \<longleftrightarrow> (\<forall>b \<in> set bs. b = 0)"
  by (induction bs rule: byte_sum.induct) (auto simp: unat_eq_0)

lemma byte_sum_Cons: "ones (byte_sum (b # bs)) (unat b + 256 * byte_sum bs)"
proof (induction bs arbitrary: b)
  case (Cons c bs)
  let ?B = "byte_sum bs"
  have e: "unat b + 256 * (unat c + 256 * ?B) = unat b + 256 * unat c + 65536 * ?B" by simp
  have "ones (unat b + 256 * byte_sum (c # bs)) (unat b + 256 * unat c + 65536 * ?B)"
    using ones_add [OF ones_refl ones_256 [OF Cons [of c]], of "unat b"] unfolding e .
  also have "ones (unat b + 256 * unat c + 65536 * ?B) (byte_sum (b # c # bs))"
    using ones_add [OF ones_refl ones_65536, of "unat b + 256 * unat c" ?B] by simp
  finally show ?case by (rule ones_sym)
qed (simp add: ones_refl)

lemma byte_sum_append:
  "ones (byte_sum (xs @ ys)) (byte_sum xs + (if even (length xs) then byte_sum ys else 256 * byte_sum ys))"
proof (induction xs rule: byte_sum.induct)
  case (1 a b xs)
  then show ?case using ones_add [OF ones_refl [of "unat a + 256 * unat b"] 1] by (simp add: add.assoc)
next
  case (2 a)
  then show ?case using byte_sum_Cons [of a ys] by simp
qed (simp add: ones_refl)

lemma swap_bytes_pair: "swap_bytes acc = ucast (ucast (drop_bit 8 acc) :: u8) OR push_bit 8 (ucast (ucast acc :: u8))"
proof -
  have m: "(0xFF :: u32) = mask 8" "(0xFF00 :: u32) = push_bit 8 (mask 8)" by (simp_all add: mask_eq_exp_minus_1)
  show ?thesis unfolding swap_bytes_def m by (rule bit_word_eqI) (auto simp: bit_simps)
qed

lemma swap_bytes_spec:
  assumes "unat acc < 65536"
  shows "ones (unat (swap_bytes acc)) (256 * unat acc)" and "unat (swap_bytes acc) < 65536"
proof -
  define a where "a = unat acc mod 256"
  define b where "b = unat acc div 256"
  have ab: "unat acc = a + 256 * b" "a < 256" "b < 256" using assms by (simp_all add: a_def b_def div_less_iff_less_mult)
  have "unat (ucast acc :: u8) = a" by (simp add: a_def unsigned_ucast_eq take_bit_eq_mod)
  moreover have "unat (ucast (drop_bit 8 acc) :: u8) = b"
    using ab(3) by (simp add: unsigned_ucast_eq take_bit_eq_mod drop_bit_eq_div unat_div_distrib b_def)
  ultimately have s: "unat (swap_bytes acc) = b + 256 * a" unfolding swap_bytes_pair unat_pair by simp
  then show "unat (swap_bytes acc) < 65536" using ab by simp
  have "256 * unat acc = 256 * a + 65536 * b" using ab(1) by simp
  then show "ones (unat (swap_bytes acc)) (256 * unat acc)"
    using ones_add [OF ones_refl ones_65536, of "256 * a" b] s by (simp add: ones_sym add.commute)
qed

lemma chain_append:
  assumes "sw \<longleftrightarrow> odd (length xs)"
  shows "ones ((if sw then 256 * byte_sum xs else byte_sum xs) + byte_sum q) (if sw then 256 * byte_sum (xs @ q) else byte_sum (xs @ q))"
proof (cases sw)
  case True
  have "ones (256 * byte_sum (xs @ q)) (256 * (byte_sum xs + 256 * byte_sum q))"
    using ones_256 [OF byte_sum_append [of xs q]] True assms by simp
  also have "256 * (byte_sum xs + 256 * byte_sum q) = 256 * byte_sum xs + 65536 * byte_sum q" by simp
  also have "ones (256 * byte_sum xs + 65536 * byte_sum q) (256 * byte_sum xs + byte_sum q)" by (rule ones_add [OF ones_refl ones_65536])
  finally show ?thesis using True by (simp add: ones_sym)
next
  case False
  then show ?thesis using byte_sum_append [of xs q] assms by (simp add: ones_sym)
qed

lemma chain_loop_spec:
  assumes "unat acc < 65536" "ones (unat acc) (if sw then 256 * byte_sum xs else byte_sum xs)" "sw \<longleftrightarrow> odd (length xs)"
    and "\<And>q. q \<in> set qs \<Longrightarrow> length q \<le> 131000"
  shows "\<exists>acc' sw'. chain_loop qs acc sw = (acc', sw') \<and> unat acc' < 65536 \<and> (sw' \<longleftrightarrow> odd (length (xs @ concat qs))) \<and>
    ones (unat acc') (if sw' then 256 * byte_sum (xs @ concat qs) else byte_sum (xs @ concat qs))"
  using assms
proof (induction qs arbitrary: acc sw xs)
  case (Cons q qs)
  define acc1 where "acc1 = fold_carry (acc + chksum q)"
  have q: "length q \<le> 131000" using Cons.prems(4) by simp
  note ck = chksum_spec [OF q]
  have "unat (acc + chksum q) = unat acc + unat (chksum q)" using Cons.prems(1) ck(2) by (intro unat_add_lt) simp
  then have f: "ones (unat acc1) (unat acc + unat (chksum q))" "unat acc1 < 65536"
    using fold_carry_spec [of "acc + chksum q"] by (simp_all add: acc1_def)
  note f(1)
  also have "ones (unat acc + unat (chksum q)) ((if sw then 256 * byte_sum xs else byte_sum xs) + byte_sum q)"
    by (rule ones_add [OF Cons.prems(2) ck(1)])
  also have "ones ((if sw then 256 * byte_sum xs else byte_sum xs) + byte_sum q) (if sw then 256 * byte_sum (xs @ q) else byte_sum (xs @ q))"
    by (rule chain_append) (rule Cons.prems(3))
  finally have s1: "ones (unat acc1) (if sw then 256 * byte_sum (xs @ q) else byte_sum (xs @ q))" .
  define acc2 where "acc2 = (if odd (length q) then swap_bytes acc1 else acc1)"
  define sw2 where "sw2 \<longleftrightarrow> (sw \<noteq> odd (length q))"
  have step: "chain_loop (q # qs) acc sw = chain_loop qs acc2 sw2"
    by (simp add: acc1_def acc2_def sw2_def Let_def flip: even_iff_mod_2_eq_zero)
  have s2: "ones (unat acc2) (if sw2 then 256 * byte_sum (xs @ q) else byte_sum (xs @ q))"
  proof (cases "odd (length q)")
    case True
    have "ones (unat (swap_bytes acc1)) (256 * (if sw then 256 * byte_sum (xs @ q) else byte_sum (xs @ q)))"
      by (rule ones_trans [OF swap_bytes_spec(1) [OF f(2)] ones_256 [OF s1]])
    then show ?thesis using True ones_trans [OF _ ones_65536, of "unat (swap_bytes acc1)"] by (cases sw) (simp_all add: acc2_def sw2_def)
  qed (use s1 in \<open>simp add: acc2_def sw2_def\<close>)
  have a2: "unat acc2 < 65536" using f(2) swap_bytes_spec(2) [OF f(2)] by (simp add: acc2_def)
  have sw: "sw2 \<longleftrightarrow> odd (length (xs @ q))" using Cons.prems(3) by (auto simp: sw2_def)
  have "\<exists>acc' sw'. chain_loop qs acc2 sw2 = (acc', sw') \<and> unat acc' < 65536 \<and> (sw' \<longleftrightarrow> odd (length ((xs @ q) @ concat qs))) \<and>
    ones (unat acc') (if sw' then 256 * byte_sum ((xs @ q) @ concat qs) else byte_sum ((xs @ q) @ concat qs))"
    by (rule Cons.IH [OF a2 s2 sw]) (use Cons.prems(4) in simp)
  then show ?case unfolding step by (simp only: concat.simps append_assoc)
qed (auto split: if_splits)


lemma chain_sum:
  assumes "\<And>q. q \<in> set qs \<Longrightarrow> length q \<le> 131000" and "chain_loop qs 0 False = (acc, sw)"
  defines "r \<equiv> if sw then swap_bytes acc else acc"
  shows "ones (unat r) (byte_sum (concat qs))" and "unat r < 65536"
proof -
  have "unat acc < 65536 \<and> ones (unat acc) (if sw then 256 * byte_sum (concat qs) else byte_sum (concat qs))"
    using chain_loop_spec [of 0 False "[]" qs, OF _ _ _ assms(1)] assms(2) by (auto simp: ones_refl split: if_splits)
  then have a: "unat acc < 65536" "ones (unat acc) (if sw then 256 * byte_sum (concat qs) else byte_sum (concat qs))" by blast+
  show "unat r < 65536" using a(1) swap_bytes_spec(2) [OF a(1)] by (simp add: r_def)
  show "ones (unat r) (byte_sum (concat qs))"
  proof (cases sw)
    case True
    have "ones (unat (swap_bytes acc)) (256 * (256 * byte_sum (concat qs)))"
      using ones_trans [OF swap_bytes_spec(1) [OF a(1)] ones_256 [OF a(2)]] True by simp
    then show ?thesis using True ones_trans [OF _ ones_65536, of "unat (swap_bytes acc)"] by (simp add: r_def)
  qed (use a(2) in \<open>simp add: r_def\<close>)
qed

lemma low_half_id: "unat acc < 65536 \<Longrightarrow> acc AND 0xFFFF = (acc :: u32)"
  by (simp add: word_unat_eq_iff unat_halves(1))

lemma same_checksum:
  assumes "ones (unat a) (unat b)" "unat (a :: u32) < 65536" "unat (b :: u32) < 65536"
  shows "a = b"
  using ones_unique [OF assms] by (simp add: word_unat_eq_iff)

section \<open>The checksums\<close>

definition word_bytes :: "u32 \<Rightarrow> u8 list" where
  "word_bytes w = [ucast w, ucast (drop_bit 8 w), ucast (drop_bit 16 w), ucast (drop_bit 24 w)]"

text \<open>The pseudo header of TCP and UDP: the two addresses, a zero byte, the protocol and the length in network byte order.\<close>

definition pseudo_header :: "u32 \<Rightarrow> u32 \<Rightarrow> u8 \<Rightarrow> u16 \<Rightarrow> u8 list" where
  "pseudo_header src dest proto proto_len =
     word_bytes src @ word_bytes dest @ [0, proto, ucast (drop_bit 8 proto_len), ucast proto_len]"

lemma length_pseudo_header: "length (pseudo_header src dest proto len) = 12"
  by (simp add: pseudo_header_def word_bytes_def)

lemma low_pair: "(w :: u32) AND 0xFFFF = ucast (ucast w :: u8) OR push_bit 8 (ucast (ucast (drop_bit 8 w) :: u8))"
proof -
  have m: "(0xFFFF :: u32) = mask 16" by (simp add: mask_eq_exp_minus_1)
  show ?thesis unfolding m by (rule bit_word_eqI) (auto simp: bit_simps not_le)
qed

lemma word_bytes_sum: "byte_sum (word_bytes w) = unat (w AND 0xFFFF) + unat (drop_bit 16 w AND 0xFFFF)"
  unfolding low_pair unat_pair by (simp add: word_bytes_def)

lemma htons_pair: "(ucast (htons n) :: u32) = ucast (ucast (drop_bit 8 n) :: u8) OR push_bit 8 (ucast (ucast n :: u8))"
proof -
  have m: "(0xFF :: u16) = mask 8" "(0xFF00 :: u16) = push_bit 8 (mask 8)" by (simp_all add: mask_eq_exp_minus_1)
  show ?thesis unfolding htons_def m by (rule bit_word_eqI) (auto simp: bit_simps)
qed

lemma pseudo_header_sum:
  "byte_sum (pseudo_header src dest proto len) = unat (src AND 0xFFFF) + unat (drop_bit 16 src AND 0xFFFF) + unat (dest AND 0xFFFF) +
     unat (drop_bit 16 dest AND 0xFFFF) + unat (ucast (htons (ucast proto)) :: u32) + unat (ucast (htons len) :: u32)"
proof -
  have "ucast (drop_bit 8 (ucast proto :: u16)) = (0 :: u8)" "ucast (ucast proto :: u16) = proto"
    by (rule bit_word_eqI, auto simp: bit_simps dest: bit_imp_le_length)+
  then have "unat (ucast (htons (ucast proto)) :: u32) = 256 * unat proto" unfolding htons_pair unat_pair by simp
  moreover have "unat (ucast (htons len) :: u32) = unat (ucast (drop_bit 8 len) :: u8) + 256 * unat (ucast len :: u8)"
    unfolding htons_pair unat_pair by (rule refl)
  ultimately show ?thesis using word_bytes_sum [of src] word_bytes_sum [of dest] by (simp add: pseudo_header_def word_bytes_def)
qed

lemma byte_sum_even: "even (length xs) \<Longrightarrow> byte_sum (xs @ ys) = byte_sum xs + byte_sum ys"
  by (induction xs rule: byte_sum.induct) simp_all

lemma half_bound: "unat ((w :: u32) AND 0xFFFF) < 65536" "unat (ucast (n :: u16) :: u32) < 65536"
  using unsigned_less [of n, where 'a = nat] by (simp_all add: unat_halves(1) unsigned_ucast_eq take_bit_nat_eq_self)

lemma unat_sum_halves:
  fixes a b c d e f g :: u32
  assumes "unat a < 65536" "unat b < 65536" "unat c < 65536" "unat d < 65536" "unat e < 65536" "unat f < 65536" "unat g < 65536"
  shows "unat (a + b + c + d + e + f + g) = unat a + unat b + unat c + unat d + unat e + unat f + unat g"
proof -
  have 2: "unat (a + b) = unat a + unat b" using assms by (intro unat_add_lt) simp
  have 3: "unat (a + b + c) = unat a + unat b + unat c" using assms 2 unat_add_lt [of "a + b" c] by simp
  have 4: "unat (a + b + c + d) = unat a + unat b + unat c + unat d" using assms 3 unat_add_lt [of "a + b + c" d] by simp
  have 5: "unat (a + b + c + d + e) = unat a + unat b + unat c + unat d + unat e" using assms 4 unat_add_lt [of "a + b + c + d" e] by simp
  have 6: "unat (a + b + c + d + e + f) = unat a + unat b + unat c + unat d + unat e + unat f"
    using assms 5 unat_add_lt [of "a + b + c + d + e" f] by simp
  show ?thesis using assms 6 unat_add_lt [of "a + b + c + d + e + f" g] by simp
qed

lemma checksum_value:
  assumes "length bs \<le> 131000"
  shows "ones (unat (fold_carry (chksum bs))) (byte_sum bs)" and "unat (fold_carry (chksum bs)) < 65536"
  using chksum_spec [OF assms] fold_carry_spec [of "chksum bs"] ones_trans by blast+

lemma unat_inet_chksum:
  assumes "unat (fold_carry (chksum bs)) < 65536"
  shows "unat (inet_chksum bs) = 65535 - unat (fold_carry (chksum bs))"
proof -
  let ?f = "fold_carry (chksum bs)"
  have "inet_chksum bs = NOT (ucast ?f)" unfolding inet_chksum_def low_half_id [OF assms] by (rule bit_word_eqI) (auto simp: bit_simps)
  also have "\<dots> = - 1 - ucast ?f" by (simp add: not_eq_complement)
  also have "unat (- 1 - ucast ?f :: u16) = unat (- 1 :: u16) - unat (ucast ?f :: u16)" by (rule unat_sub) simp
  also have "unat (ucast ?f :: u16) = unat ?f" using assms by (simp add: unsigned_ucast_eq take_bit_nat_eq_self)
  finally show ?thesis by (simp add: unsigned_minus_1_eq_mask mask_eq_exp_minus_1)
qed

lemma byte_pair: "unat (ucast c :: u8) + 256 * unat (ucast (drop_bit 8 c) :: u8) = unat (c :: u16)"
proof -
  have "unat c div 256 < 256" using unsigned_less [of c, where 'a = nat] by (simp add: div_less_iff_less_mult)
  then have "unat (ucast (drop_bit 8 c) :: u8) = unat c div 256" by (simp add: unsigned_ucast_eq take_bit_eq_mod drop_bit_eq_div unat_div_distrib)
  moreover have "unat (ucast c :: u8) = unat c mod 256" by (simp add: unsigned_ucast_eq take_bit_eq_mod)
  ultimately show ?thesis by simp
qed

text \<open>
  C17: the checksum of a chain of buffers, which is computed buffer by buffer with a byte swap after each buffer of odd length, is the checksum of the
  bytes of the chain put together, and the checksum with a pseudo header is that of the bytes of the pseudo header followed by those of the chain.
\<close>

theorem inet_chksum_chain:
  assumes "length (concat qs) \<le> 130000"
  shows "inet_chksum_pbuf qs = inet_chksum (concat qs) \<and>
    inet_chksum_pseudo qs src dest proto len = inet_chksum (pseudo_header src dest proto len @ concat qs)"
proof
  have q: "length q \<le> 131000" if "q \<in> set qs" for q
  proof -
    have "length q \<le> length (concat qs)" using that by (induction qs) auto
    then show ?thesis using assms by simp
  qed
  obtain acc sw where c: "chain_loop qs 0 False = (acc, sw)" by fastforce
  define r where "r = (if sw then swap_bytes acc else acc)"
  have r: "ones (unat r) (byte_sum (concat qs))" "unat r < 65536" using chain_sum [OF q c] by (simp_all add: r_def)
  have "r = fold_carry (chksum (concat qs))"
    using checksum_value [of "concat qs"] r ones_trans [OF r(1) ones_sym] assms by (intro same_checksum) auto
  then show "inet_chksum_pbuf qs = inet_chksum (concat qs)" by (simp add: inet_chksum_pbuf_def inet_chksum_def c r_def)
  let ?h = "pseudo_header src dest proto len"
  define acc7 where "acc7 = r + (src AND 0xFFFF) + (drop_bit 16 src AND 0xFFFF) + (dest AND 0xFFFF) + (drop_bit 16 dest AND 0xFFFF) +
    ucast (htons (ucast proto)) + ucast (htons len)"
  have "unat acc7 = unat r + byte_sum ?h"
    unfolding acc7_def pseudo_header_sum using r(2) half_bound by (subst unat_sum_halves) simp_all
  then have "ones (unat (fold_carry acc7)) (unat r + byte_sum ?h)" "unat (fold_carry acc7) < 65536" using fold_carry_spec [of acc7] by simp_all
  moreover have "ones (unat r + byte_sum ?h) (byte_sum (?h @ concat qs))"
  proof -
    have "byte_sum (?h @ concat qs) = byte_sum (concat qs) + byte_sum ?h" using byte_sum_even [of ?h "concat qs"] by (simp add: length_pseudo_header)
    then show ?thesis using ones_add [OF r(1) ones_refl, of "byte_sum ?h"] by simp
  qed
  moreover have "length (?h @ concat qs) \<le> 131000" using assms by (simp add: length_pseudo_header)
  ultimately have "fold_carry acc7 = fold_carry (chksum (?h @ concat qs))"
    using checksum_value [of "?h @ concat qs"] ones_trans ones_sym by (intro same_checksum) blast+
  then show "inet_chksum_pseudo qs src dest proto len = inet_chksum (?h @ concat qs)"
    by (simp add: inet_chksum_pseudo_def inet_chksum_def c r_def acc7_def Let_def)
qed

theorem inet_chksum_chain_witness:
  "inet_chksum_pbuf [[1, 2, 3], [4], [5, 6]] = inet_chksum [1, 2, 3, 4, 5, 6] \<and>
   inet_chksum_pseudo [[1, 2, 3], [4], [5, 6]] 0x0100007F 0x0200007F 6 6 = inet_chksum (pseudo_header 0x0100007F 0x0200007F 6 6 @ [1, 2, 3, 4, 5, 6])"
  using inet_chksum_chain [of "[[1, 2, 3], [4], [5, 6]]" "0x0100007F" "0x0200007F" 6 6] by simp

text \<open>
  C27: a packet into which its sender has put the checksum, computed with the field set to zero, has checksum zero at the receiver, which is what the
  receivers of IP, ICMP, UDP and TCP packets test.
\<close>

theorem inet_chksum_verifies:
  assumes "even (length xs)" and "length xs + length ys \<le> 130000" and "c = inet_chksum (xs @ [0, 0] @ ys)"
  shows "inet_chksum (xs @ [ucast c, ucast (drop_bit 8 c)] @ ys) = 0"
proof -
  let ?z = "xs @ [0, 0] @ ys" and ?w = "xs @ [ucast c, ucast (drop_bit 8 c)] @ ys"
  have f: "ones (unat (fold_carry (chksum ?z))) (byte_sum ?z)" "unat (fold_carry (chksum ?z)) < 65536"
    and g: "ones (unat (fold_carry (chksum ?w))) (byte_sum ?w)" "unat (fold_carry (chksum ?w)) < 65536"
    by (rule checksum_value, use assms(2) in simp)+
  define n where "n = unat (fold_carry (chksum ?z))"
  have c: "unat c = 65535 - n" unfolding assms(3) n_def by (rule unat_inet_chksum [OF f(2)])
  have sums: "byte_sum ?z = byte_sum xs + byte_sum ys" "byte_sum ?w = byte_sum xs + (unat c + byte_sum ys)"
    using assms(1) byte_pair [of c] by (simp_all add: byte_sum_even)
  have n: "ones n (byte_sum ?z)" "n < 65536" using f by (simp_all add: n_def)
  have "(byte_sum ?z + (65535 - n)) mod 65535 = (n + (65535 - n)) mod 65535" using n(1) by (intro mod_add_cong) (simp_all add: ones_def)
  moreover have "byte_sum ?w = byte_sum ?z + (65535 - n)" using sums c by linarith
  ultimately have "ones (byte_sum ?w) 65535" using n by (auto simp: ones_def)
  then have "unat (fold_carry (chksum ?w)) = 65535" using ones_unique [OF ones_trans [OF g(1)] g(2)] by simp
  then have "fold_carry (chksum ?w) = 0xFFFF" by (simp add: word_unat_eq_iff)
  then show ?thesis by (simp add: inet_chksum_def)
qed

theorem inet_chksum_verifies_witness:
  "inet_chksum ([0x45, 0, 0, 20] @ [ucast (inet_chksum ([0x45, 0, 0, 20] @ [0, 0] @ [1, 2])), ucast (drop_bit 8 (inet_chksum ([0x45, 0, 0, 20] @ [0, 0] @ [1, 2])))] @ [1, 2]) = 0"
  using inet_chksum_verifies [of "[0x45, 0, 0, 20]" "[1, 2]"] by simp

end
