(* ===== verification/Spec2Isabelle.thy ===== *)
theory Spec2Isabelle
  imports Kmalloc Select Strtol Pathsort Calendar Checksum
begin

text \<open>
  Sanos is a small operating system for 32-bit Intel machines: a kernel (\<^verbatim>\<open>src/src/sys/krnl\<close>) with drivers, file systems and a network stack above it, a
  user-mode library (\<^verbatim>\<open>src/src/sys/os\<close>) and a C library (\<^verbatim>\<open>src/src/lib\<close>) that both the kernel and the programs use. This development models the
  core of the kernel and the parts of the C library that are pure computation, and proves that they do what their callers rely on. Every definition is a
  translation of the code named beside it: structures are records, pointers are addresses or indices, \<^verbatim>\<open>unsigned long\<close> is a word of 32 bits whose arithmetic wraps
  around, and stateful code takes and returns the state. A result \<open>None\<close> is a call that does not come back, be it that it panics, follows a null pointer or runs forever; error
  codes are the negative numbers of the code. Code that is reached through function pointers or belongs to components that are not modelled is a
  parameter of the definitions that call it.

  \<^bold>\<open>Foundations.\<close> \<^verbatim>\<open>Prelude\<close> has the machine integers, the error numbers and generic facts. \<^verbatim>\<open>Linked_List\<close> relates the links that kernel structures carry, in doubly linked,
  singly linked and circular lists, to the lists of their elements; the components use its lemmas for every insertion and removal.

  \<^bold>\<open>Resource maps.\<close> \<^verbatim>\<open>Range_Pool\<close> is the interface between a manager of numbered resources and its clients, as a locale: clients that give back what they hold never hold
  overlapping ranges. \<^verbatim>\<open>Rmap\<close> models \<^verbatim>\<open>src/src/lib/rmap.c\<close> on the array of entries, with the \<^verbatim>\<open>memmove\<close> calls of the code, proves what every operation does to the set of
  free numbers, and interprets the locale with it.

  \<^bold>\<open>Threads.\<close> \<^verbatim>\<open>Dpc\<close> and \<^verbatim>\<open>Sched\<close> model \<^verbatim>\<open>src/src/sys/krnl/sched.c\<close>: the queue of deferred procedure calls, the 32 ready queues with their summary word, wake-up, preemption,
  waiting, suspension and priorities, on the links of the thread records. The well-formedness of the queues is an invariant of every operation; \<^verbatim>\<open>dispatch\<close> runs a
  thread of the highest ready priority and returns. \<^verbatim>\<open>Timer\<close> models \<^verbatim>\<open>src/src/sys/krnl/timer.c\<close>; the wheel of five vectors is shown to fire exactly the timers that are due.
  The procedures of deferred calls and the handlers of timers are parameters. Since they may queue new work the loops around them take fuel, and the
  theorems name an amount that suffices: one step per queued call, or per tick and timer.

  \<^bold>\<open>Kernel objects.\<close> \<^verbatim>\<open>Objects\<close> models \<^verbatim>\<open>src/src/sys/krnl/object.c\<close>: wait lists, waiting for one or several objects, events, semaphores, mutexes, waitable timers and closing, on the
  scheduler and the timers. \<^verbatim>\<open>Hndl\<close> models the handle table of \<^verbatim>\<open>src/src/sys/krnl/hndl.c\<close>, \<^verbatim>\<open>Iomux\<close> and \<^verbatim>\<open>Select\<close> the multiplexers, \<^verbatim>\<open>select\<close> and \<^verbatim>\<open>poll\<close> of
  \<^verbatim>\<open>src/src/sys/krnl/iomux.c\<close>. Releasing wakes the threads the code means to wake in the order they came, a thread that waits is on no ready queue, handles lead to the
  object they were given for, and the two queues of a multiplexer refine the abstract view of which objects are ready. Loops along wait lists are partial functions, so that
  the theorems that they return are proved and not assumed. A call that blocks is split where it blocks. The test of a wait writes the wait key of a waiter also when the waiter is
  not released, which the theorems on releasing say.

  \<^bold>\<open>Memory.\<close> Four layers share one state, a record that each layer extends. \<^verbatim>\<open>Pframe\<close> is the page frame database of \<^verbatim>\<open>src/src/sys/krnl/pframe.c\<close>, with the list of free frames through
  the entries of the database. \<^verbatim>\<open>Pdir\<close> is \<^verbatim>\<open>src/src/sys/krnl/pdir.c\<close>: all page tables are one array, and the page directory is the part of it at its recursive entry, so
  that a new page table is allocated, entered and cleared as in the code. \<^verbatim>\<open>Kmem\<close> is \<^verbatim>\<open>src/src/sys/krnl/kmem.c\<close>, which takes address space from two resource maps and frames from the
  database. \<^verbatim>\<open>Kmalloc\<close> is \<^verbatim>\<open>src/src/sys/krnl/kmalloc.c\<close>, whose free chunks are linked through the words of the pages themselves. The invariants say that no two held pages share a
  frame, that no frame is both free and used, and that pages of buckets, pages of large blocks and pages of others are apart. They hold from \<^verbatim>\<open>init_kmem\<close> and \<^verbatim>\<open>init_malloc\<close> on, over
  every sequence of allocations, releases and writes, and give that blocks do not overlap and keep what is written into them. \<^verbatim>\<open>Block_Heap\<close> is the interface of a heap to its
  clients, as a locale, where the consequences for sequences of operations are proved; \<^verbatim>\<open>Kmalloc\<close> interprets it. \<^verbatim>\<open>kmalloc\<close> returns whenever the map has room and there are
  two free frames per page, one for the page and one for a page table. \<^verbatim>\<open>Access\<close> is the check of user pointers in \<^verbatim>\<open>pdir.c\<close>, \<^verbatim>\<open>syscall.c\<close> and \<^verbatim>\<open>iovec.c\<close>; \<^verbatim>\<open>fetch_page\<close> is
  a parameter there, and the theorems assume of it that it takes no access to a page away, that a call that fails gives none, and, for strings, that it brings in what the file has.

  \<^bold>\<open>C library.\<close> \<^verbatim>\<open>Ctype\<close> and \<^verbatim>\<open>Cstring\<close> model \<^verbatim>\<open>ctype.c\<close> and \<^verbatim>\<open>string.c\<close> over a store of bytes, \<^verbatim>\<open>Strtol\<close> models \<^verbatim>\<open>strtol.c\<close> and \<^verbatim>\<open>xtoa.c\<close>, \<^verbatim>\<open>Qsort\<close> models \<^verbatim>\<open>qsort.c\<close> and \<^verbatim>\<open>bsearch.c\<close> for any comparison
  function that meets the locale of orders given there, \<^verbatim>\<open>Pathsort\<close> interprets that locale with the comparison of \<^verbatim>\<open>glob.c\<close>, and \<^verbatim>\<open>Calendar\<close> models \<^verbatim>\<open>time.c\<close>. The
  lemmas give the functional behaviour of the routines in terms of lists, round trips between numbers and text and between seconds and dates, and the bound of the explicit stack
  of \<^verbatim>\<open>qsort\<close>, which 30 entries suffice for.

  \<^bold>\<open>Network.\<close> \<^verbatim>\<open>Checksum\<close> models \<^verbatim>\<open>src/src/sys/net/inet.c\<close>: the checksum over a chain of buffers is that of the whole packet, and a packet that carries its checksum verifies.

  \<^bold>\<open>Deviations of the code.\<close> Where the code differs from what it means to do the model follows the code and a theorem states what happens: the loop of \<^verbatim>\<open>pulse_event\<close>, the removal of a
  handle from the middle of the free list, negative numbers in \<^verbatim>\<open>strtol\<close>, times before the epoch in \<^verbatim>\<open>gmtime_r\<close>, the bytes \<^verbatim>\<open>mem_access\<close> looks at, the last frame in \<^verbatim>\<open>alloc_linear_pageframes\<close> and the untested map in
  \<^verbatim>\<open>alloc_pages\<close>, among others.

  \<^bold>\<open>Not modelled.\<close> The effect of interrupts that arrive in the middle of an operation: the operations here run with interrupts disabled or on a processor that does not preempt the
  kernel. The translation buffer. Thread creation, the task queues and the register-level context switch. Listings for the proc file system. The virtual memory of processes, the buffer cache,
  the file systems, the network protocols above the checksum, the device drivers, the loader and the start of the machine, whose state is in devices or which compose the
  modelled components with those. The user-mode library, formatted input and output, floating point, regular expressions, the programs, the Win32 layer and the development kit.
\<close>

end
